(* ===== verification/Prelude.thy ===== *)
theory Prelude
  imports Main "HOL-Library.Word" "HOL-Library.Signed_Division"
begin

text \<open>
  Shared vocabulary of the development: the C integer types of the kernel as machine words,
  the C operators whose result depends on the target (the kernel is built by gcc at
  \<^verbatim>\<open>-O0\<close> for x86-64, see \<^verbatim>\<open>src/src/Makefile\<close>), cyclic ranges of addresses, and the generic
  word lemmas the components share. A shift takes its count modulo the width of the promoted
  operand, as the x86 shift instructions do; signed arithmetic wraps; integer division
  truncates towards zero.
\<close>

unbundle bit_operations_syntax

section \<open>Types\<close>

type_synonym u8 = "8 word"
type_synonym u16 = "16 word"
type_synonym u32 = "32 word"
type_synonym u64 = "64 word"

text \<open>A C \<^verbatim>\<open>int\<close>: 32 bits, read through \<open>sint\<close>.\<close>

type_synonym i32 = "32 word"

named_theorems c_ops "definitions of the C operators"
named_theorems mem_simps "what a write to memory changes and keeps"

section \<open>C operators\<close>

definition shl32 :: "i32 \<Rightarrow> i32 \<Rightarrow> i32" where
  [c_ops]: "shl32 x n = push_bit (unat (n AND 31)) x"

definition sar32 :: "i32 \<Rightarrow> i32 \<Rightarrow> i32" where
  [c_ops]: "sar32 x n = signed_drop_bit (unat (n AND 31)) x"

definition shl64 :: "u64 \<Rightarrow> i32 \<Rightarrow> u64" where
  [c_ops]: "shl64 x n = push_bit (unat (n AND 63)) x"

definition shr64 :: "u64 \<Rightarrow> i32 \<Rightarrow> u64" where
  [c_ops]: "shr64 x n = drop_bit (unat (n AND 63)) x"

definition div_i32 :: "i32 \<Rightarrow> i32 \<Rightarrow> i32" where
  [c_ops]: "div_i32 a b = word_of_int (sint a sdiv sint b)"

definition mod_i32 :: "i32 \<Rightarrow> i32 \<Rightarrow> i32" where
  [c_ops]: "mod_i32 a b = word_of_int (sint a smod sint b)"

text \<open>The C conversions between \<^verbatim>\<open>int\<close> and \<^verbatim>\<open>uint64_t\<close>: sign extension and truncation.\<close>

abbreviation i32_to_u64 :: "i32 \<Rightarrow> u64" where
  "i32_to_u64 i \<equiv> scast i"

abbreviation u64_to_i32 :: "u64 \<Rightarrow> i32" where
  "u64_to_i32 x \<equiv> ucast x"

section \<open>Word lemmas\<close>

lemma unat_of_nat64 [simp]: "n < 2 ^ 64 \<Longrightarrow> unat (of_nat n :: u64) = n"
  by (simp add: unat_of_nat)

lemma unat_of_nat32 [simp]: "n < 2 ^ 32 \<Longrightarrow> unat (of_nat n :: u32) = n"
  by (simp add: unat_of_nat)

lemma unat_less64: "unat (x :: u64) < 2 ^ 64"
  using unsigned_less [of x] by simp

lemma unat_less32: "unat (x :: u32) < 2 ^ 32"
  using unsigned_less [of x] by simp

lemma unat_less8: "unat (x :: u8) < 256"
  using unsigned_less [of x] by simp

lemma unat_ucast_8_32 [simp]: "unat (ucast (x :: u8) :: u32) = unat x"
  using unat_less8 [of x] by (simp add: unsigned_ucast_eq take_bit_nat_eq_self)

lemma unat_diff_Suc: "(x :: u64) \<noteq> a \<Longrightarrow> unat (x - a) = Suc (unat (x - (a + 1)))"
proof -
  assume "x \<noteq> a"
  then have "x - a \<noteq> 0" by simp
  then have "unat (x - a - 1) = unat (x - a) - 1" "0 < unat (x - a)"
    by (auto simp: unat_minus_one unat_gt_0)
  then show ?thesis by (simp add: diff_diff_add)
qed

lemma unat_add_no_wrap: "unat (a :: u64) + unat b < 2 ^ 64 \<Longrightarrow> unat (a + b) = unat a + unat b"
  by (simp add: unat_plus_if')

lemma unat_add_of_nat: "unat (a :: u64) + n < 2 ^ 64 \<Longrightarrow> unat (a + of_nat n) = unat a + n"
  by (subst unat_add_no_wrap) simp_all

lemma eq_add_of_nat: "i < 2 ^ 64 \<Longrightarrow> x = (a :: u64) + of_nat i \<longleftrightarrow> unat (x - a) = i"
proof -
  assume i: "i < 2 ^ 64"
  have "x = a + of_nat (unat (x - a))" by simp
  then show ?thesis using i by (metis add_diff_cancel_left' unat_of_nat64)
qed

subsection \<open>Non-negative C integers\<close>

text \<open>On a non-negative \<^verbatim>\<open>int\<close> the signed operators are those of \<open>nat\<close>.\<close>

definition nonneg :: "i32 \<Rightarrow> bool" where
  "nonneg i \<longleftrightarrow> unat i < 2 ^ 31"

lemma sint_nonneg: "nonneg i \<Longrightarrow> sint i = int (unat i)"
proof -
  assume "nonneg i"
  then have "int (unat i) < int (2 ^ 31)" by (simp only: nonneg_def of_nat_less_iff)
  then have "uint i < 2 ^ 31" by (simp only: uint_nat of_nat_power of_nat_numeral)
  moreover have "0 \<le> uint i" by simp
  ultimately have "signed_take_bit 31 (uint i) = uint i"
    by (intro signed_take_bit_int_eq_self) linarith+
  then show ?thesis by (simp add: sint_uint)
qed

lemma sdiv_of_nat: "int a sdiv int b = int (a div b)"
  by (simp add: signed_divide_int_def zdiv_int sgn_if)

lemma smod_of_nat: "int a smod int b = int (a mod b)"
  by (simp add: signed_modulo_int_def zmod_int sgn_if)

lemma i32_to_u64_nonneg: "nonneg i \<Longrightarrow> i32_to_u64 i = of_nat (unat i)"
  by (simp only: scast_eq sint_nonneg of_int_of_nat_eq)

lemma unat_i32_to_u64: "nonneg i \<Longrightarrow> unat (i32_to_u64 i) = unat i"
proof -
  assume *: "nonneg i"
  then have "unat i < 2 ^ 64" by (simp add: nonneg_def)
  then show ?thesis by (simp only: i32_to_u64_nonneg [OF *] unat_of_nat64)
qed

lemma unat_div_i32:
  assumes "nonneg i" "nonneg k"
  shows "unat (div_i32 i k) = unat i div unat k"
proof -
  have "div_i32 i k = of_nat (unat i div unat k)"
    by (simp only: div_i32_def sint_nonneg assms sdiv_of_nat of_int_of_nat_eq)
  moreover have "unat i div unat k < 2 ^ 32"
    by (meson div_le_dividend le_less_trans unat_less32)
  ultimately show ?thesis by (simp only: unat_of_nat32)
qed

lemma unat_mod_i32:
  assumes "nonneg i" "nonneg k"
  shows "unat (mod_i32 i k) = unat i mod unat k"
proof -
  have "mod_i32 i k = of_nat (unat i mod unat k)"
    by (simp only: mod_i32_def sint_nonneg assms smod_of_nat of_int_of_nat_eq)
  moreover have "unat i mod unat k < 2 ^ 32"
    by (meson mod_less_eq_dividend le_less_trans unat_less32)
  ultimately show ?thesis by (simp only: unat_of_nat32)
qed

lemma nonneg_8 [simp]: "nonneg 8" by (simp add: nonneg_def)

lemma nonneg_div_i32: "nonneg i \<Longrightarrow> nonneg k \<Longrightarrow> nonneg (div_i32 i k)"
  by (auto simp: nonneg_def unat_div_i32 intro: le_less_trans [OF div_le_dividend])

subsection \<open>Bits of a byte\<close>

lemma unat_and_31: "unat ((n :: u32) AND 31) = unat n mod 32"
proof -
  have "n AND 31 = take_bit 5 n" by (simp add: take_bit_eq_mask mask_eq_exp_minus_1)
  then show ?thesis by (simp only: unsigned_take_bit_eq) (simp add: take_bit_eq_mod)
qed

lemma byte_set_bit: "(ucast ((ucast (b :: u8) :: u32) OR 2 ^ n) :: u8) = set_bit n b"
  by (auto intro!: bit_word_eqI simp: bit_simps)

lemma byte_unset_bit: "(ucast ((ucast (b :: u8) :: u32) AND NOT (2 ^ n)) :: u8) = unset_bit n b"
  by (auto intro!: bit_word_eqI simp: bit_simps)

lemma byte_test_bit: "n < 8 \<Longrightarrow> signed_drop_bit n (ucast (b :: u8) :: u32) AND 1 \<noteq> 0 \<longleftrightarrow> bit b n"
proof -
  assume "n < 8"
  have "signed_drop_bit n (ucast b :: u32) AND 1 \<noteq> 0 \<longleftrightarrow> bit (signed_drop_bit n (ucast b :: u32)) 0"
    by (simp add: and_one_eq mod_2_eq_odd bit_0)
  also have "\<dots> \<longleftrightarrow> bit b n" using \<open>n < 8\<close> by (simp add: bit_signed_drop_bit_iff bit_simps)
  finally show ?thesis .
qed
section \<open>Ranges of addresses\<close>

text \<open>
  \<open>in_range x a n\<close>: the address \<open>x\<close> is one of the \<open>n\<close> bytes from \<open>a\<close> on, counted with
  wrap-around as pointer arithmetic does.
\<close>

definition in_range :: "u64 \<Rightarrow> u64 \<Rightarrow> nat \<Rightarrow> bool" where
  "in_range x a n \<longleftrightarrow> unat (x - a) < n"

lemma in_range_0 [simp]: "\<not> in_range x a 0"
  by (simp add: in_range_def)

lemma in_range_self [simp]: "in_range a a n \<longleftrightarrow> 0 < n"
  by (simp add: in_range_def)

lemma in_range_Suc: "in_range x a (Suc n) \<longleftrightarrow> x = a \<or> in_range x (a + 1) n \<and> x \<noteq> a"
  by (cases "x = a") (simp_all add: in_range_def unat_diff_Suc)

lemma in_range_next_self: "n < 2 ^ 64 \<Longrightarrow> \<not> in_range a (a + 1) n"
  by (simp add: in_range_def unsigned_minus_1_eq_mask mask_eq_exp_minus_1)

lemma in_range_nowrap:
  "unat a + n \<le> 2 ^ 64 \<Longrightarrow> in_range x a n \<longleftrightarrow> unat a \<le> unat x \<and> unat x < unat a + n"
  by (auto simp: in_range_def unat_sub_if' split: if_splits)

lemma in_range_mono: "in_range x a n \<Longrightarrow> n \<le> k \<Longrightarrow> in_range x a k"
  by (simp add: in_range_def)

end
