(* ===== verification/Memory.thy ===== *)
theory Memory
  imports Prelude
begin

text \<open>
  The byte memory the kernel's pointers address, and the little-endian loads and stores of the
  C scalar types. The memory is indexed by the address the code dereferences. Every stored
  structure of the kernel (the frame bitmap, the page tables, the boundary tags of the heap,
  the firmware tables) lives in this one memory, so that the aliasing between them is part of
  the model. The locale \<open>cell\<close> is the contract of a scalar access; its interpretations are
  the 16, 32 and 64 bit accesses.
\<close>

type_synonym mem = "u64 \<Rightarrow> u8"

primrec load_le :: "nat \<Rightarrow> mem \<Rightarrow> u64 \<Rightarrow> nat" where
  "load_le 0 m a = 0"
| "load_le (Suc n) m a = unat (m a) + 256 * load_le n m (a + 1)"

primrec store_le :: "nat \<Rightarrow> mem \<Rightarrow> u64 \<Rightarrow> nat \<Rightarrow> mem" where
  "store_le 0 m a v = m"
| "store_le (Suc n) m a v = store_le n (m(a := of_nat v)) (a + 1) (v div 256)"

definition load16 :: "mem \<Rightarrow> u64 \<Rightarrow> u16" where
  "load16 m a = of_nat (load_le 2 m a)"

definition store16 :: "mem \<Rightarrow> u64 \<Rightarrow> u16 \<Rightarrow> mem" where
  "store16 m a v = store_le 2 m a (unat v)"

definition load32 :: "mem \<Rightarrow> u64 \<Rightarrow> u32" where
  "load32 m a = of_nat (load_le 4 m a)"

definition store32 :: "mem \<Rightarrow> u64 \<Rightarrow> u32 \<Rightarrow> mem" where
  "store32 m a v = store_le 4 m a (unat v)"

definition load64 :: "mem \<Rightarrow> u64 \<Rightarrow> u64" where
  "load64 m a = of_nat (load_le 8 m a)"

definition store64 :: "mem \<Rightarrow> u64 \<Rightarrow> u64 \<Rightarrow> mem" where
  "store64 m a v = store_le 8 m a (unat v)"

section \<open>Disjoint ranges\<close>

definition disjoint :: "u64 \<Rightarrow> nat \<Rightarrow> u64 \<Rightarrow> nat \<Rightarrow> bool" where
  "disjoint a n b k \<longleftrightarrow> (\<forall>x. in_range x a n \<longrightarrow> \<not> in_range x b k)"

lemma disjointD: "disjoint a n b k \<Longrightarrow> in_range x a n \<Longrightarrow> \<not> in_range x b k"
  by (simp add: disjoint_def)

lemma disjoint_sym: "disjoint a n b k \<Longrightarrow> disjoint b k a n"
  by (auto simp: disjoint_def)

lemma disjoint_sub:
  "disjoint a n b k \<Longrightarrow> (\<And>x. in_range x a' n' \<Longrightarrow> in_range x a n)
    \<Longrightarrow> (\<And>x. in_range x b' k' \<Longrightarrow> in_range x b k) \<Longrightarrow> disjoint a' n' b' k'"
  by (auto simp: disjoint_def)

lemma disjoint_nowrap:
  assumes "unat a + n \<le> 2 ^ 64" "unat b + k \<le> 2 ^ 64"
    and "unat a + n \<le> unat b \<or> unat b + k \<le> unat a"
  shows "disjoint a n b k"
  using assms by (auto simp: disjoint_def in_range_nowrap)

lemma in_range_sub:
  assumes "in_range x a' n'" "unat a + n \<le> 2 ^ 64" "unat a \<le> unat a'" "unat a' + n' \<le> unat a + n"
  shows "in_range x a n"
  using assms by (auto simp: in_range_nowrap)

section \<open>Little-endian access\<close>

lemma store_le_other: "\<not> in_range x a n \<Longrightarrow> store_le n m a v x = m x"
  by (induction n arbitrary: m a v) (auto simp: in_range_Suc)

lemma load_le_cong: "(\<And>x. in_range x a n \<Longrightarrow> m x = m' x) \<Longrightarrow> load_le n m a = load_le n m' a"
proof (induction n arbitrary: a)
  case (Suc n)
  have "load_le n m (a + 1) = load_le n m' (a + 1)"
    by (rule Suc.IH) (simp add: Suc.prems in_range_Suc)
  moreover have "m a = m' a" by (simp add: Suc.prems)
  ultimately show ?case by simp
qed simp

lemma load_le_store_le: "n \<le> 2 ^ 64 \<Longrightarrow> load_le n (store_le n m a v) a = v mod 256 ^ n"
proof (induction n arbitrary: m a v)
  case (Suc n)
  let ?m = "m(a := of_nat v)"
  have a: "store_le n ?m (a + 1) (v div 256) a = of_nat v"
    using Suc.prems by (subst store_le_other) (auto simp: in_range_next_self)
  have "load_le n (store_le n ?m (a + 1) (v div 256)) (a + 1) = v div 256 mod 256 ^ n"
    using Suc by simp
  then show ?case
    using a by (simp add: unat_of_nat mod_mult2_eq)
qed simp

lemma load_le_less: "load_le n m a < 256 ^ n"
proof (induction n arbitrary: a)
  case (Suc n)
  have "unat (m a) + 256 * load_le n m (a + 1) < 256 + 256 * load_le n m (a + 1)"
    by (rule add_strict_right_mono) (rule unat_less8)
  also have "\<dots> = 256 * Suc (load_le n m (a + 1))" by simp
  also have "\<dots> \<le> 256 * 256 ^ n" by (rule mult_le_mono2) (rule Suc_leI [OF Suc])
  finally show ?case by simp
qed simp

lemma load_le_zero: "(\<And>x. in_range x a n \<Longrightarrow> m x = 0) \<Longrightarrow> load_le n m a = 0"
proof (induction n arbitrary: a)
  case (Suc n)
  have "load_le n m (a + 1) = 0"
    by (rule Suc.IH) (simp add: Suc.prems in_range_Suc)
  then show ?case by (simp add: Suc.prems)
qed simp

section \<open>The contract of a scalar access\<close>

locale cell =
  fixes width :: nat
    and load :: "mem \<Rightarrow> u64 \<Rightarrow> 'a::len word"
    and store :: "mem \<Rightarrow> u64 \<Rightarrow> 'a word \<Rightarrow> mem"
  assumes load_store: "load (store m a v) a = v"
    and load_cong: "(\<And>x. in_range x a width \<Longrightarrow> m x = m' x) \<Longrightarrow> load m a = load m' a"
    and store_other: "\<not> in_range x a width \<Longrightarrow> store m a v x = m x"
    and load_zero: "(\<And>x. in_range x a width \<Longrightarrow> m x = 0) \<Longrightarrow> load m a = 0"
begin

lemma load_store_disjoint:
  "disjoint a width b width \<Longrightarrow> load (store m b v) a = load m a"
  by (rule load_cong) (auto dest: disjointD intro: store_other)

lemma load_store_eq:
  "a = b \<or> disjoint a width b width \<Longrightarrow> load (store m b v) a = (if a = b then v else load m a)"
  by (auto simp: load_store load_store_disjoint)

lemma load_frame:
  "(\<And>x. \<not> in_range x b n \<Longrightarrow> m' x = m x) \<Longrightarrow> disjoint a width b n \<Longrightarrow> load m' a = load m a"
  by (rule load_cong) (auto dest: disjointD)

end

interpretation c16: cell 2 load16 store16
proof unfold_locales
  fix m a and v :: u16
  have "unat v < 256 ^ 2" using unsigned_less [of v] by simp
  then show "load16 (store16 m a v) a = v"
    by (simp add: load16_def store16_def load_le_store_le)
qed (auto simp: load16_def store16_def store_le_other load_le_zero intro: arg_cong [OF load_le_cong])

interpretation c32: cell 4 load32 store32
proof unfold_locales
  fix m a and v :: u32
  have "unat v < 256 ^ 4" using unsigned_less [of v] by simp
  then show "load32 (store32 m a v) a = v"
    by (simp add: load32_def store32_def load_le_store_le)
qed (auto simp: load32_def store32_def store_le_other load_le_zero intro: arg_cong [OF load_le_cong])

interpretation c64: cell 8 load64 store64
proof unfold_locales
  fix m a and v :: u64
  have "unat v < 256 ^ 8" using unsigned_less [of v] by simp
  then show "load64 (store64 m a v) a = v"
    by (simp add: load64_def store64_def load_le_store_le)
qed (auto simp: load64_def store64_def store_le_other load_le_zero intro: arg_cong [OF load_le_cong])

lemmas cell_load_store [mem_simps] = c16.load_store c32.load_store c64.load_store

end
