(* ===== verification/CString.thy ===== *)
theory CString
  imports Memory
begin

text \<open>
  \<^verbatim>\<open>src/src/kernel/utils/string.c\<close>: the kernel's own \<^verbatim>\<open>memset\<close>, \<^verbatim>\<open>memmove\<close> and string
  functions over the byte memory. \<^verbatim>\<open>memset\<close>, \<^verbatim>\<open>memmove\<close> and \<^verbatim>\<open>strcpy\<close> return their
  destination argument, which no caller reads; the model returns the new memory. The loops over
  a string stop at a zero byte only, so they are partial: \<open>None\<close> is a loop that never ends.
\<close>

section \<open>memset\<close>

primrec memset_loop :: "nat \<Rightarrow> mem \<Rightarrow> u64 \<Rightarrow> u8 \<Rightarrow> mem" where
  "memset_loop 0 m ptr val = m"
| "memset_loop (Suc len) m ptr val = memset_loop len (m(ptr := val)) (ptr + 1) val"

definition memset :: "mem \<Rightarrow> u64 \<Rightarrow> i32 \<Rightarrow> u64 \<Rightarrow> mem" where
  "memset m dest val len = memset_loop (unat len) m dest (ucast val)"

section \<open>memmove\<close>

primrec memmove_up :: "nat \<Rightarrow> mem \<Rightarrow> u64 \<Rightarrow> u64 \<Rightarrow> nat \<Rightarrow> mem" where
  "memmove_up 0 m dst src i = m"
| "memmove_up (Suc k) m dst src i =
     memmove_up k (m(dst + of_nat i := m (src + of_nat i))) dst src (Suc i)"

primrec memmove_down :: "nat \<Rightarrow> mem \<Rightarrow> u64 \<Rightarrow> u64 \<Rightarrow> mem" where
  "memmove_down 0 m dst src = m"
| "memmove_down (Suc i) m dst src =
     memmove_down i (m(dst + of_nat i := m (src + of_nat i))) dst src"

definition memmove :: "mem \<Rightarrow> u64 \<Rightarrow> u64 \<Rightarrow> u64 \<Rightarrow> mem" where
  "memmove m dst src sz =
     (if dst < src then memmove_up (unat sz) m dst src 0
      else memmove_down (unat sz) m dst src)"

section \<open>Strings\<close>

text \<open>\<^verbatim>\<open>*(unsigned char*) s1 - *(unsigned char*) s2\<close>, computed in \<^verbatim>\<open>int\<close>.\<close>

definition uchar_diff :: "u8 \<Rightarrow> u8 \<Rightarrow> i32" where
  "uchar_diff a b = ucast a - ucast b"

primrec strncmp_loop :: "nat \<Rightarrow> mem \<Rightarrow> u64 \<Rightarrow> u64 \<Rightarrow> i32" where
  "strncmp_loop 0 m s1 s2 = 0"
| "strncmp_loop (Suc n) m s1 s2 =
     (if m s1 \<noteq> 0 \<and> m s1 = m s2 then strncmp_loop n m (s1 + 1) (s2 + 1)
      else uchar_diff (m s1) (m s2))"

definition strncmp :: "mem \<Rightarrow> u64 \<Rightarrow> u64 \<Rightarrow> u64 \<Rightarrow> i32" where
  "strncmp m s1 s2 n = strncmp_loop (unat n) m s1 s2"

partial_function (option) strcpy_loop :: "mem \<Rightarrow> u64 \<Rightarrow> u64 \<Rightarrow> mem option" where
  "strcpy_loop m destination source =
     (if m source \<noteq> 0 then strcpy_loop (m(destination := m source)) (destination + 1) (source + 1)
      else Some (m(destination := 0)))"

definition strcpy :: "mem \<Rightarrow> u64 \<Rightarrow> u64 \<Rightarrow> (u64 \<times> mem) option" where
  "strcpy m destination source =
     (if destination = 0 then Some (0, m)
      else case strcpy_loop m destination source of
        None \<Rightarrow> None
      | Some m' \<Rightarrow> Some (destination, m'))"

partial_function (option) strcmp :: "mem \<Rightarrow> u64 \<Rightarrow> u64 \<Rightarrow> i32 option" where
  "strcmp m X Y =
     (if m X \<noteq> 0 \<and> m X = m Y then strcmp m (X + 1) (Y + 1)
      else Some (uchar_diff (m X) (m Y)))"

partial_function (option) strlen_loop :: "mem \<Rightarrow> u64 \<Rightarrow> u32 \<Rightarrow> u32 option" where
  "strlen_loop m s count = (if m s \<noteq> 0 then strlen_loop m (s + 1) (count + 1) else Some count)"

definition strlen :: "mem \<Rightarrow> u64 \<Rightarrow> u32 option" where
  "strlen m s = strlen_loop m s 0"

section \<open>What memset and memmove write\<close>

lemma memset_loop_apply:
  "n \<le> 2 ^ 64 \<Longrightarrow> memset_loop n m p v x = (if in_range x p n then v else m x)"
proof (induction n arbitrary: m p)
  case (Suc n)
  then have "memset_loop n (m(p := v)) (p + 1) v x = (if in_range x (p + 1) n then v else (m(p := v)) x)"
    by simp
  then show ?case
    using Suc.prems by (auto simp: in_range_Suc in_range_next_self)
qed simp

lemma memset_apply [mem_simps]:
  "memset m dest val len x = (if in_range x dest (unat len) then ucast val else m x)"
  unfolding memset_def by (rule memset_loop_apply) (rule less_imp_le [OF unat_less64])

lemma memmove_up_apply:
  assumes "unat dst < unat src" "unat src + (i + k) \<le> 2 ^ 64"
  shows "memmove_up k m dst src i x =
    (if i \<le> unat (x - dst) \<and> unat (x - dst) < i + k then m (src + (x - dst)) else m x)"
  using assms(2)
proof (induction k arbitrary: m i)
  case (Suc k)
  let ?m = "m(dst + of_nat i := m (src + of_nat i))"
  have IH: "memmove_up k ?m dst src (Suc i) x =
    (if Suc i \<le> unat (x - dst) \<and> unat (x - dst) < Suc i + k then ?m (src + (x - dst)) else ?m x)"
    by (rule Suc.IH) (use Suc.prems in simp)
  have at: "x = dst + of_nat i \<longleftrightarrow> unat (x - dst) = i"
    using Suc.prems by (intro eq_add_of_nat) simp
  have apart: "src + (x - dst) \<noteq> dst + of_nat i" if "i < unat (x - dst)" "unat (x - dst) < Suc i + k"
  proof
    assume "src + (x - dst) = dst + of_nat i"
    then have "unat (src + (x - dst)) = unat (dst + of_nat i)" by (rule arg_cong)
    moreover have "unat (src + (x - dst)) = unat src + unat (x - dst)"
      using that Suc.prems by (intro unat_add_no_wrap) simp
    moreover have "unat (dst + of_nat i) = unat dst + i"
      using Suc.prems assms(1) by (intro unat_add_of_nat) simp
    ultimately show False using that assms(1) by simp
  qed
  consider "unat (x - dst) = i" | "i < unat (x - dst)" "unat (x - dst) < Suc i + k"
    | "unat (x - dst) < i \<or> Suc i + k \<le> unat (x - dst)" by linarith
  then show ?case
  proof cases
    case 1
    then have "x = dst + of_nat i" using at by simp
    then show ?thesis using IH 1 by simp
  next
    case 2
    then show ?thesis using IH apart by simp
  next
    case 3
    then show ?thesis using IH at by auto
  qed
qed auto

lemma memmove_down_apply:
  assumes "unat src \<le> unat dst" "unat dst + k \<le> 2 ^ 64"
  shows "memmove_down k m dst src x = (if in_range x dst k then m (src + (x - dst)) else m x)"
  using assms(2)
proof (induction k arbitrary: m)
  case (Suc k)
  let ?m = "m(dst + of_nat k := m (src + of_nat k))"
  have IH: "memmove_down k ?m dst src x = (if in_range x dst k then ?m (src + (x - dst)) else ?m x)"
    by (rule Suc.IH) (use Suc.prems in simp)
  have at: "x = dst + of_nat k \<longleftrightarrow> unat (x - dst) = k"
    using Suc.prems by (intro eq_add_of_nat) simp
  have apart: "src + (x - dst) \<noteq> dst + of_nat k" if "unat (x - dst) < k"
  proof
    assume "src + (x - dst) = dst + of_nat k"
    then have "unat (src + (x - dst)) = unat (dst + of_nat k)" by (rule arg_cong)
    moreover have "unat (src + (x - dst)) = unat src + unat (x - dst)"
      using that Suc.prems assms(1) by (intro unat_add_no_wrap) simp
    moreover have "unat (dst + of_nat k) = unat dst + k"
      using Suc.prems by (intro unat_add_of_nat) simp
    ultimately show False using that assms(1) by simp
  qed
  consider "unat (x - dst) = k" | "unat (x - dst) < k" | "k < unat (x - dst)" by linarith
  then show ?case
  proof cases
    case 1
    then have "x = dst + of_nat k" using at by simp
    then show ?thesis using IH 1 by (simp add: in_range_def)
  next
    case 2
    then show ?thesis using IH apart by (simp add: in_range_def)
  next
    case 3
    then show ?thesis using IH at by (auto simp: in_range_def)
  qed
qed simp

lemma memmove_apply:
  assumes "unat dst + unat sz \<le> 2 ^ 64" "unat src + unat sz \<le> 2 ^ 64"
  shows "memmove m dst src sz x =
    (if in_range x dst (unat sz) then m (src + (x - dst)) else m x)"
proof (cases "dst < src")
  case True
  then have "memmove_up (unat sz) m dst src 0 x =
    (if 0 \<le> unat (x - dst) \<and> unat (x - dst) < 0 + unat sz then m (src + (x - dst)) else m x)"
    using assms by (intro memmove_up_apply) (auto simp: word_less_nat_alt)
  with True show ?thesis by (simp add: memmove_def in_range_def)
next
  case False
  then show ?thesis
    using assms by (simp add: memmove_def word_less_nat_alt memmove_down_apply)
qed

section \<open>Strings in memory\<close>

text \<open>The bytes \<open>bs\<close>, none of them zero, are stored from \<open>a\<close> on and followed by a zero byte.\<close>

fun cstr :: "mem \<Rightarrow> u64 \<Rightarrow> u8 list \<Rightarrow> bool" where
  "cstr m a [] \<longleftrightarrow> m a = 0"
| "cstr m a (b # bs) \<longleftrightarrow> b \<noteq> 0 \<and> m a = b \<and> cstr m (a + 1) bs"

lemma cstr_cong: "(\<And>x. in_range x a (Suc (length bs)) \<Longrightarrow> m x = m' x) \<Longrightarrow> cstr m a bs \<longleftrightarrow> cstr m' a bs"
proof (induction bs arbitrary: a)
  case (Cons b bs)
  have "cstr m (a + 1) bs \<longleftrightarrow> cstr m' (a + 1) bs"
    by (rule Cons.IH) (simp add: Cons.prems in_range_Suc [of _ a])
  then show ?case by (simp add: Cons.prems)
qed simp

lemma strlen_loop_cstr: "cstr m a bs \<Longrightarrow> strlen_loop m a k = Some (k + of_nat (length bs))"
proof (induction bs arbitrary: a k)
  case Nil
  then show ?case by (subst strlen_loop.simps) simp
next
  case (Cons b bs)
  then show ?case by (subst strlen_loop.simps) (simp add: add.assoc)
qed

lemma strlen_cstr: "cstr m a bs \<Longrightarrow> strlen m a = Some (of_nat (length bs))"
  by (simp add: strlen_def strlen_loop_cstr)

lemma sint_word_of_int_32: "sint (word_of_int k :: i32) = signed_take_bit 31 k"
  by (simp add: signed_of_int)

lemma sint_uchar_diff: "sint (uchar_diff a b) = uint a - uint b"
proof -
  have small: "signed_take_bit 31 (x - y) = x - y"
    if "0 \<le> x" "x < 2 ^ 8" "0 \<le> y" "y < 2 ^ 8" for x y :: int
    using that by (intro signed_take_bit_int_eq_self) auto
  have "uint a < 2 ^ 8" "uint b < 2 ^ 8"
    using unsigned_less [of a] unsigned_less [of b] by simp_all
  then have "signed_take_bit 31 (uint a - uint b) = uint a - uint b"
    by (intro small) simp_all
  moreover have "uchar_diff a b = word_of_int (uint a - uint b)"
    by (simp only: uchar_diff_def ucast_eq of_int_diff)
  ultimately show ?thesis by (simp only: sint_word_of_int_32)
qed

lemma uchar_diff_eq_0 [simp]: "uchar_diff a b = 0 \<longleftrightarrow> a = b"
proof
  assume "uchar_diff a b = 0"
  then have "uint a = uint b" using sint_uchar_diff [of a b] by simp
  then show "a = b" by (rule word_uint_eqI)
qed (simp add: uchar_diff_def)

lemma sint_uchar_diff_neg: "sint (uchar_diff a b) < 0 \<longleftrightarrow> a < b"
  by (simp add: sint_uchar_diff word_less_def)

lemma strncmp_loop_cstr:
  "cstr m a bs \<Longrightarrow> cstr m b cs \<Longrightarrow> strncmp_loop n m a b = 0 \<longleftrightarrow> take n bs = take n cs"
proof (induction n arbitrary: a b bs cs)
  case (Suc n)
  show ?case
    using Suc by (cases bs; cases cs) auto
qed simp

lemma strcmp_cstr_eq:
  "cstr m a bs \<Longrightarrow> cstr m b cs \<Longrightarrow>
    \<exists>r. strcmp m a b = Some r \<and> (r = 0 \<longleftrightarrow> bs = cs)
      \<and> (sint r < 0 \<longleftrightarrow> (bs, cs) \<in> lexord {(x, y). x < y})"
proof (induction bs arbitrary: a b cs)
  case Nil
  then show ?case
    by (subst strcmp.simps, cases cs) (auto simp: sint_uchar_diff_neg word_gt_0)
next
  case (Cons c bs)
  show ?case
  proof (cases "m b = c")
    case True
    then obtain cs' where "cs = c # cs'" "cstr m (b + 1) cs'"
      using Cons.prems by (cases cs) auto
    then show ?thesis
      using Cons.IH [of "a + 1" "b + 1" cs'] Cons.prems by (subst strcmp.simps) simp
  next
    case False
    then show ?thesis
      using Cons.prems
      by (subst strcmp.simps, cases cs) (auto simp: sint_uchar_diff_neg word_gt_0)
  qed
qed

lemma disjoint_tail:
  assumes "disjoint a (Suc n) b (Suc n)" "n < 2 ^ 64"
  shows "disjoint (a + 1) n (b + 1) n"
  using assms by (auto simp: disjoint_def in_range_Suc in_range_next_self)

lemma strcpy_loop_cstr:
  "cstr m src bs \<Longrightarrow> disjoint dst (Suc (length bs)) src (Suc (length bs)) \<Longrightarrow> length bs < 2 ^ 64
    \<Longrightarrow> \<exists>m'. strcpy_loop m dst src = Some m' \<and> cstr m' dst bs
      \<and> (\<forall>x. \<not> in_range x dst (Suc (length bs)) \<longrightarrow> m' x = m x)"
proof (induction bs arbitrary: m dst src)
  case Nil
  then show ?case by (subst strcpy_loop.simps) (simp add: in_range_Suc)
next
  case (Cons b bs)
  let ?m = "m(dst := b)"
  have out: "\<not> in_range dst src (Suc (Suc (length bs)))"
    using Cons.prems(2) disjointD [of dst _ src _ dst] by simp
  have "cstr ?m (src + 1) bs \<longleftrightarrow> cstr m (src + 1) bs"
    using out by (intro cstr_cong) (auto simp: in_range_Suc [of _ src])
  then have src: "cstr ?m (src + 1) bs" using Cons.prems(1) by simp
  have dis: "disjoint (dst + 1) (Suc (length bs)) (src + 1) (Suc (length bs))"
    using Cons.prems(2,3) by (intro disjoint_tail) simp_all
  have "length bs < 2 ^ 64" using Cons.prems(3) by simp
  from Cons.IH [OF src dis this] obtain m' where m': "strcpy_loop ?m (dst + 1) (src + 1) = Some m'"
    "cstr m' (dst + 1) bs" "\<forall>x. \<not> in_range x (dst + 1) (Suc (length bs)) \<longrightarrow> m' x = ?m x"
    by blast
  have "\<not> in_range dst (dst + 1) (Suc (length bs))"
    using Cons.prems(3) by (intro in_range_next_self) simp
  then have "m' dst = b" using m'(3) by simp
  then show ?case
    using m' Cons.prems(1) by (subst strcpy_loop.simps) (auto simp: in_range_Suc [of _ dst])
qed

section \<open>Properties\<close>

text \<open>C32. \<^verbatim>\<open>memmove\<close> copies correctly even when the two areas overlap, in either direction: every
  destination byte gets the value its source byte had before the call, and no other byte changes.
  The areas must not wrap around the end of the address space.\<close>

theorem memmove_correct:
  assumes "unat dst + unat sz \<le> 2 ^ 64" and "unat src + unat sz \<le> 2 ^ 64"
  shows "memmove m dst src sz =
    (\<lambda>x. if in_range x dst (unat sz) then m (src + (x - dst)) else m x)"
  using memmove_apply [OF assms] by (rule ext)

theorem memmove_correct_witness:
  "memmove (\<lambda>x. ucast x) 3 1 4 5 = 3 \<and> memmove (\<lambda>x. ucast x) 1 3 4 1 = 3
    \<and> memmove (\<lambda>x. ucast x) 3 1 4 9 = 9"
  using memmove_correct [of 3 4 1 "\<lambda>x. ucast x"] memmove_correct [of 1 4 3 "\<lambda>x. ucast x"]
  by (simp add: in_range_def)

text \<open>\<^verbatim>\<open>strcmp\<close> returns on any two stored strings; its result is zero exactly when they are equal
  and negative exactly when the first is smaller in the lexicographic order of unsigned bytes.\<close>

theorem strcmp_correct:
  assumes "cstr m a bs" and "cstr m b cs"
  shows "\<exists>r. strcmp m a b = Some r \<and> (r = 0 \<longleftrightarrow> bs = cs)
    \<and> (sint r < 0 \<longleftrightarrow> (bs, cs) \<in> lexord {(x, y). x < y})"
  using assms by (rule strcmp_cstr_eq)

theorem strcmp_correct_witness:
  "\<exists>r. strcmp ((\<lambda>x. 0)(8 := 200, 16 := 7, 17 := 1)) 16 8 = Some r \<and> r \<noteq> 0 \<and> sint r < 0"
  using strcmp_correct [of "(\<lambda>x. 0)(8 := 200, 16 := 7, 17 := 1)" 16 "[7, 1]" 8 "[200]"] by auto

text \<open>\<^verbatim>\<open>strcpy\<close> to a non-null destination that does not overlap the source string returns the
  destination, leaves a copy of the string there, terminator included, and changes nothing else.\<close>

theorem strcpy_correct:
  assumes "cstr m src bs" and "dst \<noteq> 0" and "length bs < 2 ^ 64"
    and "disjoint dst (Suc (length bs)) src (Suc (length bs))"
  shows "\<exists>m'. strcpy m dst src = Some (dst, m') \<and> cstr m' dst bs
    \<and> (\<forall>x. \<not> in_range x dst (Suc (length bs)) \<longrightarrow> m' x = m x)"
  using strcpy_loop_cstr [OF assms(1,4,3)] assms(2) by (auto simp: strcpy_def)

theorem strcpy_correct_witness:
  "\<exists>m'. strcpy ((\<lambda>x. 5)(8 := 3, 9 := 0)) 16 8 = Some (16, m') \<and> m' 16 = 3 \<and> m' 17 = 0 \<and> m' 18 = 5"
proof -
  let ?m = "(\<lambda>x. 5)(8 := 3, 9 := 0) :: mem"
  have "disjoint 16 (Suc (length [3 :: u8])) 8 (Suc (length [3 :: u8]))"
    by (rule disjoint_nowrap) simp_all
  then show ?thesis
    using strcpy_correct [of ?m 8 "[3]" 16] by (auto simp: in_range_def)
qed

end
