(* ===== verification/Utils.thy ===== *)
theory Utils
  imports CString
begin

text \<open>
  \<^verbatim>\<open>src/src/kernel/utils/misc.c\<close>: bit operations on a word, rounding, string reversal and the
  decimal printing of an \<^verbatim>\<open>int\<close>. A pointer to a word is modelled by the value before and after
  the call.
\<close>

definition SetNthBit :: "u64 \<Rightarrow> u16 \<Rightarrow> u64" where
  "SetNthBit num n = num OR i32_to_u64 (shl32 1 (ucast n))"

definition ClearNthBit :: "u64 \<Rightarrow> u16 \<Rightarrow> u64" where
  "ClearNthBit num n = num AND NOT (shl64 1 (ucast n))"

definition GetNthBit :: "u64 \<Rightarrow> u16 \<Rightarrow> i32" where
  "GetNthBit num n = ucast (shr64 num (ucast n) AND 1)"

text \<open>The complement is taken in 32 bits and zero extended, as the C types say.\<close>

definition RoundToNearestMultiple :: "u64 \<Rightarrow> u32 \<Rightarrow> u64" where
  "RoundToNearestMultiple num multiple =
     (num + ucast multiple - 1) AND ucast (NOT (multiple - 1))"

lemma and_not_low_bits:
  assumes "k < 32"
  shows "(x :: u64) AND ucast (NOT (2 ^ k - 1) :: u32) = push_bit k (drop_bit k (take_bit 32 x))"
proof (rule bit_word_eqI)
  fix n assume "n < LENGTH(64)"
  have "NOT (2 ^ k - 1 :: u32) = NOT (mask k)" by (simp only: mask_eq_exp_minus_1)
  then have "bit (NOT (2 ^ k - 1 :: u32)) n \<longleftrightarrow> n < 32 \<and> k \<le> n"
    using assms by (auto simp: bit_simps)
  then show "bit (x AND ucast (NOT (2 ^ k - 1) :: u32)) n
      \<longleftrightarrow> bit (push_bit k (drop_bit k (take_bit 32 x))) n"
    by (auto simp: bit_and_iff bit_ucast_iff bit_push_bit_iff bit_drop_bit_eq bit_take_bit_iff dest: bit_imp_le_length)
qed

lemma unat_pow2: "k < 64 \<Longrightarrow> unat (2 ^ k :: u64) = 2 ^ k"
proof -
  assume "k < 64"
  then have "(2 :: nat) ^ k < 2 ^ 64" by (rule power_strict_increasing) simp
  then have "unat (of_nat (2 ^ k) :: u64) = 2 ^ k" by (rule unat_of_nat64)
  then show ?thesis by (simp only: of_nat_power of_nat_numeral)
qed

lemma unat_clear_low_bits: "unat (push_bit k (drop_bit k (x :: u64))) = 2 ^ k * (unat x div 2 ^ k)"
proof -
  have "2 ^ k * (unat x div 2 ^ k) < 2 ^ 64" by (rule le_less_trans [OF _ unat_less64 [of x]]) simp
  then have "take_bit 64 (2 ^ k * (unat x div 2 ^ k)) = 2 ^ k * (unat x div 2 ^ k)"
    by (simp only: take_bit_nat_eq_self)
  moreover have "unat (push_bit k (drop_bit k x)) = take_bit 64 (2 ^ k * (unat x div 2 ^ k))"
    using take_bit_nat_eq_self [OF unat_less64 [of x]]
    by (simp only: unsigned_push_bit_eq unsigned_drop_bit_eq)
      (simp add: push_bit_eq_mult drop_bit_eq_div mult.commute)
  ultimately show ?thesis by simp
qed

lemma RoundToNearestMultiple_pow2:
  assumes "k < 32"
  shows "RoundToNearestMultiple num (2 ^ k) = push_bit k (drop_bit k (take_bit 32 (num + 2 ^ k - 1)))"
proof -
  have "(ucast (2 ^ k :: u32) :: u64) = 2 ^ k"
    using assms by (intro bit_word_eqI) (auto simp: bit_simps)
  then show ?thesis by (simp only: RoundToNearestMultiple_def and_not_low_bits [OF assms])
qed

lemma unat_RoundToNearestMultiple:
  assumes "k < 32" "unat num + 2 ^ k \<le> 2 ^ 32"
  shows "unat (RoundToNearestMultiple num (2 ^ k)) = 2 ^ k * ((unat num + 2 ^ k - 1) div 2 ^ k)"
proof -
  let ?x = "num + 2 ^ k - 1"
  have k: "unat (2 ^ k :: u64) = 2 ^ k" using assms(1) by (intro unat_pow2) simp
  have "unat (num + 2 ^ k) = unat num + 2 ^ k"
    using assms(2) unfolding k [symmetric] by (intro unat_add_no_wrap) (erule le_less_trans, simp)
  then have x: "unat ?x = unat num + 2 ^ k - 1"
    by (subst unat_minus_one) (auto simp: word_unat_eq_iff)
  then have less: "unat ?x < 2 ^ 32" using assms(2) by (simp add: less_le_trans)
  then have t: "take_bit 32 ?x = ?x" by (simp add: word_unat_eq_iff unsigned_take_bit_eq take_bit_nat_eq_self)
  have "unat (push_bit k (drop_bit k ?x)) = 2 ^ k * (unat ?x div 2 ^ k)" by (rule unat_clear_low_bits)
  then show ?thesis by (simp only: RoundToNearestMultiple_pow2 [OF assms(1)] t x)
qed

section \<open>Reversing and printing\<close>

text \<open>
  The indices of \<^verbatim>\<open>Reverse\<close> are mathematical integers: \<^verbatim>\<open>start\<close> grows and \<^verbatim>\<open>end\<close> shrinks
  towards each other, so neither overflows.
\<close>

function Reverse_loop :: "mem \<Rightarrow> u64 \<Rightarrow> int \<Rightarrow> int \<Rightarrow> mem" where
  "Reverse_loop m str start stop =
     (if start < stop then
        (let temp = m (str + word_of_int start);
             m1 = m(str + word_of_int start := m (str + word_of_int stop));
             m2 = m1(str + word_of_int stop := temp)
         in Reverse_loop m2 str (start + 1) (stop - 1))
      else m)"
  by pat_completeness auto
termination by (relation "measure (\<lambda>(m, str, start, stop). nat (stop - start))") auto

definition Reverse :: "mem \<Rightarrow> u64 \<Rightarrow> i32 \<Rightarrow> mem" where
  "Reverse m str len = Reverse_loop m str 0 (sint len - 1)"

text \<open>The digit loop of \<^verbatim>\<open>Itoa\<close>, least significant digit first, with \<^verbatim>\<open>i\<close> the next index.\<close>

definition Itoa_digit :: "i32 \<Rightarrow> u8" where
  "Itoa_digit rem = ucast (if sint rem > 9 then rem - 10 + 97 else rem + 48)"

lemma sint_div_10: "sint (div_i32 n 10) = sint n sdiv 10"
proof -
  have r: "- (2 ^ 31) \<le> sint n" "sint n < 2 ^ 31"
    using sint_greater_eq [of n] sint_less [of n] by simp_all
  have "sint (div_i32 n 10) = signed_take_bit 31 (sint n sdiv 10)"
    by (simp add: div_i32_def sint_word_of_int_32)
  also have "\<dots> = sint n sdiv 10"
  proof (rule signed_take_bit_int_eq_self)
    show "- (2 ^ 31) \<le> sint n sdiv 10" using r by (auto simp: signed_divide_int_def sgn_if)
    show "sint n sdiv 10 < 2 ^ 31" using r by (auto simp: signed_divide_int_def sgn_if)
  qed
  finally show ?thesis .
qed

function Itoa_loop :: "mem \<Rightarrow> u64 \<Rightarrow> i32 \<Rightarrow> nat \<Rightarrow> mem \<times> nat" where
  "Itoa_loop m buff n i =
     (if n \<noteq> 0 then
        (let rem = mod_i32 n 10
         in Itoa_loop (m(buff + of_nat i := Itoa_digit rem)) buff (div_i32 n 10) (Suc i))
      else (m, i))"
  by pat_completeness auto

termination
proof (relation "measure (\<lambda>(m, buff, n, i). nat \<bar>sint n\<bar>)", goal_cases)
  case (2 m buff n i rem)
  then have "sint n \<noteq> 0" by (simp add: signed_eq_0_iff)
  then have "\<bar>sint n sdiv 10\<bar> < \<bar>sint n\<bar>" by (auto simp: signed_divide_int_def sgn_if)
  then show ?case by (simp add: sint_div_10)
qed simp

declare Reverse_loop.simps [simp del] Itoa_loop.simps [simp del]

definition Itoa :: "mem \<Rightarrow> i32 \<Rightarrow> u64 \<Rightarrow> mem" where
  "Itoa m n buff =
     (if n = 0 then m(buff := 48, buff + 1 := 0)
      else
        (let isNegative = sint n < 0;
             n = (if isNegative then - n else n);
             (m, i) = Itoa_loop m buff n 0;
             (m, i) = (if isNegative then (m(buff + of_nat i := 45), Suc i) else (m, i));
             m = m(buff + of_nat i := 0)
         in Reverse m buff (of_nat i)))"

lemma add_word_of_int_eq:
  assumes "0 \<le> i" "i < 2 ^ 64" "0 \<le> j" "j < 2 ^ 64"
  shows "str + word_of_int i = (str :: u64) + word_of_int j \<longleftrightarrow> i = j"
proof -
  have "(word_of_int i :: u64) = word_of_int j \<longleftrightarrow> i = j"
    using assms by (simp add: word_of_int_eq_iff take_bit_int_eq_self)
  then show ?thesis by simp
qed

lemma Reverse_loop_apply:
  assumes "0 \<le> s" "e < 2 ^ 64" "0 \<le> i" "i < 2 ^ 64"
  shows "Reverse_loop m str s e (str + word_of_int i) =
    m (str + word_of_int (if s \<le> i \<and> i \<le> e then s + e - i else i))"
  using assms
proof (induction m str s e rule: Reverse_loop.induct)
  case (1 m str s e)
  show ?case
  proof (cases "s < e")
    case True
    let ?m = "(m(str + word_of_int s := m (str + word_of_int e)))
      (str + word_of_int e := m (str + word_of_int s))"
    let ?j = "if s + 1 \<le> i \<and> i \<le> e - 1 then s + 1 + (e - 1) - i else i"
    have "Reverse_loop ?m str (s + 1) (e - 1) (str + word_of_int i) = ?m (str + word_of_int ?j)"
      using 1(2-5) by (intro 1(1) [OF True refl refl refl]) simp_all
    then have "Reverse_loop m str s e (str + word_of_int i) = ?m (str + word_of_int ?j)"
      using True by (subst Reverse_loop.simps) (simp only: Let_def if_True)
    also have "\<dots> = m (str + word_of_int (if s \<le> i \<and> i \<le> e then s + e - i else i))"
    proof -
      have j: "0 \<le> ?j" "?j < 2 ^ 64" using 1 True by auto
      have "str + word_of_int ?j = str + word_of_int e \<longleftrightarrow> ?j = e"
        "str + word_of_int ?j = str + word_of_int s \<longleftrightarrow> ?j = s"
        using j 1 True by (intro add_word_of_int_eq; simp)+
      moreover have "?j = e \<longleftrightarrow> i = e" "?j = s \<longleftrightarrow> i = s" using True by auto
      ultimately have "?m (str + word_of_int ?j) =
        (if i = e then m (str + word_of_int s) else if i = s then m (str + word_of_int e)
         else m (str + word_of_int ?j))"
        by (simp only: fun_upd_apply)
      then show ?thesis using True by auto
    qed
    finally show ?thesis .
  next
    case False
    then have "(if s \<le> i \<and> i \<le> e then s + e - i else i) = i" by auto
    then show ?thesis using False by (subst Reverse_loop.simps) (simp only: if_False)
  qed
qed

text \<open>\<open>bytes_at m a bs\<close>: the bytes \<open>bs\<close> lie in memory from \<open>a\<close> on.\<close>

definition bytes_at :: "mem \<Rightarrow> u64 \<Rightarrow> u8 list \<Rightarrow> bool" where
  "bytes_at m a bs \<longleftrightarrow> (\<forall>i < length bs. m (a + of_nat i) = bs ! i)"

lemma bytes_at_Cons [simp]: "bytes_at m a []" "bytes_at m a (b # bs) \<longleftrightarrow> m a = b \<and> bytes_at m (a + 1) bs"
  by (auto simp: bytes_at_def All_less_Suc2 add.assoc)

lemma cstr_bytes_at:
  "cstr m a bs \<longleftrightarrow> bytes_at m a bs \<and> m (a + of_nat (length bs)) = 0 \<and> 0 \<notin> set bs"
proof (induction bs arbitrary: a)
  case (Cons b bs)
  have "bytes_at m a (b # bs) \<longleftrightarrow> m a = b \<and> bytes_at m (a + 1) bs"
    by (auto simp: bytes_at_def All_less_Suc2 add.assoc)
  then show ?case using Cons by (auto simp: add.assoc)
qed (simp add: bytes_at_def)

lemma bytes_at_snoc:
  "bytes_at m a (bs @ [b]) \<longleftrightarrow> bytes_at m a bs \<and> m (a + of_nat (length bs)) = b"
  by (auto simp: bytes_at_def All_less_Suc nth_append)

lemma bytes_at_upd:
  "bytes_at m a bs \<Longrightarrow> length bs \<le> k \<Longrightarrow> k < 2 ^ 64 \<Longrightarrow> bytes_at (m(a + of_nat k := v)) a bs"
proof -
  assume *: "bytes_at m a bs" "length bs \<le> k" "k < 2 ^ 64"
  have "a + of_nat i \<noteq> a + of_nat k" if "i < length bs" for i
    using that * eq_add_of_nat [of k "a + of_nat i" a] unat_of_nat64 [of i] by simp
  then show ?thesis using * by (simp add: bytes_at_def)
qed

lemma Reverse_correct:
  assumes "bytes_at m str bs" "length bs < 2 ^ 31"
  shows "bytes_at (Reverse m str (of_nat (length bs))) str (rev bs)"
    and "\<not> in_range x str (length bs) \<Longrightarrow> Reverse m str (of_nat (length bs)) x = m x"
proof -
  have "nonneg (of_nat (length bs))" using assms(2) by (simp add: nonneg_def unat_of_nat32)
  then have l: "sint (of_nat (length bs) :: i32) = int (length bs)"
    using assms(2) by (simp add: sint_nonneg del: of_nat_less_iff)
  have step: "Reverse m str (of_nat (length bs)) (str + word_of_int i) =
      m (str + word_of_int (if i < int (length bs) then int (length bs) - 1 - i else i))"
    if "0 \<le> i" "i < 2 ^ 64" for i
    using that assms(2) unfolding Reverse_def l by (subst Reverse_loop_apply) auto
  show "bytes_at (Reverse m str (of_nat (length bs))) str (rev bs)"
    unfolding bytes_at_def
  proof (intro allI impI)
    fix i assume i: "i < length (rev bs)"
    have "int (length bs) - 1 - int i = int (length bs - Suc i)" using i by auto
    then have "Reverse m str (of_nat (length bs)) (str + of_nat i) = m (str + of_nat (length bs - Suc i))"
      using step [of "int i"] i assms(2) by (simp only: of_int_of_nat_eq) simp
    also have "\<dots> = bs ! (length bs - Suc i)"
    proof -
      have "length bs - Suc i < length bs" using i by simp
      then show ?thesis using assms(1) unfolding bytes_at_def by blast
    qed
    finally show "Reverse m str (of_nat (length bs)) (str + of_nat i) = rev bs ! i"
      using i by (simp add: rev_nth)
  qed
  show "Reverse m str (of_nat (length bs)) x = m x" if "\<not> in_range x str (length bs)"
  proof -
    have "int (length bs) \<le> int (unat (x - str))"
      using that by (simp only: of_nat_le_iff in_range_def not_less)
    then have "int (length bs) \<le> uint (x - str)" by (simp only: uint_nat)
    then show ?thesis
      using step [of "uint (x - str)"] uint_lt2p [of "x - str"] uint_ge_0 [of "x - str"] by simp
  qed
qed


section \<open>Positional notation\<close>

text \<open>The digits of a number, least significant first, and the number they denote.\<close>

fun digits_rev :: "nat \<Rightarrow> nat \<Rightarrow> nat list" where
  "digits_rev b n = (if b < 2 \<or> n < b then [n] else n mod b # digits_rev b (n div b))"

declare digits_rev.simps [simp del]

definition digits_value :: "nat \<Rightarrow> nat list \<Rightarrow> nat" where
  "digits_value b ds = foldr (\<lambda>d v. d + b * v) ds 0"

lemma digits_value_digits_rev: "digits_value b (digits_rev b n) = n"
proof (induction b n rule: digits_rev.induct)
  case (1 b n)
  then show ?case by (subst digits_rev.simps) (auto simp: digits_value_def)
qed

lemma digits_rev_less: "2 \<le> b \<Longrightarrow> d \<in> set (digits_rev b n) \<Longrightarrow> d < b"
proof (induction b n rule: digits_rev.induct)
  case (1 b n)
  then show ?case by (subst (asm) (2) digits_rev.simps) (auto split: if_splits)
qed

lemma digits_rev_length: "2 \<le> b \<Longrightarrow> n < b ^ k \<Longrightarrow> 0 < k \<Longrightarrow> length (digits_rev b n) \<le> k"
proof (induction k arbitrary: n)
  case (Suc k)
  show ?case
  proof (cases "n < b")
    case False
    then have "0 < k" using Suc.prems by (cases k) auto
    moreover have "n div b < b ^ k" using Suc.prems by (simp add: div_less_iff_less_mult mult.commute)
    ultimately have "length (digits_rev b (n div b)) \<le> k" using Suc.IH Suc.prems(1) by simp
    then show ?thesis using False by (subst digits_rev.simps) simp
  qed (subst digits_rev.simps, simp)
qed simp

text \<open>The decimal numeral of an integer, as bytes.\<close>

definition decimal :: "int \<Rightarrow> u8 list" where
  "decimal k = (if k < 0 then [45] else []) @ rev (map (\<lambda>d. of_nat (48 + d)) (digits_rev 10 (nat \<bar>k\<bar>)))"

lemma Itoa_digit_mod: "nonneg n \<Longrightarrow> Itoa_digit (mod_i32 n 10) = of_nat (48 + unat n mod 10)"
proof -
  assume n: "nonneg n"
  have ten: "nonneg 10" by (simp add: nonneg_def)
  let ?r = "mod_i32 n 10"
  have r: "unat ?r = unat n mod 10" using unat_mod_i32 [OF n ten] by simp
  then have "nonneg ?r" by (simp add: nonneg_def less_trans [OF mod_less_divisor])
  then have "sint ?r = int (unat n mod 10)" by (simp add: sint_nonneg r)
  then have "\<not> sint ?r > 9" by simp
  moreover have "?r = of_nat (unat n mod 10)" by (simp add: r [symmetric])
  ultimately have "Itoa_digit ?r = ucast (of_nat (unat n mod 10) + 48 :: i32)"
    by (simp only: Itoa_digit_def if_False)
  also have "of_nat (unat n mod 10) + 48 = (of_nat (48 + unat n mod 10) :: i32)" by simp
  also have "ucast (of_nat (48 + unat n mod 10) :: i32) = (of_nat (48 + unat n mod 10) :: u8)"
  proof -
    have "48 + unat n mod 10 < 2 ^ 32" by (rule less_trans [of _ 58]) simp_all
    moreover have "LENGTH(32) = 32" by simp
    ultimately show ?thesis by (simp only: unsigned_of_nat take_bit_nat_eq_self)
  qed
  finally show ?thesis .
qed


lemma Itoa_loop_correct:
  assumes "nonneg n" "n \<noteq> 0" "bytes_at m buff bs"
    and "length bs + length (digits_rev 10 (unat n)) < 2 ^ 64"
  shows "\<exists>m'. Itoa_loop m buff n (length bs) = (m', length bs + length (digits_rev 10 (unat n)))
    \<and> bytes_at m' buff (bs @ map (\<lambda>d. of_nat (48 + d)) (digits_rev 10 (unat n)))
    \<and> (\<forall>x. \<not> in_range x buff (length bs + length (digits_rev 10 (unat n))) \<longrightarrow> m' x = m x)"
  using assms
proof (induction "unat n" arbitrary: n m bs rule: less_induct)
  case less
  let ?n = "div_i32 n 10" and ?d = "of_nat (48 + unat n mod 10) :: u8"
  let ?m = "m(buff + of_nat (length bs) := ?d)" and ?bs = "bs @ [?d]"
  have ten: "nonneg 10" "unat (10 :: i32) = 10" by (simp_all add: nonneg_def)
  have n: "unat ?n = unat n div 10" using unat_div_i32 [OF less.prems(1) ten(1)] ten(2) by simp
  have nn: "nonneg ?n" by (rule nonneg_div_i32 [OF less.prems(1) ten(1)])
  have pos: "0 < unat n" using less.prems(2) by (simp add: unat_gt_0)
  have len: "length bs < 2 ^ 64" using less.prems(4) by simp
  have at: "bytes_at ?m buff ?bs"
    using bytes_at_upd [OF less.prems(3) le_refl len] by (simp add: bytes_at_snoc)
  have step: "Itoa_loop m buff n (length bs) = Itoa_loop ?m buff ?n (length ?bs)"
    using less.prems(2) by (subst Itoa_loop.simps) (simp add: Itoa_digit_mod [OF less.prems(1)])
  have other: "?m x = m x" if "\<not> in_range x buff k" "length bs < k" for x k
  proof -
    have "unat (x - buff) \<noteq> length bs" using that by (auto simp: in_range_def)
    then have "x \<noteq> buff + of_nat (length bs)" using eq_add_of_nat [OF len] by blast
    then show ?thesis by simp
  qed
  show ?case
  proof (cases "unat n < 10")
    case True
    then have "?n = 0" using n by (simp add: unat_eq_0)
    then have "Itoa_loop m buff n (length bs) = (?m, length ?bs)"
      unfolding step by (subst Itoa_loop.simps) simp
    moreover have "digits_rev 10 (unat n) = [unat n]" using True by (subst digits_rev.simps) simp
    ultimately show ?thesis using at other True by simp
  next
    case False
    then have "0 < unat ?n" using n by (simp add: div_greater_zero_iff)
    then have nz: "?n \<noteq> 0" by (simp add: unat_gt_0)
    have ds: "digits_rev 10 (unat n) = unat n mod 10 # digits_rev 10 (unat ?n)"
      using False n by (subst digits_rev.simps) simp
    have "unat ?n < unat n" using n pos by simp
    from less.hyps [OF this nn nz at] less.prems(4)
    obtain m' where m': "Itoa_loop ?m buff ?n (length ?bs) = (m', length ?bs + length (digits_rev 10 (unat ?n)))"
      "bytes_at m' buff (?bs @ map (\<lambda>d. of_nat (48 + d)) (digits_rev 10 (unat ?n)))"
      "\<forall>x. \<not> in_range x buff (length ?bs + length (digits_rev 10 (unat ?n))) \<longrightarrow> m' x = ?m x"
      unfolding ds by auto
    have "m' x = m x" if "\<not> in_range x buff (length bs + length (digits_rev 10 (unat n)))" for x
      using m'(3) other [of x "length bs + length (digits_rev 10 (unat n))"] that unfolding ds by simp
    moreover have "Itoa_loop m buff n (length bs) = (m', length bs + length (digits_rev 10 (unat n)))"
      using m'(1) unfolding step ds by simp
    ultimately show ?thesis using m'(2) unfolding ds by auto
  qed
qed

lemma length_decimal_digits: "unat (n :: i32) < 2 ^ 31 \<Longrightarrow> length (digits_rev 10 (unat n)) \<le> 10"
  by (rule digits_rev_length) simp_all


lemma decimal_no_zero: "0 \<notin> set (decimal k)"
proof -
  have "(of_nat (48 + d) :: u8) \<noteq> 0" if "d < 10" for d :: nat
  proof
    assume "(of_nat (48 + d) :: u8) = 0"
    then have "unat (of_nat (48 + d) :: u8) = unat (0 :: u8)" by (rule arg_cong)
    then show False using that by (simp only: unat_of_nat unsigned_0) simp
  qed
  then show ?thesis using digits_rev_less [of 10] by (force simp: decimal_def)
qed

text \<open>What \<^verbatim>\<open>Itoa\<close> does once the digits of \<open>k\<close> are known, with or without a sign.\<close>

lemma Itoa_finish:
  assumes "bytes_at m buff bs" "length bs < 2 ^ 31" "0 \<notin> set bs"
  shows "cstr (Reverse (m(buff + of_nat (length bs) := 0)) buff (of_nat (length bs))) buff (rev bs)"
    and "\<not> in_range x buff (Suc (length bs)) \<Longrightarrow>
      Reverse (m(buff + of_nat (length bs) := 0)) buff (of_nat (length bs)) x = m x"
proof -
  let ?m = "m(buff + of_nat (length bs) := 0)"
  have len: "length bs < 2 ^ 64" using assms(2) by simp
  note rev = Reverse_correct [OF bytes_at_upd [OF assms(1) le_refl len, of 0] assms(2)]
  have "unat (buff + of_nat (length bs) - buff) = length bs"
    using len by (simp only: add_diff_cancel_left' unat_of_nat64)
  then have "\<not> in_range (buff + of_nat (length bs)) buff (length bs)" by (simp add: in_range_def)
  from rev(2) [OF this] rev(1) assms(3)
  show "cstr (Reverse ?m buff (of_nat (length bs))) buff (rev bs)"
    by (simp add: cstr_bytes_at)
  show "Reverse ?m buff (of_nat (length bs)) x = m x" if "\<not> in_range x buff (Suc (length bs))"
  proof -
    have "\<not> in_range x buff (length bs)" "unat (x - buff) \<noteq> length bs"
      using that by (auto simp: in_range_def)
    then show ?thesis using rev(2) eq_add_of_nat [OF len, of x buff] by simp
  qed
qed

lemma unat_abs_i32:
  assumes "n \<noteq> 0x80000000"
  shows "unat (if sint n < 0 then - n else n :: i32) = nat \<bar>sint n\<bar>"
    and "nonneg (if sint n < 0 then - n else n :: i32)"
proof -
  have r: "- (2 ^ 31) \<le> sint n" "sint n < 2 ^ 31"
    using sint_greater_eq [of n] sint_less [of n] by simp_all
  have "sint n \<noteq> - (2 ^ 31)"
  proof
    assume "sint n = - (2 ^ 31)"
    then have "(word_of_int (sint n) :: i32) = word_of_int (- (2 ^ 31))" by (rule arg_cong)
    then show False using assms by simp
  qed
  then have b: "\<bar>sint n\<bar> < 2 ^ 31" using r by linarith
  have "(if sint n < 0 then - n else n :: i32) = word_of_int \<bar>sint n\<bar>" by (simp add: abs_if)
  moreover have "unat (word_of_int \<bar>sint n\<bar> :: i32) = nat \<bar>sint n\<bar>"
    using b by (simp add: unsigned_of_int take_bit_int_eq_self)
  ultimately show u: "unat (if sint n < 0 then - n else n :: i32) = nat \<bar>sint n\<bar>" by simp
  then show "nonneg (if sint n < 0 then - n else n :: i32)"
    using b unfolding nonneg_def u by (simp add: nat_less_iff)
qed

text \<open>\<^verbatim>\<open>Itoa\<close> writes the decimal numeral of every \<^verbatim>\<open>int\<close> but the smallest one, with its sign
  and a terminating zero byte, and touches no other byte; the digits denote the number.\<close>

theorem Itoa_correct:
  assumes "n \<noteq> 0x80000000"
  shows "cstr (Itoa m n buff) buff (decimal (sint n)) \<and>
    (\<forall>x. \<not> in_range x buff (Suc (length (decimal (sint n)))) \<longrightarrow> Itoa m n buff x = m x) \<and>
    digits_value 10 (digits_rev 10 (nat \<bar>sint n\<bar>)) = nat \<bar>sint n\<bar>"
proof -
  let ?n = "if sint n < 0 then - n else n" and ?ds = "digits_rev 10 (nat \<bar>sint n\<bar>)"
  let ?bs = "map (\<lambda>d. of_nat (48 + d)) ?ds @ (if sint n < 0 then [45] else []) :: u8 list"
  have dec: "decimal (sint n) = rev ?bs" by (simp add: decimal_def)
  have len: "length ?bs \<le> 11"
    using length_decimal_digits [of ?n] unat_abs_i32 [OF assms] by (auto simp: nonneg_def)
  have "cstr (Itoa m n buff) buff (rev ?bs) \<and>
    (\<forall>x. \<not> in_range x buff (Suc (length ?bs)) \<longrightarrow> Itoa m n buff x = m x)"
  proof (cases "n = 0")
    case True
    then show ?thesis
      by (subst (1 2) digits_rev.simps) (auto simp: Itoa_def in_range_Suc)
  next
    case False
    then have nz: "?n \<noteq> 0" by simp
    from Itoa_loop_correct [OF unat_abs_i32(2) [OF assms] nz, of m buff "[]"] len
    obtain m1 where m1: "Itoa_loop m buff ?n 0 = (m1, length ?ds)"
      "bytes_at m1 buff (map (\<lambda>d. of_nat (48 + d)) ?ds)"
      "\<forall>x. \<not> in_range x buff (length ?ds) \<longrightarrow> m1 x = m x"
      unfolding unat_abs_i32(1) [OF assms] by (auto simp: bytes_at_def)
    let ?m2 = "if sint n < 0 then m1(buff + of_nat (length ?ds) := 45) else m1"
    have at: "bytes_at ?m2 buff ?bs"
      using m1(2) bytes_at_upd [OF m1(2), of "length ?ds" 45] len by (auto simp: bytes_at_snoc)
    have m2: "?m2 x = m x" if "\<not> in_range x buff (Suc (length ?bs))" for x
      using that m1(3) len eq_add_of_nat [of "length ?ds" x buff] by (auto simp: in_range_def)
    have eq: "Itoa m n buff = Reverse (?m2(buff + of_nat (length ?bs) := 0)) buff (of_nat (length ?bs))"
      using False m1(1) by (cases "sint n < 0") (simp_all add: Itoa_def Let_def)
    have "0 \<notin> set ?bs" using decimal_no_zero [of "sint n"] unfolding dec by (simp only: set_rev not_False_eq_True)
    note fin = Itoa_finish [OF at _ this]
    show ?thesis unfolding eq using fin m2 len by auto
  qed
  then show ?thesis
    unfolding dec length_rev using digits_value_digits_rev [of 10 "nat \<bar>sint n\<bar>"] by blast
qed

theorem Itoa_correct_witness:
  "cstr (Itoa (\<lambda>_. 7) (- 305) 0x1000) 0x1000 [45, 51, 48, 53]"
  using Itoa_correct [where n = "- 305" and m = "\<lambda>_. 7" and buff = "0x1000"] by (simp add: decimal_def digits_rev.simps)

section \<open>Bits\<close>

lemma unat_ucast_16_32 [simp]: "unat (ucast (x :: u16) :: u32) = unat x"
proof -
  have "unat x < 2 ^ 16" using unsigned_less [of x] by simp
  then show ?thesis by (simp add: unsigned_ucast_eq take_bit_nat_eq_self)
qed

lemma unat_and_63: "unat ((n :: u32) AND 63) = unat n mod 64"
proof -
  have "n AND 63 = take_bit 6 n" by (simp add: take_bit_eq_mask mask_eq_exp_minus_1)
  then show ?thesis by (simp only: unsigned_take_bit_eq) (simp add: take_bit_eq_mod)
qed

text \<open>\<^verbatim>\<open>SetNthBit\<close> shifts the 32-bit constant 1: it sets bit \<open>n mod 32\<close> of the word, and for
  \<open>n mod 32 = 31\<close> the sign extension sets every bit from 31 on. So it sets the bit it is asked for,
  and that bit only, exactly when \<open>n < 31\<close>; \<^verbatim>\<open>ClearNthBit\<close> and \<^verbatim>\<open>GetNthBit\<close> use the bit
  asked for in all 64 positions.
\<close>

theorem SetNthBit_bits:
  "(i < 64 \<longrightarrow> (bit (SetNthBit num n) i \<longleftrightarrow> bit num i \<or>
      (if unat n mod 32 = 31 then 31 \<le> i else i = unat n mod 32))) \<and>
   (unat n < 31 \<longrightarrow> SetNthBit num n = set_bit (unat n) num) \<and>
   (unat n < 64 \<longrightarrow> ClearNthBit num n = unset_bit (unat n) num \<and>
      (GetNthBit num n \<noteq> 0 \<longleftrightarrow> bit num (unat n)))"
proof -
  have one: "bit (i32_to_u64 (push_bit k 1 :: i32)) i \<longleftrightarrow> (if k = 31 then 31 \<le> i else i = k)"
    if "k < 32" "i < 64" for k i
    using that by (auto simp: bit_simps bit_signed_iff)
  have bits: "bit (SetNthBit num n) i \<longleftrightarrow> bit num i \<or>
      (if unat n mod 32 = 31 then 31 \<le> i else i = unat n mod 32)" if "i < 64" for i
    using one [OF _ that, of "unat n mod 32"]
    by (simp only: SetNthBit_def shl32_def unat_and_31 unat_ucast_16_32 bit_or_iff mod_less_divisor)
  have "SetNthBit num n = set_bit (unat n) num" if "unat n < 31"
    by (rule bit_word_eqI) (use that in \<open>auto simp: bits bit_set_bit_iff possible_bit_def\<close>)
  moreover have "ClearNthBit num n = unset_bit (unat n) num" if "unat n < 64"
    by (rule bit_word_eqI) (use that in \<open>auto simp: ClearNthBit_def shl64_def unat_and_63
      bit_and_iff bit_not_iff bit_unset_bit_iff bit_exp_iff\<close>)
  moreover have "GetNthBit num n \<noteq> 0 \<longleftrightarrow> bit num (unat n)" if "unat n < 64"
  proof -
    let ?d = "drop_bit (unat n) num"
    have "GetNthBit num n = (if odd ?d then 1 else 0)"
      using that by (simp add: GetNthBit_def shr64_def unat_and_63 and_one_eq mod_2_eq_odd)
    then show ?thesis by (simp add: bit_iff_odd_drop_bit)
  qed
  ultimately show ?thesis using bits by blast
qed

theorem SetNthBit_bits_witness:
  "bit (SetNthBit 0 33) 1 \<and> \<not> bit (SetNthBit 0 33) 33 \<and> bit (SetNthBit 0 31) 50 \<and>
   SetNthBit 0 5 = set_bit 5 0"
  using SetNthBit_bits [of 1 0 33] SetNthBit_bits [of 33 0 33] SetNthBit_bits [of 50 0 31]
    SetNthBit_bits [of 0 0 5] by simp

end
