(* ===== verification/Pmm.thy ===== *)
theory Pmm
  imports CString Utils
begin

text \<open>
  \<^verbatim>\<open>src/src/kernel/memory_management/physical_memory_manager.c\<close>: the allocator of physical page
  frames. Its state is the static \<open>PHYS_MEMORY_MAP\<close>; the bitmap itself lives in memory, one bit
  per frame, set when the frame is used. An operation that may loop for ever or divide by zero
  returns an option, with \<open>None\<close> for a call that does not return.
\<close>

section \<open>Data\<close>

record stivale2_mmap_entry =
  me_base :: u64
  me_length :: u64
  me_type :: u32

text \<open>\<^verbatim>\<open>struct stivale2_struct_tag_memmap\<close>: the field \<^verbatim>\<open>entries\<close> is the length of the list.\<close>

type_synonym memmap_tag = "stivale2_mmap_entry list"

record MemMap =
  num_entries :: u64
  last_used :: u64
  bitmap_size :: u32
  bitmap :: u64
  mem_size :: u32
  max_blocks :: u32
  uppermost_addr :: u64
  used_blocks :: u32

record machine =
  memory :: mem

record pmm_state = machine +
  PHYS_MEMORY_MAP :: MemMap

abbreviation FRAME_SIZE :: u64 where
  "FRAME_SIZE \<equiv> 4096"

definition USABLE_PAGE :: u32 where
  "USABLE_PAGE = 1"

section \<open>Operations\<close>

definition SetPageUsed :: "i32 \<Rightarrow> 'a pmm_state_scheme \<Rightarrow> 'a pmm_state_scheme" where
  "SetPageUsed index s =
     (let bmp_entry_byte = bitmap (PHYS_MEMORY_MAP s) + i32_to_u64 (div_i32 index 8);
          byte = memory s bmp_entry_byte
      in s\<lparr>memory := (memory s)(bmp_entry_byte :=
           ucast ((ucast byte :: i32) OR shl32 1 (mod_i32 index 8)))\<rparr>)"

definition SetPageFree :: "i32 \<Rightarrow> 'a pmm_state_scheme \<Rightarrow> 'a pmm_state_scheme" where
  "SetPageFree index s =
     (let bmp_entry_byte = bitmap (PHYS_MEMORY_MAP s) + i32_to_u64 (div_i32 index 8);
          byte = memory s bmp_entry_byte
      in s\<lparr>memory := (memory s)(bmp_entry_byte :=
           ucast ((ucast byte :: i32) AND NOT (shl32 1 (mod_i32 index 8))))\<rparr>)"

definition PageIsUsed :: "i32 \<Rightarrow> 'a pmm_state_scheme \<Rightarrow> bool" where
  "PageIsUsed index s =
     (let byte = memory s (bitmap (PHYS_MEMORY_MAP s) + i32_to_u64 (div_i32 index 8))
      in sar32 (ucast byte) (mod_i32 index 8) AND 1 \<noteq> 0)"

text \<open>The loop of \<^verbatim>\<open>UppermostUsableAddr\<close> runs over the entries from the last to the first.\<close>

fun uppermost_loop :: "stivale2_mmap_entry list \<Rightarrow> u64" where
  "uppermost_loop [] = 0"
| "uppermost_loop (page_frame # es) =
     (if me_type page_frame = USABLE_PAGE then me_base page_frame + me_length page_frame - 1
      else uppermost_loop es)"

definition UppermostUsableAddr :: "memmap_tag \<Rightarrow> u64" where
  "UppermostUsableAddr mmap = uppermost_loop (rev mmap)"

fun find_mem_loop :: "int \<Rightarrow> stivale2_mmap_entry list \<Rightarrow> u32 \<Rightarrow> int" where
  "find_mem_loop i [] minimum_num_bytes = -1"
| "find_mem_loop i (page_frame # es) minimum_num_bytes =
     (if me_length page_frame \<ge> ucast minimum_num_bytes \<and> me_type page_frame = USABLE_PAGE then i
      else find_mem_loop (i + 1) es minimum_num_bytes)"

definition FindMemEntryBySize :: "memmap_tag \<Rightarrow> u32 \<Rightarrow> int" where
  "FindMemEntryBySize mmap minimum_num_bytes = find_mem_loop 0 mmap minimum_num_bytes"

text \<open>The inner loop of \<^verbatim>\<open>InitPmm\<close>: a signed counter compared with an unsigned bound.\<close>

partial_function (option) set_free_range ::
  "i32 \<Rightarrow> u64 \<Rightarrow> 'a pmm_state_scheme \<Rightarrow> 'a pmm_state_scheme option" where
  "set_free_range i ending_page s =
     (if i32_to_u64 i < ending_page then set_free_range (i + 1) ending_page (SetPageFree i s)
      else Some s)"

definition init_entry ::
  "stivale2_mmap_entry \<Rightarrow> 'a pmm_state_scheme \<Rightarrow> 'a pmm_state_scheme option" where
  "init_entry mmap_entry s =
     (let starting_page = me_base mmap_entry div FRAME_SIZE;
          ending_page = starting_page + me_length mmap_entry div FRAME_SIZE
      in case set_free_range (u64_to_i32 starting_page) ending_page s of
           None \<Rightarrow> None
         | Some s' \<Rightarrow>
             Some (if last_used (PHYS_MEMORY_MAP s') = 0
                   then s'\<lparr>PHYS_MEMORY_MAP := (PHYS_MEMORY_MAP s')\<lparr>last_used := starting_page - 1\<rparr>\<rparr>
                   else s'))"

fun init_free_loop ::
  "int \<Rightarrow> stivale2_mmap_entry list \<Rightarrow> int \<Rightarrow> 'a pmm_state_scheme \<Rightarrow> 'a pmm_state_scheme option" where
  "init_free_loop i [] bmp_ind s = Some s"
| "init_free_loop i (mmap_entry # es) bmp_ind s =
     (if me_type mmap_entry = USABLE_PAGE \<and> i \<noteq> bmp_ind then
        (case init_entry mmap_entry s of
           None \<Rightarrow> None
         | Some s' \<Rightarrow> init_free_loop (i + 1) es bmp_ind s')
      else init_free_loop (i + 1) es bmp_ind s)"

definition InitPmm :: "memmap_tag \<Rightarrow> 'a pmm_state_scheme \<Rightarrow> (bool \<times> 'a pmm_state_scheme) option" where
  "InitPmm mmap s =
     (let uppermost_usable_addr = UppermostUsableAddr mmap;
          bmp_size = (ucast (uppermost_usable_addr div FRAME_SIZE div 8) :: u32);
          s1 = s\<lparr>PHYS_MEMORY_MAP := (PHYS_MEMORY_MAP s)\<lparr>
                 num_entries := uppermost_usable_addr div FRAME_SIZE,
                 bitmap_size := ucast (RoundToNearestMultiple (ucast bmp_size) 4096),
                 uppermost_addr := uppermost_usable_addr\<rparr>\<rparr>;
          bmp_ind = FindMemEntryBySize mmap (bitmap_size (PHYS_MEMORY_MAP s1))
      in if bmp_ind = -1 then Some (False, s1)
         else
           (let base = me_base (mmap ! nat bmp_ind);
                s2 = s1\<lparr>PHYS_MEMORY_MAP := (PHYS_MEMORY_MAP s1)\<lparr>bitmap := base\<rparr>,
                        memory := memset (memory s1) base (-1)
                          (ucast (bitmap_size (PHYS_MEMORY_MAP s1)))\<rparr>
            in case init_free_loop 0 mmap bmp_ind s2 of
                 None \<Rightarrow> None
               | Some s3 \<Rightarrow> Some (True, s3)))"

text \<open>The body of \<^verbatim>\<open>AllocFirstFrame\<close> on a free frame.\<close>

definition take_frame :: "i32 \<Rightarrow> 'a pmm_state_scheme \<Rightarrow> u64 \<times> 'a pmm_state_scheme" where
  "take_frame i s =
     (let s1 = SetPageUsed i s;
          s2 = s1\<lparr>PHYS_MEMORY_MAP := (PHYS_MEMORY_MAP s1)\<lparr>last_used := i32_to_u64 i\<rparr>\<rparr>;
          frame = i32_to_u64 i * FRAME_SIZE
      in (frame, s2\<lparr>memory := memset (memory s2) frame 0 FRAME_SIZE\<rparr>))"

partial_function (option) alloc_first_loop ::
  "i32 \<Rightarrow> 'a pmm_state_scheme \<Rightarrow> (u64 \<times> 'a pmm_state_scheme) option" where
  "alloc_first_loop i s =
     (if i32_to_u64 i = last_used (PHYS_MEMORY_MAP s) then Some (0, s)
      else if \<not> PageIsUsed i s then Some (take_frame i s)
      else if num_entries (PHYS_MEMORY_MAP s) = 0 then None
      else alloc_first_loop
             (u64_to_i32 (i32_to_u64 (i + 1) mod num_entries (PHYS_MEMORY_MAP s))) s)"

definition AllocFirstFrame :: "'a pmm_state_scheme \<Rightarrow> (u64 \<times> 'a pmm_state_scheme) option" where
  "AllocFirstFrame s = alloc_first_loop (u64_to_i32 (last_used (PHYS_MEMORY_MAP s) + 1)) s"

text \<open>
  \<^verbatim>\<open>AllocContiguous\<close>: the inner loop advances \<open>tail\<close> and stops at the first used frame
  (\<open>Inl tail\<close>) or after the whole run (\<open>Inr tail\<close>); the marking loop follows it.
\<close>

partial_function (option) contiguous_scan ::
  "i32 \<Rightarrow> u64 \<Rightarrow> u64 \<Rightarrow> 'a pmm_state_scheme \<Rightarrow> (i32 + i32) option" where
  "contiguous_scan tail head num_pages s =
     (if i32_to_u64 tail - head \<le> num_pages then
        (if PageIsUsed tail s then Some (Inl tail)
         else contiguous_scan (tail + 1) head num_pages s)
      else Some (Inr tail))"

partial_function (option) set_used_range ::
  "i32 \<Rightarrow> i32 \<Rightarrow> 'a pmm_state_scheme \<Rightarrow> 'a pmm_state_scheme option" where
  "set_used_range i tail s =
     (if sint i \<le> sint tail then set_used_range (i + 1) tail (SetPageUsed i s) else Some s)"

partial_function (option) contiguous_loop ::
  "u64 \<Rightarrow> u64 \<Rightarrow> 'a pmm_state_scheme \<Rightarrow> (u64 \<times> 'a pmm_state_scheme) option" where
  "contiguous_loop head num_pages s =
     (if head = last_used (PHYS_MEMORY_MAP s) then Some (0, s)
      else case contiguous_scan (u64_to_i32 head) head num_pages s of
        None \<Rightarrow> None
      | Some (Inl tail) \<Rightarrow>
          (if num_entries (PHYS_MEMORY_MAP s) = 0 then None
           else contiguous_loop ((i32_to_u64 tail + 1) mod num_entries (PHYS_MEMORY_MAP s)) num_pages s)
      | Some (Inr tail) \<Rightarrow>
          (case set_used_range (u64_to_i32 head) tail s of
             None \<Rightarrow> None
           | Some s1 \<Rightarrow>
               (let frame = head * FRAME_SIZE;
                    s2 = s1\<lparr>memory := memset (memory s1) frame 0 (FRAME_SIZE * num_pages)\<rparr>
                in Some (frame, s2\<lparr>PHYS_MEMORY_MAP :=
                     (PHYS_MEMORY_MAP s2)\<lparr>last_used := head + num_pages\<rparr>\<rparr>))))"

definition AllocContiguous ::
  "u64 \<Rightarrow> 'a pmm_state_scheme \<Rightarrow> (u64 \<times> 'a pmm_state_scheme) option" where
  "AllocContiguous sz s =
     (let num_pages = sz div FRAME_SIZE + (if sz mod FRAME_SIZE > 0 then 1 else 0)
      in contiguous_loop (last_used (PHYS_MEMORY_MAP s) + 1) num_pages s)"

definition FreeFrame :: "u64 \<Rightarrow> 'a pmm_state_scheme \<Rightarrow> 'a pmm_state_scheme" where
  "FreeFrame frame s =
     (let s1 = s\<lparr>memory := memset (memory s) frame 0 FRAME_SIZE\<rparr>
      in SetPageFree (u64_to_i32 (frame div FRAME_SIZE)) s1)"

partial_function (option) num_free_loop :: "i32 \<Rightarrow> i32 \<Rightarrow> 'a pmm_state_scheme \<Rightarrow> i32 option" where
  "num_free_loop i free_frames s =
     (if i32_to_u64 i < num_entries (PHYS_MEMORY_MAP s)
      then num_free_loop (i + 1) (free_frames + (if PageIsUsed i s then 0 else 1)) s
      else Some free_frames)"

definition NumFreeFrames :: "'a pmm_state_scheme \<Rightarrow> i32 option" where
  "NumFreeFrames s = num_free_loop 0 0 s"

section \<open>The bitmap as a set of frames\<close>

definition frame_used :: "'a pmm_state_scheme \<Rightarrow> nat \<Rightarrow> bool" where
  "frame_used s k \<longleftrightarrow>
     bit (memory s (bitmap (PHYS_MEMORY_MAP s) + of_nat (k div 8))) (k mod 8)"

lemma bmp_byte_addr: "nonneg i \<Longrightarrow> i32_to_u64 (div_i32 i 8) = of_nat (unat i div 8)"
  by (simp add: i32_to_u64_nonneg nonneg_div_i32 unat_div_i32)

lemma bmp_bit_pos: "nonneg i \<Longrightarrow> unat (mod_i32 i 8 AND 31) = unat i mod 8"
  by (simp add: unat_and_31 unat_mod_i32)

lemma PageIsUsed_iff: "nonneg i \<Longrightarrow> PageIsUsed i s \<longleftrightarrow> frame_used s (unat i)"
  by (simp only: PageIsUsed_def frame_used_def bmp_byte_addr sar32_def bmp_bit_pos Let_def byte_test_bit)

lemma SetPageUsed_memory:
  "nonneg i \<Longrightarrow> memory (SetPageUsed i s) =
     (memory s)(bitmap (PHYS_MEMORY_MAP s) + of_nat (unat i div 8) :=
        set_bit (unat i mod 8) (memory s (bitmap (PHYS_MEMORY_MAP s) + of_nat (unat i div 8))))"
  by (simp add: SetPageUsed_def bmp_byte_addr shl32_def bmp_bit_pos Let_def byte_set_bit)

lemma SetPageFree_memory:
  "nonneg i \<Longrightarrow> memory (SetPageFree i s) =
     (memory s)(bitmap (PHYS_MEMORY_MAP s) + of_nat (unat i div 8) :=
        unset_bit (unat i mod 8) (memory s (bitmap (PHYS_MEMORY_MAP s) + of_nat (unat i div 8))))"
  by (simp add: SetPageFree_def bmp_byte_addr shl32_def bmp_bit_pos Let_def byte_unset_bit)

lemma PHYS_MEMORY_MAP_SetPage [simp]:
  "PHYS_MEMORY_MAP (SetPageUsed i s) = PHYS_MEMORY_MAP s"
  "PHYS_MEMORY_MAP (SetPageFree i s) = PHYS_MEMORY_MAP s"
  by (simp_all add: SetPageUsed_def SetPageFree_def Let_def)

lemma bmp_addr_eq_iff:
  "j < 2 ^ 64 \<Longrightarrow> k < 2 ^ 64 \<Longrightarrow> (b :: u64) + of_nat j = b + of_nat k \<longleftrightarrow> j = k"
  by (metis add_left_cancel unat_of_nat64)

lemma div_mod_8_eq: "j div 8 = k div 8 \<Longrightarrow> j mod 8 = k mod 8 \<longleftrightarrow> j = (k :: nat)"
  by (metis div_mult_mod_eq)

lemma frame_used_SetPageUsed:
  assumes "nonneg i" "k < 2 ^ 64"
  shows "frame_used (SetPageUsed i s) k \<longleftrightarrow> k = unat i \<or> frame_used s k"
proof -
  have "k div 8 < 2 ^ 64" "unat i div 8 < 2 ^ 64"
    using assms by (auto simp: nonneg_def)
  then have "bitmap (PHYS_MEMORY_MAP s) + of_nat (k div 8) =
      bitmap (PHYS_MEMORY_MAP s) + of_nat (unat i div 8) \<longleftrightarrow> k div 8 = unat i div 8"
    by (rule bmp_addr_eq_iff)
  then show ?thesis
    using div_mod_8_eq [of k "unat i"]
    by (cases "k div 8 = unat i div 8")
      (auto simp: frame_used_def SetPageUsed_memory [OF assms(1)] bit_set_bit_iff)
qed

lemma frame_used_SetPageFree:
  assumes "nonneg i" "k < 2 ^ 64"
  shows "frame_used (SetPageFree i s) k \<longleftrightarrow> k \<noteq> unat i \<and> frame_used s k"
proof -
  have "k div 8 < 2 ^ 64" "unat i div 8 < 2 ^ 64"
    using assms by (auto simp: nonneg_def)
  then have "bitmap (PHYS_MEMORY_MAP s) + of_nat (k div 8) =
      bitmap (PHYS_MEMORY_MAP s) + of_nat (unat i div 8) \<longleftrightarrow> k div 8 = unat i div 8"
    by (rule bmp_addr_eq_iff)
  then show ?thesis
    using div_mod_8_eq [of k "unat i"]
    by (cases "k div 8 = unat i div 8")
      (auto simp: frame_used_def SetPageFree_memory [OF assms(1)] bit_unset_bit_iff)
qed

definition frame_addr :: "nat \<Rightarrow> u64" where
  "frame_addr k = of_nat (4096 * k)"

definition bitmap_frames :: "'a pmm_state_scheme \<Rightarrow> nat" where
  "bitmap_frames s = 8 * unat (bitmap_size (PHYS_MEMORY_MAP s))"

definition clear_of_bitmap :: "'a pmm_state_scheme \<Rightarrow> nat \<Rightarrow> bool" where
  "clear_of_bitmap s k \<longleftrightarrow>
     4096 * k + 4096 \<le> unat (bitmap (PHYS_MEMORY_MAP s))
   \<or> unat (bitmap (PHYS_MEMORY_MAP s)) + unat (bitmap_size (PHYS_MEMORY_MAP s)) \<le> 4096 * k"

definition pmm_inv :: "'a pmm_state_scheme \<Rightarrow> bool" where
  "pmm_inv s \<longleftrightarrow>
     (let mm = PHYS_MEMORY_MAP s; n = unat (num_entries mm) in
        0 < n \<and> n + 2 < 2 ^ 31 \<and> n + 1 < bitmap_frames s
      \<and> unat (bitmap mm) + unat (bitmap_size mm) \<le> 2 ^ 64
      \<and> unat (last_used mm) \<le> n
      \<and> (\<forall>k < bitmap_frames s. \<not> frame_used s k \<longrightarrow> 0 < k \<and> k \<le> n \<and> clear_of_bitmap s k))"

lemma unat_frame_addr: "k < 2 ^ 52 \<Longrightarrow> unat (frame_addr k) = 4096 * k"
proof -
  assume "k < 2 ^ 52"
  then have "4096 * k < 2 ^ 64" by simp
  then show ?thesis unfolding frame_addr_def by (rule unat_of_nat64)
qed

lemma frame_range: "k < 2 ^ 52 \<Longrightarrow> in_range x (frame_addr k) 4096 \<longleftrightarrow> 4096 * k \<le> unat x \<and> unat x < 4096 * k + 4096"
  by (subst in_range_nowrap) (auto simp: unat_frame_addr)

lemma bitmap_byte_outside:
  assumes "clear_of_bitmap s k" "k < 2 ^ 52" "j < bitmap_frames s"
    and "unat (bitmap (PHYS_MEMORY_MAP s)) + unat (bitmap_size (PHYS_MEMORY_MAP s)) \<le> 2 ^ 64"
  shows "\<not> in_range (bitmap (PHYS_MEMORY_MAP s) + of_nat (j div 8)) (frame_addr k) 4096"
proof -
  have "j div 8 < unat (bitmap_size (PHYS_MEMORY_MAP s))"
    using assms(3) by (auto simp: bitmap_frames_def)
  moreover from this have "unat (bitmap (PHYS_MEMORY_MAP s) + of_nat (j div 8))
      = unat (bitmap (PHYS_MEMORY_MAP s)) + j div 8"
    using assms(4) by (intro unat_add_of_nat) linarith
  ultimately show ?thesis
    using assms(1,2) by (auto simp: frame_range clear_of_bitmap_def)
qed

lemma frame_used_memset_frame:
  assumes "clear_of_bitmap s k" "k < 2 ^ 52" "j < bitmap_frames s"
    and "unat (bitmap (PHYS_MEMORY_MAP s)) + unat (bitmap_size (PHYS_MEMORY_MAP s)) \<le> 2 ^ 64"
  shows "frame_used (s\<lparr>memory := memset (memory s) (frame_addr k) v 4096\<rparr>) j \<longleftrightarrow> frame_used s j"
  using bitmap_byte_outside [OF assms] by (simp add: frame_used_def mem_simps)

lemma frame_addr_mult: "of_nat k * FRAME_SIZE = frame_addr k"
  by (simp add: frame_addr_def mult.commute)

lemma pmm_invD:
  assumes "pmm_inv s"
  shows "0 < unat (num_entries (PHYS_MEMORY_MAP s))"
    and "unat (num_entries (PHYS_MEMORY_MAP s)) + 2 < 2 ^ 31"
    and "unat (num_entries (PHYS_MEMORY_MAP s)) + 1 < bitmap_frames s"
    and "unat (bitmap (PHYS_MEMORY_MAP s)) + unat (bitmap_size (PHYS_MEMORY_MAP s)) \<le> 2 ^ 64"
    and "unat (last_used (PHYS_MEMORY_MAP s)) \<le> unat (num_entries (PHYS_MEMORY_MAP s))"
  using assms unfolding pmm_inv_def Let_def by blast+

lemma pmm_inv_free:
  assumes "pmm_inv s" "k < bitmap_frames s" "\<not> frame_used s k"
  shows "0 < k" "k \<le> unat (num_entries (PHYS_MEMORY_MAP s))" "clear_of_bitmap s k" "k < 2 ^ 31" "k < 2 ^ 52"
proof -
  show 1: "0 < k" "k \<le> unat (num_entries (PHYS_MEMORY_MAP s))" "clear_of_bitmap s k"
    using assms unfolding pmm_inv_def Let_def by blast+
  then show "k < 2 ^ 31" using pmm_invD(2) [OF assms(1)] by linarith
  then show "k < 2 ^ 52" by simp
qed

lemma bitmap_frames_less: "bitmap_frames s < 2 ^ 35"
proof -
  have "unat (bitmap_size (PHYS_MEMORY_MAP s)) < 2 ^ 32" by (rule unat_less32)
  then show ?thesis unfolding bitmap_frames_def by simp
qed

text \<open>What a successful allocation of frame \<open>k\<close> does.\<close>

definition frame_taken :: "nat \<Rightarrow> 'a pmm_state_scheme \<Rightarrow> 'a pmm_state_scheme \<Rightarrow> bool" where
  "frame_taken k s s' \<longleftrightarrow>
     \<not> frame_used s k
   \<and> (\<forall>j < bitmap_frames s. frame_used s' j \<longleftrightarrow> j = k \<or> frame_used s j)
   \<and> (\<forall>x. in_range x (frame_addr k) 4096 \<longrightarrow> memory s' x = 0)
   \<and> (\<forall>x. \<not> in_range x (frame_addr k) 4096 \<longrightarrow>
        x \<noteq> bitmap (PHYS_MEMORY_MAP s) + of_nat (k div 8) \<longrightarrow> memory s' x = memory s x)
   \<and> PHYS_MEMORY_MAP s' = (PHYS_MEMORY_MAP s)\<lparr>last_used := of_nat k\<rparr>"

lemma SetPageUsed_more [simp]: "pmm_state.more (SetPageUsed i s) = pmm_state.more s"
  by (simp add: SetPageUsed_def Let_def)

lemma frame_used_last_used [simp]:
  "bitmap mm = bitmap (PHYS_MEMORY_MAP s) \<Longrightarrow> frame_used (s\<lparr>PHYS_MEMORY_MAP := mm\<rparr>) k = frame_used s k"
  by (simp add: frame_used_def)

lemma clear_of_bitmap_cong:
  "bitmap (PHYS_MEMORY_MAP s') = bitmap (PHYS_MEMORY_MAP s) \<Longrightarrow>
   bitmap_size (PHYS_MEMORY_MAP s') = bitmap_size (PHYS_MEMORY_MAP s) \<Longrightarrow>
   clear_of_bitmap s' k = clear_of_bitmap s k"
  by (simp add: clear_of_bitmap_def)

lemma take_frame_taken:
  assumes inv: "pmm_inv s" and i: "nonneg i" "unat i < bitmap_frames s" "\<not> frame_used s (unat i)"
  shows "\<exists>s'. take_frame i s = (frame_addr (unat i), s') \<and> frame_taken (unat i) s s'
    \<and> pmm_state.more s' = pmm_state.more s"
proof -
  let ?k = "unat i"
  let ?s1 = "SetPageUsed i s"
  let ?s2 = "?s1\<lparr>PHYS_MEMORY_MAP := PHYS_MEMORY_MAP ?s1\<lparr>last_used := of_nat ?k\<rparr>\<rparr>"
  let ?s3 = "?s2\<lparr>memory := memset (memory ?s2) (frame_addr ?k) 0 FRAME_SIZE\<rparr>"
  note k = pmm_inv_free [OF inv i(2,3)]
  have "take_frame i s = (frame_addr ?k, ?s3)"
    unfolding take_frame_def Let_def i32_to_u64_nonneg [OF i(1)] frame_addr_mult by (rule refl)
  moreover have "frame_used ?s3 j \<longleftrightarrow> j = ?k \<or> frame_used s j" if j: "j < bitmap_frames s" for j
  proof -
    have "j < 2 ^ 64" using j bitmap_frames_less [of s] by simp
    moreover have "frame_used ?s3 j \<longleftrightarrow> frame_used ?s2 j"
      by (rule frame_used_memset_frame)
        (use k j pmm_invD(4) [OF inv] in \<open>simp_all add: bitmap_frames_def clear_of_bitmap_def\<close>)
    ultimately show ?thesis by (simp add: frame_used_SetPageUsed [OF i(1)])
  qed
  ultimately show ?thesis
    using i by (simp add: frame_taken_def mem_simps SetPageUsed_memory)
qed

lemma frame_taken_inv:
  assumes "pmm_inv s" "frame_taken k s s'" "k < bitmap_frames s"
  shows "pmm_inv s'"
proof -
  have mm: "PHYS_MEMORY_MAP s' = PHYS_MEMORY_MAP s\<lparr>last_used := of_nat k\<rparr>"
    using assms(2) by (simp add: frame_taken_def)
  have k: "k \<le> unat (num_entries (PHYS_MEMORY_MAP s))" "k < 2 ^ 31"
    using assms by (auto simp: frame_taken_def dest: pmm_inv_free)
  have "bitmap_frames s' = bitmap_frames s" "clear_of_bitmap s' = clear_of_bitmap s"
    by (simp_all add: fun_eq_iff bitmap_frames_def clear_of_bitmap_def mm)
  moreover have "unat (of_nat k :: u64) = k" using k by simp
  ultimately show ?thesis
    using assms k by (auto simp: pmm_inv_def Let_def mm frame_taken_def)
qed


section \<open>The search loop\<close>

lemma u64_to_i32_small: "unat (x :: u64) < 2 ^ 31 \<Longrightarrow> unat (u64_to_i32 x) = unat x \<and> nonneg (u64_to_i32 x)"
  by (simp add: nonneg_def unsigned_ucast_eq take_bit_nat_eq_self)

lemma unat_Suc_i32: "unat (i :: i32) < 2 ^ 32 - 1 \<Longrightarrow> unat (i + 1) = Suc (unat i)"
  by (simp add: unat_plus_if')

lemma next_index:
  assumes "unat i + 1 < 2 ^ 31" "0 < unat n" "unat n < 2 ^ 31"
  shows "unat (u64_to_i32 (i32_to_u64 (i + 1) mod n)) = (unat i + 1) mod unat n"
    and "nonneg (u64_to_i32 (i32_to_u64 (i + 1) mod n))"
proof -
  have "unat (i + 1) = unat i + 1" using assms(1) by (subst unat_Suc_i32) auto
  moreover from this have "nonneg (i + 1)" using assms(1) by (simp only: nonneg_def)
  ultimately have *: "unat (i32_to_u64 (i + 1) mod n) = (unat i + 1) mod unat n"
    by (simp only: unat_mod_distrib unat_i32_to_u64)
  moreover have "(unat i + 1) mod unat n < 2 ^ 31"
    using assms(2,3) by (meson mod_less_divisor order.strict_trans)
  ultimately show "unat (u64_to_i32 (i32_to_u64 (i + 1) mod n)) = (unat i + 1) mod unat n"
    "nonneg (u64_to_i32 (i32_to_u64 (i + 1) mod n))"
    using u64_to_i32_small [of "i32_to_u64 (i + 1) mod n"] by simp_all
qed


lemma alloc_first_loop_sound:
  assumes ret: "alloc_first_loop i s = Some r" and inv: "pmm_inv s"
    and i: "unat i + 1 < 2 ^ 31" "unat i < bitmap_frames s"
  shows "r = (0, s) \<or> (\<exists>k s'. r = (frame_addr k, s') \<and> k < bitmap_frames s \<and> k \<noteq> unat (last_used (PHYS_MEMORY_MAP s))
    \<and> frame_taken k s s' \<and> pmm_state.more s' = pmm_state.more s)"
proof -
  let ?Q = "\<lambda>s r. r = (0, s) \<or> (\<exists>k s'. r = (frame_addr k, s') \<and> k < bitmap_frames s \<and> k \<noteq> unat (last_used (PHYS_MEMORY_MAP s))
    \<and> frame_taken k s s' \<and> pmm_state.more s' = pmm_state.more s)"
  let ?P = "\<lambda>i s r. pmm_inv s \<longrightarrow> unat i + 1 < 2 ^ 31 \<longrightarrow> unat i < bitmap_frames s \<longrightarrow> ?Q s r"
  have "?P i s r"
  proof (rule alloc_first_loop.raw_induct [OF _ ret, where P = ?P], intro impI)
    fix loop :: "i32 \<Rightarrow> 'a pmm_state_scheme \<Rightarrow> (u64 \<times> 'a pmm_state_scheme) option"
      and i :: i32 and s :: "'a pmm_state_scheme" and r
    assume IH: "\<And>i s r. loop i s = Some r \<Longrightarrow> ?P i s r"
      and step: "(if i32_to_u64 i = last_used (PHYS_MEMORY_MAP s) then Some (0, s)
         else if \<not> PageIsUsed i s then Some (take_frame i s)
         else if num_entries (PHYS_MEMORY_MAP s) = 0 then None
         else loop (u64_to_i32 (i32_to_u64 (i + 1) mod num_entries (PHYS_MEMORY_MAP s))) s) = Some r"
      and inv: "pmm_inv s" and i: "unat i + 1 < 2 ^ 31" "unat i < bitmap_frames s"
    let ?n = "num_entries (PHYS_MEMORY_MAP s)"
    have nn: "nonneg i" using i(1) by (simp add: nonneg_def)
    have n: "0 < unat ?n" "unat ?n < 2 ^ 31" "unat ?n + 1 < bitmap_frames s"
      using pmm_invD [OF inv] by linarith+
    have "(unat i + 1) mod unat ?n < unat ?n" using n(1) by simp
    then have "unat (u64_to_i32 (i32_to_u64 (i + 1) mod ?n)) + 1 < 2 ^ 31"
      "unat (u64_to_i32 (i32_to_u64 (i + 1) mod ?n)) < bitmap_frames s"
      using n(3) pmm_invD(2) [OF inv] unfolding next_index(1) [OF i(1) n(1,2)] by linarith+
    then have "?P (u64_to_i32 (i32_to_u64 (i + 1) mod ?n)) s r \<Longrightarrow> ?Q s r"
      using inv by blast
    moreover have "unat i \<noteq> unat (last_used (PHYS_MEMORY_MAP s))"
      if "i32_to_u64 i \<noteq> last_used (PHYS_MEMORY_MAP s)"
      using that unat_i32_to_u64 [OF nn] by (auto simp: word_unat_eq_iff)
    ultimately show "?Q s r"
      using step IH take_frame_taken [OF inv nn i(2)] i(2) PageIsUsed_iff [OF nn, of s]
      by (auto split: if_splits)
  qed
  then show ?thesis using inv i by blast
qed


subsection \<open>Which frames the search visits\<close>

abbreviation frames :: "'a pmm_state_scheme \<Rightarrow> nat" where
  "frames s \<equiv> unat (num_entries (PHYS_MEMORY_MAP s))"

abbreviation last_frame :: "'a pmm_state_scheme \<Rightarrow> nat" where
  "last_frame s \<equiv> unat (last_used (PHYS_MEMORY_MAP s))"

lemma eq_of_nat: "unat (x :: 'a::len word) = k \<Longrightarrow> x = of_nat k"
  by auto

lemma of_nat_i32:
  "k < 2 ^ 31 \<Longrightarrow> unat (of_nat k :: i32) = k" "k < 2 ^ 31 \<Longrightarrow> nonneg (of_nat k)"
  by (simp_all add: nonneg_def)

lemma alloc_first_loop_unfold:
  assumes "pmm_inv s" "i \<le> frames s + 1"
  shows "alloc_first_loop (of_nat i) s =
    (if i = last_frame s then Some (0, s)
     else if \<not> frame_used s i then Some (take_frame (of_nat i) s)
     else alloc_first_loop (of_nat ((i + 1) mod frames s)) s)"
proof -
  let ?n = "num_entries (PHYS_MEMORY_MAP s)"
  have i: "i + 1 < 2 ^ 31" "i < 2 ^ 31" and n: "0 < unat ?n" "unat ?n < 2 ^ 31"
    using assms pmm_invD [OF assms(1)] by linarith+
  note ni = of_nat_i32 [OF i(2)]
  have "unat (u64_to_i32 (i32_to_u64 (of_nat i + 1) mod ?n)) = (i + 1) mod unat ?n"
    using next_index(1) [of "of_nat i", OF _ n] i unfolding ni(1) by blast
  then have "u64_to_i32 (i32_to_u64 (of_nat i + 1) mod ?n) = of_nat ((i + 1) mod unat ?n)"
    by (rule eq_of_nat)
  moreover have "i32_to_u64 (of_nat i) = last_used (PHYS_MEMORY_MAP s) \<longleftrightarrow> i = last_frame s"
    using unat_i32_to_u64 [OF ni(2)] unfolding ni(1) by (metis word_unat_eq_iff)
  moreover have "PageIsUsed (of_nat i) s = frame_used s i"
    using PageIsUsed_iff [OF ni(2)] ni(1) by simp
  moreover have "?n \<noteq> 0" using n(1) by auto
  ultimately show ?thesis by (subst alloc_first_loop.simps) simp
qed

lemma alloc_first_loop_skip:
  assumes "pmm_inv s" "i < frames s"
    and "\<And>m'. m' < m \<Longrightarrow> (i + m') mod frames s \<noteq> last_frame s \<and> frame_used s ((i + m') mod frames s)"
  shows "alloc_first_loop (of_nat i) s = alloc_first_loop (of_nat ((i + m) mod frames s)) s"
  using assms(3)
proof (induction m)
  case 0
  then show ?case using assms(2) by simp
next
  case (Suc m)
  have "(i + m) mod frames s < frames s" using assms(2) by simp
  then have "(i + m) mod frames s \<le> frames s + 1" by linarith
  from alloc_first_loop_unfold [OF assms(1) this] Suc
  show ?case by (simp add: mod_Suc_eq)
qed

lemma alloc_first_loop_find:
  assumes inv: "pmm_inv s" and "i < frames s" and "\<not> frame_used s ((i + m) mod frames s)"
    and "\<And>m'. m' \<le> m \<Longrightarrow> (i + m') mod frames s \<noteq> last_frame s"
  shows "\<exists>k < frames s. \<not> frame_used s k \<and> alloc_first_loop (of_nat i) s = Some (take_frame (of_nat k) s)"
proof -
  define m0 where "m0 = (LEAST m. \<not> frame_used s ((i + m) mod frames s))"
  have free: "\<not> frame_used s ((i + m0) mod frames s)" and le: "m0 \<le> m"
    unfolding m0_def
    by (rule LeastI [where P = "\<lambda>m. \<not> frame_used s ((i + m) mod frames s)", OF assms(3)],
      rule Least_le [where P = "\<lambda>m. \<not> frame_used s ((i + m) mod frames s)", OF assms(3)])
  have used: "frame_used s ((i + m') mod frames s)" if "m' < m0" for m'
    using not_less_Least [of m'] that by (auto simp: m0_def)
  have less: "(i + m0) mod frames s < frames s" using assms(2) by simp
  have "alloc_first_loop (of_nat i) s = alloc_first_loop (of_nat ((i + m0) mod frames s)) s"
    using used assms(4) le by (intro alloc_first_loop_skip [OF inv assms(2)]) auto
  also have "\<dots> = Some (take_frame (of_nat ((i + m0) mod frames s)) s)"
    using alloc_first_loop_unfold [OF inv, of "(i + m0) mod frames s"] less free assms(4) [OF le] by simp
  finally show ?thesis using less free by blast
qed

text \<open>The number of steps from \<open>i\<close> to \<open>j\<close> around a ring of \<open>n\<close> indices.\<close>

definition ring_dist :: "nat \<Rightarrow> nat \<Rightarrow> nat \<Rightarrow> nat" where
  "ring_dist n i j = (if i \<le> j then j - i else j + n - i)"

lemma ring_dist:
  assumes "i < n" "j < n"
  shows "(i + ring_dist n i j) mod n = j" "ring_dist n i j < n"
    and "m < n \<Longrightarrow> (i + m) mod n = j \<Longrightarrow> m = ring_dist n i j"
proof -
  show "(i + ring_dist n i j) mod n = j" "ring_dist n i j < n"
    using assms by (auto simp: ring_dist_def)
  show "m = ring_dist n i j" if "m < n" "(i + m) mod n = j"
  proof (cases "i + m < n")
    case False
    then have "(i + m) mod n = i + m - n" using assms that(1) by (simp add: mod_if)
    then show ?thesis using False that assms by (auto simp: ring_dist_def)
  qed (use that in \<open>auto simp: ring_dist_def\<close>)
qed

lemma alloc_first_loop_reach:
  assumes inv: "pmm_inv s" and i: "i < frames s" and j: "j < frames s" "\<not> frame_used s j"
    and "last_frame s < frames s \<Longrightarrow> ring_dist (frames s) i j < ring_dist (frames s) i (last_frame s)"
  shows "\<exists>k < frames s. \<not> frame_used s k \<and> alloc_first_loop (of_nat i) s = Some (take_frame (of_nat k) s)"
proof (rule alloc_first_loop_find [OF inv i, where m = "ring_dist (frames s) i j"])
  show "\<not> frame_used s ((i + ring_dist (frames s) i j) mod frames s)"
    by (simp only: ring_dist [OF i j(1)] j(2) simp_thms)
  show "(i + m') mod frames s \<noteq> last_frame s" if "m' \<le> ring_dist (frames s) i j" for m'
  proof
    assume *: "(i + m') mod frames s = last_frame s"
    then have L: "last_frame s < frames s" using i by (metis mod_less_divisor not_gr_zero not_less_zero)
    have "m' < frames s" using that ring_dist(2) [OF i j(1)] by simp
    then have "m' = ring_dist (frames s) i (last_frame s)" by (rule ring_dist(3) [OF i L _ *])
    then show False using assms(5) [OF L] that by simp
  qed
qed

lemma alloc_first_loop_returns:
  assumes inv: "pmm_inv s" and i: "i < frames s" and L: "last_frame s < frames s"
  shows "\<exists>r. alloc_first_loop (of_nat i) s = Some r"
proof (cases "\<exists>j < frames s. \<not> frame_used s j \<and> ring_dist (frames s) i j < ring_dist (frames s) i (last_frame s)")
  case True
  then show ?thesis using alloc_first_loop_reach [OF inv i] by blast
next
  case False
  let ?d = "ring_dist (frames s) i (last_frame s)"
  have "(i + m) mod frames s \<noteq> last_frame s \<and> frame_used s ((i + m) mod frames s)" if "m < ?d" for m
  proof -
    have m: "m < frames s" using that ring_dist(2) [OF i L] by simp
    have j: "(i + m) mod frames s < frames s" using i by simp
    have "m = ring_dist (frames s) i ((i + m) mod frames s)"
      by (rule ring_dist(3) [OF i j m refl])
    then show ?thesis using that False j by fastforce
  qed
  from alloc_first_loop_skip [OF inv i this]
  have "alloc_first_loop (of_nat i) s = alloc_first_loop (of_nat (last_frame s)) s"
    by (simp only: ring_dist [OF i L])
  then show ?thesis using alloc_first_loop_unfold [OF inv, of "last_frame s"] L by simp
qed

lemma AllocFirstFrame_start:
  assumes "pmm_inv s"
  shows "AllocFirstFrame s = alloc_first_loop (of_nat (last_frame s + 1)) s"
proof -
  have "last_frame s + 1 < 2 ^ 31" using pmm_invD [OF assms] by linarith
  moreover from this have "unat (last_used (PHYS_MEMORY_MAP s) + 1) = last_frame s + 1"
    by (simp add: unat_plus_if')
  ultimately have "u64_to_i32 (last_used (PHYS_MEMORY_MAP s) + 1) = of_nat (last_frame s + 1)"
    using u64_to_i32_small [of "last_used (PHYS_MEMORY_MAP s) + 1"] by (intro eq_of_nat) simp
  then show ?thesis by (simp only: AllocFirstFrame_def)
qed

lemma AllocFirstFrame_sound:
  assumes "pmm_inv s" "AllocFirstFrame s = Some r"
  shows "r = (0, s) \<or> (\<exists>k s'. r = (frame_addr k, s') \<and> k < bitmap_frames s \<and> k \<noteq> last_frame s
    \<and> frame_taken k s s' \<and> pmm_state.more s' = pmm_state.more s)"
proof (rule alloc_first_loop_sound)
  have L: "last_frame s + 1 < 2 ^ 31 - 1" "last_frame s + 1 < bitmap_frames s"
    using pmm_invD [OF assms(1)] by linarith+
  then have "unat (of_nat (last_frame s + 1) :: i32) = last_frame s + 1"
    by (intro of_nat_i32) simp
  then show "unat (of_nat (last_frame s + 1) :: i32) + 1 < 2 ^ 31"
    "unat (of_nat (last_frame s + 1) :: i32) < bitmap_frames s"
    using L by simp_all
  show "alloc_first_loop (of_nat (last_frame s + 1)) s = Some r"
    using assms AllocFirstFrame_start by metis
qed (rule assms)

lemma alloc_first_loop_step:
  assumes "pmm_inv s" "i \<le> frames s + 1" "i \<noteq> last_frame s" "frame_used s i"
  shows "alloc_first_loop (of_nat i) s = alloc_first_loop (of_nat ((i + 1) mod frames s)) s"
  using alloc_first_loop_unfold [OF assms(1,2)] assms(3,4) by simp

lemma mod_frames_less: "pmm_inv s \<Longrightarrow> k mod frames s < frames s"
  by (simp add: pmm_invD(1))

lemma frames_out_used: "pmm_inv s \<Longrightarrow> frame_used s (frames s + 1)"
  using pmm_inv_free(2) [of s "frames s + 1"] pmm_invD(3) [of s] by linarith

lemma AllocFirstFrame_returns_lemma:
  assumes inv: "pmm_inv s" and "last_frame s < frames s"
  shows "\<exists>r. AllocFirstFrame s = Some r"
proof (cases "last_frame s + 1 < frames s")
  case True
  then show ?thesis
    unfolding AllocFirstFrame_start [OF inv] by (intro alloc_first_loop_returns inv assms(2))
next
  case False
  have start: "last_frame s + 1 \<le> frames s + 1" using assms(2) by simp
  show ?thesis
    using alloc_first_loop_unfold [OF inv start]
      alloc_first_loop_returns [OF inv mod_frames_less [OF inv] assms(2)]
    unfolding AllocFirstFrame_start [OF inv] by (auto split: if_splits)
qed

lemma AllocFirstFrame_finds:
  assumes inv: "pmm_inv s" and j: "j < frames s" "j \<noteq> last_frame s" "\<not> frame_used s j"
  shows "\<exists>k \<le> frames s. \<not> frame_used s k \<and> AllocFirstFrame s = Some (take_frame (of_nat k) s)"
proof -
  let ?N = "frames s" and ?L = "last_frame s"
  have j0: "0 < j" using pmm_inv_free(1) [OF inv _ j(3)] j(1) pmm_invD(3) [OF inv] by simp
  have le: "?L + 1 \<le> ?N + 1" "?L \<le> ?N" using pmm_invD(5) [OF inv] by simp_all
  note start = alloc_first_loop_unfold [OF inv le(1)]
  consider "?L + 1 < ?N" | "?L + 1 = ?N" | "?L = ?N" using le(2) by linarith
  then show ?thesis
  proof cases
    case 1
    have "ring_dist ?N (?L + 1) j < ring_dist ?N (?L + 1) ?L"
      using 1 j by (auto simp: ring_dist_def)
    then show ?thesis
      using alloc_first_loop_reach [OF inv 1 j(1,3)] less_imp_le
      unfolding AllocFirstFrame_start [OF inv] by blast
  next
    case 2
    have "ring_dist ?N (1 mod ?N) j < ring_dist ?N (1 mod ?N) ?L"
      using 2 j j0 by (auto simp: ring_dist_def)
    from alloc_first_loop_reach [OF inv mod_frames_less [OF inv, of 1] j(1,3) this]
    obtain k where k: "k < ?N" "\<not> frame_used s k"
      "alloc_first_loop (of_nat (1 mod ?N)) s = Some (take_frame (of_nat k) s)" by blast
    have wrap: "(?L + 1 + 1) mod ?N = 1 mod ?N" by (simp only: 2 mod_add_self1)
    show ?thesis
    proof (cases "frame_used s (?L + 1)")
      case True
      then have "AllocFirstFrame s = Some (take_frame (of_nat k) s)"
        using alloc_first_loop_step [OF inv le(1) _ True] k(3)
        unfolding AllocFirstFrame_start [OF inv] wrap by simp
      then show ?thesis using k less_imp_le by blast
    next
      case False
      then have "AllocFirstFrame s = Some (take_frame (of_nat (?L + 1)) s)"
        using start unfolding AllocFirstFrame_start [OF inv] by simp
      then show ?thesis using False 2 by (metis order_refl)
    qed
  next
    case 3
    have "AllocFirstFrame s = alloc_first_loop (of_nat ((?L + 1 + 1) mod ?N)) s"
      unfolding AllocFirstFrame_start [OF inv]
      by (rule alloc_first_loop_step [OF inv le(1)]) (simp, simp only: 3 frames_out_used [OF inv])
    then show ?thesis
      using alloc_first_loop_reach [OF inv mod_frames_less [OF inv] j(1,3)] 3 less_imp_le
      by (metis less_irrefl)
  qed
qed

lemma AllocFirstFrame_stuck:
  fixes s :: "'a pmm_state_scheme"
  assumes inv: "pmm_inv s" and L: "last_frame s = frames s" and used: "\<And>k. k < frames s \<Longrightarrow> frame_used s k"
  shows "AllocFirstFrame s = None"
proof (rule ccontr)
  assume "AllocFirstFrame s \<noteq> None"
  then obtain r where "alloc_first_loop (of_nat (frames s + 1)) s = Some r"
    using L unfolding AllocFirstFrame_start [OF inv] by auto
  then have ret: "alloc_first_loop (of_nat ((frames s + 1 + 1) mod frames s)) s = Some r"
    using alloc_first_loop_step [OF inv _ _ frames_out_used [OF inv]] L by simp
  let ?P = "\<lambda>(i :: i32) (s :: 'a pmm_state_scheme) (r :: u64 \<times> 'a pmm_state_scheme). pmm_inv s \<longrightarrow> last_frame s = frames s \<longrightarrow> (\<forall>k < frames s. frame_used s k)
    \<longrightarrow> \<not> unat i < frames s"
  have "?P (of_nat ((frames s + 1 + 1) mod frames s)) s r"
  proof (rule alloc_first_loop.raw_induct [OF _ ret, where P = ?P], intro impI notI)
    fix loop :: "i32 \<Rightarrow> 'a pmm_state_scheme \<Rightarrow> (u64 \<times> 'a pmm_state_scheme) option"
      and i :: i32 and s :: "'a pmm_state_scheme" and r
    assume IH: "\<And>i s r. loop i s = Some r \<Longrightarrow> ?P i s r"
      and step: "(if i32_to_u64 i = last_used (PHYS_MEMORY_MAP s) then Some (0, s)
         else if \<not> PageIsUsed i s then Some (take_frame i s)
         else if num_entries (PHYS_MEMORY_MAP s) = 0 then None
         else loop (u64_to_i32 (i32_to_u64 (i + 1) mod num_entries (PHYS_MEMORY_MAP s))) s) = Some r"
      and inv: "pmm_inv s" and L: "last_frame s = frames s" and used: "\<forall>k < frames s. frame_used s k"
      and i: "unat i < frames s"
    let ?n = "num_entries (PHYS_MEMORY_MAP s)"
    have i31: "unat i + 1 < 2 ^ 31" and n: "0 < unat ?n" "unat ?n < 2 ^ 31"
      using i pmm_invD [OF inv] by linarith+
    then have nn: "nonneg i" by (simp add: nonneg_def)
    have "PageIsUsed i s" using used i PageIsUsed_iff [OF nn] by blast
    moreover have "i32_to_u64 i \<noteq> last_used (PHYS_MEMORY_MAP s)"
      using unat_i32_to_u64 [OF nn] i L by auto
    ultimately have "loop (u64_to_i32 (i32_to_u64 (i + 1) mod ?n)) s = Some r"
      using step by (auto split: if_splits)
    then have "\<not> (unat i + 1) mod unat ?n < unat ?n"
      using IH inv L used unfolding next_index(1) [OF i31 n, symmetric] by blast
    then show False using n(1) by simp
  qed
  moreover have "unat (of_nat ((frames s + 1 + 1) mod frames s) :: i32) = (frames s + 1 + 1) mod frames s"
    using mod_frames_less [OF inv] pmm_invD(2) [OF inv] by (intro of_nat_i32) (meson add_lessD1 order.strict_trans)
  ultimately show False using inv L used mod_frames_less [OF inv] by auto
qed

section \<open>The set of free frames\<close>

definition avail :: "'a pmm_state_scheme \<Rightarrow> nat set" where
  "avail s = {k. k < bitmap_frames s \<and> \<not> frame_used s k}"

text \<open>A frame that may be handed back: inside the managed memory, not frame 0 and not under the bitmap.\<close>

definition freeable :: "'a pmm_state_scheme \<Rightarrow> nat \<Rightarrow> bool" where
  "freeable s k \<longleftrightarrow> 0 < k \<and> k \<le> frames s \<and> clear_of_bitmap s k"

lemma availD:
  assumes "pmm_inv s" "k \<in> avail s"
  shows "freeable s k" "\<not> frame_used s k" "k < bitmap_frames s" "k < 2 ^ 31" "k < 2 ^ 52"
  using assms pmm_inv_free [OF assms(1)] by (auto simp: avail_def freeable_def)

lemma frame_taken_avail:
  assumes "frame_taken k s s'" "k < bitmap_frames s"
  shows "k \<in> avail s" "avail s' = avail s - {k}" "freeable s' = freeable s"
proof -
  have "bitmap_frames s' = bitmap_frames s" "clear_of_bitmap s' = clear_of_bitmap s" "frames s' = frames s"
    using assms(1) by (simp_all add: fun_eq_iff bitmap_frames_def clear_of_bitmap_def frame_taken_def)
  then show "avail s' = avail s - {k}" "freeable s' = freeable s"
    using assms by (auto simp: avail_def frame_taken_def freeable_def fun_eq_iff)
  show "k \<in> avail s" using assms by (simp add: avail_def frame_taken_def)
qed

lemma frame_addr_nonzero: "0 < k \<Longrightarrow> k < 2 ^ 52 \<Longrightarrow> frame_addr k \<noteq> 0"
  using unat_frame_addr [of k] by auto

lemma frame_addr_inj: "k < 2 ^ 52 \<Longrightarrow> j < 2 ^ 52 \<Longrightarrow> frame_addr k = frame_addr j \<Longrightarrow> k = j"
  by (drule arg_cong [where f = unat]) (simp add: unat_frame_addr)

lemma FreeFrame_index:
  assumes "k < 2 ^ 31"
  shows "u64_to_i32 (frame_addr k div FRAME_SIZE) = of_nat k"
proof (rule eq_of_nat)
  have "k < 2 ^ 52" using assms by simp
  then have "unat (frame_addr k div FRAME_SIZE) = k"
    by (simp add: unat_div unat_frame_addr)
  then show "unat (u64_to_i32 (frame_addr k div FRAME_SIZE)) = k"
    using u64_to_i32_small [of "frame_addr k div FRAME_SIZE"] assms by simp
qed

lemma FreeFrame_effect:
  assumes inv: "pmm_inv s" and k: "freeable s k"
  defines "s' \<equiv> FreeFrame (frame_addr k) s"
  shows "PHYS_MEMORY_MAP s' = PHYS_MEMORY_MAP s"
    and "pmm_state.more s' = pmm_state.more s"
    and "j < bitmap_frames s \<Longrightarrow> frame_used s' j \<longleftrightarrow> j \<noteq> k \<and> frame_used s j"
    and "in_range x (frame_addr k) 4096 \<Longrightarrow> memory s' x = 0"
    and "\<not> in_range x (frame_addr k) 4096 \<Longrightarrow>
      x \<noteq> bitmap (PHYS_MEMORY_MAP s) + of_nat (k div 8) \<Longrightarrow> memory s' x = memory s x"
proof -
  let ?s1 = "s\<lparr>memory := memset (memory s) (frame_addr k) 0 FRAME_SIZE\<rparr>"
  have k31: "k < 2 ^ 31" "k < 2 ^ 52" "k < bitmap_frames s"
    using k pmm_invD(2,3) [OF inv] by (simp_all add: freeable_def)
  note ni = of_nat_i32 [OF k31(1)]
  have s': "s' = SetPageFree (of_nat k) ?s1"
    unfolding s'_def FreeFrame_def Let_def by (simp only: FreeFrame_index [OF k31(1)])
  show "PHYS_MEMORY_MAP s' = PHYS_MEMORY_MAP s" "pmm_state.more s' = pmm_state.more s"
    unfolding s' by (simp_all add: SetPageFree_def Let_def)
  have mem: "memory s' = (memory ?s1)(bitmap (PHYS_MEMORY_MAP s) + of_nat (k div 8) :=
      unset_bit (k mod 8) (memory ?s1 (bitmap (PHYS_MEMORY_MAP s) + of_nat (k div 8))))"
    unfolding s' SetPageFree_memory [OF ni(2)] ni(1) by simp
  have out: "\<not> in_range (bitmap (PHYS_MEMORY_MAP s) + of_nat (k div 8)) (frame_addr k) 4096"
    using k k31 pmm_invD(4) [OF inv] by (intro bitmap_byte_outside) (auto simp: freeable_def)
  show "memory s' x = 0" if "in_range x (frame_addr k) 4096"
    using that out unfolding mem by (auto simp: mem_simps)
  show "memory s' x = memory s x"
    if "\<not> in_range x (frame_addr k) 4096" "x \<noteq> bitmap (PHYS_MEMORY_MAP s) + of_nat (k div 8)"
    using that unfolding mem by (auto simp: mem_simps)
  show "frame_used s' j \<longleftrightarrow> j \<noteq> k \<and> frame_used s j" if j: "j < bitmap_frames s"
  proof -
    have "j < 2 ^ 64" using j bitmap_frames_less [of s] by simp
    then have "frame_used s' j \<longleftrightarrow> j \<noteq> k \<and> frame_used ?s1 j"
      unfolding s' by (simp only: frame_used_SetPageFree [OF ni(2)] ni(1))
    moreover have "frame_used ?s1 j \<longleftrightarrow> frame_used s j"
      using k k31 j pmm_invD(4) [OF inv] by (intro frame_used_memset_frame) (auto simp: freeable_def)
    ultimately show ?thesis by simp
  qed
qed

lemma FreeFrame_avail:
  assumes inv: "pmm_inv s" and k: "freeable s k"
  shows "pmm_inv (FreeFrame (frame_addr k) s)"
    and "avail (FreeFrame (frame_addr k) s) = insert k (avail s)"
    and "freeable (FreeFrame (frame_addr k) s) = freeable s"
proof -
  let ?s' = "FreeFrame (frame_addr k) s"
  note eff = FreeFrame_effect [OF inv k]
  have same: "bitmap_frames ?s' = bitmap_frames s" "clear_of_bitmap ?s' = clear_of_bitmap s"
    by (simp_all add: fun_eq_iff bitmap_frames_def clear_of_bitmap_def eff(1))
  have "k < bitmap_frames s" using k pmm_invD(3) [OF inv] by (simp add: freeable_def)
  then show "avail ?s' = insert k (avail s)"
    by (auto simp: avail_def same eff(3))
  show "freeable ?s' = freeable s" by (simp add: fun_eq_iff freeable_def eff(1) same)
  show "pmm_inv ?s'"
    using inv k unfolding pmm_inv_def Let_def same eff(1) freeable_def by (auto simp: eff(3))
qed

lemma num_free_loop_card:
  assumes "i \<le> frames s" "frames s < 2 ^ 31" "c \<le> i"
  shows "num_free_loop (of_nat i) (of_nat c) s
    = Some (of_nat (c + card {k. i \<le> k \<and> k < frames s \<and> \<not> frame_used s k}))"
  using assms
proof (induction "frames s - i" arbitrary: i c)
  case 0
  then have "i = frames s" by simp
  moreover have "unat (i32_to_u64 (of_nat i)) = i"
    using 0 of_nat_i32 [of i] by (simp only: unat_i32_to_u64)
  ultimately have "num_free_loop (of_nat i) (of_nat c) s = Some (of_nat c)"
    by (subst num_free_loop.simps) (simp add: word_less_nat_alt)
  moreover have "{k. i \<le> k \<and> k < frames s \<and> \<not> frame_used s k} = {}" using \<open>i = frames s\<close> by auto
  ultimately show ?case by (simp only: card.empty add_0_right)
next
  case (Suc d)
  let ?A = "\<lambda>i. {k. i \<le> k \<and> k < frames s \<and> \<not> frame_used s k}"
  have i: "i < 2 ^ 31" "i < frames s" using Suc by simp_all
  note ni = of_nat_i32 [OF i(1)]
  have "?A i = (if frame_used s i then {} else {i}) \<union> ?A (i + 1)"
    using i(2) by (auto simp: le_less Suc_le_eq)
  then have card: "card (?A i) = (if frame_used s i then 0 else 1) + card (?A (i + 1))"
    by simp
  have "unat (i32_to_u64 (of_nat i)) = i" using ni by (simp only: unat_i32_to_u64)
  then have "i32_to_u64 (of_nat i) < num_entries (PHYS_MEMORY_MAP s)"
    using i(2) by (simp add: word_less_nat_alt)
  then have "num_free_loop (of_nat i) (of_nat c) s =
    num_free_loop (of_nat (i + 1)) (of_nat (c + (if frame_used s i then 0 else 1))) s"
    using PageIsUsed_iff [OF ni(2), of s] unfolding ni(1)
    by (subst num_free_loop.simps) (simp add: add.commute)
  also have "\<dots> = Some (of_nat (c + (if frame_used s i then 0 else 1) + card (?A (i + 1))))"
    using Suc i by (intro Suc.hyps) auto
  finally show ?case by (simp add: card add.assoc)
qed

lemma NumFreeFrames_card:
  assumes "frames s < 2 ^ 31"
  shows "NumFreeFrames s = Some (of_nat (card {k. k < frames s \<and> \<not> frame_used s k}))"
  using num_free_loop_card [of 0 s 0] assms by (simp add: NumFreeFrames_def)

section \<open>Contiguous allocation\<close>

lemma PageIsUsed_of_nat: "k < 2 ^ 31 \<Longrightarrow> PageIsUsed (of_nat k) s = frame_used s k"
  using PageIsUsed_iff [OF of_nat_i32(2)] of_nat_i32(1) by simp

lemma i32_to_u64_of_nat: "k < 2 ^ 31 \<Longrightarrow> i32_to_u64 (of_nat k) = (of_nat k :: u64)"
  using i32_to_u64_nonneg [OF of_nat_i32(2)] of_nat_i32(1) by simp

lemma unat_diff_of_nat: "h \<le> t \<Longrightarrow> t < 2 ^ 64 \<Longrightarrow> unat (of_nat t - of_nat h :: u64) = t - h"
  using unat_of_nat64 [of "t - h"] by (simp add: of_nat_diff)

lemma contiguous_scan_cases:
  assumes inv: "pmm_inv s" and "h \<le> t" "t \<le> frames s + 1" "t \<le> h + unat p + 1"
  shows "(\<exists>j. t \<le> j \<and> j \<le> frames s + 1 \<and> j \<le> h + unat p \<and> frame_used s j
      \<and> contiguous_scan (of_nat t) (of_nat h) p s = Some (Inl (of_nat j)))
    \<or> (h + unat p \<le> frames s \<and> (\<forall>k. t \<le> k \<and> k \<le> h + unat p \<longrightarrow> \<not> frame_used s k)
      \<and> contiguous_scan (of_nat t) (of_nat h) p s = Some (Inr (of_nat (h + unat p + 1))))"
  using assms(2-)
proof (induction "frames s + 1 - t" arbitrary: t rule: less_induct)
  case less
  have t: "t < 2 ^ 31" "t < 2 ^ 64" using less.prems(2) pmm_invD(2) [OF inv] by simp_all
  have cond: "i32_to_u64 (of_nat t) - of_nat h \<le> p \<longleftrightarrow> t \<le> h + unat p"
    using unat_diff_of_nat [OF less.prems(1) t(2)] less.prems(1)
    unfolding i32_to_u64_of_nat [OF t(1)] word_le_nat_alt by auto
  note step = contiguous_scan.simps [of "of_nat t" "of_nat h" p s, unfolded cond PageIsUsed_of_nat [OF t(1)]]
  consider "h + unat p < t" | "t \<le> h + unat p" "frame_used s t" | "t \<le> h + unat p" "\<not> frame_used s t"
    by linarith
  then show ?case
  proof cases
    case 1
    then have "t = h + unat p + 1" using less.prems(3) by simp
    then show ?thesis using step 1 less.prems(2) by auto
  next
    case 2
    then show ?thesis using step less.prems(2) by auto
  next
    case 3
    have tN: "t \<noteq> frames s + 1" using 3(2) frames_out_used [OF inv] by auto
    then have "(\<exists>j. t + 1 \<le> j \<and> j \<le> frames s + 1 \<and> j \<le> h + unat p \<and> frame_used s j
        \<and> contiguous_scan (of_nat (t + 1)) (of_nat h) p s = Some (Inl (of_nat j)))
      \<or> (h + unat p \<le> frames s \<and> (\<forall>k. t + 1 \<le> k \<and> k \<le> h + unat p \<longrightarrow> \<not> frame_used s k)
        \<and> contiguous_scan (of_nat (t + 1)) (of_nat h) p s = Some (Inr (of_nat (h + unat p + 1))))"
      using 3(1) less.prems by (intro less.hyps) auto
    moreover have *: "contiguous_scan (of_nat t) (of_nat h) p s = contiguous_scan (of_nat (t + 1)) (of_nat h) p s"
      using step 3 by (simp add: add.commute)
    ultimately show ?thesis
    proof (elim disjE exE conjE)
      fix j assume "t + 1 \<le> j" "j \<le> frames s + 1" "j \<le> h + unat p" "frame_used s j"
        "contiguous_scan (of_nat (t + 1)) (of_nat h) p s = Some (Inl (of_nat j))"
      then show ?thesis unfolding * by (intro disjI1 exI [of _ j] conjI) (assumption | simp)+
    next
      assume a: "h + unat p \<le> frames s" "\<forall>k. t + 1 \<le> k \<and> k \<le> h + unat p \<longrightarrow> \<not> frame_used s k"
        "contiguous_scan (of_nat (t + 1)) (of_nat h) p s = Some (Inr (of_nat (h + unat p + 1)))"
      have "\<not> frame_used s k" if "t \<le> k" "k \<le> h + unat p" for k
        using a(2) 3(2) that by (cases "k = t") auto
      then show ?thesis unfolding * using a(1,3) by blast
    qed
  qed
qed

lemma set_used_range_effect:
  assumes "t < bitmap_frames s" "t + 1 < 2 ^ 31" "i \<le> t + 1"
  shows "\<exists>s'. set_used_range (of_nat i) (of_nat t) s = Some s' \<and> PHYS_MEMORY_MAP s' = PHYS_MEMORY_MAP s
    \<and> pmm_state.more s' = pmm_state.more s
    \<and> (\<forall>k < 2 ^ 64. frame_used s' k \<longleftrightarrow> i \<le> k \<and> k \<le> t \<or> frame_used s k)
    \<and> (\<forall>x. \<not> in_range x (bitmap (PHYS_MEMORY_MAP s)) (unat (bitmap_size (PHYS_MEMORY_MAP s))) \<longrightarrow>
        memory s' x = memory s x)"
  using assms
proof (induction "t + 1 - i" arbitrary: i s)
  case 0
  then have i: "i = t + 1" by simp
  have "t < 2 ^ 31" "t + 1 < 2 ^ 31" using assms(2) by simp_all
  note n = of_nat_i32 [OF this(1)] of_nat_i32 [OF this(2)]
  have "sint (of_nat t :: i32) = int t" "sint (of_nat (t + 1) :: i32) = int (t + 1)"
    by (simp_all only: sint_nonneg n)
  then have "set_used_range (of_nat i) (of_nat t) s = Some s"
    using i by (subst set_used_range.simps) simp
  then show ?case using i by auto
next
  case (Suc d)
  have it: "i \<le> t" using Suc by simp
  have "i < 2 ^ 31" "t < 2 ^ 31" using assms(2) it by simp_all
  note n = of_nat_i32 [OF this(1)] of_nat_i32 [OF this(2)]
  have "sint (of_nat t :: i32) = int t" "sint (of_nat i :: i32) = int i"
    by (simp_all only: sint_nonneg n)
  then have step: "set_used_range (of_nat i) (of_nat t) s = set_used_range (of_nat (i + 1)) (of_nat t) (SetPageUsed (of_nat i) s)"
    using it by (subst set_used_range.simps) (simp add: add.commute)
  let ?s1 = "SetPageUsed (of_nat i) s"
  have bf: "bitmap_frames ?s1 = bitmap_frames s" by (simp add: bitmap_frames_def)
  have "i div 8 < unat (bitmap_size (PHYS_MEMORY_MAP s))"
    using it Suc.prems(1) by (simp add: bitmap_frames_def)
  moreover from this have "unat (of_nat (i div 8) :: u64) = i div 8"
    using unat_less32 [of "bitmap_size (PHYS_MEMORY_MAP s)"] by (intro unat_of_nat64) simp
  ultimately have byte: "in_range (bitmap (PHYS_MEMORY_MAP s) + of_nat (i div 8)) (bitmap (PHYS_MEMORY_MAP s))
      (unat (bitmap_size (PHYS_MEMORY_MAP s)))"
    unfolding in_range_def by simp
  have "\<exists>s'. set_used_range (of_nat (i + 1)) (of_nat t) ?s1 = Some s' \<and> PHYS_MEMORY_MAP s' = PHYS_MEMORY_MAP ?s1
    \<and> pmm_state.more s' = pmm_state.more ?s1
    \<and> (\<forall>k < 2 ^ 64. frame_used s' k \<longleftrightarrow> i + 1 \<le> k \<and> k \<le> t \<or> frame_used ?s1 k)
    \<and> (\<forall>x. \<not> in_range x (bitmap (PHYS_MEMORY_MAP ?s1)) (unat (bitmap_size (PHYS_MEMORY_MAP ?s1))) \<longrightarrow>
        memory s' x = memory ?s1 x)"
    using Suc it by (intro Suc.hyps) (simp_all add: bf)
  then show ?case
    using it byte unfolding step
    by (auto simp: frame_used_SetPageUsed n(2) n(1) SetPageUsed_memory Suc_le_eq le_less)
qed

text \<open>
  What a successful contiguous allocation of \<open>p\<close> pages at frame \<open>h\<close> does: \<open>p + 1\<close> frames were
  free, \<open>p + 2\<close> are marked used, the first \<open>p\<close> are cleared.
\<close>

definition run_taken :: "nat \<Rightarrow> nat \<Rightarrow> 'a pmm_state_scheme \<Rightarrow> 'a pmm_state_scheme \<Rightarrow> bool" where
  "run_taken h p s s' \<longleftrightarrow>
     (\<forall>k. h \<le> k \<and> k \<le> h + p \<longrightarrow> \<not> frame_used s k)
   \<and> (\<forall>k < bitmap_frames s. frame_used s' k \<longleftrightarrow> h \<le> k \<and> k \<le> h + p + 1 \<or> frame_used s k)
   \<and> (\<forall>x. in_range x (frame_addr h) (4096 * p) \<longrightarrow> memory s' x = 0)
   \<and> (\<forall>x. \<not> in_range x (frame_addr h) (4096 * p) \<longrightarrow>
        \<not> in_range x (bitmap (PHYS_MEMORY_MAP s)) (unat (bitmap_size (PHYS_MEMORY_MAP s))) \<longrightarrow>
        memory s' x = memory s x)
   \<and> PHYS_MEMORY_MAP s' = (PHYS_MEMORY_MAP s)\<lparr>last_used := of_nat (h + p)\<rparr>"

lemma run_clear_of_bitmap:
  assumes inv: "pmm_inv s" and free: "\<And>k. h \<le> k \<Longrightarrow> k \<le> h + p \<Longrightarrow> \<not> frame_used s k" and hp: "h + p \<le> frames s"
    and x: "in_range x (frame_addr h) (4096 * p)"
  shows "\<not> in_range x (bitmap (PHYS_MEMORY_MAP s)) (unat (bitmap_size (PHYS_MEMORY_MAP s)))"
proof
  assume b: "in_range x (bitmap (PHYS_MEMORY_MAP s)) (unat (bitmap_size (PHYS_MEMORY_MAP s)))"
  have small: "h + p < 2 ^ 31" using hp pmm_invD(2) [OF inv] by simp
  then have fa: "unat (frame_addr h) = 4096 * h" by (intro unat_frame_addr) simp
  have "unat (frame_addr h) + 4096 * p \<le> 2 ^ 64" unfolding fa using small by simp
  then have r: "4096 * h \<le> unat x" "unat x < 4096 * h + 4096 * p"
    using x fa by (auto simp: in_range_nowrap)
  define k where "k = unat x div 4096"
  have k: "h \<le> k" "k < h + p" using r unfolding k_def by (auto simp: less_mult_imp_div_less)
  have x': "4096 * k \<le> unat x" "unat x < 4096 * k + 4096" unfolding k_def by linarith+
  have "k < bitmap_frames s" using k hp pmm_invD(3) [OF inv] by simp
  then have "clear_of_bitmap s k" using free [of k] k by (intro pmm_inv_free(3) [OF inv]) simp_all
  moreover have "unat (bitmap (PHYS_MEMORY_MAP s)) \<le> unat x"
    "unat x < unat (bitmap (PHYS_MEMORY_MAP s)) + unat (bitmap_size (PHYS_MEMORY_MAP s))"
    using b in_range_nowrap [OF pmm_invD(4) [OF inv], of x] by blast+
  ultimately show False using x' by (auto simp: clear_of_bitmap_def)
qed

lemma bitmap_byte_in:
  assumes "j < bitmap_frames s"
  shows "in_range (bitmap (PHYS_MEMORY_MAP s) + of_nat (j div 8)) (bitmap (PHYS_MEMORY_MAP s))
    (unat (bitmap_size (PHYS_MEMORY_MAP s)))"
proof -
  have "j div 8 < unat (bitmap_size (PHYS_MEMORY_MAP s))" using assms by (simp add: bitmap_frames_def less_mult_imp_div_less mult.commute)
  moreover from this have "unat (of_nat (j div 8) :: u64) = j div 8"
    using unat_less32 [of "bitmap_size (PHYS_MEMORY_MAP s)"] by (intro unat_of_nat64) simp
  ultimately show ?thesis unfolding in_range_def by simp
qed

lemma mark_run_taken:
  assumes inv: "pmm_inv s" and hp: "h + unat p \<le> frames s"
    and free: "\<And>k. h \<le> k \<Longrightarrow> k \<le> h + unat p \<Longrightarrow> \<not> frame_used s k"
  shows "\<exists>s1. set_used_range (of_nat h) (of_nat (h + unat p + 1)) s = Some s1
    \<and> run_taken h (unat p) s (s1\<lparr>memory := memset (memory s1) (frame_addr h) 0 (FRAME_SIZE * p),
         PHYS_MEMORY_MAP := (PHYS_MEMORY_MAP s1)\<lparr>last_used := of_nat (h + unat p)\<rparr>\<rparr>)
    \<and> pmm_state.more s1 = pmm_state.more s"
proof -
  let ?B = "bitmap (PHYS_MEMORY_MAP s)" and ?S = "unat (bitmap_size (PHYS_MEMORY_MAP s))"
  have t: "h + unat p + 1 < bitmap_frames s" "h + unat p + 1 + 1 < 2 ^ 31" "h \<le> h + unat p + 1 + 1"
    using hp pmm_invD(2,3) [OF inv] by linarith+
  from set_used_range_effect [OF t] obtain s1 where
    s1: "set_used_range (of_nat h) (of_nat (h + unat p + 1)) s = Some s1"
      "PHYS_MEMORY_MAP s1 = PHYS_MEMORY_MAP s" "pmm_state.more s1 = pmm_state.more s"
      "\<And>k. k < 2 ^ 64 \<Longrightarrow> frame_used s1 k \<longleftrightarrow> h \<le> k \<and> k \<le> h + unat p + 1 \<or> frame_used s k"
      "\<And>x. \<not> in_range x ?B ?S \<Longrightarrow> memory s1 x = memory s x"
    by blast
  have "unat p < 2 ^ 31" using t(2) by simp
  then have len: "unat (FRAME_SIZE * p) = 4096 * unat p" by (simp add: unat_mult_lem [THEN iffD1])
  note run = run_clear_of_bitmap [OF inv free hp]
  let ?s2 = "s1\<lparr>memory := memset (memory s1) (frame_addr h) 0 (FRAME_SIZE * p)\<rparr>"
  have "frame_used ?s2 k \<longleftrightarrow> h \<le> k \<and> k \<le> h + unat p + 1 \<or> frame_used s k" if k: "k < bitmap_frames s" for k
  proof -
    have "\<not> in_range (?B + of_nat (k div 8)) (frame_addr h) (4096 * unat p)"
      using run bitmap_byte_in [OF k] by blast
    then have "frame_used ?s2 k \<longleftrightarrow> frame_used s1 k"
      by (simp add: frame_used_def mem_simps len s1(2))
    moreover have "k < 2 ^ 64" using k bitmap_frames_less [of s] by simp
    ultimately show ?thesis by (simp only: s1(4))
  qed
  then have "run_taken h (unat p) s (?s2\<lparr>PHYS_MEMORY_MAP := (PHYS_MEMORY_MAP s1)\<lparr>last_used := of_nat (h + unat p)\<rparr>\<rparr>)"
    using free s1(2,5) by (auto simp: run_taken_def mem_simps len)
  then show ?thesis using s1(1,3) by auto
qed

lemma run_taken_inv:
  assumes inv: "pmm_inv s" and taken: "run_taken h p s s'" and hp: "h + p \<le> frames s"
  shows "pmm_inv s'"
proof -
  have mm: "PHYS_MEMORY_MAP s' = PHYS_MEMORY_MAP s\<lparr>last_used := of_nat (h + p)\<rparr>"
    using taken by (simp add: run_taken_def)
  have "bitmap_frames s' = bitmap_frames s" "clear_of_bitmap s' = clear_of_bitmap s"
    by (simp_all add: fun_eq_iff bitmap_frames_def clear_of_bitmap_def mm)
  moreover have "h + p < 2 ^ 64" using hp unat_less64 [of "num_entries (PHYS_MEMORY_MAP s)"] by linarith
  then have "unat (of_nat (h + p) :: u64) = h + p" by (rule unat_of_nat64)
  ultimately show ?thesis
    using inv taken hp unfolding pmm_inv_def Let_def mm run_taken_def by auto
qed

lemma u64_to_i32_of_nat: "k < 2 ^ 31 \<Longrightarrow> u64_to_i32 (of_nat k) = of_nat k"
  using u64_to_i32_small [of "of_nat k"] by (intro eq_of_nat) simp

lemma contiguous_loop_sound:
  fixes s :: "'a pmm_state_scheme"
  assumes ret: "contiguous_loop head p s = Some r" and inv: "pmm_inv s" and head: "unat head \<le> frames s + 1"
  shows "r = (0, s) \<or> (\<exists>h s'. r = (frame_addr h, s') \<and> 0 < h \<and> h + unat p \<le> frames s
    \<and> run_taken h (unat p) s s' \<and> pmm_state.more s' = pmm_state.more s)"
proof -
  let ?Q = "\<lambda>(s :: 'a pmm_state_scheme) p r. r = (0, s) \<or> (\<exists>h s'. r = (frame_addr h, s') \<and> 0 < h \<and> h + unat p \<le> frames s
    \<and> run_taken h (unat p) s s' \<and> pmm_state.more s' = pmm_state.more s)"
  let ?P = "\<lambda>(head :: u64) (p :: u64) s r. pmm_inv s \<longrightarrow> unat head \<le> frames s + 1 \<longrightarrow> ?Q s p r"
  have "?P head p s r"
  proof (rule contiguous_loop.raw_induct [OF _ ret, where P = ?P], intro impI)
    fix loop :: "u64 \<Rightarrow> u64 \<Rightarrow> 'a pmm_state_scheme \<Rightarrow> (u64 \<times> 'a pmm_state_scheme) option"
      and head p and s :: "'a pmm_state_scheme" and r
    assume IH: "\<And>head p s r. loop head p s = Some r \<Longrightarrow> ?P head p s r"
      and step: "(if head = last_used (PHYS_MEMORY_MAP s) then Some (0, s)
        else case contiguous_scan (u64_to_i32 head) head p s of
          None \<Rightarrow> None
        | Some (Inl tail) \<Rightarrow>
            (if num_entries (PHYS_MEMORY_MAP s) = 0 then None
             else loop ((i32_to_u64 tail + 1) mod num_entries (PHYS_MEMORY_MAP s)) p s)
        | Some (Inr tail) \<Rightarrow>
            (case set_used_range (u64_to_i32 head) tail s of
               None \<Rightarrow> None
             | Some s1 \<Rightarrow>
                 (let frame = head * FRAME_SIZE;
                      s2 = s1\<lparr>memory := memset (memory s1) frame 0 (FRAME_SIZE * p)\<rparr>
                  in Some (frame, s2\<lparr>PHYS_MEMORY_MAP :=
                       (PHYS_MEMORY_MAP s2)\<lparr>last_used := head + p\<rparr>\<rparr>)))) = Some r"
      and inv: "pmm_inv s" and head: "unat head \<le> frames s + 1"
    define h where "h = unat head"
    have h31: "h < 2 ^ 31" using head pmm_invD(2) [OF inv] by (simp add: h_def)
    have hd: "head = of_nat h" "u64_to_i32 head = of_nat h"
      using u64_to_i32_of_nat [OF h31] by (simp_all add: h_def)
    have h: "h \<le> frames s + 1" "h \<le> h + unat p + 1" using head by (simp_all add: h_def)
    show "?Q s p r"
    proof (cases "head = last_used (PHYS_MEMORY_MAP s)")
      case False
      from contiguous_scan_cases [OF inv order_refl h] show ?thesis
      proof (elim disjE exE conjE)
        fix j
        assume "j \<le> frames s + 1" and
          scan: "contiguous_scan (of_nat h) (of_nat h) p s = Some (Inl (of_nat j))"
        have "num_entries (PHYS_MEMORY_MAP s) \<noteq> 0" using pmm_invD(1) [OF inv] by auto
        then have "loop ((i32_to_u64 (of_nat j) + 1) mod num_entries (PHYS_MEMORY_MAP s)) p s = Some r"
          using step False scan unfolding hd(2) unfolding hd(1) by (simp split: if_splits)
        moreover have "unat ((i32_to_u64 (of_nat j) + 1) mod num_entries (PHYS_MEMORY_MAP s)) \<le> frames s + 1"
          unfolding unat_mod_distrib using mod_frames_less [OF inv] by (meson less_imp_le trans_le_add1)
        ultimately show ?thesis using IH inv by blast
      next
        assume hp: "h + unat p \<le> frames s" and free: "\<forall>k. h \<le> k \<and> k \<le> h + unat p \<longrightarrow> \<not> frame_used s k"
          and scan: "contiguous_scan (of_nat h) (of_nat h) p s = Some (Inr (of_nat (h + unat p + 1)))"
        obtain s1 where s1: "set_used_range (of_nat h) (of_nat (h + unat p + 1)) s = Some s1"
          "run_taken h (unat p) s (s1\<lparr>memory := memset (memory s1) (frame_addr h) 0 (FRAME_SIZE * p),
             PHYS_MEMORY_MAP := (PHYS_MEMORY_MAP s1)\<lparr>last_used := of_nat (h + unat p)\<rparr>\<rparr>)"
          "pmm_state.more s1 = pmm_state.more s"
          using mark_run_taken [OF inv hp] free by blast
        have "h < bitmap_frames s" using hp pmm_invD(3) [OF inv] by simp
        then have "0 < h" using pmm_inv_free(1) [OF inv, of h] free by simp
        moreover have "of_nat (h + unat p) = head + p" by (simp add: hd)
        moreover have "head * FRAME_SIZE = frame_addr h" by (simp only: hd frame_addr_mult)
        ultimately have "r = (frame_addr h, s1\<lparr>memory := memset (memory s1) (frame_addr h) 0 (FRAME_SIZE * p),
             PHYS_MEMORY_MAP := (PHYS_MEMORY_MAP s1)\<lparr>last_used := of_nat (h + unat p)\<rparr>\<rparr>)"
          using step False scan s1(1) unfolding hd(2) unfolding hd(1) by (simp add: Let_def)
        then show ?thesis using s1(2,3) hp \<open>0 < h\<close> by auto
      qed
    qed (use step in simp)
  qed
  then show ?thesis using inv head by blast
qed

lemma round_up_pages: "(n + 4095) div 4096 = n div 4096 + (if 0 < n mod 4096 then 1 else 0 :: nat)"
proof -
  define q r where "q = n div 4096" and "r = n mod 4096"
  have "n = 4096 * q + r" "r < 4096" by (simp_all add: q_def r_def)
  then have "(n + 4095) div 4096 = q + (if 0 < r then 1 else 0)"
    by (intro div_nat_eqI) auto
  then show ?thesis by (simp only: q_def r_def)
qed

lemma AllocContiguous_pages:
  "unat (sz div FRAME_SIZE + (if sz mod FRAME_SIZE > 0 then 1 else 0)) = (unat sz + 4095) div 4096"
proof -
  have "unat sz div 4096 < 2 ^ 52" using unat_less64 [of sz] by (simp add: less_mult_imp_div_less)
  then have "unat sz div 4096 + 1 < 2 ^ 64" by simp
  moreover have "unat (sz div FRAME_SIZE) = unat sz div 4096" by (simp add: unat_div)
  moreover have "sz mod FRAME_SIZE > 0 \<longleftrightarrow> unat sz mod 4096 > 0"
    by (simp add: word_less_nat_alt unat_mod_distrib)
  ultimately show ?thesis
    unfolding round_up_pages by (cases "0 < unat sz mod 4096") (simp_all add: unat_plus_if')
qed

lemma AllocContiguous_sound:
  assumes inv: "pmm_inv s" and ret: "AllocContiguous sz s = Some r"
  shows "r = (0, s) \<or> (\<exists>h s'. r = (frame_addr h, s') \<and> 0 < h \<and> h + (unat sz + 4095) div 4096 \<le> frames s
    \<and> run_taken h ((unat sz + 4095) div 4096) s s' \<and> pmm_state.more s' = pmm_state.more s)"
proof -
  have "unat (last_used (PHYS_MEMORY_MAP s) + 1) \<le> frames s + 1"
    using pmm_invD(2,5) [OF inv] by (simp add: unat_plus_if')
  then show ?thesis
    by (rule contiguous_loop_sound [OF ret [unfolded AllocContiguous_def Let_def] inv,
      unfolded AllocContiguous_pages])
qed

section \<open>The contract of a frame allocator\<close>

text \<open>
  The clients of the physical memory manager see a set of free frames: an allocation takes an
  element out of it or fails without effect, a release puts the frame back.
\<close>

locale frame_allocator =
  fixes alloc :: "'s \<Rightarrow> (u64 \<times> 's) option"
    and release :: "u64 \<Rightarrow> 's \<Rightarrow> 's"
    and inv :: "'s \<Rightarrow> bool"
    and free_set :: "'s \<Rightarrow> nat set"
    and may_free :: "'s \<Rightarrow> nat \<Rightarrow> bool"
    and addr :: "nat \<Rightarrow> u64"
  assumes alloc_cases: "inv s \<Longrightarrow> alloc s = Some (f, s') \<Longrightarrow>
      f = 0 \<and> s' = s \<or> (\<exists>k \<in> free_set s. f = addr k \<and> f \<noteq> 0 \<and> free_set s' = free_set s - {k}
        \<and> may_free s' = may_free s \<and> inv s')"
    and release_ok: "inv s \<Longrightarrow> may_free s k \<Longrightarrow>
      inv (release (addr k) s) \<and> free_set (release (addr k) s) = insert k (free_set s)
        \<and> may_free (release (addr k) s) = may_free s"
    and free_may: "inv s \<Longrightarrow> k \<in> free_set s \<Longrightarrow> may_free s k"
    and addr_inj: "inv s \<Longrightarrow> may_free s k \<Longrightarrow> may_free s j \<Longrightarrow> addr k = addr j \<Longrightarrow> k = j"

text \<open>A client that takes \<open>n\<close> frames and stops at the first failure.\<close>

fun take_frames :: "('s \<Rightarrow> (u64 \<times> 's) option) \<Rightarrow> nat \<Rightarrow> 's \<Rightarrow> (u64 list \<times> 's) option" where
  "take_frames alloc 0 s = Some ([], s)"
| "take_frames alloc (Suc n) s =
     (case alloc s of
        None \<Rightarrow> None
      | Some (f, s1) \<Rightarrow>
          if f = 0 then Some ([], s1)
          else case take_frames alloc n s1 of
            None \<Rightarrow> None
          | Some (fs, s2) \<Rightarrow> Some (f # fs, s2))"

context frame_allocator begin

lemma alloc_release:
  assumes "inv s" "alloc s = Some (f, s')" "f \<noteq> 0"
  shows "inv (release f s')" "free_set (release f s') = free_set s"
proof -
  obtain k where k: "k \<in> free_set s" "f = addr k" "free_set s' = free_set s - {k}" "may_free s' = may_free s" "inv s'"
    using alloc_cases [OF assms(1,2)] assms(3) by blast
  then have "may_free s' k" using free_may [OF assms(1)] by simp
  from release_ok [OF k(5) this] show "inv (release f s')" "free_set (release f s') = free_set s"
    using k by auto
qed

lemma take_frames_distinct:
  "inv s \<Longrightarrow> take_frames alloc n s = Some (fs, s') \<Longrightarrow>
    \<exists>ks. fs = map addr ks \<and> distinct ks \<and> distinct fs \<and> set ks \<subseteq> free_set s \<and> free_set s' = free_set s - set ks
      \<and> may_free s' = may_free s \<and> inv s'"
proof (induction n arbitrary: s fs)
  case 0
  then show ?case by simp
next
  case (Suc n)
  from Suc.prems(2) obtain f s1 where a: "alloc s = Some (f, s1)"
    by (auto split: option.splits)
  show ?case
  proof (cases "f = 0")
    case True
    then show ?thesis using a Suc.prems alloc_cases [OF Suc.prems(1) a] by auto
  next
    case False
    then obtain k where k: "k \<in> free_set s" "f = addr k" "free_set s1 = free_set s - {k}"
      "may_free s1 = may_free s" "inv s1"
      using alloc_cases [OF Suc.prems(1) a] by blast
    obtain gs where gs: "take_frames alloc n s1 = Some (gs, s')" "fs = f # gs"
      using Suc.prems(2) a False by (auto split: option.splits)
    from Suc.IH [OF k(5) gs(1)] obtain ks where ks: "gs = map addr ks" "distinct ks" "distinct gs"
      "set ks \<subseteq> free_set s1" "free_set s' = free_set s1 - set ks" "may_free s' = may_free s1" "inv s'" by blast
    have "k \<notin> set ks" using ks(4) k(3) by blast
    moreover have "f \<notin> set gs"
      using ks(1,4) k(1,2,3) \<open>k \<notin> set ks\<close> free_may [OF Suc.prems(1)] addr_inj [OF Suc.prems(1)]
      by (auto simp: subset_iff)
    ultimately show ?thesis
      using ks k gs(2) by (intro exI [of _ "k # ks"]) auto
  qed
qed

end

interpretation pmm: frame_allocator AllocFirstFrame FreeFrame pmm_inv avail freeable frame_addr
proof unfold_locales
  fix s s' :: "'a pmm_state_scheme" and f k j
  assume inv: "pmm_inv s"
  note small = availD(5) [OF inv]
  show "f = 0 \<and> s' = s \<or> (\<exists>k \<in> avail s. f = frame_addr k \<and> f \<noteq> 0 \<and> avail s' = avail s - {k}
      \<and> freeable s' = freeable s \<and> pmm_inv s')" if "AllocFirstFrame s = Some (f, s')"
    using AllocFirstFrame_sound [OF inv that]
  proof (elim disjE exE conjE)
    fix k s'' assume *: "(f, s') = (frame_addr k, s'')" "k < bitmap_frames s" "frame_taken k s s''"
    note k = frame_taken_avail [OF *(3,2)]
    have "frame_addr k \<noteq> 0"
      using availD(1,5) [OF inv k(1)] by (intro frame_addr_nonzero) (auto simp: freeable_def)
    then show ?thesis using * k frame_taken_inv [OF inv *(3,2)] by auto
  qed simp
  show "pmm_inv (FreeFrame (frame_addr k) s) \<and> avail (FreeFrame (frame_addr k) s) = insert k (avail s)
      \<and> freeable (FreeFrame (frame_addr k) s) = freeable s" if "freeable s k"
    using FreeFrame_avail [OF inv that] by simp
  show "freeable s k" if "k \<in> avail s" using availD(1) [OF inv that] .
  show "k = j" if "freeable s k" "freeable s j" "frame_addr k = frame_addr j"
    using that pmm_invD(2) [OF inv] by (intro frame_addr_inj) (auto simp: freeable_def)
qed

section \<open>Initialisation\<close>

abbreviation entry_usable :: "stivale2_mmap_entry \<Rightarrow> bool" where
  "entry_usable e \<equiv> me_type e = USABLE_PAGE"

definition entry_frames :: "stivale2_mmap_entry \<Rightarrow> nat set" where
  "entry_frames e = {k. unat (me_base e) div 4096 \<le> k \<and>
     k < unat (me_base e) div 4096 + unat (me_length e) div 4096}"

definition same_outside_bitmap :: "'a pmm_state_scheme \<Rightarrow> 'a pmm_state_scheme \<Rightarrow> bool" where
  "same_outside_bitmap s s' \<longleftrightarrow>
     (\<forall>x. \<not> in_range x (bitmap (PHYS_MEMORY_MAP s)) (unat (bitmap_size (PHYS_MEMORY_MAP s)))
        \<longrightarrow> memory s' x = memory s x)"

lemma set_free_range_effect:
  assumes "e \<le> bitmap_frames s" "e < 2 ^ 31" "i < 2 ^ 31"
  shows "\<exists>s'. set_free_range (of_nat i) (of_nat e) s = Some s' \<and> PHYS_MEMORY_MAP s' = PHYS_MEMORY_MAP s
    \<and> pmm_state.more s' = pmm_state.more s
    \<and> (\<forall>k < 2 ^ 64. frame_used s' k \<longleftrightarrow> frame_used s k \<and> \<not> (i \<le> k \<and> k < e))
    \<and> same_outside_bitmap s s'"
  using assms
proof (induction "e - i" arbitrary: i s)
  case 0
  have "unat (of_nat e :: u64) = e" "unat (of_nat i :: u64) = i" using 0(3,4) by simp_all
  then have "\<not> (i32_to_u64 (of_nat i) < (of_nat e :: u64))"
    using 0(1) unfolding i32_to_u64_of_nat [OF 0(4)] word_less_nat_alt by simp
  then have "set_free_range (of_nat i) (of_nat e) s = Some s"
    by (subst set_free_range.simps) simp
  then show ?case using 0(1) by (auto simp: same_outside_bitmap_def)
next
  case (Suc d)
  have ie: "i < e" "i + 1 < 2 ^ 31" using Suc(2) Suc.prems(2) by simp_all
  have "unat (of_nat e :: u64) = e" "unat (of_nat i :: u64) = i" using Suc.prems(2,3) by simp_all
  then have "i32_to_u64 (of_nat i) < (of_nat e :: u64)"
    using ie unfolding i32_to_u64_of_nat [OF Suc.prems(3)] word_less_nat_alt by simp
  then have step: "set_free_range (of_nat i) (of_nat e) s = set_free_range (of_nat (i + 1)) (of_nat e) (SetPageFree (of_nat i) s)"
    by (subst set_free_range.simps) (simp add: add.commute)
  note n = of_nat_i32 [OF Suc.prems(3)]
  let ?s1 = "SetPageFree (of_nat i) s"
  have bf: "bitmap_frames ?s1 = bitmap_frames s" by (simp add: bitmap_frames_def)
  have byte: "in_range (bitmap (PHYS_MEMORY_MAP s) + of_nat (i div 8)) (bitmap (PHYS_MEMORY_MAP s))
      (unat (bitmap_size (PHYS_MEMORY_MAP s)))"
    using ie Suc.prems(1) by (intro bitmap_byte_in) simp
  have more: "pmm_state.more ?s1 = pmm_state.more s" by (simp add: SetPageFree_def Let_def)
  have "\<exists>s'. set_free_range (of_nat (i + 1)) (of_nat e) ?s1 = Some s' \<and> PHYS_MEMORY_MAP s' = PHYS_MEMORY_MAP ?s1
    \<and> pmm_state.more s' = pmm_state.more ?s1
    \<and> (\<forall>k < 2 ^ 64. frame_used s' k \<longleftrightarrow> frame_used ?s1 k \<and> \<not> (i + 1 \<le> k \<and> k < e))
    \<and> same_outside_bitmap ?s1 s'"
    using Suc ie by (intro Suc.hyps) (simp_all add: bf)
  then show ?case
    using ie byte more unfolding step
    by (auto simp: frame_used_SetPageFree n(2) n(1) SetPageFree_memory Suc_le_eq le_less same_outside_bitmap_def)
qed

text \<open>The frames the loop over the entries frees, the entry of the bitmap left out.\<close>

fun freed_frames :: "int \<Rightarrow> stivale2_mmap_entry list \<Rightarrow> int \<Rightarrow> nat set" where
  "freed_frames i [] bi = {}"
| "freed_frames i (e # es) bi =
     (if entry_usable e \<and> i \<noteq> bi then entry_frames e else {}) \<union> freed_frames (i + 1) es bi"

lemma init_entry_effect:
  assumes b: "0 < unat (me_base e) div 4096" "unat (me_base e) div 4096 \<le> n" "entry_frames e \<subseteq> {..n}"
    and n: "n < bitmap_frames s" "n + 1 < 2 ^ 31" "unat (last_used (PHYS_MEMORY_MAP s)) \<le> n"
  shows "\<exists>s' l. init_entry e s = Some s'
    \<and> PHYS_MEMORY_MAP s' = (PHYS_MEMORY_MAP s)\<lparr>last_used := l\<rparr> \<and> unat l \<le> n
    \<and> pmm_state.more s' = pmm_state.more s
    \<and> (\<forall>k < 2 ^ 64. frame_used s' k \<longleftrightarrow> frame_used s k \<and> k \<notin> entry_frames e)
    \<and> same_outside_bitmap s s'"
proof -
  define b c where "b = unat (me_base e) div 4096" and "c = unat (me_length e) div 4096"
  have "c = 0 \<or> b + c - 1 \<in> entry_frames e" using b(1) by (auto simp: entry_frames_def b_def c_def)
  then have bc: "b + c \<le> n + 1" using b(2,3) by (auto simp: b_def)
  have start: "me_base e div FRAME_SIZE = of_nat b" "me_length e div FRAME_SIZE = of_nat c"
    unfolding b_def c_def by (rule eq_of_nat, simp add: unat_div)+
  have b31: "b < 2 ^ 31" "b + c \<le> bitmap_frames s" "b + c < 2 ^ 31" using b bc n by (simp_all add: b_def)
  from set_free_range_effect [OF b31(2,3,1)] obtain s1 where
    s1: "set_free_range (of_nat b) (of_nat (b + c)) s = Some s1" "PHYS_MEMORY_MAP s1 = PHYS_MEMORY_MAP s"
    "pmm_state.more s1 = pmm_state.more s"
    "\<And>k. k < 2 ^ 64 \<Longrightarrow> frame_used s1 k \<longleftrightarrow> frame_used s k \<and> \<not> (b \<le> k \<and> k < b + c)"
    "same_outside_bitmap s s1" by blast
  define l where "l = (if last_used (PHYS_MEMORY_MAP s) = 0 then of_nat b - 1 else last_used (PHYS_MEMORY_MAP s))"
  let ?s2 = "s1\<lparr>PHYS_MEMORY_MAP := (PHYS_MEMORY_MAP s)\<lparr>last_used := l\<rparr>\<rparr>"
  have "init_entry e s = Some ?s2"
    using s1(1,2) u64_to_i32_of_nat [OF b31(1)] by (simp add: init_entry_def start l_def)
  moreover have "unat (of_nat b - 1 :: u64) = b - 1"
    using b31(1) b(1) unat_of_nat64 [of "b - 1"] by (simp add: of_nat_diff b_def)
  then have "unat l \<le> n" using b(2) n(3) by (auto simp: l_def b_def)
  moreover have "frame_used ?s2 k \<longleftrightarrow> frame_used s k \<and> k \<notin> entry_frames e" if "k < 2 ^ 64" for k
    using s1(2) s1(4) [OF that] by (simp add: entry_frames_def b_def c_def)
  moreover have "same_outside_bitmap s ?s2" using s1(5) by (simp add: same_outside_bitmap_def)
  ultimately show ?thesis using s1(3) by (intro exI [of _ ?s2] exI [of _ l]) simp
qed

lemma same_outside_bitmap_trans:
  assumes "same_outside_bitmap s s'" "same_outside_bitmap s' s''"
    and "PHYS_MEMORY_MAP s' = (PHYS_MEMORY_MAP s)\<lparr>last_used := l\<rparr>"
  shows "same_outside_bitmap s s''"
  using assms by (simp add: same_outside_bitmap_def)

lemma init_free_loop_effect:
  assumes "\<forall>e \<in> set es. entry_usable e \<longrightarrow> 0 < unat (me_base e) div 4096 \<and>
      unat (me_base e) div 4096 \<le> n \<and> entry_frames e \<subseteq> {..n}"
    and "n < bitmap_frames s" "n + 1 < 2 ^ 31" "unat (last_used (PHYS_MEMORY_MAP s)) \<le> n"
  shows "\<exists>s' l. init_free_loop i es bi s = Some s'
    \<and> PHYS_MEMORY_MAP s' = (PHYS_MEMORY_MAP s)\<lparr>last_used := l\<rparr> \<and> unat l \<le> n
    \<and> pmm_state.more s' = pmm_state.more s
    \<and> (\<forall>k < 2 ^ 64. frame_used s' k \<longleftrightarrow> frame_used s k \<and> k \<notin> freed_frames i es bi)
    \<and> same_outside_bitmap s s'"
  using assms
proof (induction es arbitrary: i s)
  case Nil
  then show ?case by (intro exI [of _ s] exI [of _ "last_used (PHYS_MEMORY_MAP s)"]) (simp add: same_outside_bitmap_def)
next
  case (Cons e es)
  show ?case
  proof (cases "entry_usable e \<and> i \<noteq> bi")
    case False
    then show ?thesis using Cons.IH [OF _ Cons.prems(2-4), of "i + 1"] Cons.prems(1) by auto
  next
    case True
    then have e: "0 < unat (me_base e) div 4096" "unat (me_base e) div 4096 \<le> n" "entry_frames e \<subseteq> {..n}"
      using Cons.prems(1) by simp_all
    from init_entry_effect [OF e Cons.prems(2-4)] obtain s2 l2 where s2: "init_entry e s = Some s2"
      "PHYS_MEMORY_MAP s2 = (PHYS_MEMORY_MAP s)\<lparr>last_used := l2\<rparr>" "unat l2 \<le> n"
      "pmm_state.more s2 = pmm_state.more s" "same_outside_bitmap s s2"
      "\<forall>k < 2 ^ 64. frame_used s2 k \<longleftrightarrow> frame_used s k \<and> k \<notin> entry_frames e"
      by blast
    have "bitmap_frames s2 = bitmap_frames s" by (simp add: bitmap_frames_def s2(2))
    with Cons.IH [of s2 "i + 1"] obtain s3 l where s3: "init_free_loop (i + 1) es bi s2 = Some s3"
      "PHYS_MEMORY_MAP s3 = (PHYS_MEMORY_MAP s2)\<lparr>last_used := l\<rparr>" "unat l \<le> n"
      "pmm_state.more s3 = pmm_state.more s2"
      "\<forall>k < 2 ^ 64. frame_used s3 k \<longleftrightarrow> frame_used s2 k \<and> k \<notin> freed_frames (i + 1) es bi"
      "same_outside_bitmap s2 s3"
      using Cons.prems s2(2,3) by auto
    have "same_outside_bitmap s s3"
      by (rule same_outside_bitmap_trans [OF s2(5) s3(6) s2(2)])
    then show ?thesis
      using True s2(1,2,4,6) s3(1-5) by (intro exI [of _ s3] exI [of _ l]) auto
  qed
qed

text \<open>
  What the boot protocol promises of the memory map, and what the bitmap needs on top of it: the
  usable entries are made of whole pages above frame 0, end at or below the uppermost usable
  address and do not overlap; the bitmap, rounded up to whole pages, has a bit for the frame
  after the last.
\<close>

definition entry_end :: "stivale2_mmap_entry \<Rightarrow> nat" where
  "entry_end e = unat (me_base e) + unat (me_length e)"

definition map_ok :: "memmap_tag \<Rightarrow> bool" where
  "map_ok mmap \<longleftrightarrow>
     (\<forall>e \<in> set mmap. entry_usable e \<longrightarrow>
        unat (me_base e) mod 4096 = 0 \<and> unat (me_length e) mod 4096 = 0 \<and> 0 < unat (me_length e)
      \<and> 4096 \<le> unat (me_base e) \<and> entry_end e \<le> unat (UppermostUsableAddr mmap) + 1)
   \<and> (\<forall>i < length mmap. \<forall>j < length mmap. i \<noteq> j \<longrightarrow> entry_usable (mmap ! i) \<longrightarrow> entry_usable (mmap ! j) \<longrightarrow>
        entry_end (mmap ! i) \<le> unat (me_base (mmap ! j)) \<or> entry_end (mmap ! j) \<le> unat (me_base (mmap ! i)))
   \<and> (let n = unat (UppermostUsableAddr mmap) div 4096 in
        0 < n \<and> n + 2 < 2 ^ 31 \<and> n + 1 < 8 * (4096 * ((n div 8 + 4095) div 4096)))"

lemma freed_frames_iff:
  "k \<in> freed_frames i es bi \<longleftrightarrow>
     (\<exists>j < length es. entry_usable (es ! j) \<and> i + int j \<noteq> bi \<and> k \<in> entry_frames (es ! j))"
proof (induction es arbitrary: i)
  case (Cons e es)
  show ?case
    unfolding freed_frames.simps Un_iff Cons length_Cons Ex_less_Suc2
    by (auto simp: algebra_simps)
qed simp

lemma find_mem_loop_cases:
  "find_mem_loop i es m = -1 \<or> (\<exists>j < length es. find_mem_loop i es m = i + int j
     \<and> entry_usable (es ! j) \<and> ucast m \<le> me_length (es ! j))"
proof (induction es arbitrary: i)
  case (Cons e es)
  show ?case
    using Cons [of "i + 1"] unfolding length_Cons Ex_less_Suc2 by auto
qed simp

lemma entry_frames_pages:
  assumes "unat (me_base e) mod 4096 = 0" "unat (me_length e) mod 4096 = 0"
  shows "k \<in> entry_frames e \<longleftrightarrow> unat (me_base e) \<le> 4096 * k \<and> 4096 * k + 4096 \<le> entry_end e"
proof -
  obtain b c where "unat (me_base e) = 4096 * b" "unat (me_length e) = 4096 * c"
    using assms by (meson dvdE mod_eq_0_iff_dvd)
  then show ?thesis by (auto simp: entry_frames_def entry_end_def)
qed

lemma entry_frames_below:
  assumes "map_ok mmap" "e \<in> set mmap" "entry_usable e"
  defines "n \<equiv> unat (UppermostUsableAddr mmap) div 4096"
  shows "0 < unat (me_base e) div 4096" "unat (me_base e) div 4096 \<le> n" "entry_frames e \<subseteq> {..n}"
proof -
  let ?U = "unat (UppermostUsableAddr mmap)"
  have e: "unat (me_base e) mod 4096 = 0" "unat (me_length e) mod 4096 = 0" "0 < unat (me_length e)"
    "4096 \<le> unat (me_base e)" "entry_end e \<le> ?U + 1"
    using assms unfolding map_ok_def by blast+
  show "0 < unat (me_base e) div 4096" using e(4) by (simp add: div_greater_zero_iff)
  have "unat (me_base e) \<le> ?U" using e(3,5) by (simp add: entry_end_def)
  then show "unat (me_base e) div 4096 \<le> n" unfolding n_def by (rule div_le_mono)
  show "entry_frames e \<subseteq> {..n}"
  proof
    fix k assume "k \<in> entry_frames e"
    then have "4096 * k \<le> ?U" using entry_frames_pages [OF e(1,2)] e(5) by auto
    then have "4096 * k div 4096 \<le> ?U div 4096" by (rule div_le_mono)
    then show "k \<in> {..n}" by (simp add: n_def)
  qed
qed

lemma unat_ucast_small: "unat (x :: u64) < 2 ^ 32 \<Longrightarrow> unat (ucast x :: u32) = unat x"
  by (simp add: unsigned_ucast_eq take_bit_nat_eq_self)

lemma bitmap_size_init:
  assumes "unat u div 4096 + 2 < 2 ^ 31"
  shows "unat (ucast (RoundToNearestMultiple (ucast (ucast (u div FRAME_SIZE div 8) :: u32)) 4096) :: u32)
    = 4096 * ((unat u div 4096 div 8 + 4095) div 4096)"
proof -
  let ?q = "u div FRAME_SIZE div 8"
  have q: "unat ?q = unat u div 4096 div 8" by (simp add: unat_div)
  have small: "unat u div 4096 div 8 < 2 ^ 28" using assms by (simp add: less_mult_imp_div_less)
  then have uc: "(ucast (ucast ?q :: u32) :: u64) = ?q"
    using q by (simp add: word_unat_eq_iff unsigned_ucast_eq unsigned_take_bit_eq take_bit_nat_eq_self)
  have *: "unat (RoundToNearestMultiple ?q (2 ^ 12)) = 2 ^ 12 * ((unat ?q + 2 ^ 12 - 1) div 2 ^ 12)"
    using small q by (intro unat_RoundToNearestMultiple) simp_all
  have "2 ^ 12 * ((unat ?q + 2 ^ 12 - 1) div 2 ^ 12) \<le> unat ?q + 2 ^ 12 - 1" by simp
  also have "\<dots> < 2 ^ 32" using small q by simp
  finally have "unat (RoundToNearestMultiple ?q (2 ^ 12)) < 2 ^ 32" unfolding * .
  then have "unat (ucast (RoundToNearestMultiple ?q (2 ^ 12)) :: u32) = 2 ^ 12 * ((unat ?q + 2 ^ 12 - 1) div 2 ^ 12)"
    unfolding * [symmetric] by (rule unat_ucast_small)
  then show ?thesis unfolding uc q by simp
qed

lemma find_mem_loop_found:
  "\<exists>e \<in> set es. entry_usable e \<and> ucast m \<le> me_length e \<Longrightarrow> 0 \<le> i \<Longrightarrow> find_mem_loop i es m \<noteq> -1"
proof (induction es arbitrary: i)
  case (Cons e es)
  show ?case
  proof (cases "\<exists>x \<in> set es. entry_usable x \<and> ucast m \<le> me_length x")
    case True
    then show ?thesis using Cons.IH [OF True, of "i + 1"] Cons.prems(2) by simp
  qed (use Cons.prems in auto)
qed simp

lemma FindMemEntryBySize_found:
  assumes "\<exists>e \<in> set mmap. entry_usable e \<and> unat m \<le> unat (me_length e)"
  shows "\<exists>b < length mmap. FindMemEntryBySize mmap m = int b \<and> entry_usable (mmap ! b)
    \<and> unat m \<le> unat (me_length (mmap ! b))"
proof -
  have m: "(ucast m :: u64) \<le> x \<longleftrightarrow> unat m \<le> unat x" for x
    using unat_less32 [of m] by (simp add: word_le_nat_alt unsigned_ucast_eq take_bit_nat_eq_self)
  have "find_mem_loop 0 mmap m \<noteq> -1" using assms by (intro find_mem_loop_found) (auto simp: m)
  then show ?thesis
    using find_mem_loop_cases [of 0 mmap m] by (auto simp: FindMemEntryBySize_def m)
qed

lemma entry_clear_of_bitmap:
  assumes ok: "map_ok mmap" and b: "b < length mmap" "entry_usable (mmap ! b)"
    and j: "j < length mmap" "j \<noteq> b" "entry_usable (mmap ! j)" and k: "k \<in> entry_frames (mmap ! j)"
    and bm: "bitmap (PHYS_MEMORY_MAP s) = me_base (mmap ! b)"
      "unat (bitmap_size (PHYS_MEMORY_MAP s)) \<le> unat (me_length (mmap ! b))"
  shows "clear_of_bitmap s k"
proof -
  have "mmap ! j \<in> set mmap" using j(1) by simp
  then have "unat (me_base (mmap ! j)) mod 4096 = 0" "unat (me_length (mmap ! j)) mod 4096 = 0"
    using ok j(3) unfolding map_ok_def by blast+
  note k' = k [unfolded entry_frames_pages [OF this]]
  have "entry_end (mmap ! j) \<le> unat (me_base (mmap ! b)) \<or> entry_end (mmap ! b) \<le> unat (me_base (mmap ! j))"
    using ok b j unfolding map_ok_def by blast
  then show ?thesis using k' bm by (auto simp: clear_of_bitmap_def entry_end_def)
qed

lemma frame_used_memset_ones:
  assumes "k < bitmap_frames s" "memory s = memset m (bitmap (PHYS_MEMORY_MAP s)) (-1) (ucast (bitmap_size (PHYS_MEMORY_MAP s)))"
  shows "frame_used s k"
proof -
  have "unat (ucast (bitmap_size (PHYS_MEMORY_MAP s)) :: u64) = unat (bitmap_size (PHYS_MEMORY_MAP s))"
    using unat_less32 [of "bitmap_size (PHYS_MEMORY_MAP s)"] by (simp add: unsigned_ucast_eq take_bit_nat_eq_self)
  moreover have "bit (ucast (-1 :: i32) :: u8) (k mod 8)" by (simp add: bit_simps)
  ultimately show ?thesis
    using bitmap_byte_in [OF assms(1)] by (simp add: frame_used_def assms(2) mem_simps)
qed


lemma init_result:
  assumes ok: "map_ok mmap" and b: "b < length mmap" "entry_usable (mmap ! b)"
    and n: "frames s = unat (UppermostUsableAddr mmap) div 4096" "last_frame s \<le> frames s"
    and bm: "bitmap (PHYS_MEMORY_MAP s) = me_base (mmap ! b)"
      "unat (bitmap_size (PHYS_MEMORY_MAP s)) = 4096 * ((frames s div 8 + 4095) div 4096)"
      "unat (bitmap_size (PHYS_MEMORY_MAP s)) \<le> unat (me_length (mmap ! b))"
    and used: "\<And>k. k < bitmap_frames s \<Longrightarrow> frame_used s k \<longleftrightarrow> k \<notin> freed_frames 0 mmap (int b)"
  shows "pmm_inv s"
    and "avail s = (\<Union>j \<in> {j. j < length mmap \<and> j \<noteq> b \<and> entry_usable (mmap ! j)}. entry_frames (mmap ! j))"
proof -
  let ?n = "frames s"
  have sz: "0 < ?n" "?n + 2 < 2 ^ 31" "?n + 1 < bitmap_frames s"
    using ok unfolding map_ok_def Let_def n(1) [symmetric] bitmap_frames_def bm(2) by blast+
  have freed: "k \<in> freed_frames 0 mmap (int b) \<longleftrightarrow>
      k \<in> (\<Union>j \<in> {j. j < length mmap \<and> j \<noteq> b \<and> entry_usable (mmap ! j)}. entry_frames (mmap ! j))" for k
    by (auto simp: freed_frames_iff)
  have frame: "0 < k \<and> k \<le> ?n \<and> clear_of_bitmap s k" if "k \<in> freed_frames 0 mmap (int b)" for k
  proof -
    obtain j where j: "j < length mmap" "j \<noteq> b" "entry_usable (mmap ! j)" "k \<in> entry_frames (mmap ! j)"
      using \<open>k \<in> freed_frames 0 mmap (int b)\<close> by (auto simp: freed_frames_iff)
    have "0 < k" "k \<le> ?n"
      using entry_frames_below [OF ok nth_mem [OF j(1)] j(3)] j(4) by (auto simp: n(1) entry_frames_def)
    then show ?thesis using entry_clear_of_bitmap [OF ok b j bm(1,3)] by simp
  qed
  show "avail s = (\<Union>j \<in> {j. j < length mmap \<and> j \<noteq> b \<and> entry_usable (mmap ! j)}. entry_frames (mmap ! j))"
  proof (rule set_eqI)
    fix k
    have "k < bitmap_frames s" if "k \<in> freed_frames 0 mmap (int b)" using frame [OF that] sz(3) by linarith
    then have "k \<in> avail s \<longleftrightarrow> k \<in> freed_frames 0 mmap (int b)" using used [of k] by (auto simp: avail_def)
    then show "k \<in> avail s \<longleftrightarrow>
        k \<in> (\<Union>j \<in> {j. j < length mmap \<and> j \<noteq> b \<and> entry_usable (mmap ! j)}. entry_frames (mmap ! j))"
      using freed by blast
  qed
  have "entry_end (mmap ! b) \<le> unat (UppermostUsableAddr mmap) + 1"
    using ok nth_mem [OF b(1)] b(2) unfolding map_ok_def by blast
  then have "unat (bitmap (PHYS_MEMORY_MAP s)) + unat (bitmap_size (PHYS_MEMORY_MAP s)) \<le> 2 ^ 64"
    using bm(3) unat_less64 [of "UppermostUsableAddr mmap"] unfolding entry_end_def bm(1) by linarith
  then show "pmm_inv s"
    using sz n(2) used frame unfolding pmm_inv_def Let_def by blast
qed

lemma InitPmm_effect:
  assumes ok: "map_ok mmap" and l0: "last_used (PHYS_MEMORY_MAP s) = 0"
    and room: "\<exists>e \<in> set mmap. entry_usable e \<and>
      4096 * ((unat (UppermostUsableAddr mmap) div 4096 div 8 + 4095) div 4096) \<le> unat (me_length e)"
  shows "\<exists>s' b. InitPmm mmap s = Some (True, s') \<and> b < length mmap \<and> entry_usable (mmap ! b)
    \<and> bitmap (PHYS_MEMORY_MAP s') = me_base (mmap ! b) \<and> pmm_inv s'
    \<and> avail s' = (\<Union>j \<in> {j. j < length mmap \<and> j \<noteq> b \<and> entry_usable (mmap ! j)}. entry_frames (mmap ! j))"
proof -
  let ?u = "UppermostUsableAddr mmap"
  define n where "n = unat ?u div 4096"
  define bs :: u32 where "bs = ucast (RoundToNearestMultiple (ucast (ucast (?u div FRAME_SIZE div 8) :: u32)) 4096)"
  have n: "0 < n" "n + 2 < 2 ^ 31" "n + 1 < 8 * (4096 * ((n div 8 + 4095) div 4096))"
    using ok unfolding map_ok_def Let_def n_def by blast+
  have bs: "unat bs = 4096 * ((n div 8 + 4095) div 4096)"
    unfolding bs_def n_def using n(2) by (intro bitmap_size_init) (simp add: n_def)
  obtain b where b: "b < length mmap" "FindMemEntryBySize mmap bs = int b" "entry_usable (mmap ! b)"
    "unat bs \<le> unat (me_length (mmap ! b))"
    using FindMemEntryBySize_found [of mmap bs] room unfolding bs n_def by blast
  define s2 where "s2 = s\<lparr>PHYS_MEMORY_MAP := (PHYS_MEMORY_MAP s)\<lparr>num_entries := ?u div FRAME_SIZE,
      bitmap_size := bs, uppermost_addr := ?u, bitmap := me_base (mmap ! b)\<rparr>,
    memory := memset (memory s) (me_base (mmap ! b)) (-1) (ucast bs)\<rparr>"
  have bf: "bitmap_frames s2 = 8 * unat bs" by (simp add: bitmap_frames_def s2_def)
  have ones: "frame_used s2 k" if "k < bitmap_frames s2" for k
    using that by (rule frame_used_memset_ones) (simp add: s2_def)
  have below: "\<forall>e \<in> set mmap. entry_usable e \<longrightarrow> 0 < unat (me_base e) div 4096 \<and>
      unat (me_base e) div 4096 \<le> n \<and> entry_frames e \<subseteq> {..n}"
    using entry_frames_below [OF ok] by (simp add: n_def)
  have "n < bitmap_frames s2" "n + 1 < 2 ^ 31" "unat (last_used (PHYS_MEMORY_MAP s2)) \<le> n"
    using n l0 unfolding bf bs by (simp_all add: s2_def)
  from init_free_loop_effect [OF below this, of 0 "int b"] obtain s' l where
    s': "init_free_loop 0 mmap (int b) s2 = Some s'" "PHYS_MEMORY_MAP s' = (PHYS_MEMORY_MAP s2)\<lparr>last_used := l\<rparr>"
      "unat l \<le> n" "\<And>k. k < 2 ^ 64 \<Longrightarrow> frame_used s' k \<longleftrightarrow> frame_used s2 k \<and> k \<notin> freed_frames 0 mmap (int b)"
    by blast
  have init: "InitPmm mmap s = Some (True, s')"
    using s'(1) b(2) by (simp add: InitPmm_def Let_def bs_def [symmetric] s2_def)
  have fields: "frames s' = n" "last_frame s' = unat l" "bitmap (PHYS_MEMORY_MAP s') = me_base (mmap ! b)"
    "bitmap_size (PHYS_MEMORY_MAP s') = bs" "bitmap_frames s' = bitmap_frames s2"
    unfolding bitmap_frames_def s'(2) by (simp_all add: s2_def n_def unat_div)
  have "frame_used s' k \<longleftrightarrow> k \<notin> freed_frames 0 mmap (int b)" if "k < bitmap_frames s'" for k
    using that s'(4) [of k] ones [of k] bitmap_frames_less [of s'] unfolding fields(5) by simp
  then have "pmm_inv s'"
    "avail s' = (\<Union>j \<in> {j. j < length mmap \<and> j \<noteq> b \<and> entry_usable (mmap ! j)}. entry_frames (mmap ! j))"
    using init_result [OF ok b(1,3), of s'] s'(3) bs b(4) unfolding fields n_def by blast+
  then show ?thesis using init fields(3) b(1,3) by blast
qed

lemma AllocContiguous_first_fit:
  assumes inv: "pmm_inv s"
  defines "h \<equiv> last_frame s + 1"
  assumes hp: "h + (unat sz + 4095) div 4096 \<le> frames s"
    and free: "\<forall>k. h \<le> k \<and> k \<le> h + (unat sz + 4095) div 4096 \<longrightarrow> \<not> frame_used s k"
  shows "\<exists>s'. AllocContiguous sz s = Some (frame_addr h, s')"
proof -
  define p where "p = sz div FRAME_SIZE + (if sz mod FRAME_SIZE > 0 then 1 else 0)"
  have p: "unat p = (unat sz + 4095) div 4096" unfolding p_def by (rule AllocContiguous_pages)
  have h: "h < 2 ^ 31" "h \<le> frames s + 1" "h \<le> h + unat p + 1" using hp pmm_invD(2) [OF inv] by simp_all
  have hd: "last_used (PHYS_MEMORY_MAP s) + 1 = of_nat h" by (simp add: h_def add.commute)
  have "contiguous_scan (of_nat h) (of_nat h) p s = Some (Inr (of_nat (h + unat p + 1)))"
    using contiguous_scan_cases [OF inv order_refl h(2,3)] free unfolding p by blast
  moreover obtain s1 where "set_used_range (of_nat h) (of_nat (h + unat p + 1)) s = Some s1"
    using mark_run_taken [OF inv, of h p] hp free unfolding p by blast
  moreover have "of_nat h \<noteq> last_used (PHYS_MEMORY_MAP s)"
    using h(1) unat_of_nat64 [of h] by (auto simp: h_def)
  moreover have "u64_to_i32 (of_nat h) = of_nat h" by (rule u64_to_i32_of_nat [OF h(1)])
  ultimately show ?thesis
    unfolding AllocContiguous_def Let_def p_def [symmetric] hd
    by (subst contiguous_loop.simps) (simp add: Let_def frame_addr_mult)
qed

section \<open>Properties\<close>

text \<open>A small state for the witnesses: six managed frames, of which 3 and 5 are free.\<close>

definition demo_pmm :: pmm_state where
  "demo_pmm = \<lparr>memory = (\<lambda>x. 0)(0x100000 := 0xD7),
     PHYS_MEMORY_MAP = \<lparr>num_entries = 6, last_used = 2, bitmap_size = 1, bitmap = 0x100000,
       mem_size = 0, max_blocks = 0, uppermost_addr = 0x6FFF, used_blocks = 0\<rparr>\<rparr>"

lemma all_less_8: "(\<forall>k < (8 :: nat). P k) \<longleftrightarrow> P 0 \<and> P 1 \<and> P 2 \<and> P 3 \<and> P 4 \<and> P 5 \<and> P 6 \<and> P 7"
  by (simp add: numeral_eq_Suc All_less_Suc2)

lemma demo_pmm_fields [simp]:
  "frames demo_pmm = 6" "last_frame demo_pmm = 2" "bitmap_frames demo_pmm = 8"
  by (simp_all add: demo_pmm_def bitmap_frames_def)

lemma demo_pmm_used: "k < 8 \<Longrightarrow> frame_used demo_pmm k \<longleftrightarrow> k \<notin> {3, 5}"
proof -
  have "\<forall>k < 8. frame_used demo_pmm k \<longleftrightarrow> k \<notin> {3, 5}"
    unfolding all_less_8 by (simp add: demo_pmm_def frame_used_def)
  then show "k < 8 \<Longrightarrow> ?thesis" by blast
qed

lemma demo_pmm_inv: "pmm_inv demo_pmm"
proof -
  have "clear_of_bitmap demo_pmm k" if "k \<le> 6" for k
    using that by (simp add: clear_of_bitmap_def demo_pmm_def)
  moreover have "unat (bitmap (PHYS_MEMORY_MAP demo_pmm)) + unat (bitmap_size (PHYS_MEMORY_MAP demo_pmm)) \<le> 2 ^ 64"
    by (simp add: demo_pmm_def)
  ultimately show ?thesis
    using demo_pmm_used unfolding pmm_inv_def Let_def by (auto simp: )
qed

lemma demo_pmm_avail: "avail demo_pmm = {3, 5}"
  using demo_pmm_used by (auto simp: avail_def)

definition full_pmm :: "u64 \<Rightarrow> pmm_state" where
  "full_pmm l = \<lparr>memory = (\<lambda>x. 0xFF),
     PHYS_MEMORY_MAP = \<lparr>num_entries = 6, last_used = l, bitmap_size = 1, bitmap = 0x100000,
       mem_size = 0, max_blocks = 0, uppermost_addr = 0x6FFF, used_blocks = 0\<rparr>\<rparr>"

lemma full_pmm_fields [simp]:
  "frames (full_pmm l) = 6" "last_frame (full_pmm l) = unat l" "bitmap_frames (full_pmm l) = 8"
  by (simp_all add: full_pmm_def bitmap_frames_def)

lemma full_pmm_used: "k < 8 \<Longrightarrow> frame_used (full_pmm l) k"
proof -
  have "\<forall>k < 8. frame_used (full_pmm l) k"
    unfolding all_less_8 by (simp add: full_pmm_def frame_used_def)
  then show "k < 8 \<Longrightarrow> ?thesis" by blast
qed

lemma full_pmm_inv: "unat l \<le> 6 \<Longrightarrow> pmm_inv (full_pmm l)"
proof -
  have "unat (bitmap (PHYS_MEMORY_MAP (full_pmm l))) + unat (bitmap_size (PHYS_MEMORY_MAP (full_pmm l))) \<le> 2 ^ 64"
    by (simp add: full_pmm_def)
  then show "unat l \<le> 6 \<Longrightarrow> ?thesis"
    using full_pmm_used unfolding pmm_inv_def Let_def by simp
qed

text \<open>C2. \<^verbatim>\<open>AllocFirstFrame\<close> is safe: when it returns, either it returns NULL and changes nothing, or it
  returns the address of a frame that was free, inside the managed memory and not under the bitmap;
  that frame is now used and zeroed, no other frame changes status, no byte outside the frame and
  its bitmap byte changes, and the invariant of the allocator holds again.\<close>

theorem AllocFirstFrame_safe:
  assumes "pmm_inv s" and "AllocFirstFrame s = Some (f, s')"
  shows "f = 0 \<and> s' = s \<or>
    (\<exists>k \<in> avail s. f = frame_addr k \<and> f \<noteq> 0 \<and> freeable s k \<and> frame_taken k s s'
      \<and> avail s' = avail s - {k} \<and> pmm_inv s')"
  using AllocFirstFrame_sound [OF assms]
proof (elim disjE exE conjE)
  fix k s'' assume *: "(f, s') = (frame_addr k, s'')" "k < bitmap_frames s" "frame_taken k s s''"
  note k = frame_taken_avail [OF *(3,2)]
  have "frame_addr k \<noteq> 0" "freeable s k"
    using availD(1,5) [OF assms(1) k(1)] frame_addr_nonzero [of k] by (auto simp: freeable_def)
  then show ?thesis using * k frame_taken_inv [OF assms(1) *(3,2)] by auto
qed simp

theorem AllocFirstFrame_safe_witness:
  "\<exists>f s'. AllocFirstFrame demo_pmm = Some (f, s') \<and> (f = 0 \<or> f = frame_addr 3 \<or> f = frame_addr 5)"
proof -
  obtain f s' where "AllocFirstFrame demo_pmm = Some (f, s')"
    using AllocFirstFrame_returns_lemma [OF demo_pmm_inv] by auto
  with AllocFirstFrame_safe [OF demo_pmm_inv this] show ?thesis by (auto simp: demo_pmm_avail)
qed

text \<open>C3. \<^verbatim>\<open>AllocFirstFrame\<close> returns and finds memory: while \<^verbatim>\<open>last_used\<close> is below \<^verbatim>\<open>num_entries\<close> the
  search ends, and it answers NULL only when every frame below \<^verbatim>\<open>num_entries\<close> other than
  \<^verbatim>\<open>last_used\<close> itself is used.\<close>

theorem AllocFirstFrame_live:
  assumes "pmm_inv s" and "last_frame s < frames s"
  shows "\<exists>f s'. AllocFirstFrame s = Some (f, s')
    \<and> (f = 0 \<longrightarrow> (\<forall>j < frames s. j \<noteq> last_frame s \<longrightarrow> frame_used s j))"
proof (cases "\<exists>j < frames s. j \<noteq> last_frame s \<and> \<not> frame_used s j")
  case True
  then obtain k where k: "k \<le> frames s" "\<not> frame_used s k" "AllocFirstFrame s = Some (take_frame (of_nat k) s)"
    using AllocFirstFrame_finds [OF assms(1)] by blast
  have "k < bitmap_frames s" "k < 2 ^ 31" using k(1) pmm_invD(2,3) [OF assms(1)] by linarith+
  then have "fst (take_frame (of_nat k) s) \<noteq> 0"
    using take_frame_taken [OF assms(1) of_nat_i32(2), of k] k(2) of_nat_i32(1) [of k]
      pmm_inv_free [OF assms(1) _ k(2)] frame_addr_nonzero [of k] by auto
  then show ?thesis using k(3) by (cases "take_frame (of_nat k) s") auto
next
  case False
  then show ?thesis using AllocFirstFrame_returns_lemma [OF assms] by auto
qed

theorem AllocFirstFrame_live_witness:
  "\<exists>f s'. AllocFirstFrame demo_pmm = Some (f, s') \<and> f \<noteq> 0"
  using AllocFirstFrame_live [OF demo_pmm_inv] demo_pmm_used [of 3] by auto

text \<open>When the last frame handed out is the one numbered \<^verbatim>\<open>num_entries\<close> and no frame below it is
  free, \<^verbatim>\<open>AllocFirstFrame\<close> never returns: the index is reduced modulo \<^verbatim>\<open>num_entries\<close> and never
  meets \<^verbatim>\<open>last_used\<close> again, so the NULL of the comment is never reached.\<close>

theorem AllocFirstFrame_diverges:
  assumes "pmm_inv s" and "last_frame s = frames s" and "\<And>k. k < frames s \<Longrightarrow> frame_used s k"
  shows "AllocFirstFrame s = None"
  using assms by (rule AllocFirstFrame_stuck)

theorem AllocFirstFrame_diverges_witness: "AllocFirstFrame (full_pmm 6) = None"
  by (rule AllocFirstFrame_diverges) (simp_all add: full_pmm_inv full_pmm_used)

text \<open>A frame that is released is not found again while it is the last one handed out: with every
  other frame used, \<^verbatim>\<open>AllocFirstFrame\<close> answers NULL although exactly that frame is free, because
  the search stops at \<^verbatim>\<open>last_used\<close> before looking at it.\<close>

theorem released_last_frame_missed:
  assumes "pmm_inv s" and "last_frame s < frames s" and "avail s = {}" and "freeable s (last_frame s)"
  defines "s' \<equiv> FreeFrame (frame_addr (last_frame s)) s"
  shows "avail s' = {last_frame s} \<and> AllocFirstFrame s' = Some (0, s')"
proof
  note ff = FreeFrame_avail [OF assms(1,4)] FreeFrame_effect(1) [OF assms(1,4)]
  show av: "avail s' = {last_frame s}" unfolding s'_def ff(2) assms(3) by simp
  have "pmm_inv s'" "last_frame s' = last_frame s" "frames s' = frames s" using ff(1,4) by (simp_all add: s'_def)
  moreover from this obtain r where "AllocFirstFrame s' = Some r"
    using AllocFirstFrame_returns_lemma assms(2) by metis
  ultimately show "AllocFirstFrame s' = Some (0, s')"
    using AllocFirstFrame_sound [of s' r] frame_taken_avail(1) [of _ s'] av by auto
qed


theorem released_last_frame_missed_witness:
  "\<exists>s' :: pmm_state. avail s' = {2} \<and> AllocFirstFrame s' = Some (0, s')"
proof -
  have "avail (full_pmm 2) = {}" using full_pmm_used by (auto simp: avail_def)
  moreover have "freeable (full_pmm 2) 2" by (simp add: freeable_def clear_of_bitmap_def) (simp add: full_pmm_def)
  ultimately show ?thesis
    using released_last_frame_missed [of "full_pmm 2"] full_pmm_inv [of 2] by auto
qed

text \<open>C9. \<^verbatim>\<open>FreeFrame\<close> of a managed frame clears the frame, adds exactly that frame to the free frames,
  leaves the allocator's fields alone, writes nothing outside the frame and its bitmap byte, and
  keeps the invariant.\<close>

theorem FreeFrame_correct:
  assumes "pmm_inv s" and "freeable s k"
  defines "s' \<equiv> FreeFrame (frame_addr k) s"
  shows "pmm_inv s' \<and> avail s' = insert k (avail s) \<and> PHYS_MEMORY_MAP s' = PHYS_MEMORY_MAP s
    \<and> (\<forall>x. in_range x (frame_addr k) 4096 \<longrightarrow> memory s' x = 0)
    \<and> (\<forall>x. \<not> in_range x (frame_addr k) 4096 \<longrightarrow> x \<noteq> bitmap (PHYS_MEMORY_MAP s) + of_nat (k div 8)
        \<longrightarrow> memory s' x = memory s x)"
  using FreeFrame_avail [OF assms(1,2)] FreeFrame_effect [OF assms(1,2)] unfolding s'_def by blast

theorem FreeFrame_correct_witness:
  "avail (FreeFrame (frame_addr 4) demo_pmm) = {3, 4, 5}"
proof -
  have "freeable demo_pmm 4" by (simp add: freeable_def clear_of_bitmap_def) (simp add: demo_pmm_def)
  with FreeFrame_correct [OF demo_pmm_inv this] show ?thesis by (auto simp: demo_pmm_avail)
qed

text \<open>Frames handed out one after the other are pairwise different and are exactly the ones that
  leave the set of free frames, and handing the first one back restores the set.\<close>

theorem take_frames_correct:
  assumes "pmm_inv s" and "take_frames AllocFirstFrame n s = Some (fs, s')"
  shows "\<exists>ks. fs = map frame_addr ks \<and> distinct fs \<and> set ks \<subseteq> avail s \<and> avail s' = avail s - set ks \<and> pmm_inv s'"
  using pmm.take_frames_distinct [OF assms] by blast

theorem take_frames_correct_witness:
  "\<exists>fs s'. take_frames AllocFirstFrame 1 demo_pmm = Some (fs, s') \<and> pmm_inv s' \<and> avail s' \<subseteq> {3, 5}"
proof -
  obtain f s' where "AllocFirstFrame demo_pmm = Some (f, s')"
    using AllocFirstFrame_returns_lemma [OF demo_pmm_inv] by auto
  then have "take_frames AllocFirstFrame 1 demo_pmm = Some (if f = 0 then [] else [f], s')"
    by simp
  with take_frames_correct [OF demo_pmm_inv this] show ?thesis unfolding demo_pmm_avail by blast
qed

text \<open>\<^verbatim>\<open>NumFreeFrames\<close> returns the number of free frames, except that it does not count the last
  managed frame, the one numbered \<^verbatim>\<open>num_entries\<close>.\<close>

theorem NumFreeFrames_correct:
  assumes "pmm_inv s"
  shows "\<exists>c. NumFreeFrames s = Some c \<and> unat c = card (avail s - {frames s})"
proof -
  have n: "frames s < 2 ^ 31" using pmm_invD(2) [OF assms] by linarith
  have set: "{k. k < frames s \<and> \<not> frame_used s k} = avail s - {frames s}"
  proof (intro set_eqI iffI)
    fix k assume "k \<in> avail s - {frames s}"
    then show "k \<in> {k. k < frames s \<and> \<not> frame_used s k}"
      using pmm_inv_free(2) [OF assms, of k] by (simp add: avail_def)
  next
    fix k assume "k \<in> {k. k < frames s \<and> \<not> frame_used s k}"
    then show "k \<in> avail s - {frames s}" using pmm_invD(3) [OF assms] by (simp add: avail_def)
  qed
  have "card {k. k < frames s \<and> \<not> frame_used s k} \<le> card {..<frames s}" by (rule card_mono) auto
  also have "\<dots> = frames s" by (rule card_lessThan)
  also have "\<dots> < 2 ^ 32" by (rule order.strict_trans [OF n]) simp
  finally have "unat (of_nat (card (avail s - {frames s})) :: i32) = card (avail s - {frames s})"
    unfolding set by (rule unat_of_nat32)
  then show ?thesis using NumFreeFrames_card [OF n] unfolding set by blast
qed

theorem NumFreeFrames_correct_witness: "\<exists>c. NumFreeFrames demo_pmm = Some c \<and> unat c = 2"
  using NumFreeFrames_correct [OF demo_pmm_inv] by (simp add: demo_pmm_avail numeral_2_eq_2)

text \<open>C29. \<^verbatim>\<open>AllocContiguous\<close> is safe: when it returns, either it returns NULL and changes nothing, or
  it returns the address of a run whose \<open>p + 1\<close> frames were all free, where \<open>p\<close> is the number of
  pages the size needs. The first \<open>p\<close> frames are zeroed; it marks \<open>p + 2\<close> frames used, two more
  than needed, and keeps the invariant.\<close>

theorem AllocContiguous_safe:
  assumes "pmm_inv s" and "AllocContiguous sz s = Some (f, s')"
  shows "f = 0 \<and> s' = s \<or>
    (\<exists>h. f = frame_addr h \<and> f \<noteq> 0 \<and> h + (unat sz + 4095) div 4096 \<le> frames s
      \<and> run_taken h ((unat sz + 4095) div 4096) s s' \<and> pmm_inv s')"
  using AllocContiguous_sound [OF assms]
proof (elim disjE exE conjE)
  fix h s'' assume *: "(f, s') = (frame_addr h, s'')" "0 < h" "h + (unat sz + 4095) div 4096 \<le> frames s"
    "run_taken h ((unat sz + 4095) div 4096) s s''"
  have "h < 2 ^ 52" using *(3) pmm_invD(2) [OF assms(1)] by simp
  then show ?thesis using * frame_addr_nonzero [of h] run_taken_inv [OF assms(1) *(4,3)] by auto
qed simp

definition run_pmm :: pmm_state where
  "run_pmm = demo_pmm\<lparr>memory := (\<lambda>x. 0)(0x100000 := 0xC7)\<rparr>"

lemma run_pmm_fields [simp]:
  "frames run_pmm = 6" "last_frame run_pmm = 2" "bitmap_frames run_pmm = 8"
  by (simp_all add: run_pmm_def demo_pmm_def bitmap_frames_def)

lemma run_pmm_used: "k < 8 \<Longrightarrow> frame_used run_pmm k \<longleftrightarrow> k \<notin> {3, 4, 5}"
proof -
  have "\<forall>k < 8. frame_used run_pmm k \<longleftrightarrow> k \<notin> {3, 4, 5}"
    unfolding all_less_8 by (simp add: run_pmm_def demo_pmm_def frame_used_def)
  then show "k < 8 \<Longrightarrow> ?thesis" by blast
qed

lemma run_pmm_inv: "pmm_inv run_pmm"
proof -
  have "clear_of_bitmap run_pmm k" if "k \<le> 6" for k
    using that by (simp add: clear_of_bitmap_def run_pmm_def demo_pmm_def)
  moreover have "unat (bitmap (PHYS_MEMORY_MAP run_pmm)) + unat (bitmap_size (PHYS_MEMORY_MAP run_pmm)) \<le> 2 ^ 64"
    by (simp add: run_pmm_def demo_pmm_def)
  ultimately show ?thesis
    using run_pmm_used unfolding pmm_inv_def Let_def by auto
qed

theorem AllocContiguous_safe_witness:
  "\<exists>s'. AllocContiguous 5000 run_pmm = Some (frame_addr 3, s') \<and> pmm_inv s'
    \<and> frame_used s' 3 \<and> frame_used s' 4 \<and> frame_used s' 5 \<and> frame_used s' 6"
proof -
  have "\<forall>k. 3 \<le> k \<and> k \<le> 5 \<longrightarrow> \<not> frame_used run_pmm k" using run_pmm_used by auto
  then obtain s' where s': "AllocContiguous 5000 run_pmm = Some (frame_addr 3, s')"
    using AllocContiguous_first_fit [OF run_pmm_inv, of 5000] by auto
  have "frame_addr 3 = frame_addr h \<Longrightarrow> h \<le> 6 \<Longrightarrow> h = 3" for h
    by (rule frame_addr_inj [symmetric]) auto
  moreover have "frame_addr 3 \<noteq> 0" by (rule frame_addr_nonzero) simp_all
  ultimately show ?thesis
    using AllocContiguous_safe [OF run_pmm_inv s'] s' by (auto simp: run_taken_def)
qed


definition demo_map :: memmap_tag where
  "demo_map = [\<lparr>me_base = 0x1000, me_length = 0x1000, me_type = 1\<rparr>,
     \<lparr>me_base = 0x3000, me_length = 0x4000, me_type = 1\<rparr>,
     \<lparr>me_base = 0x9000, me_length = 0x6000, me_type = 1\<rparr>]"

lemma demo_map_ok: "map_ok demo_map"
proof -
  have u: "UppermostUsableAddr demo_map = 0xEFFF"
    by (simp add: demo_map_def UppermostUsableAddr_def USABLE_PAGE_def)
  have "length demo_map = Suc (Suc (Suc 0))" by (simp add: demo_map_def)
  then show ?thesis unfolding map_ok_def u
    by (simp add: demo_map_def USABLE_PAGE_def entry_end_def All_less_Suc2)
qed


end
