(* ===== verification/Vmm.thy ===== *)
theory Vmm
  imports Pmm "HOL-Library.Monad_Syntax"
begin

text \<open>
  \<^verbatim>\<open>src/src/kernel/memory_management/virtual_memory_manager.c\<close>: the four-level page tables of
  x86-64, kept in memory as 512 entries of 8 bytes per table and allocated frame by frame from
  the physical memory manager. The register \<^verbatim>\<open>cr3\<close>, the addresses given to \<^verbatim>\<open>invlpg\<close> and the
  calls of \<^verbatim>\<open>PrintK\<close> are fields of the state. The page tables are reached at the addresses the
  entries hold, as the code does under the identity mapping of the boot loader.
\<close>

section \<open>Data\<close>

record stivale2_struct_tag_kernel_base_address =
  physical_base_address :: u64
  virtual_base_address :: u64

record stivale2_pmr =
  pmr_base :: u64
  pmr_length :: u64
  pmr_permissions :: u64

type_synonym pmrs_tag = "stivale2_pmr list"

text \<open>The arguments of a call of \<^verbatim>\<open>PrintK\<close> after its format string.\<close>

datatype karg = KNum u64 | KStr string

record vmm_state = pmm_state +
  KERNEL_PAGE_TABLE_ROOT :: u64
  BASE_ADDR :: stivale2_struct_tag_kernel_base_address
  PMRs :: pmrs_tag
  MMAP :: memmap_tag
  cr3 :: u64
  invlpg :: "u64 list"
  klog :: "(string \<times> karg list) list"

definition KERNEL_DATA :: u64 where "KERNEL_DATA = 0xffff800000000000"

definition PRESENT :: u64 where "PRESENT = 1"

definition READ_WRITABLE :: u64 where "READ_WRITABLE = push_bit 1 1"

definition USER_ACCESSIBLE :: u64 where "USER_ACCESSIBLE = push_bit 2 1"

definition WRITE_THROUGH :: u64 where "WRITE_THROUGH = push_bit 3 1"

definition CACHE_DISABLED :: u64 where "CACHE_DISABLED = push_bit 4 1"

definition ACCESSED :: u64 where "ACCESSED = push_bit 5 1"

definition DIRTY :: u64 where "DIRTY = push_bit 6 1"

definition PAGE_ATTRIBUTE_TABLE :: u64 where "PAGE_ATTRIBUTE_TABLE = push_bit 7 1"

definition EXECUTABLE :: u64 where "EXECUTABLE = NOT (push_bit 62 1)"

definition KERNEL_PAGE :: u64 where "KERNEL_PAGE = PRESENT OR READ_WRITABLE"

definition USER_PAGE :: u64 where "USER_PAGE = PRESENT OR READ_WRITABLE OR USER_ACCESSIBLE"

definition V_ADDR_INDEX :: "u64 \<Rightarrow> nat \<Rightarrow> u64" where
  "V_ADDR_INDEX vaddr level = drop_bit (12 + 9 * (level - 1)) vaddr AND 0x1FF"

text \<open>\<^verbatim>\<open>&table[index]\<close> for a table of 64-bit entries, and the entry there.\<close>

definition entry_ptr :: "u64 \<Rightarrow> u64 \<Rightarrow> u64" where
  "entry_ptr table index = table + 8 * index"

abbreviation table_entry :: "'a pmm_state_scheme \<Rightarrow> u64 \<Rightarrow> u64 \<Rightarrow> u64" where
  "table_entry s table index \<equiv> load64 (memory s) (entry_ptr table index)"

definition PrintK_log :: "string \<Rightarrow> karg list \<Rightarrow> 'a vmm_state_scheme \<Rightarrow> 'a vmm_state_scheme" where
  "PrintK_log fmt args s = s\<lparr>klog := klog s @ [(fmt, args)]\<rparr>"

section \<open>Operations\<close>

definition GetPageFlag :: "u64 \<Rightarrow> u64 \<Rightarrow> bool" where
  "GetPageFlag page flag \<longleftrightarrow> page AND flag \<noteq> 0"

definition GetPageTable :: "u64 \<Rightarrow> u64 \<Rightarrow> 'a pmm_state_scheme \<Rightarrow> u64" where
  "GetPageTable parent index s =
     (if GetPageFlag (table_entry s parent index) PRESENT
      then table_entry s parent index AND NOT 511 else 0)"

definition GetOrCreatePageTable ::
  "u64 \<Rightarrow> u64 \<Rightarrow> u16 \<Rightarrow> 'a pmm_state_scheme \<Rightarrow> (u64 \<times> 'a pmm_state_scheme) option" where
  "GetOrCreatePageTable parent index flags s =
     (if GetPageFlag (table_entry s parent index) PRESENT
      then Some (table_entry s parent index AND NOT 511, s)
      else do {
        (free_frame, s) \<leftarrow> AllocFirstFrame s;
        if free_frame = 0 then Some (0, s)
        else Some (free_frame,
          s\<lparr>memory := store64 (memory s) (entry_ptr parent index) (free_frame OR ucast flags)\<rparr>)
      })"

text \<open>
  The loops \<^verbatim>\<open>for(int i = 4; i > 1; --i)\<close>: \<open>None\<close> is the early \<^verbatim>\<open>return NULL\<close> of a missing
  child, otherwise the last table reached.
\<close>

fun walk_loop :: "nat \<Rightarrow> u64 \<Rightarrow> u64 \<Rightarrow> 'a pmm_state_scheme \<Rightarrow> u64 option" where
  "walk_loop i parent_table vaddr s =
     (if i > 1 then
        (let child_table = GetPageTable parent_table (V_ADDR_INDEX vaddr i) s
         in if child_table = 0 then None else walk_loop (i - 1) child_table vaddr s)
      else Some parent_table)"

definition GetPage :: "u64 \<Rightarrow> u64 \<Rightarrow> 'a pmm_state_scheme \<Rightarrow> u64" where
  "GetPage page_table_root vaddr s =
     (case walk_loop 4 page_table_root vaddr s of
        None \<Rightarrow> 0
      | Some parent_table \<Rightarrow> entry_ptr parent_table (V_ADDR_INDEX vaddr 1))"

definition GetKernelPage :: "u64 \<Rightarrow> 'a vmm_state_scheme \<Rightarrow> u64" where
  "GetKernelPage vaddr s = GetPage (KERNEL_PAGE_TABLE_ROOT s) vaddr s"

fun create_loop ::
  "nat \<Rightarrow> u64 \<Rightarrow> u64 \<Rightarrow> u16 \<Rightarrow> 'a pmm_state_scheme \<Rightarrow> (u64 option \<times> 'a pmm_state_scheme) option" where
  "create_loop i parent_table vaddr flags s =
     (if i > 1 then do {
        (child_table, s) \<leftarrow> GetOrCreatePageTable parent_table (V_ADDR_INDEX vaddr i) flags s;
        if child_table = 0 then Some (None, s)
        else create_loop (i - 1) child_table vaddr flags s
      } else Some (Some parent_table, s))"

declare walk_loop.simps [simp del] create_loop.simps [simp del]

definition CreatePage ::
  "u64 \<Rightarrow> u64 \<Rightarrow> u16 \<Rightarrow> 'a pmm_state_scheme \<Rightarrow> (u64 \<times> 'a pmm_state_scheme) option" where
  "CreatePage page_table_root vaddr flags s = do {
     (parent_table, s) \<leftarrow> create_loop 4 page_table_root vaddr flags s;
     case parent_table of
       None \<Rightarrow> Some (0, s)
     | Some parent_table \<Rightarrow> Some (entry_ptr parent_table (V_ADDR_INDEX vaddr 1), s)
   }"

definition MapPage ::
  "u64 \<Rightarrow> u64 \<Rightarrow> u64 \<Rightarrow> u16 \<Rightarrow> 'a pmm_state_scheme \<Rightarrow> (bool \<times> 'a pmm_state_scheme) option" where
  "MapPage page_table_root vaddr paddr flags s = do {
     (page_table_entry, s) \<leftarrow> CreatePage page_table_root vaddr flags s;
     if page_table_entry = 0 then Some (False, s)
     else Some (True, s\<lparr>memory := store64 (memory s) page_table_entry (paddr OR ucast flags)\<rparr>)
   }"

partial_function (option) map_multiple_loop ::
  "u64 \<Rightarrow> u64 \<Rightarrow> u64 \<Rightarrow> u64 \<Rightarrow> u16 \<Rightarrow> 'a vmm_state_scheme \<Rightarrow> (bool \<times> 'a vmm_state_scheme) option" where
  "map_multiple_loop page_table_root addr bound offset flags s =
     (if addr < bound then
        (case MapPage page_table_root (addr + offset) addr flags s of
           None \<Rightarrow> None
         | Some (success, s1) \<Rightarrow>
             if \<not> success then
               Some (False, PrintK_log (''Failed mapping %h->%h'' @ [CHR 0x0A])
                 [KNum addr, KNum (addr + offset)] s1)
             else map_multiple_loop page_table_root (addr + FRAME_SIZE) bound offset flags s1)
      else Some (True, s))"

definition MapMultiple ::
  "u64 \<Rightarrow> u64 \<Rightarrow> u64 \<Rightarrow> u64 \<Rightarrow> u16 \<Rightarrow> 'a vmm_state_scheme \<Rightarrow> (bool \<times> 'a vmm_state_scheme) option" where
  "MapMultiple page_table_root base bound offset flags s =
     map_multiple_loop page_table_root base bound offset flags s"

definition MapMultipleKernel ::
  "u64 \<Rightarrow> u64 \<Rightarrow> u64 \<Rightarrow> u16 \<Rightarrow> 'a vmm_state_scheme \<Rightarrow> (bool \<times> 'a vmm_state_scheme) option" where
  "MapMultipleKernel base bound offset flags s =
     MapMultiple (KERNEL_PAGE_TABLE_ROOT s) base bound offset flags s"

definition MapKernelPage ::
  "u64 \<Rightarrow> u64 \<Rightarrow> u16 \<Rightarrow> 'a vmm_state_scheme \<Rightarrow> (bool \<times> 'a vmm_state_scheme) option" where
  "MapKernelPage vaddr paddr flags s = MapPage (KERNEL_PAGE_TABLE_ROOT s) vaddr paddr flags s"

definition UnmapPage :: "u64 \<Rightarrow> u64 \<Rightarrow> 'a vmm_state_scheme \<Rightarrow> bool \<times> 'a vmm_state_scheme" where
  "UnmapPage page_table_root vaddr s =
     (let page_table_entry = GetPage page_table_root vaddr s
      in if page_table_entry = 0 then (False, s)
         else (True, s\<lparr>memory := store64 (memory s) page_table_entry 0, invlpg := vaddr # invlpg s\<rparr>))"

definition UnmapKernelPage :: "u64 \<Rightarrow> 'a vmm_state_scheme \<Rightarrow> bool \<times> 'a vmm_state_scheme" where
  "UnmapKernelPage vaddr s = UnmapPage (KERNEL_PAGE_TABLE_ROOT s) vaddr s"

definition VAddrToPAddr :: "u64 \<Rightarrow> u64 \<Rightarrow> 'a pmm_state_scheme \<Rightarrow> u64" where
  "VAddrToPAddr table vaddr s =
     (case walk_loop 4 table vaddr s of
        None \<Rightarrow> 0
      | Some child_table \<Rightarrow> table_entry s child_table (V_ADDR_INDEX vaddr 1) AND NOT 0x1FF)"

definition KernelVAddrToPAddr :: "u64 \<Rightarrow> 'a vmm_state_scheme \<Rightarrow> u64" where
  "KernelVAddrToPAddr vaddr s = VAddrToPAddr (KERNEL_PAGE_TABLE_ROOT s) vaddr s"

definition RemapPage ::
  "u64 \<Rightarrow> u64 \<Rightarrow> u64 \<Rightarrow> u16 \<Rightarrow> 'a vmm_state_scheme \<Rightarrow> (bool \<times> 'a vmm_state_scheme) option" where
  "RemapPage page_table_root former_vaddr new_vaddr flags s =
     (let paddr = VAddrToPAddr page_table_root former_vaddr s;
          (unmap_code, s1) = UnmapPage page_table_root former_vaddr s
      in do {
        (map_code, s2) \<leftarrow> MapPage page_table_root former_vaddr paddr flags s1;
        Some (unmap_code \<and> map_code, s2)
      })"

definition RemapKernelPage ::
  "u64 \<Rightarrow> u64 \<Rightarrow> u16 \<Rightarrow> 'a vmm_state_scheme \<Rightarrow> (bool \<times> 'a vmm_state_scheme) option" where
  "RemapKernelPage former_vaddr new_vaddr flags s =
     (let paddr = KernelVAddrToPAddr former_vaddr s;
          (unmap_code, s1) = UnmapKernelPage former_vaddr s
      in do {
        (map_code, s2) \<leftarrow> MapKernelPage former_vaddr paddr flags s1;
        Some (unmap_code \<and> map_code, s2)
      })"

text \<open>\<^verbatim>\<open>! pml1[pml1_entry] & PRESENT\<close> negates the whole entry before the conjunction.\<close>

definition AssertKernelMapping :: "u64 \<Rightarrow> u64 \<Rightarrow> 'a vmm_state_scheme \<Rightarrow> bool" where
  "AssertKernelMapping phys_addr virt_addr s =
     (if KERNEL_PAGE_TABLE_ROOT s = 0 then False
      else
        (let pml4_entry = drop_bit 39 (virt_addr AND push_bit 39 0x1ff);
             pml3_entry = drop_bit 30 (virt_addr AND push_bit 30 0x1ff);
             pml2_entry = drop_bit 21 (virt_addr AND push_bit 21 0x1ff);
             pml1_entry = drop_bit 12 (virt_addr AND push_bit 12 0x1ff);
             pml3 = GetPageTable (KERNEL_PAGE_TABLE_ROOT s) pml4_entry s
         in if pml3 = 0 then False
            else
              (let pml2 = GetPageTable pml3 pml3_entry s
               in if pml2 = 0 then False
                  else
                    (let pml1 = GetPageTable pml2 pml2_entry s
                     in if pml1 = 0 then False
                        else if (if table_entry s pml1 pml1_entry = 0 then 1 else 0) AND PRESENT \<noteq> 0
                        then False
                        else table_entry s pml1 pml1_entry AND NOT 511 = phys_addr))))"

definition TestKernelMapping :: "u64 \<Rightarrow> u64 \<Rightarrow> 'a vmm_state_scheme \<Rightarrow> 'a vmm_state_scheme" where
  "TestKernelMapping phys_addr virt_addr s =
     (if AssertKernelMapping phys_addr virt_addr s
      then PrintK_log (''Testing kernel mapping %h -> %h: Success.'' @ [CHR 0x0A])
             [KNum phys_addr, KNum virt_addr] s
      else PrintK_log (''Testing kernel mapping %h -> %h: Failure.'' @ [CHR 0x0A])
             [KNum phys_addr, KNum virt_addr] s)"

text \<open>
  \<^verbatim>\<open>MapKernelPmrs\<close>: the first mapping's result is dropped, as are those of the framebuffer and
  boot loader ranges; the others are collected in \<open>success\<close>.
\<close>

fun map_pmrs_loop ::
  "u64 \<Rightarrow> u64 \<Rightarrow> u64 \<Rightarrow> pmrs_tag \<Rightarrow> bool \<Rightarrow> 'a vmm_state_scheme \<Rightarrow> (bool \<times> 'a vmm_state_scheme) option" where
  "map_pmrs_loop root kern_phys_base kern_virt_base [] success s = Some (success, s)"
| "map_pmrs_loop root kern_phys_base kern_virt_base (pmr # ps) success s =
     (let virt = pmr_base pmr;
          phys = kern_phys_base + (pmr_base pmr - kern_virt_base);
          len = pmr_length pmr;
          offset = virt - phys
      in do {
        (ok, s) \<leftarrow> MapMultiple root phys (phys + len) offset (ucast KERNEL_PAGE) s;
        map_pmrs_loop root kern_phys_base kern_virt_base ps (success \<and> ok)
          (TestKernelMapping phys (phys + offset) s)
      })"

definition STIVALE2_MMAP_BOOTLOADER_RECLAIMABLE :: u32 where
  "STIVALE2_MMAP_BOOTLOADER_RECLAIMABLE = 0x1000"

definition STIVALE2_MMAP_FRAMEBUFFER :: u32 where
  "STIVALE2_MMAP_FRAMEBUFFER = 0x1002"

fun map_mmap_loop ::
  "u64 \<Rightarrow> memmap_tag \<Rightarrow> bool \<Rightarrow> 'a vmm_state_scheme \<Rightarrow> (bool \<times> 'a vmm_state_scheme) option" where
  "map_mmap_loop root [] success s = Some (success, s)"
| "map_mmap_loop root (e # es) success s =
     (let base = me_base e;
          bound = base + me_length e;
          flags = (ucast (KERNEL_PAGE AND EXECUTABLE) :: u16)
      in do {
        (_, s) \<leftarrow> (if me_type e = STIVALE2_MMAP_FRAMEBUFFER \<or>
                      me_type e = STIVALE2_MMAP_BOOTLOADER_RECLAIMABLE
                   then MapMultiple root base bound 0 flags s else Some (True, s));
        (_, s) \<leftarrow> (if me_type e = STIVALE2_MMAP_FRAMEBUFFER
                   then MapMultiple root base bound KERNEL_DATA flags s else Some (True, s));
        if bound \<le> 0x100000000 then map_mmap_loop root es success s
        else do {
          (ok1, s) \<leftarrow> MapMultiple root base bound 0 (ucast KERNEL_PAGE) s;
          (ok2, s) \<leftarrow> MapMultiple root base bound KERNEL_DATA (ucast KERNEL_PAGE) s;
          map_mmap_loop root es (success \<and> ok1 \<and> ok2) s
        }
      })"

definition MapKernelPmrs ::
  "u64 \<Rightarrow> 'a vmm_state_scheme \<Rightarrow> (bool \<times> 'a vmm_state_scheme) option" where
  "MapKernelPmrs page_table_root s =
     (let kern_phys_base = physical_base_address (BASE_ADDR s);
          kern_virt_base = virtual_base_address (BASE_ADDR s);
          four_gb = 0x100000000
      in do {
        (_, s) \<leftarrow> MapMultiple page_table_root 0x1000 four_gb KERNEL_DATA (ucast KERNEL_PAGE) s;
        (success, s) \<leftarrow> map_pmrs_loop page_table_root kern_phys_base kern_virt_base (PMRs s) True s;
        map_mmap_loop page_table_root (MMAP s) success s
      })"

definition InitPageTable ::
  "memmap_tag \<Rightarrow> stivale2_struct_tag_kernel_base_address \<Rightarrow> pmrs_tag \<Rightarrow> 'a vmm_state_scheme
    \<Rightarrow> (bool \<times> 'a vmm_state_scheme) option" where
  "InitPageTable mmap kern_base_addr pmrs s =
     (let s = s\<lparr>MMAP := mmap, BASE_ADDR := kern_base_addr, PMRs := pmrs\<rparr>
      in do {
        (frame, s) \<leftarrow> AllocFirstFrame s;
        let s = s\<lparr>KERNEL_PAGE_TABLE_ROOT := frame\<rparr>;
        if frame = 0 then Some (False, s)
        else do {
          (ok1, s) \<leftarrow> MapKernelPmrs (KERNEL_PAGE_TABLE_ROOT s) s;
          (ok2, s) \<leftarrow> MapMultipleKernel 0x1000 0x100000000 0 (ucast KERNEL_PAGE) s;
          (ok3, s) \<leftarrow> MapMultipleKernel 0x1000 0x100000000 KERNEL_DATA (ucast KERNEL_PAGE) s;
          Some (ok1 \<and> ok2 \<and> ok3, s\<lparr>cr3 := KERNEL_PAGE_TABLE_ROOT s\<rparr>)
        }
      })"

text \<open>The strings \<^verbatim>\<open>PrintPageAttrs\<close> chooses for the flags of a page.\<close>

definition page_attrs :: "u64 \<Rightarrow> string list" where
  "page_attrs page =
     [if GetPageFlag page PRESENT then ''PRESENT'' else ''NOT-PRESENT'',
      if GetPageFlag page READ_WRITABLE then ''READ-WRITABLE'' else ''READ-ONLY'',
      if GetPageFlag page USER_ACCESSIBLE then ''USER-ACCESSIBLE'' else ''SUPERVISOR-ONLY'',
      if GetPageFlag page WRITE_THROUGH then ''WRITE-THROUGH'' else ''WRITE-BACK'',
      if GetPageFlag page CACHE_DISABLED then ''CACHE-DISABLED'' else ''CACHE-ENABLED'',
      if GetPageFlag page ACCESSED then ''ACCESSED'' else ''UNTOUCHED'',
      if GetPageFlag page DIRTY then ''DIRTY'' else ''CLEAN'',
      if GetPageFlag page PAGE_ATTRIBUTE_TABLE then ''PAT'' else ''NO-PAT'']"

definition PrintPageAttrs :: "u64 \<Rightarrow> u64 \<Rightarrow> 'a vmm_state_scheme \<Rightarrow> 'a vmm_state_scheme" where
  "PrintPageAttrs page_table_root virt_addr s =
     (let page = GetPage page_table_root virt_addr s
      in if page = 0 then PrintK_log ''Addr %h has not been mapped.'' [KNum virt_addr] s
         else PrintK_log (''%h:'' @ concat (replicate 8 (CHR 0x09 # ''%s'')))
                (KNum virt_addr # map KStr (page_attrs (load64 (memory s) page))) s)"

definition PrintKernelPageAttrs :: "u64 \<Rightarrow> 'a vmm_state_scheme \<Rightarrow> 'a vmm_state_scheme" where
  "PrintKernelPageAttrs virt_addr s = PrintPageAttrs (KERNEL_PAGE_TABLE_ROOT s) virt_addr s"

section \<open>Paths through the tables\<close>

fun table_at :: "'a pmm_state_scheme \<Rightarrow> u64 \<Rightarrow> u64 list \<Rightarrow> u64 option" where
  "table_at s t [] = Some t"
| "table_at s t (i # is) =
     (let c = GetPageTable t i s in if c = 0 then None else table_at s c is)"

definition vpath :: "u64 \<Rightarrow> u64 list" where
  "vpath vaddr = [V_ADDR_INDEX vaddr 4, V_ADDR_INDEX vaddr 3, V_ADDR_INDEX vaddr 2]"

lemma walk_loop_table_at: "walk_loop 4 root vaddr s = table_at s root (vpath vaddr)"
  by (simp add: vpath_def walk_loop.simps Let_def)

lemma table_at_append:
  "table_at s t (p @ q) = Option.bind (table_at s t p) (\<lambda>c. table_at s c q)"
  by (induction p arbitrary: t) (simp_all add: Let_def)

lemma table_at_snoc:
  "table_at s t (p @ [i]) =
     (case table_at s t p of None \<Rightarrow> None
      | Some c \<Rightarrow> if GetPageTable c i s = 0 then None else Some (GetPageTable c i s))"
  by (simp add: table_at_append Let_def split: option.splits)

text \<open>The entry a path and an index lead to; 0 when a table is missing.\<close>

definition leaf :: "'a pmm_state_scheme \<Rightarrow> u64 \<Rightarrow> u64 list \<Rightarrow> u64 \<Rightarrow> u64" where
  "leaf s root p j = (case table_at s root p of None \<Rightarrow> 0 | Some t \<Rightarrow> table_entry s t j)"

definition path_ok :: "u64 list \<Rightarrow> bool" where
  "path_ok p \<longleftrightarrow> length p \<le> 3 \<and> (\<forall>i \<in> set p. i < 512)"

definition is_table :: "'a pmm_state_scheme \<Rightarrow> u64 \<Rightarrow> bool" where
  "is_table s t \<longleftrightarrow> (\<exists>k. t = frame_addr k \<and> freeable s k \<and> frame_used s k)"

definition tables_ok :: "'a pmm_state_scheme \<Rightarrow> u64 \<Rightarrow> bool" where
  "tables_ok s root \<longleftrightarrow> pmm_inv s
     \<and> (\<forall>p t. path_ok p \<longrightarrow> table_at s root p = Some t \<longrightarrow> is_table s t)
     \<and> (\<forall>p q t. path_ok p \<longrightarrow> path_ok q \<longrightarrow> table_at s root p = Some t \<longrightarrow> table_at s root q = Some t
          \<longrightarrow> p = q)"

lemma V_ADDR_INDEX_less: "V_ADDR_INDEX vaddr l < 512"
  unfolding V_ADDR_INDEX_def by (rule le_less_trans [OF word_and_le1]) simp

lemma path_ok_vpath: "path_ok (vpath vaddr)"
  by (simp add: path_ok_def vpath_def V_ADDR_INDEX_less)

lemma path_ok_append: "path_ok (p @ q) \<Longrightarrow> path_ok p"
  by (auto simp: path_ok_def)

section \<open>Entries of tables in memory\<close>

lemma is_table_addr:
  assumes "pmm_inv s" "is_table s t"
  obtains k where "t = frame_addr k" "unat t = 4096 * k" "freeable s k" "frame_used s k" "k < 2 ^ 31" "k < 2 ^ 52"
proof -
  obtain k where k: "t = frame_addr k" "freeable s k" "frame_used s k"
    using assms(2) by (auto simp: is_table_def)
  have "k < 2 ^ 31" using k(2) pmm_invD(2) [OF assms(1)] by (simp add: freeable_def)
  then have "k < 2 ^ 52" by simp
  then have "unat t = 4096 * k" using k(1) by (simp add: unat_frame_addr)
  then show thesis using that k \<open>k < 2 ^ 31\<close> \<open>k < 2 ^ 52\<close> by blast
qed

lemma unat_entry_ptr:
  assumes "unat t = 4096 * k" "k < 2 ^ 31" "i < 512"
  shows "unat (entry_ptr t i) = 4096 * k + 8 * unat i"
proof -
  have i: "unat i < 512" using assms(3) by (simp add: word_less_nat_alt)
  then have "unat (8 * i) = 8 * unat i" by (simp add: unat_mult_lem [THEN iffD1])
  then show ?thesis
    unfolding entry_ptr_def using assms(1,2) i by (subst unat_add_no_wrap) simp_all
qed

lemma entry_in_frame:
  assumes "k < 2 ^ 31" "i < 512" "in_range x (entry_ptr (frame_addr k) i) 8"
  shows "in_range x (frame_addr k) 4096"
proof -
  have fa: "unat (frame_addr k) = 4096 * k" using assms(1) by (intro unat_frame_addr) simp
  note e = unat_entry_ptr [OF fa assms(1,2)]
  have i: "unat i < 512" using assms(2) by (simp add: word_less_nat_alt)
  have "unat (entry_ptr (frame_addr k) i) + 8 \<le> 2 ^ 64" unfolding e using assms(1) i by simp
  then show ?thesis
    using assms(1,3) i by (auto simp: in_range_nowrap e frame_range)
qed

lemma frames_disjoint:
  assumes "k < 2 ^ 52" "j < 2 ^ 52" "k \<noteq> j" "in_range x (frame_addr k) 4096"
  shows "\<not> in_range x (frame_addr j) 4096"
  using assms by (auto simp: frame_range)

lemma entries_disjoint:
  assumes "k < 2 ^ 31" "j < 2 ^ 31" "i < 512" "i' < 512" "(k, i) \<noteq> (j, i')"
  shows "disjoint (entry_ptr (frame_addr k) i) 8 (entry_ptr (frame_addr j) i') 8"
proof (cases "k = j")
  case True
  have fa: "unat (frame_addr k) = 4096 * k" using assms(1) by (intro unat_frame_addr) simp
  have i: "unat i < 512" "unat i' < 512" using assms(3,4) by (simp_all add: word_less_nat_alt)
  have "unat i \<noteq> unat i'" using True assms(5) by (auto simp: word_unat_eq_iff)
  then show ?thesis
    using assms(1) i unat_entry_ptr [OF fa assms(1,3)] unat_entry_ptr [OF fa assms(1,4)] True
    by (intro disjoint_nowrap) auto
next
  case False
  show ?thesis
    unfolding disjoint_def
  proof (intro allI impI notI)
    fix x assume x: "in_range x (entry_ptr (frame_addr k) i) 8" "in_range x (entry_ptr (frame_addr j) i') 8"
    have "k < 2 ^ 52" "j < 2 ^ 52" using assms(1,2) by simp_all
    then show False
      using frames_disjoint [OF _ _ False] entry_in_frame [OF assms(1,3) x(1)] entry_in_frame [OF assms(2,4) x(2)]
      by blast
  qed
qed

lemma frame_not_bitmap:
  assumes "pmm_inv s" "freeable s k" "j < bitmap_frames s"
  shows "\<not> in_range (bitmap (PHYS_MEMORY_MAP s) + of_nat (j div 8)) (frame_addr k) 4096"
  using assms pmm_invD(2,4) [OF assms(1)] by (intro bitmap_byte_outside) (auto simp: freeable_def)

text \<open>A write into a table entry leaves the allocator and every other entry alone.\<close>

abbreviation set_entry :: "'a pmm_state_scheme \<Rightarrow> u64 \<Rightarrow> u64 \<Rightarrow> u64 \<Rightarrow> 'a pmm_state_scheme" where
  "set_entry s t i v \<equiv> s\<lparr>memory := store64 (memory s) (entry_ptr t i) v\<rparr>"

lemma set_entry_frames:
  assumes inv: "pmm_inv s" and t: "is_table s t" and i: "i < 512"
  shows "j < bitmap_frames s \<Longrightarrow> frame_used (set_entry s t i v) j = frame_used s j"
    and "pmm_inv (set_entry s t i v)"
    and "avail (set_entry s t i v) = avail s"
    and "freeable (set_entry s t i v) = freeable s"
    and "is_table s c \<Longrightarrow> is_table (set_entry s t i v) c"
proof -
  obtain k where k: "t = frame_addr k" "freeable s k" "k < 2 ^ 31" using is_table_addr [OF inv t] by blast
  let ?s = "set_entry s t i v"
  show used: "frame_used ?s j = frame_used s j" if "j < bitmap_frames s" for j
  proof -
    have "\<not> in_range (bitmap (PHYS_MEMORY_MAP s) + of_nat (j div 8)) (entry_ptr t i) 8"
      using entry_in_frame [OF k(3) i] frame_not_bitmap [OF inv k(2) that] k(1) by blast
    then show ?thesis by (simp add: frame_used_def c64.store_other)
  qed
  have same: "bitmap_frames ?s = bitmap_frames s" "clear_of_bitmap ?s = clear_of_bitmap s"
    by (simp_all add: fun_eq_iff bitmap_frames_def clear_of_bitmap_def)
  show "freeable ?s = freeable s" by (simp add: fun_eq_iff freeable_def same)
  show "pmm_inv ?s" using inv unfolding pmm_inv_def Let_def same by (simp add: used)
  show "avail ?s = avail s" by (auto simp: avail_def same used)
  show "is_table ?s c" if c: "is_table s c"
  proof -
    obtain j where j: "c = frame_addr j" "freeable s j" "frame_used s j" using c by (auto simp: is_table_def)
    moreover have "j < bitmap_frames s" using j(2) pmm_invD(3) [OF inv] by (simp add: freeable_def)
    ultimately show ?thesis using used \<open>freeable ?s = freeable s\<close> by (auto simp: is_table_def)
  qed
qed

lemma set_entry_entry:
  assumes inv: "pmm_inv s" and t: "is_table s t" "is_table s c" and i: "i < 512" "j < 512"
  shows "table_entry (set_entry s t i v) c j = (if c = t \<and> j = i then v else table_entry s c j)"
proof (cases "c = t \<and> j = i")
  case True
  then show ?thesis by (simp add: mem_simps)
next
  case False
  obtain k where k: "t = frame_addr k" "k < 2 ^ 31" using is_table_addr [OF inv t(1)] by blast
  obtain l where l: "c = frame_addr l" "l < 2 ^ 31" using is_table_addr [OF inv t(2)] by blast
  have "disjoint (entry_ptr c j) 8 (entry_ptr t i) 8"
    unfolding k l using False k l i by (intro entries_disjoint) auto
  then show ?thesis using False by (auto simp: c64.load_store_disjoint)
qed

section \<open>Creating a table\<close>

definition flags_ok :: "u16 \<Rightarrow> bool" where
  "flags_ok flags \<longleftrightarrow> bit flags 0 \<and> flags < 512"

lemma GetPageFlag_PRESENT: "GetPageFlag x PRESENT \<longleftrightarrow> bit x 0"
  by (simp add: GetPageFlag_def PRESENT_def and_one_eq mod_2_eq_odd bit_0)

lemma not_511: "(x :: u64) AND NOT 511 = push_bit 9 (drop_bit 9 x)"
proof -
  have "(511 :: u64) = mask 9" by (simp add: mask_eq_exp_minus_1)
  then have "x AND NOT 511 = x AND NOT (mask 9)" by (simp only:)
  also have "\<dots> = push_bit 9 (drop_bit 9 x)" by (auto intro!: bit_word_eqI simp: bit_simps)
  finally show ?thesis .
qed

lemma flags_ok_high:
  assumes "flags_ok flags"
  shows "(ucast flags :: u64) AND NOT 511 = 0"
proof -
  have "unat flags < 2 ^ 9" using assms by (simp add: flags_ok_def word_less_nat_alt)
  then have "unat (ucast flags :: u64) div 2 ^ 9 = 0"
    by (simp add: unsigned_ucast_eq take_bit_nat_eq_self)
  then have "unat ((ucast flags :: u64) AND NOT 511) = 0"
    by (simp only: not_511 unat_clear_low_bits)
  then show ?thesis by (simp only: unsigned_eq_0_iff)
qed

lemma frame_addr_high: "frame_addr k AND NOT 511 = frame_addr k"
proof -
  have "frame_addr k = push_bit 12 (of_nat k)" by (simp add: frame_addr_def push_bit_eq_mult mult.commute)
  then show ?thesis unfolding not_511 by (auto intro!: bit_word_eqI simp: bit_simps)
qed

lemma new_entry:
  assumes "flags_ok flags"
  shows "GetPageFlag (x OR ucast flags) PRESENT" "(x OR ucast flags) AND NOT 511 = x AND NOT (511 :: u64)"
proof -
  show "GetPageFlag (x OR ucast flags) PRESENT"
    using assms by (simp add: GetPageFlag_PRESENT flags_ok_def bit_simps)
  show "(x OR ucast flags) AND NOT 511 = x AND NOT (511 :: u64)"
    by (simp only: bit.conj_disj_distrib2 flags_ok_high [OF assms] or.right_neutral)
qed

lemma frame_taken_tables:
  assumes inv: "pmm_inv s" and taken: "frame_taken k s s1" and k: "k < bitmap_frames s"
  shows "is_table s t \<Longrightarrow> i < 512 \<Longrightarrow> table_entry s1 t i = table_entry s t i"
    and "is_table s t \<Longrightarrow> is_table s1 t"
    and "is_table s1 (frame_addr k)"
    and "i < 512 \<Longrightarrow> table_entry s1 (frame_addr k) i = 0"
    and "\<not> is_table s (frame_addr k)"
    and "frame_addr k \<noteq> 0"
proof -
  note av = frame_taken_avail [OF taken k]
  note kk = availD [OF inv av(1)]
  have used1: "frame_used s1 j \<longleftrightarrow> j = k \<or> frame_used s j" if "j < bitmap_frames s" for j
    using taken that by (simp add: frame_taken_def)
  show "frame_addr k \<noteq> 0" using kk(1,5) frame_addr_nonzero [of k] by (auto simp: freeable_def)
  show "is_table s1 (frame_addr k)" unfolding is_table_def using kk(1) used1 [OF k] av(3) by auto
  show "\<not> is_table s (frame_addr k)"
    using is_table_addr [OF inv] frame_addr_inj [OF kk(5)] kk(2) by metis
  show "table_entry s1 (frame_addr k) i = 0" if i: "i < 512"
  proof (rule c64.load_zero)
    show "memory s1 x = 0" if "in_range x (entry_ptr (frame_addr k) i) 8" for x
      using taken entry_in_frame [OF kk(4) i that] by (simp add: frame_taken_def)
  qed
  show "is_table s1 t" if t: "is_table s t"
  proof -
    obtain j where j: "t = frame_addr j" "freeable s j" "frame_used s j" using t by (auto simp: is_table_def)
    moreover have "j < bitmap_frames s" using j(2) pmm_invD(3) [OF inv] by (simp add: freeable_def)
    ultimately show ?thesis using used1 av(3) by (auto simp: is_table_def)
  qed
  show "table_entry s1 t i = table_entry s t i" if t: "is_table s t" and i: "i < 512"
  proof -
    obtain j where j: "t = frame_addr j" "freeable s j" "frame_used s j" "j < 2 ^ 31" "j < 2 ^ 52"
      using is_table_addr [OF inv t] by blast
    have "memory s1 x = memory s x" if "in_range x (entry_ptr t i) 8" for x
    proof -
      have x: "in_range x (frame_addr j) 4096" using entry_in_frame [OF j(4) i] that j(1) by simp
      have "j \<noteq> k" using j(3) kk(2) by auto
      then have "\<not> in_range x (frame_addr k) 4096" using frames_disjoint [OF j(5) kk(5) _ x] by simp
      moreover have "x \<noteq> bitmap (PHYS_MEMORY_MAP s) + of_nat (k div 8)"
        using frame_not_bitmap [OF inv j(2) k] x by blast
      ultimately show ?thesis using taken by (simp add: frame_taken_def)
    qed
    then show ?thesis by (rule c64.load_cong)
  qed
qed

lemma GetPageTable_cong: "table_entry s' t i = table_entry s t i \<Longrightarrow> GetPageTable t i s' = GetPageTable t i s"
  by (simp add: GetPageTable_def)

lemma table_at_cong:
  assumes "\<And>q i r t. p = q @ i # r \<Longrightarrow> table_at s root q = Some t \<Longrightarrow> table_entry s' t i = table_entry s t i"
  shows "table_at s' root p = table_at s root p"
  using assms
proof (induction p rule: rev_induct)
  case (snoc i p)
  have IH: "table_at s' root p = table_at s root p"
    by (rule snoc.IH) (use snoc.prems in force)
  then show ?case
    using snoc.prems [of p i "[]"] GetPageTable_cong [of s' _ i s]
    by (auto simp: table_at_snoc split: option.splits)
qed simp

lemma tables_okD:
  assumes "tables_ok s root"
  shows "pmm_inv s" "path_ok p \<Longrightarrow> table_at s root p = Some t \<Longrightarrow> is_table s t"
    "path_ok p \<Longrightarrow> path_ok q \<Longrightarrow> table_at s root p = Some t \<Longrightarrow> table_at s root q = Some t \<Longrightarrow> p = q"
  using assms unfolding tables_ok_def by blast+

lemma path_ok_split: "path_ok (q @ i # r) \<Longrightarrow> path_ok q \<and> i < 512"
  by (auto simp: path_ok_def)

lemma frame_taken_table_at:
  assumes ok: "tables_ok s root" and taken: "frame_taken k s s1" "k < bitmap_frames s" and p: "path_ok p"
  shows "table_at s1 root p = table_at s root p"
proof (rule table_at_cong)
  fix q i r t assume *: "p = q @ i # r" "table_at s root q = Some t"
  then have "path_ok q" "i < 512" using path_ok_split p by auto
  then show "table_entry s1 t i = table_entry s t i"
    using frame_taken_tables(1) [OF tables_okD(1) [OF ok] taken] tables_okD(2) [OF ok _ *(2)] by blast
qed

lemma frame_taken_tables_ok:
  assumes ok: "tables_ok s root" and taken: "frame_taken k s s1" "k < bitmap_frames s"
  shows "tables_ok s1 root"
  unfolding tables_ok_def
proof (intro conjI allI impI)
  note inv = tables_okD(1) [OF ok]
  show "pmm_inv s1" by (rule frame_taken_inv [OF inv taken])
  fix p t assume *: "path_ok p" "table_at s1 root p = Some t"
  note p = *(2) [unfolded frame_taken_table_at [OF ok taken *(1)]]
  show "is_table s1 t"
    using frame_taken_tables(2) [OF inv taken] tables_okD(2) [OF ok *(1) p] by blast
  show "p = q" if "path_ok q" "table_at s1 root q = Some t" for q
    using that(2) tables_okD(3) [OF ok *(1) that(1) p] unfolding frame_taken_table_at [OF ok taken that(1)] by blast
qed

section \<open>Writing an entry\<close>

lemma set_entry_table_at:
  assumes ok: "tables_ok s root" and p: "path_ok p" "table_at s root p = Some t" and i: "i < 512"
    and q: "path_ok q" "\<And>r. q \<noteq> p @ i # r"
  shows "table_at (set_entry s t i v) root q = table_at s root q"
proof (rule table_at_cong)
  fix q' j r c assume *: "q = q' @ j # r" "table_at s root q' = Some c"
  then have q': "path_ok q'" "j < 512" using path_ok_split q(1) by auto
  have "\<not> (c = t \<and> j = i)" using tables_okD(3) [OF ok q'(1) p(1) _ p(2)] * q(2) by blast
  then show "table_entry (set_entry s t i v) c j = table_entry s c j"
    using set_entry_entry [OF tables_okD(1) [OF ok] tables_okD(2) [OF ok p] tables_okD(2) [OF ok q'(1) *(2)] i q'(2)]
    by auto
qed

text \<open>At the last level no path goes through the entry.\<close>

lemma set_leaf:
  assumes ok: "tables_ok s root" and p: "path_ok p" "length p = 3" "table_at s root p = Some t" and i: "i < 512"
  shows "tables_ok (set_entry s t i v) root"
    and "path_ok q \<Longrightarrow> table_at (set_entry s t i v) root q = table_at s root q"
    and "path_ok q \<Longrightarrow> j < 512 \<Longrightarrow>
      leaf (set_entry s t i v) root q j = (if q = p \<and> j = i then v else leaf s root q j)"
proof -
  let ?s = "set_entry s t i v"
  note inv = tables_okD(1) [OF ok] and tt = tables_okD(2) [OF ok p(1,3)]
  show at: "table_at ?s root q = table_at s root q" if "path_ok q" for q
    using p(2) that by (intro set_entry_table_at [OF ok p(1,3) i that]) (auto simp: path_ok_def)
  show "leaf ?s root q j = (if q = p \<and> j = i then v else leaf s root q j)" if q: "path_ok q" "j < 512"
  proof (cases "table_at s root q")
    case (Some c)
    have "c = t \<longleftrightarrow> q = p" using tables_okD(3) [OF ok q(1) p(1) _ p(3)] Some p(3) by auto
    then show ?thesis
      using set_entry_entry [OF inv tt tables_okD(2) [OF ok q(1) Some] i q(2)] Some
      by (auto simp: leaf_def at [OF q(1)])
  qed (use p(3) in \<open>auto simp: leaf_def at [OF q(1)]\<close>)
  show "tables_ok ?s root"
    unfolding tables_ok_def
  proof (intro conjI allI impI)
    show "pmm_inv ?s" by (rule set_entry_frames(2) [OF inv tt i])
    fix q c assume q: "path_ok q" "table_at ?s root q = Some c"
    then show "is_table ?s c" using at tables_okD(2) [OF ok] by (intro set_entry_frames(5) [OF inv tt i]) auto
    show "q = q'" if "path_ok q'" "table_at ?s root q' = Some c" for q'
      using tables_okD(3) [OF ok q(1) that(1)] q at that by auto
  qed
qed

text \<open>Linking a fresh, empty table under an entry that was not present.\<close>

lemma link_paths:
  assumes ok: "tables_ok s root" and p: "path_ok p" "length p < 3" "table_at s root p = Some t" and i: "i < 512"
    and absent: "\<not> GetPageFlag (table_entry s t i) PRESENT"
    and f: "is_table s f" "f \<noteq> 0" "f AND NOT 511 = f" "\<forall>j < 512. table_entry s f j = 0"
    and fresh: "\<forall>q. path_ok q \<longrightarrow> table_at s root q \<noteq> Some f"
    and flags: "flags_ok flags"
  defines "s' \<equiv> set_entry s t i (f OR ucast flags)"
  shows "table_at s' root (p @ [i]) = Some f"
    and "path_ok q \<Longrightarrow> q \<noteq> p @ [i] \<Longrightarrow> table_at s' root q = table_at s root q"
    and "j < 512 \<Longrightarrow> table_entry s' f j = 0"
    and "table_at s root (p @ i # r) = None"
proof -
  note inv = tables_okD(1) [OF ok] and tt = tables_okD(2) [OF ok p(1,3)]
  have un: "table_at s' root q = table_at s root q" if "path_ok q" "\<And>r. q \<noteq> p @ i # r" for q
    unfolding s'_def by (rule set_entry_table_at [OF ok p(1,3) i that])
  have pt: "table_at s' root p = Some t" using un [OF p(1)] p(3) by simp
  have "t \<noteq> f" using fresh p(1,3) by auto
  have "table_entry s' t i = f OR ucast flags" unfolding s'_def using set_entry_entry [OF inv tt tt i i] by simp
  then have child: "GetPageTable t i s' = f" using new_entry [OF flags] f(3) by (simp add: GetPageTable_def)
  show zero: "table_entry s' f j = 0" if "j < 512" for j
    unfolding s'_def using set_entry_entry [OF inv tt f(1) i that] f(4) that \<open>t \<noteq> f\<close> by simp
  show new: "table_at s' root (p @ [i]) = Some f" using pt child f(2) by (simp add: table_at_snoc)
  have below: "table_at s' root (p @ i # j # r) = None" if "path_ok (p @ i # j # r)" for j r
  proof -
    have "j < 512" using that by (simp add: path_ok_def)
    then have "GetPageTable f j s' = 0" using zero by (simp add: GetPageTable_def)
    moreover have "table_at s' root (p @ i # j # r) = Option.bind (table_at s' root (p @ [i])) (\<lambda>c. table_at s' c (j # r))"
      using table_at_append [of s' root "p @ [i]" "j # r"] by simp
    ultimately show ?thesis using new by simp
  qed
  show before: "table_at s root (p @ i # r) = None" for r
  proof -
    have "GetPageTable t i s = 0" using absent by (simp add: GetPageTable_def)
    then show ?thesis using p(3) by (simp add: table_at_append)
  qed
  show at: "table_at s' root q = table_at s root q" if q: "path_ok q" "q \<noteq> p @ [i]" for q
  proof (cases "\<exists>r. q = p @ i # r")
    case True
    then obtain j r where "q = p @ i # j # r" using q(2) by (metis list.exhaust)
    then show ?thesis using below before q(1) by simp
  qed (use un q in blast)
qed

lemma link_table:
  assumes ok: "tables_ok s root" and p: "path_ok p" "length p < 3" "table_at s root p = Some t" and i: "i < 512"
    and absent: "\<not> GetPageFlag (table_entry s t i) PRESENT"
    and f: "is_table s f" "f \<noteq> 0" "f AND NOT 511 = f" "\<forall>j < 512. table_entry s f j = 0"
    and fresh: "\<forall>q. path_ok q \<longrightarrow> table_at s root q \<noteq> Some f"
    and flags: "flags_ok flags"
  defines "s' \<equiv> set_entry s t i (f OR ucast flags)"
  shows "path_ok q \<Longrightarrow> q \<noteq> p \<Longrightarrow> j < 512 \<Longrightarrow> leaf s' root q j = leaf s root q j"
    and "tables_ok s' root"
proof -
  note inv = tables_okD(1) [OF ok] and tt = tables_okD(2) [OF ok p(1,3)]
  note new = link_paths(1) [OF ok p i absent f fresh flags, folded s'_def]
    and at = link_paths(2) [OF ok p i absent f fresh flags, folded s'_def]
    and zero = link_paths(3) [OF ok p i absent f fresh flags, folded s'_def]
    and before = link_paths(4) [OF ok p i absent f fresh flags]
  show "leaf s' root q j = leaf s root q j" if q: "path_ok q" "q \<noteq> p" "j < 512" for q j
  proof (cases "q = p @ [i]")
    case True
    then show ?thesis using new zero [OF q(3)] before [of "[]"] by (simp add: leaf_def)
  next
    case False
    show ?thesis
    proof (cases "table_at s root q")
      case (Some c)
      have "c \<noteq> t" using tables_okD(3) [OF ok q(1) p(1) _ p(3)] Some q(2) by auto
      then have "table_entry s' c j = table_entry s c j"
        unfolding s'_def using set_entry_entry [OF inv tt tables_okD(2) [OF ok q(1) Some] i q(3)] by simp
      then show ?thesis using Some at [OF q(1) False] by (simp add: leaf_def)
    qed (use at [OF q(1) False] in \<open>simp add: leaf_def\<close>)
  qed
  show "tables_ok s' root"
    unfolding tables_ok_def
  proof (intro conjI allI impI)
    show "pmm_inv s'" unfolding s'_def by (rule set_entry_frames(2) [OF inv tt i])
    fix q c assume q: "path_ok q" "table_at s' root q = Some c"
    show "is_table s' c"
      unfolding s'_def using q new at f(1) tables_okD(2) [OF ok]
      by (cases "q = p @ [i]") (auto intro!: set_entry_frames(5) [OF inv tt i])
    show "q = q'" if q': "path_ok q'" "table_at s' root q' = Some c" for q'
      using q q' new at tables_okD(3) [OF ok q(1) q'(1)] fresh
      by (cases "q = p @ [i]"; cases "q' = p @ [i]") auto
  qed
qed

section \<open>What the operations do to the tables\<close>

text \<open>The bytes a page map is made of: the bitmap, the free frames and the tables. All other memory is kept.\<close>

definition managed :: "'a pmm_state_scheme \<Rightarrow> u64 \<Rightarrow> u64 \<Rightarrow> bool" where
  "managed s root x \<longleftrightarrow> in_range x (bitmap (PHYS_MEMORY_MAP s)) (unat (bitmap_size (PHYS_MEMORY_MAP s)))
     \<or> (\<exists>k \<in> avail s. in_range x (frame_addr k) 4096)
     \<or> (\<exists>p t. path_ok p \<and> table_at s root p = Some t \<and> in_range x t 4096)"

definition keeps :: "u64 \<Rightarrow> 'a pmm_state_scheme \<Rightarrow> 'a pmm_state_scheme \<Rightarrow> bool" where
  "keeps root s s' \<longleftrightarrow> avail s' \<subseteq> avail s
     \<and> (\<forall>x. \<not> managed s root x \<longrightarrow> memory s' x = memory s x \<and> \<not> managed s' root x)"

lemma keeps_refl [simp]: "keeps root s s"
  by (simp add: keeps_def)

lemma keeps_trans: "keeps root s s' \<Longrightarrow> keeps root s' s'' \<Longrightarrow> keeps root s s''"
  unfolding keeps_def by (metis subset_trans)

lemma bitmap_byte_in_range:
  assumes "k < bitmap_frames s"
  shows "in_range (bitmap (PHYS_MEMORY_MAP s) + of_nat (k div 8)) (bitmap (PHYS_MEMORY_MAP s)) (unat (bitmap_size (PHYS_MEMORY_MAP s)))"
proof -
  have "k div 8 < unat (bitmap_size (PHYS_MEMORY_MAP s))" using assms by (auto simp: bitmap_frames_def)
  moreover from this have "k div 8 < 2 ^ 64" using unat_less32 [of "bitmap_size (PHYS_MEMORY_MAP s)"] by simp
  ultimately show ?thesis by (simp add: in_range_def unat_of_nat64)
qed

lemma bitmap_byte_managed: "k < bitmap_frames s \<Longrightarrow> managed s root (bitmap (PHYS_MEMORY_MAP s) + of_nat (k div 8))"
  unfolding managed_def by (rule disjI1) (rule bitmap_byte_in_range)

lemma entry_outside:
  assumes "pmm_inv s" "is_table s t" "i < 512" "\<not> in_range x t 4096"
  shows "memory (set_entry s t i v) x = memory s x"
proof -
  obtain k where k: "t = frame_addr k" "k < 2 ^ 31" using is_table_addr [OF assms(1,2)] by blast
  then have "\<not> in_range x (entry_ptr t i) 8" using entry_in_frame [OF k(2) assms(3)] assms(4) by blast
  then show ?thesis by (simp add: c64.store_other)
qed

lemma set_leaf_keeps:
  assumes ok: "tables_ok s root" and p: "path_ok p" "length p = 3" "table_at s root p = Some t" and i: "i < 512"
  shows "keeps root s (set_entry s t i v)"
proof -
  note inv = tables_okD(1) [OF ok] and tt = tables_okD(2) [OF ok p(1,3)]
  have "managed (set_entry s t i v) root x = managed s root x" for x
    using set_leaf(2) [OF ok p i] unfolding managed_def set_entry_frames(3) [OF inv tt i] by simp metis
  moreover have "memory (set_entry s t i v) x = memory s x" if "\<not> managed s root x" for x
    using that p by (intro entry_outside [OF inv tt i]) (auto simp: managed_def)
  ultimately show ?thesis using set_entry_frames(3) [OF inv tt i] by (simp add: keeps_def)
qed

lemma frame_taken_keeps:
  assumes ok: "tables_ok s root" and taken: "frame_taken k s s1" "k < bitmap_frames s"
  shows "keeps root s s1" "in_range x (frame_addr k) 4096 \<Longrightarrow> \<not> managed s1 root x"
proof -
  note inv = tables_okD(1) [OF ok] and av = frame_taken_avail [OF taken] and at = frame_taken_table_at [OF ok taken]
  have mm: "bitmap (PHYS_MEMORY_MAP s1) = bitmap (PHYS_MEMORY_MAP s)" "bitmap_size (PHYS_MEMORY_MAP s1) = bitmap_size (PHYS_MEMORY_MAP s)"
    using taken(1) by (simp_all add: frame_taken_def)
  have "managed s1 root x \<Longrightarrow> managed s root x" for x
    using at unfolding managed_def mm av(2) by auto
  moreover have "memory s1 x = memory s x" if "\<not> managed s root x" for x
  proof -
    have "\<not> in_range x (frame_addr k) 4096" using that av(1) by (auto simp: managed_def)
    moreover have "x \<noteq> bitmap (PHYS_MEMORY_MAP s) + of_nat (k div 8)" using that bitmap_byte_managed [OF taken(2)] by auto
    ultimately show ?thesis using taken(1) by (simp add: frame_taken_def)
  qed
  ultimately show "keeps root s s1" using av(2) by (auto simp: keeps_def)
  note kk = availD [OF inv av(1)]
  assume x: "in_range x (frame_addr k) 4096"
  show "\<not> managed s1 root x"
    unfolding managed_def mm
  proof (intro notI, elim disjE bexE exE conjE)
    assume b: "in_range x (bitmap (PHYS_MEMORY_MAP s)) (unat (bitmap_size (PHYS_MEMORY_MAP s)))"
    have "clear_of_bitmap s k" using kk(1) by (simp add: freeable_def)
    then show False
      using b x kk(5) pmm_invD(4) [OF inv] by (auto simp: clear_of_bitmap_def frame_range in_range_nowrap)
  next
    fix j assume j: "j \<in> avail s1" "in_range x (frame_addr j) 4096"
    then have "j \<in> avail s" "j \<noteq> k" using av(2) by auto
    then show False using frames_disjoint [of k j x] kk(5) availD(5) [OF inv] j(2) x by blast
  next
    fix p t assume p: "path_ok p" "table_at s1 root p = Some t" "in_range x t 4096"
    then have "is_table s t" using at tables_okD(2) [OF ok] by auto
    then obtain j where j: "t = frame_addr j" "j < 2 ^ 52" "frame_used s j" using is_table_addr [OF inv] by metis
    then have "j \<noteq> k" using kk(2) by auto
    then show False using frames_disjoint [of k j x] kk(5) j p(3) x by blast
  qed
qed

text \<open>A step that may add tables but changes no last-level entry and nothing outside the tables and the allocator.\<close>

definition grows :: "u64 \<Rightarrow> 'a pmm_state_scheme \<Rightarrow> 'a pmm_state_scheme \<Rightarrow> bool" where
  "grows root s s' \<longleftrightarrow> tables_ok s' root \<and> keeps root s s' \<and> pmm_state.more s' = pmm_state.more s
     \<and> (\<forall>q j. path_ok q \<longrightarrow> length q = 3 \<longrightarrow> j < 512 \<longrightarrow> leaf s' root q j = leaf s root q j)"

lemma grows_refl: "tables_ok s root \<Longrightarrow> grows root s s"
  by (simp add: grows_def)

lemma grows_trans: "grows root s s' \<Longrightarrow> grows root s' s'' \<Longrightarrow> grows root s s''"
  by (auto simp: grows_def intro: keeps_trans)

lemma link_fresh:
  assumes ok: "tables_ok s root" and p: "path_ok p" "length p < 3" "table_at s root p = Some t" and i: "i < 512"
    and absent: "\<not> GetPageFlag (table_entry s t i) PRESENT" and flags: "flags_ok flags"
    and taken: "frame_taken k s s1" "k < bitmap_frames s"
  defines "s' \<equiv> set_entry s1 t i (frame_addr k OR ucast flags)"
  shows "is_table s1 t" "table_at s' root (p @ [i]) = Some (frame_addr k)"
    and "path_ok q \<Longrightarrow> q \<noteq> p @ [i] \<Longrightarrow> table_at s' root q = table_at s1 root q"
    and "j < 512 \<Longrightarrow> table_entry s' (frame_addr k) j = 0"
    and "tables_ok s' root"
    and "path_ok q \<Longrightarrow> length q = 3 \<Longrightarrow> j < 512 \<Longrightarrow> leaf s' root q j = leaf s root q j"
proof -
  note inv = tables_okD(1) [OF ok]
  note new = frame_taken_tables [OF inv taken]
  note at = frame_taken_table_at [OF ok taken]
  note ok1 = frame_taken_tables_ok [OF ok taken]
  have p1: "table_at s1 root p = Some t" using at [OF p(1)] p(3) by simp
  have absent1: "\<not> GetPageFlag (table_entry s1 t i) PRESENT"
    using absent new(1) [OF tables_okD(2) [OF ok p(1,3)] i] by simp
  have z: "\<forall>j < 512. table_entry s1 (frame_addr k) j = 0" using new(4) by blast
  have fr: "\<forall>q. path_ok q \<longrightarrow> table_at s1 root q \<noteq> Some (frame_addr k)"
    using at tables_okD(2) [OF ok] new(5) by auto
  note paths = link_paths [OF ok1 p(1,2) p1 i absent1 new(3,6) frame_addr_high z fr flags, folded s'_def]
    and l = link_table [OF ok1 p(1,2) p1 i absent1 new(3,6) frame_addr_high z fr flags, folded s'_def]
  show "is_table s1 t" by (rule tables_okD(2) [OF ok1 p(1) p1])
  show "table_at s' root (p @ [i]) = Some (frame_addr k)" "tables_ok s' root" by (rule paths(1) l(2))+
  show "table_at s' root q = table_at s1 root q" if "path_ok q" "q \<noteq> p @ [i]" using that by (rule paths(2))
  show "table_entry s' (frame_addr k) j = 0" if "j < 512" using that by (rule paths(3))
  show "leaf s' root q j = leaf s root q j" if q: "path_ok q" "length q = 3" "j < 512"
  proof -
    have "leaf s' root q j = leaf s1 root q j" using p(2) q by (intro l(1)) auto
    also have "\<dots> = leaf s root q j"
      using at [OF q(1)] new(1) [OF tables_okD(2) [OF ok q(1)] q(3)] by (simp add: leaf_def split: option.splits)
    finally show ?thesis .
  qed
qed

lemma link_fresh_keeps:
  assumes ok: "tables_ok s root" and p: "path_ok p" "length p < 3" "table_at s root p = Some t" and i: "i < 512"
    and absent: "\<not> GetPageFlag (table_entry s t i) PRESENT" and flags: "flags_ok flags"
    and taken: "frame_taken k s s1" "k < bitmap_frames s"
  shows "keeps root s (set_entry s1 t i (frame_addr k OR ucast flags))" (is "keeps root s ?s")
proof -
  note l = link_fresh [OF assms] and av = frame_taken_avail [OF taken]
  note inv1 = frame_taken_inv [OF tables_okD(1) [OF ok] taken]
  have a: "avail ?s = avail s1" by (rule set_entry_frames(3) [OF inv1 l(1) i])
  have "memory ?s x = memory s x \<and> \<not> managed ?s root x" if x: "\<not> managed s root x" for x
  proof -
    have x1: "memory s1 x = memory s x" "\<not> managed s1 root x"
      using frame_taken_keeps(1) [OF ok taken] x by (auto simp: keeps_def)
    have "\<not> in_range x t 4096" using x p by (auto simp: managed_def)
    then have "memory ?s x = memory s x" using entry_outside [OF inv1 l(1) i] x1(1) by simp
    moreover have "\<not> in_range x (frame_addr k) 4096" using x av(1) by (auto simp: managed_def)
    then have "\<not> in_range x c 4096" if "path_ok q" "table_at ?s root q = Some c" for q c
      using that l(2) l(3) [of q] x1(2) by (cases "q = p @ [i]") (auto simp: managed_def)
    then have "\<not> managed ?s root x" using x1(2) unfolding managed_def a by auto
    ultimately show ?thesis by blast
  qed
  then show ?thesis unfolding keeps_def a av(2) by blast
qed

lemma GetOrCreatePageTable_grows:
  assumes ok: "tables_ok s root" and p: "path_ok p" "length p < 3" "table_at s root p = Some t" and i: "i < 512"
    and flags: "flags_ok flags" and ret: "GetOrCreatePageTable t i flags s = Some (c, s')"
  shows "grows root s s'" and "c \<noteq> 0 \<Longrightarrow> table_at s' root (p @ [i]) = Some c"
proof -
  show "grows root s s'" "c \<noteq> 0 \<Longrightarrow> table_at s' root (p @ [i]) = Some c"
  proof (atomize (full), cases "GetPageFlag (table_entry s t i) PRESENT")
    case True
    then have "c = GetPageTable t i s" "s' = s"
      using ret by (auto simp: GetOrCreatePageTable_def GetPageTable_def)
    then show "grows root s s' \<and> (c \<noteq> 0 \<longrightarrow> table_at s' root (p @ [i]) = Some c)"
      using grows_refl [OF ok] p(3) by (simp add: table_at_snoc)
  next
    case False
    then obtain f s1 where a: "AllocFirstFrame s = Some (f, s1)"
      using ret by (auto simp: GetOrCreatePageTable_def bind_eq_Some_conv)
    show "grows root s s' \<and> (c \<noteq> 0 \<longrightarrow> table_at s' root (p @ [i]) = Some c)"
      using AllocFirstFrame_sound [OF tables_okD(1) [OF ok] a]
    proof (elim disjE exE conjE)
      assume "(f, s1) = (0, s)"
      then show ?thesis using ret False a grows_refl [OF ok] by (auto simp: GetOrCreatePageTable_def)
    next
      fix k s'' assume k: "(f, s1) = (frame_addr k, s'')" "k < bitmap_frames s" "frame_taken k s s''"
        "pmm_state.more s'' = pmm_state.more s"
      then have "frame_taken k s s1" by simp
      note link = link_fresh(2,5,6) [OF ok p i False flags this k(2)] link_fresh_keeps [OF ok p i False flags this k(2)]
      have "f \<noteq> 0" using frame_taken_tables(6) [OF tables_okD(1) [OF ok] _ k(2)] k by simp
      then have "c = frame_addr k" "s' = set_entry s1 t i (frame_addr k OR ucast flags)"
        using ret False a k(1) by (auto simp: GetOrCreatePageTable_def)
      then show ?thesis using link k(1,4) by (simp add: grows_def)
    qed
  qed
qed

lemma create_loop_grows:
  assumes "tables_ok s root" "path_ok p" "length p + i = 4" "table_at s root p = Some t" "0 < i"
    and flags: "flags_ok flags" and "create_loop i t vaddr flags s = Some (r, s')"
  shows "grows root s s' \<and> (\<forall>c. r = Some c \<longrightarrow>
    table_at s' root (p @ map (V_ADDR_INDEX vaddr) (rev [2..<Suc i])) = Some c)"
  using assms
proof (induction i arbitrary: p t s)
  case (Suc i)
  show ?case
  proof (cases "i = 0")
    case True
    then have "r = Some t" "s' = s" using Suc.prems(7) by (simp_all add: create_loop.simps)
    then show ?thesis using True Suc.prems(1,4) grows_refl by auto
  next
    case False
    let ?j = "V_ADDR_INDEX vaddr (Suc i)"
    obtain c s1 where c: "GetOrCreatePageTable t ?j flags s = Some (c, s1)"
      using Suc.prems(7) False by (auto simp: create_loop.simps [of "Suc i"] bind_eq_Some_conv)
    have "length p < 3" using Suc.prems(3) False by simp
    note g = GetOrCreatePageTable_grows [OF Suc.prems(1,2) this Suc.prems(4) V_ADDR_INDEX_less flags c]
    show ?thesis
    proof (cases "c = 0")
      case True
      then have "r = None" "s' = s1" using Suc.prems(7) False c by (simp_all add: create_loop.simps [of "Suc i"])
      then show ?thesis using g by simp
    next
      case nz: False
      have "create_loop i c vaddr flags s1 = Some (r, s')"
        using Suc.prems(7) False c nz by (simp add: create_loop.simps [of "Suc i"])
      moreover have "path_ok (p @ [?j])"
        using Suc.prems(2,3) False V_ADDR_INDEX_less by (auto simp: path_ok_def)
      ultimately have "grows root s1 s' \<and> (\<forall>c. r = Some c \<longrightarrow>
          table_at s' root ((p @ [?j]) @ map (V_ADDR_INDEX vaddr) (rev [2..<Suc i])) = Some c)"
        using g nz Suc.prems(3) False flags by (intro Suc.IH) (auto simp: grows_def)
      then show ?thesis using grows_trans [OF g(1)] False by simp
    qed
  qed
qed simp

lemma vpath_levels: "vpath vaddr = map (V_ADDR_INDEX vaddr) (rev [2..<Suc 4])"
  by (simp add: vpath_def upt_rec numeral_eq_Suc)

text \<open>The abstract view of a tree of tables: one 64-bit entry for each page of the address space.\<close>

definition mapping :: "'a pmm_state_scheme \<Rightarrow> u64 \<Rightarrow> u64 \<Rightarrow> u64" where
  "mapping s root vaddr = leaf s root (vpath vaddr) (V_ADDR_INDEX vaddr 1)"

definition page_number :: "u64 \<Rightarrow> u64" where
  "page_number vaddr = take_bit 36 (drop_bit 12 vaddr)"

lemma V_ADDR_INDEX_bits: "V_ADDR_INDEX vaddr l = take_bit 9 (drop_bit (12 + 9 * (l - 1)) vaddr)"
  by (simp add: V_ADDR_INDEX_def take_bit_eq_mask mask_eq_exp_minus_1)

lemma bit_V_ADDR_INDEX:
  "bit (V_ADDR_INDEX vaddr l) n \<longleftrightarrow> n < 9 \<and> bit vaddr (12 + 9 * (l - 1) + n)"
  by (simp add: V_ADDR_INDEX_bits bit_simps)

lemma same_page_iff:
  "vpath v = vpath w \<and> V_ADDR_INDEX v 1 = V_ADDR_INDEX w 1 \<longleftrightarrow> page_number v = page_number w"
proof
  assume *: "vpath v = vpath w \<and> V_ADDR_INDEX v 1 = V_ADDR_INDEX w 1"
  then have eq: "V_ADDR_INDEX v l = V_ADDR_INDEX w l" if "l \<in> {1, 2, 3, 4}" for l
    using that by (auto simp: vpath_def)
  show "page_number v = page_number w"
  proof (rule bit_word_eqI)
    fix n
    have "bit v (12 + n) = bit w (12 + n)" if "n < 36"
    proof -
      define l where "l = n div 9 + 1"
      have "l \<in> {1, 2, 3, 4}" using that by (auto simp: l_def)
      from arg_cong [OF eq [OF this], of "\<lambda>x. bit x (n mod 9)"] show ?thesis
        by (simp add: bit_V_ADDR_INDEX l_def add.assoc)
    qed
    then show "bit (page_number v) n = bit (page_number w) n" by (auto simp: page_number_def bit_simps)
  qed
next
  assume eq: "page_number v = page_number w"
  have "V_ADDR_INDEX v l = V_ADDR_INDEX w l" if "l \<in> {1, 2, 3, 4}" for l
  proof (rule bit_word_eqI)
    fix n
    have "bit v (12 + (9 * (l - 1) + n)) = bit w (12 + (9 * (l - 1) + n))" if "n < 9"
      using arg_cong [OF eq, of "\<lambda>x. bit x (9 * (l - 1) + n)"] \<open>n < 9\<close> \<open>l \<in> {1, 2, 3, 4}\<close>
      by (auto simp: page_number_def bit_simps)
    then show "bit (V_ADDR_INDEX v l) n = bit (V_ADDR_INDEX w l) n"
      by (auto simp: bit_V_ADDR_INDEX add.assoc)
  qed
  then show "vpath v = vpath w \<and> V_ADDR_INDEX v 1 = V_ADDR_INDEX w 1" by (simp add: vpath_def)
qed

lemma VAddrToPAddr_mapping: "VAddrToPAddr root vaddr s = mapping s root vaddr AND NOT 511"
  by (simp add: VAddrToPAddr_def mapping_def leaf_def walk_loop_table_at split: option.splits)

lemma length_vpath [simp]: "length (vpath v) = 3"
  by (simp add: vpath_def)

lemma grows_mapping: "grows root s s' \<Longrightarrow> mapping s' root v = mapping s root v"
  by (simp add: grows_def mapping_def path_ok_vpath V_ADDR_INDEX_less)

lemma set_leaf_mapping:
  assumes "tables_ok s root" "table_at s root (vpath v) = Some t"
  shows "mapping (set_entry s t (V_ADDR_INDEX v 1) e) root w
    = (if page_number w = page_number v then e else mapping s root w)"
  using set_leaf(3) [OF assms(1) path_ok_vpath length_vpath assms(2) V_ADDR_INDEX_less path_ok_vpath V_ADDR_INDEX_less]
    same_page_iff [of w v] by (auto simp: mapping_def)

lemma entry_ptr_nonzero:
  assumes "pmm_inv s" "is_table s t" "i < 512"
  shows "entry_ptr t i \<noteq> 0"
proof -
  obtain k where k: "unat t = 4096 * k" "freeable s k" "k < 2 ^ 31" using is_table_addr [OF assms(1,2)] by blast
  then have "0 < unat (entry_ptr t i)"
    using unat_entry_ptr [OF k(1,3) assms(3)] by (simp add: freeable_def)
  then show ?thesis by auto
qed

lemma CreatePage_grows:
  assumes ok: "tables_ok s root" and flags: "flags_ok flags" and ret: "CreatePage root v flags s = Some (e, s')"
  shows "grows root s s'"
    and "e \<noteq> 0 \<Longrightarrow> \<exists>t. table_at s' root (vpath v) = Some t \<and> e = entry_ptr t (V_ADDR_INDEX v 1)"
proof -
  obtain r where r: "create_loop 4 root v flags s = Some (r, s')"
    "e = (case r of None \<Rightarrow> 0 | Some t \<Rightarrow> entry_ptr t (V_ADDR_INDEX v 1))"
    using ret by (auto simp: CreatePage_def bind_eq_Some_conv split: option.splits)
  have "path_ok []" by (simp add: path_ok_def)
  from create_loop_grows [OF ok this _ _ _ flags r(1)]
  have "grows root s s'" "\<And>t. r = Some t \<Longrightarrow> table_at s' root (vpath v) = Some t"
    by (simp_all add: vpath_levels)
  then show "grows root s s'" "e \<noteq> 0 \<Longrightarrow> \<exists>t. table_at s' root (vpath v) = Some t \<and> e = entry_ptr t (V_ADDR_INDEX v 1)"
    using r(2) by (auto split: option.splits)
qed

lemma MapPage_effect:
  assumes ok: "tables_ok s root" and flags: "flags_ok flags" and ret: "MapPage root v p flags s = Some (b, s')"
  shows "tables_ok s' root" "pmm_state.more s' = pmm_state.more s"
    and "mapping s' root w = (if b \<and> page_number w = page_number v then p OR ucast flags else mapping s root w)"
    and "keeps root s s'"
proof -
  obtain e s1 where c: "CreatePage root v flags s = Some (e, s1)"
    using ret by (auto simp: MapPage_def bind_eq_Some_conv)
  note g = CreatePage_grows [OF ok flags c]
  then have ok1: "tables_ok s1 root" "pmm_state.more s1 = pmm_state.more s" "keeps root s s1" by (simp_all add: grows_def)
  have "tables_ok s' root \<and> pmm_state.more s' = pmm_state.more s \<and> keeps root s s' \<and>
    mapping s' root w = (if b \<and> page_number w = page_number v then p OR ucast flags else mapping s root w)"
  proof (cases "e = 0")
    case True
    then have "b = False" "s' = s1" using ret c by (simp_all add: MapPage_def)
    then show ?thesis using ok1 grows_mapping [OF g(1)] by simp
  next
    case False
    then obtain t where t: "table_at s1 root (vpath v) = Some t" "e = entry_ptr t (V_ADDR_INDEX v 1)" using g by blast
    then have "b = True" "s' = set_entry s1 t (V_ADDR_INDEX v 1) (p OR ucast flags)"
      using ret c False by (simp_all add: MapPage_def)
    then show ?thesis
      using set_leaf(1) [OF ok1(1) path_ok_vpath length_vpath t(1) V_ADDR_INDEX_less]
        set_leaf_mapping [OF ok1(1) t(1)] grows_mapping [OF g(1)] ok1(2)
        keeps_trans [OF ok1(3) set_leaf_keeps [OF ok1(1) path_ok_vpath length_vpath t(1) V_ADDR_INDEX_less]] by simp
  qed
  then show "tables_ok s' root" "pmm_state.more s' = pmm_state.more s" "keeps root s s'"
    "mapping s' root w = (if b \<and> page_number w = page_number v then p OR ucast flags else mapping s root w)"
    by blast+
qed

section \<open>Enough frames to map\<close>

text \<open>Every present entry above the last level points to a table.\<close>

definition links_ok :: "'a pmm_state_scheme \<Rightarrow> u64 \<Rightarrow> bool" where
  "links_ok s root \<longleftrightarrow> (\<forall>p i t. path_ok (p @ [i]) \<longrightarrow> table_at s root p = Some t \<longrightarrow>
     GetPageFlag (table_entry s t i) PRESENT \<longrightarrow> table_entry s t i AND NOT 511 \<noteq> 0)"

text \<open>The free frames the search of \<^verbatim>\<open>AllocFirstFrame\<close> goes through again and again.\<close>

definition pool :: "'a pmm_state_scheme \<Rightarrow> nat" where
  "pool s = card (avail s \<inter> {..<frames s})"

lemma path_ok_snoc: "path_ok (p @ [i]) \<Longrightarrow> path_ok p \<and> length p < 3 \<and> i < 512"
  by (auto simp: path_ok_def)

lemma AllocFirstFrame_pool:
  assumes inv: "pmm_inv s" and "2 \<le> pool s"
  shows "\<exists>k s'. AllocFirstFrame s = Some (frame_addr k, s') \<and> frame_taken k s s' \<and> k < bitmap_frames s
    \<and> pool s \<le> pool s' + 1"
proof -
  let ?A = "avail s \<inter> {..<frames s}"
  have "?A - {last_frame s} \<noteq> {}"
  proof
    assume "?A - {last_frame s} = {}"
    then have "?A \<subseteq> {last_frame s}" by blast
    then have "card ?A \<le> 1" using card_mono [of "{last_frame s}" ?A] by simp
    then show False using assms(2) by (simp add: pool_def)
  qed
  then obtain j where "j < frames s" "j \<noteq> last_frame s" "\<not> frame_used s j" by (auto simp: avail_def)
  then obtain k where k: "k \<le> frames s" "\<not> frame_used s k" "AllocFirstFrame s = Some (take_frame (of_nat k) s)"
    using AllocFirstFrame_finds [OF inv] by blast
  have k31: "k < 2 ^ 31" "k < bitmap_frames s" using k(1) pmm_invD(2,3) [OF inv] by simp_all
  obtain s' where s': "take_frame (of_nat k) s = (frame_addr k, s')" "frame_taken k s s'"
    using take_frame_taken [OF inv of_nat_i32(2) [OF k31(1)]] k(2) k31(2) of_nat_i32(1) [OF k31(1)] by auto
  have "frames s' = frames s" using s'(2) by (simp add: frame_taken_def)
  then have "?A \<subseteq> insert k (avail s' \<inter> {..<frames s'})" using frame_taken_avail [OF s'(2) k31(2)] by auto
  then have "card ?A \<le> card (insert k (avail s' \<inter> {..<frames s'}))" by (intro card_mono) simp_all
  also have "\<dots> \<le> pool s' + 1" by (simp add: pool_def card_insert_if)
  finally show ?thesis using k(3) s' k31(2) by (auto simp: pool_def)
qed

lemma pool_set_entry:
  "pmm_inv s \<Longrightarrow> is_table s t \<Longrightarrow> i < 512 \<Longrightarrow> pool (set_entry s t i v) = pool s"
  using set_entry_frames(3) [of s t i v] by (simp add: pool_def)

lemma links_ok_link:
  assumes ok: "tables_ok s root" and links: "links_ok s root"
    and p: "path_ok p" "length p < 3" "table_at s root p = Some t" and i: "i < 512"
    and absent: "\<not> GetPageFlag (table_entry s t i) PRESENT" and flags: "flags_ok flags"
    and taken: "frame_taken k s s1" "k < bitmap_frames s"
  shows "links_ok (set_entry s1 t i (frame_addr k OR ucast flags)) root"
    (is "links_ok ?s root")
  unfolding links_ok_def
proof (intro allI impI)
  note inv = tables_okD(1) [OF ok] and ok1 = frame_taken_tables_ok [OF ok taken]
  note inv1 = tables_okD(1) [OF ok1] and new = frame_taken_tables [OF inv taken]
    and at1 = frame_taken_table_at [OF ok taken]
  note l = link_fresh [OF ok p i absent flags taken]
  fix q j c assume q: "path_ok (q @ [j])" "table_at ?s root q = Some c" and pr: "GetPageFlag (table_entry ?s c j) PRESENT"
  note qj = path_ok_snoc [OF q(1)]
  show "table_entry ?s c j AND NOT 511 \<noteq> 0"
  proof (cases "q = p @ [i]")
    case True
    then have "c = frame_addr k" using q(2) l(2) by simp
    then show ?thesis using l(4) qj pr by (simp add: GetPageFlag_def)
  next
    case False
    then have c: "table_at s1 root q = Some c" using l(3) [of q] qj q(2) by simp
    note e = set_entry_entry [OF inv1 l(1) tables_okD(2) [OF ok1 _ c] i, of j "frame_addr k OR ucast flags"]
    show ?thesis
    proof (cases "c = t \<and> j = i")
      case True
      then show ?thesis using new_entry(2) [OF flags] frame_addr_high new(6) by (simp add: mem_simps)
    next
      case ne: False
      have c0: "table_at s root q = Some c" using at1 qj c by simp
      then have "table_entry ?s c j = table_entry s c j"
        using e ne qj new(1) [OF tables_okD(2) [OF ok _ c0]] by auto
      then show ?thesis using links c0 q(1) pr unfolding links_ok_def by metis
    qed
  qed
qed

lemma GetOrCreatePageTable_live:
  assumes ok: "tables_ok s root" and links: "links_ok s root"
    and p: "path_ok p" "length p < 3" "table_at s root p = Some t" and i: "i < 512"
    and flags: "flags_ok flags" and free: "2 \<le> pool s"
  shows "\<exists>c s'. GetOrCreatePageTable t i flags s = Some (c, s') \<and> c \<noteq> 0 \<and> links_ok s' root \<and> pool s \<le> pool s' + 1"
proof (cases "GetPageFlag (table_entry s t i) PRESENT")
  case True
  have "path_ok (p @ [i])" using p(1,2) i by (auto simp: path_ok_def)
  then show ?thesis using True links p(3) by (auto simp: GetOrCreatePageTable_def links_ok_def)
next
  case False
  note inv = tables_okD(1) [OF ok]
  obtain k s1 where k: "AllocFirstFrame s = Some (frame_addr k, s1)" "frame_taken k s s1" "k < bitmap_frames s"
    "pool s \<le> pool s1 + 1" using AllocFirstFrame_pool [OF inv free] by blast
  note new = frame_taken_tables [OF inv k(2,3)]
  let ?s = "set_entry s1 t i (frame_addr k OR ucast flags)"
  have "GetOrCreatePageTable t i flags s = Some (frame_addr k, ?s)"
    using False k(1) new(6) by (simp add: GetOrCreatePageTable_def)
  moreover have "links_ok ?s root" by (rule links_ok_link [OF ok links p i False flags k(2,3)])
  moreover have "pool ?s = pool s1"
    using new(2) [OF tables_okD(2) [OF ok p(1,3)]] frame_taken_inv [OF inv k(2,3)] i by (intro pool_set_entry)
  ultimately show ?thesis using new(6) k(4) by (metis (no_types, lifting))
qed

lemma create_loop_live:
  assumes "tables_ok s root" "links_ok s root" "path_ok p" "length p + i = 4" "table_at s root p = Some t" "0 < i"
    and flags: "flags_ok flags" and "i \<le> pool s"
  shows "\<exists>c s'. create_loop i t vaddr flags s = Some (Some c, s') \<and> links_ok s' root \<and> pool s + 1 \<le> pool s' + i"
  using assms
proof (induction i arbitrary: p t s)
  case (Suc i)
  show ?case
  proof (cases "i = 0")
    case True
    then show ?thesis using Suc.prems(2) by (simp add: create_loop.simps)
  next
    case False
    let ?j = "V_ADDR_INDEX vaddr (Suc i)"
    have len: "length p < 3" "2 \<le> pool s" using Suc.prems(4,8) False by simp_all
    obtain c s1 where c: "GetOrCreatePageTable t ?j flags s = Some (c, s1)" "c \<noteq> 0" "links_ok s1 root" "pool s \<le> pool s1 + 1"
      using GetOrCreatePageTable_live [OF Suc.prems(1,2,3) len(1) Suc.prems(5) V_ADDR_INDEX_less flags len(2)] by blast
    note g = GetOrCreatePageTable_grows [OF Suc.prems(1,3) len(1) Suc.prems(5) V_ADDR_INDEX_less flags c(1)]
    have "path_ok (p @ [?j])"
      using Suc.prems(3,4) False V_ADDR_INDEX_less by (auto simp: path_ok_def)
    then have "\<exists>c' s'. create_loop i c vaddr flags s1 = Some (Some c', s') \<and> links_ok s' root \<and> pool s1 + 1 \<le> pool s' + i"
      using g c Suc.prems(4,8) False flags by (intro Suc.IH) (auto simp: grows_def)
    then show ?thesis using c False by (auto simp: create_loop.simps [of "Suc i"])
  qed
qed simp

lemma links_ok_set_leaf:
  assumes ok: "tables_ok s root" and links: "links_ok s root"
    and p: "path_ok p" "length p = 3" "table_at s root p = Some t" and i: "i < 512"
  shows "links_ok (set_entry s t i v) root"
  unfolding links_ok_def
proof (intro allI impI)
  let ?s = "set_entry s t i v"
  fix q j c assume q: "path_ok (q @ [j])" "table_at ?s root q = Some c" and pr: "GetPageFlag (table_entry ?s c j) PRESENT"
  note qj = path_ok_snoc [OF q(1)]
  have c: "table_at s root q = Some c" using set_leaf(2) [OF ok p i] q qj by simp
  have "q \<noteq> p" using qj p(2) by auto
  then have "c \<noteq> t" using tables_okD(3) [OF ok _ p(1) _ p(3)] c qj by blast
  then have "table_entry ?s c j = table_entry s c j"
    using set_entry_entry [OF tables_okD(1) [OF ok] tables_okD(2) [OF ok p(1,3)] tables_okD(2) [OF ok _ c] i] qj by auto
  then show "table_entry ?s c j AND NOT 511 \<noteq> 0"
    using links c q(1) pr unfolding links_ok_def by metis
qed

lemma MapPage_live:
  assumes ok: "tables_ok s root" and links: "links_ok s root" and flags: "flags_ok flags" and free: "4 \<le> pool s"
  shows "\<exists>s'. MapPage root v p flags s = Some (True, s') \<and> links_ok s' root \<and> pool s \<le> pool s' + 3"
proof -
  have nil: "path_ok []" "length ([] :: u64 list) + 4 = 4" "table_at s root [] = Some root" by (simp_all add: path_ok_def)
  obtain c s1 where c: "create_loop 4 root v flags s = Some (Some c, s1)" "links_ok s1 root" "pool s + 1 \<le> pool s1 + 4"
    using create_loop_live [OF ok links nil _ flags free, of v] by auto
  have g: "grows root s s1" "table_at s1 root (vpath v) = Some c"
    using create_loop_grows [OF ok nil _ flags c(1)] by (simp_all add: vpath_levels)
  then have ok1: "tables_ok s1 root" by (simp add: grows_def)
  note inv1 = tables_okD(1) [OF ok1] and tc = tables_okD(2) [OF ok1 path_ok_vpath g(2)]
  let ?s = "set_entry s1 c (V_ADDR_INDEX v 1) (p OR ucast flags)"
  have "MapPage root v p flags s = Some (True, ?s)"
    using c(1) entry_ptr_nonzero [OF inv1 tc V_ADDR_INDEX_less [of v 1]] by (simp add: MapPage_def CreatePage_def)
  moreover have "links_ok ?s root"
    by (rule links_ok_set_leaf [OF ok1 c(2) path_ok_vpath length_vpath g(2) V_ADDR_INDEX_less])
  moreover have "pool ?s = pool s1" by (rule pool_set_entry [OF inv1 tc V_ADDR_INDEX_less])
  ultimately show ?thesis using c(3) by (intro exI [of _ ?s]) simp
qed

section \<open>Mapping a range\<close>

lemma unat_page_number: "unat (page_number v) = unat v div 4096 mod 2 ^ 36"
proof -
  have "unat (page_number v) = take_bit 36 (drop_bit 12 (unat v))"
    using take_bit_nat_eq_self [OF unat_less64 [of v]]
    by (simp only: page_number_def unsigned_take_bit_eq unsigned_drop_bit_eq) simp
  then show ?thesis by (simp only: take_bit_eq_mod drop_bit_eq_div) simp
qed

lemma page_number_add: "unat (page_number (a + of_nat (4096 * i))) = (unat a div 4096 + i) mod 2 ^ 36"
proof -
  have "unat (a + of_nat (4096 * i)) = unat (of_nat (unat a + 4096 * i) :: u64)" by simp
  also have "\<dots> = take_bit 64 (unat a + 4096 * i)" by (simp only: unsigned_of_nat) simp
  finally have "unat (page_number (a + of_nat (4096 * i))) = take_bit 36 (drop_bit 12 (take_bit 64 (unat a + 4096 * i)))"
    unfolding unat_page_number by (simp add: take_bit_eq_mod drop_bit_eq_div)
  also have "\<dots> = take_bit 36 (drop_bit 12 (unat a + 4096 * i))"
    by (simp add: drop_bit_take_bit take_bit_take_bit)
  also have "\<dots> = (unat a div 4096 + i) mod 2 ^ 36"
    by (simp only: take_bit_eq_mod drop_bit_eq_div) (simp add: add.commute)
  finally show ?thesis .
qed

lemma page_number_distinct:
  assumes "i < 2 ^ 36" "0 < i"
  shows "page_number (a + of_nat (4096 * i)) \<noteq> page_number a"
proof
  assume "page_number (a + of_nat (4096 * i)) = page_number a"
  then have "(unat a div 4096 + i) mod 2 ^ 36 = unat a div 4096 mod 2 ^ 36"
    using page_number_add [of a i] by (simp only: unat_page_number)
  then have "2 ^ 36 dvd i" by (metis add_diff_cancel_left' le_add1 mod_eq_dvd_iff_nat)
  then show False using assms by (auto dest: dvd_imp_le)
qed

text \<open>The number of pages \<^verbatim>\<open>MapMultiple\<close> maps.\<close>

definition pages_between :: "u64 \<Rightarrow> u64 \<Rightarrow> nat" where
  "pages_between base bound = (unat bound - unat base + 4095) div 4096"

lemma pages_between_step:
  assumes "base < bound" "unat bound + 4096 \<le> 2 ^ 64"
  shows "pages_between base bound = Suc (pages_between (base + 4096) bound)"
proof -
  have lt: "unat base < unat bound" using assms(1) by (simp add: word_less_nat_alt)
  have "unat (base + 4096) = unat base + 4096" using lt assms(2) by (subst unat_add_no_wrap) simp_all
  then have "pages_between (base + 4096) bound = (unat bound - (unat base + 4096) + 4095) div 4096"
    by (simp only: pages_between_def)
  moreover have "(unat bound - unat base + 4095) div 4096 = Suc ((unat bound - (unat base + 4096) + 4095) div 4096)"
  proof (cases "unat bound \<le> unat base + 4096")
    case True
    then show ?thesis using lt by (intro div_nat_eqI) auto
  next
    case False
    then have "unat bound - unat base + 4095 = (unat bound - (unat base + 4096) + 4095) + 4096" by simp
    then show ?thesis by (metis div_add_self2 Suc_eq_plus1 zero_neq_numeral)
  qed
  ultimately show ?thesis by (simp only: pages_between_def)
qed

lemma pages_between_0: "\<not> base < bound \<Longrightarrow> pages_between base bound = 0"
  by (simp add: pages_between_def word_less_nat_alt)

lemma create_loop_existing:
  "walk_loop i t v s = Some c \<Longrightarrow> create_loop i t v flags s = Some (Some c, s)"
proof (induction i arbitrary: t)
  case (Suc i)
  show ?case
  proof (cases "i = 0")
    case False
    let ?j = "V_ADDR_INDEX v (Suc i)"
    have w: "GetPageTable t ?j s \<noteq> 0" "walk_loop i (GetPageTable t ?j s) v s = Some c"
      using Suc.prems False by (auto simp: walk_loop.simps [of "Suc i"] Let_def split: if_splits)
    moreover have "GetOrCreatePageTable t ?j flags s = Some (GetPageTable t ?j s, s)"
      using w(1) by (auto simp: GetOrCreatePageTable_def GetPageTable_def split: if_splits)
    ultimately show ?thesis using Suc.IH False by (simp add: create_loop.simps [of "Suc i"])
  qed (use Suc.prems in \<open>simp add: walk_loop.simps create_loop.simps\<close>)
qed (simp add: walk_loop.simps create_loop.simps)

lemma MapPage_existing:
  assumes ok: "tables_ok s root" and t: "table_at s root (vpath v) = Some t"
  shows "MapPage root v p flags s = Some (True, set_entry s t (V_ADDR_INDEX v 1) (p OR ucast flags))"
  using create_loop_existing [of 4 root v s t] t
    entry_ptr_nonzero [OF tables_okD(1) [OF ok] tables_okD(2) [OF ok path_ok_vpath t] V_ADDR_INDEX_less [of v 1]]
  by (simp add: walk_loop_table_at MapPage_def CreatePage_def)

text \<open>Pages of the same 2 MiB block share their last-level table, so only the first page of a block costs frames.\<close>

lemma vpath_drop:
  assumes "drop_bit 21 v = drop_bit 21 w"
  shows "vpath v = vpath w"
proof -
  have "V_ADDR_INDEX v l = V_ADDR_INDEX w l" if "2 \<le> l" for l
  proof -
    have "12 + 9 * (l - 1) = 9 * (l - 2) + 21" using that by (simp add: diff_mult_distrib2)
    then show ?thesis unfolding V_ADDR_INDEX_bits by (simp only: drop_bit_drop_bit [symmetric] assms)
  qed
  then show ?thesis by (simp add: vpath_def)
qed

lemma vpath_next:
  assumes "unat v div 4096 mod 512 \<noteq> 511"
  shows "vpath (v + 4096) = vpath v"
proof -
  define q where "q = unat v div 4096"
  define c where "c = unat v mod 4096"
  define a where "a = q div 512"
  define b where "b = q mod 512"
  have c: "unat v = 4096 * q + c" "c < 4096" by (simp_all add: q_def c_def)
  have b: "q = 512 * a + b" "b < 512" "b \<noteq> 511" using assms by (simp_all add: a_def b_def q_def)
  have v: "unat v = 2097152 * a + (4096 * b + c)" "4096 * b + c < 2097152" "4096 * b + c + 4096 < 2097152" using b c by simp_all
  then have "2097152 * a < 2 ^ 64" using unat_less64 [of v] by linarith
  then have "a < 2 ^ 43" by simp
  then have "2097152 * a + 2097152 \<le> 2 ^ 64" by simp
  then have "unat v + 4096 < 2 ^ 64" using v(1,3) by linarith
  then have "unat (v + 4096) = unat v + 4096" by (subst unat_add_no_wrap) simp_all
  then have "unat (v + 4096) = 2097152 * a + (4096 * b + c + 4096)" using v(1) by simp
  then have "unat (v + 4096) div 2097152 = a" using v(3) by simp
  moreover have "unat v div 2097152 = a" using v(1,2) by simp
  moreover have "unat (drop_bit 21 u) = unat u div 2097152" for u :: u64 by (simp add: drop_bit_eq_div unat_div)
  ultimately have "unat (drop_bit 21 (v + 4096)) = unat (drop_bit 21 v)" by (simp only:)
  then show ?thesis by (intro vpath_drop) (simp only: word_unat_eq_iff)
qed

definition table_cost :: "u64 \<Rightarrow> u64 \<Rightarrow> 'a pmm_state_scheme \<Rightarrow> nat" where
  "table_cost root v s = (if table_at s root (vpath v) = None then 3 else 0)"

lemma MapPage_cost:
  assumes ok: "tables_ok s root" and links: "links_ok s root" and flags: "flags_ok flags" and free: "table_cost root v s + 1 \<le> pool s"
  shows "\<exists>s'. MapPage root v p flags s = Some (True, s') \<and> links_ok s' root \<and> pool s \<le> pool s' + table_cost root v s
    \<and> table_at s' root (vpath v) \<noteq> None"
proof (cases "table_at s root (vpath v)")
  case None
  then have "4 \<le> pool s" using free by (simp add: table_cost_def)
  then obtain s' where s': "MapPage root v p flags s = Some (True, s')" "links_ok s' root" "pool s \<le> pool s' + 3"
    using MapPage_live [OF ok links flags] by blast
  have "bit (p OR ucast flags) 0" using flags by (simp add: flags_ok_def bit_simps)
  then have "mapping s' root v \<noteq> 0" using MapPage_effect(3) [OF ok flags s'(1), of v] by auto
  then have "table_at s' root (vpath v) \<noteq> None" by (cases "table_at s' root (vpath v)") (simp_all add: mapping_def leaf_def)
  then show ?thesis using s' None by (simp add: table_cost_def)
next
  case (Some t)
  let ?s = "set_entry s t (V_ADDR_INDEX v 1) (p OR ucast flags)"
  have "pool ?s = pool s"
    by (rule pool_set_entry [OF tables_okD(1) [OF ok] tables_okD(2) [OF ok path_ok_vpath Some] V_ADDR_INDEX_less])
  moreover have "table_at ?s root (vpath v) = Some t"
    using set_leaf(2) [OF ok path_ok_vpath length_vpath Some V_ADDR_INDEX_less path_ok_vpath] Some by simp
  ultimately show ?thesis
    using MapPage_existing [OF ok Some] links_ok_set_leaf [OF ok links path_ok_vpath length_vpath Some V_ADDR_INDEX_less] by auto
qed

text \<open>The number of 2 MiB blocks that \<open>n\<close> pages from the page of \<open>v\<close> on touch.\<close>

definition blocks :: "u64 \<Rightarrow> nat \<Rightarrow> nat" where
  "blocks v n = (if n = 0 then 0 else (unat v div 4096 mod 512 + n + 511) div 512)"

lemma blocks_pos: "0 < n \<Longrightarrow> 1 \<le> blocks v n"
  by (simp add: blocks_def)

lemma page_mod_next: "unat (v + 4096 :: u64) div 4096 mod 512 = (unat v div 4096 mod 512 + 1) mod 512"
proof -
  have "unat (v + 4096) div 4096 mod 512 = unat (page_number (v + of_nat (4096 * 1))) mod 512"
    by (simp only: unat_page_number) (simp add: mod_mod_cancel)
  also have "\<dots> = (unat v div 4096 + 1) mod 512"
    unfolding page_number_add by (simp add: mod_mod_cancel)
  finally show ?thesis by (simp add: mod_simps)
qed

lemma blocks_next:
  "unat v div 4096 mod 512 \<noteq> 511 \<Longrightarrow> 0 < n \<Longrightarrow> blocks (v + 4096) n = blocks v (Suc n)"
  "unat v div 4096 mod 512 = 511 \<Longrightarrow> blocks v (Suc n) = Suc (blocks (v + 4096) n)"
proof -
  have m: "unat v div 4096 mod 512 < 512" by simp
  show "unat v div 4096 mod 512 \<noteq> 511 \<Longrightarrow> 0 < n \<Longrightarrow> blocks (v + 4096) n = blocks v (Suc n)"
    unfolding blocks_def page_mod_next using m by simp
  show "unat v div 4096 mod 512 = 511 \<Longrightarrow> blocks v (Suc n) = Suc (blocks (v + 4096) n)"
    unfolding blocks_def page_mod_next using div_add_self2 [of 512 "n + 511"] by (simp add: add.commute)
qed

text \<open>What mapping a range costs at most, when the table of its first page may exist already.\<close>

definition range_cost :: "u64 \<Rightarrow> u64 \<Rightarrow> nat \<Rightarrow> 'a pmm_state_scheme \<Rightarrow> nat" where
  "range_cost root v n s = (if n = 0 then 0 else table_cost root v s + 3 * (blocks v n - 1))"

lemma range_cost_step:
  assumes "table_at s1 root (vpath v) \<noteq> None"
  shows "table_cost root v s + range_cost root (v + 4096) n s1 \<le> range_cost root v (Suc n) s"
proof (cases "n = 0")
  case False
  show ?thesis
  proof (cases "unat v div 4096 mod 512 = 511")
    case True
    then show ?thesis
      using blocks_next(2) [OF True, of n] blocks_pos [of n "v + 4096"] False
      by (cases "blocks (v + 4096) n") (simp_all add: range_cost_def table_cost_def)
  next
    case ne: False
    then have "table_cost root (v + 4096) s1 = 0" using assms vpath_next [OF ne] by (simp add: table_cost_def)
    then show ?thesis using blocks_next(1) [OF ne, of n] False by (simp add: range_cost_def)
  qed
qed (simp add: range_cost_def)

lemma range_cost_le: "range_cost root v n s \<le> 3 * blocks v n"
  using blocks_pos [of n v] by (auto simp: range_cost_def table_cost_def)

definition range_mapped ::
  "u64 \<Rightarrow> u64 \<Rightarrow> u64 \<Rightarrow> u64 \<Rightarrow> u16 \<Rightarrow> 'a pmm_state_scheme \<Rightarrow> 'a pmm_state_scheme \<Rightarrow> bool" where
  "range_mapped root base bound offset flags s s' \<longleftrightarrow>
     (\<forall>i w. i < pages_between base bound \<longrightarrow> page_number w = page_number (base + of_nat (4096 * i) + offset) \<longrightarrow>
        mapping s' root w = (base + of_nat (4096 * i)) OR ucast flags)
   \<and> (\<forall>w. (\<forall>i < pages_between base bound. page_number w \<noteq> page_number (base + of_nat (4096 * i) + offset)) \<longrightarrow>
        mapping s' root w = mapping s root w)"

lemma range_mapped_step:
  assumes lt: "base < bound" "unat bound + 4096 \<le> 2 ^ 64" and n: "pages_between base bound \<le> 2 ^ 36"
    and first: "\<And>w. mapping s1 root w = (if page_number w = page_number (base + offset) then base OR ucast flags else mapping s root w)"
    and rest: "range_mapped root (base + 4096) bound offset flags s1 s'"
  shows "range_mapped root base bound offset flags s s'"
  unfolding range_mapped_def
proof (intro conjI allI impI)
  note step = pages_between_step [OF lt]
  have shift: "base + of_nat (4096 * Suc i) = base + 4096 + of_nat (4096 * i)" for i by (simp add: algebra_simps)
  have other: "page_number (base + of_nat (4096 * Suc i) + offset) \<noteq> page_number (base + offset)"
    if "i < pages_between (base + 4096) bound" for i
  proof -
    have "Suc i < 2 ^ 36" using that n step by simp
    then have "page_number (base + offset + of_nat (4096 * Suc i)) \<noteq> page_number (base + offset)"
      by (rule page_number_distinct) simp
    moreover have "base + of_nat (4096 * Suc i) + offset = base + offset + of_nat (4096 * Suc i)"
      by (simp only: ac_simps)
    ultimately show ?thesis by (simp only: not_False_eq_True)
  qed
  note rest' = rest [unfolded range_mapped_def]
  fix i w assume i: "i < pages_between base bound" and w: "page_number w = page_number (base + of_nat (4096 * i) + offset)"
  show "mapping s' root w = (base + of_nat (4096 * i)) OR ucast flags"
  proof (cases i)
    case 0
    then have "page_number w \<noteq> page_number (base + 4096 + of_nat (4096 * j) + offset)"
      if "j < pages_between (base + 4096) bound" for j
      using other [OF that] w unfolding shift by simp
    then have "mapping s' root w = mapping s1 root w" using rest' by blast
    then show ?thesis using 0 w first by simp
  next
    case (Suc j)
    then have "j < pages_between (base + 4096) bound" using i step by simp
    then show ?thesis using rest' w unfolding Suc shift by blast
  qed
next
  note step = pages_between_step [OF lt]
  fix w assume w: "\<forall>i < pages_between base bound. page_number w \<noteq> page_number (base + of_nat (4096 * i) + offset)"
  have "page_number w \<noteq> page_number (base + offset)" using w [rule_format, of 0] step by simp
  moreover have "page_number w \<noteq> page_number (base + 4096 + of_nat (4096 * j) + offset)"
    if "j < pages_between (base + 4096) bound" for j
    using w [rule_format, of "Suc j"] that step by (simp add: algebra_simps)
  then have "mapping s' root w = mapping s1 root w" using rest [unfolded range_mapped_def] by blast
  ultimately show "mapping s' root w = mapping s root w" using first by simp
qed

lemma map_multiple_loop_live:
  assumes "tables_ok s root" "links_ok s root" and flags: "flags_ok flags" and b: "unat bound + 4096 \<le> 2 ^ 64"
    and "n = pages_between base bound" "n \<le> 2 ^ 36" "range_cost root (base + offset) n s + 1 \<le> pool s"
  shows "\<exists>s'. map_multiple_loop root base bound offset flags s = Some (True, s') \<and> tables_ok s' root \<and> links_ok s' root
    \<and> range_mapped root base bound offset flags s s' \<and> pmm_state.more s' = pmm_state.more s \<and> keeps root s s'
    \<and> pool s \<le> pool s' + range_cost root (base + offset) n s"
  using assms(1,2,5-)
proof (induction n arbitrary: base s)
  case 0
  then have "\<not> base < bound" using pages_between_step [OF _ b] by force
  then show ?case
    using 0 by (subst map_multiple_loop.simps) (simp add: range_mapped_def)
next
  case (Suc n)
  have lt: "base < bound" using Suc.prems(3) pages_between_0 by force
  have n: "n = pages_between (base + 4096) bound" using pages_between_step [OF lt b] Suc.prems(3) by simp
  have "table_cost root (base + offset) s \<le> range_cost root (base + offset) (Suc n) s" by (simp add: range_cost_def)
  then have "table_cost root (base + offset) s + 1 \<le> pool s" using Suc.prems(5) by linarith
  from MapPage_cost [OF Suc.prems(1,2) flags this] obtain s1 where
    s1: "MapPage root (base + offset) base flags s = Some (True, s1)" "links_ok s1 root"
    "pool s \<le> pool s1 + table_cost root (base + offset) s" "table_at s1 root (vpath (base + offset)) \<noteq> None" by blast
  note m = MapPage_effect [OF Suc.prems(1) flags s1(1)]
  have shift: "base + offset + 4096 = base + 4096 + offset" by simp
  note cost = range_cost_step [OF s1(4), of s n, unfolded shift]
  have "\<exists>s'. map_multiple_loop root (base + 4096) bound offset flags s1 = Some (True, s') \<and> tables_ok s' root \<and> links_ok s' root
    \<and> range_mapped root (base + 4096) bound offset flags s1 s' \<and> pmm_state.more s' = pmm_state.more s1 \<and> keeps root s1 s'
    \<and> pool s1 \<le> pool s' + range_cost root (base + 4096 + offset) n s1"
    using n Suc.prems(4,5) s1 m(1) cost by (intro Suc.IH) auto
  then obtain s' where s': "map_multiple_loop root (base + 4096) bound offset flags s1 = Some (True, s')"
    "tables_ok s' root" "links_ok s' root" "range_mapped root (base + 4096) bound offset flags s1 s'"
    "pmm_state.more s' = pmm_state.more s1" "keeps root s1 s'"
    "pool s1 \<le> pool s' + range_cost root (base + 4096 + offset) n s1" by blast
  have "range_mapped root base bound offset flags s s'"
    using Suc.prems(3,4) by (intro range_mapped_step [OF lt b _ _ s'(4)]) (simp_all add: m(3))
  moreover have "map_multiple_loop root base bound offset flags s = Some (True, s')"
    using lt s1(1) s'(1) by (subst map_multiple_loop.simps) simp
  moreover have "keeps root s s'" using m(4) s'(6) by (rule keeps_trans)
  ultimately show ?case using s' s1(3) m(2) cost by auto
qed

section \<open>Unmapping and the self test\<close>

text \<open>The tables depend on the memory and the allocator only.\<close>

lemma table_at_same: "memory s' = memory s \<Longrightarrow> table_at s' root p = table_at s root p"
  by (induction p arbitrary: root) (simp_all add: GetPageTable_def Let_def)

lemma mapping_cong:
  assumes "memory s' = memory s"
  shows "mapping s' root v = mapping s root v"
  unfolding mapping_def leaf_def table_at_same [OF assms] assms ..

lemma pmm_cong:
  assumes "memory s' = memory s" "PHYS_MEMORY_MAP s' = PHYS_MEMORY_MAP s"
  shows "frame_used s' k = frame_used s k" "freeable s' k = freeable s k" "pmm_inv s' = pmm_inv s" "avail s' = avail s"
  unfolding freeable_def frame_used_def clear_of_bitmap_def pmm_inv_def bitmap_frames_def avail_def assms by (rule refl)+

lemma tables_ok_cong:
  assumes "memory s' = memory s" "PHYS_MEMORY_MAP s' = PHYS_MEMORY_MAP s"
  shows "tables_ok s' root = tables_ok s root"
  unfolding tables_ok_def is_table_def pmm_cong [OF assms] table_at_same [OF assms(1)] ..

lemma UnmapPage_effect:
  assumes ok: "tables_ok s root" and ret: "UnmapPage root v s = (b, s')"
  shows "tables_ok s' root" and "\<not> b \<Longrightarrow> s' = s"
    and "b \<longleftrightarrow> table_at s root (vpath v) \<noteq> None"
    and "mapping s' root w = (if page_number w = page_number v then 0 else mapping s root w)"
proof -
  let ?i = "V_ADDR_INDEX v 1"
  have "tables_ok s' root \<and> (\<not> b \<longrightarrow> s' = s) \<and> (b \<longleftrightarrow> table_at s root (vpath v) \<noteq> None)
    \<and> mapping s' root w = (if page_number w = page_number v then 0 else mapping s root w)"
  proof (cases "table_at s root (vpath v)")
    case None
    then have "b = False" "s' = s"
      using ret by (simp_all add: UnmapPage_def GetPage_def walk_loop_table_at)
    moreover have "mapping s root w = 0" if "page_number w = page_number v"
      using None same_page_iff [of w v] that by (simp add: mapping_def leaf_def)
    ultimately show ?thesis using ok None by auto
  next
    case (Some t)
    note inv = tables_okD(1) [OF ok] and tt = tables_okD(2) [OF ok path_ok_vpath Some]
    let ?s = "set_entry s t ?i 0"
    have "b = True" and s': "s' = ?s\<lparr>invlpg := v # invlpg s\<rparr>"
      using ret Some entry_ptr_nonzero [OF inv tt V_ADDR_INDEX_less [of v 1]]
      by (simp_all add: UnmapPage_def GetPage_def walk_loop_table_at Let_def)
    have same: "memory s' = memory ?s" "PHYS_MEMORY_MAP s' = PHYS_MEMORY_MAP ?s" by (simp_all add: s')
    have "tables_ok s' root"
      using set_leaf(1) [OF ok path_ok_vpath length_vpath Some V_ADDR_INDEX_less] tables_ok_cong [OF same] by simp
    moreover have "mapping s' root w = mapping ?s root w" by (rule mapping_cong [OF same(1)])
    ultimately show ?thesis using \<open>b = True\<close> Some set_leaf_mapping [OF ok Some] by simp
  qed
  then show "tables_ok s' root" "\<not> b \<Longrightarrow> s' = s" "b \<longleftrightarrow> table_at s root (vpath v) \<noteq> None"
    "mapping s' root w = (if page_number w = page_number v then 0 else mapping s root w)" by blast+
qed

lemma masked_index:
  assumes "n + 9 \<le> 64"
  shows "drop_bit n (v AND push_bit n 0x1ff) = drop_bit n v AND (0x1ff :: u64)"
proof -
  have m: "(0x1ff :: u64) = mask 9" by (simp add: mask_eq_exp_minus_1)
  show ?thesis
    unfolding m using assms by (auto intro!: bit_word_eqI simp: bit_simps)
qed

lemma AssertKernelMapping_mapping:
  "AssertKernelMapping p v s \<longleftrightarrow> KERNEL_PAGE_TABLE_ROOT s \<noteq> 0
     \<and> mapping s (KERNEL_PAGE_TABLE_ROOT s) v \<noteq> 0 \<and> KernelVAddrToPAddr v s = p"
proof -
  have idx: "drop_bit 39 (v AND push_bit 39 0x1ff) = V_ADDR_INDEX v 4"
    "drop_bit 30 (v AND push_bit 30 0x1ff) = V_ADDR_INDEX v 3"
    "drop_bit 21 (v AND push_bit 21 0x1ff) = V_ADDR_INDEX v 2"
    "drop_bit 12 (v AND push_bit 12 0x1ff) = V_ADDR_INDEX v 1"
    by (simp_all only: masked_index V_ADDR_INDEX_def) simp_all
  show ?thesis
    unfolding AssertKernelMapping_def idx KernelVAddrToPAddr_def VAddrToPAddr_mapping mapping_def leaf_def vpath_def
    by (simp add: Let_def PRESENT_def)
qed

lemma UnmapPage_table_at:
  assumes ok: "tables_ok s root" and ret: "UnmapPage root v s = (b, s')" and q: "path_ok q"
  shows "table_at s' root q = table_at s root q"
proof (cases "GetPage root v s = 0")
  case False
  then obtain t where t: "table_at s root (vpath v) = Some t"
    by (auto simp: GetPage_def walk_loop_table_at split: option.splits)
  have "table_at s' root q = table_at (set_entry s t (V_ADDR_INDEX v 1) 0) root q"
    using ret False t by (intro table_at_same) (auto simp: UnmapPage_def GetPage_def walk_loop_table_at Let_def)
  then show ?thesis using set_leaf(2) [OF ok path_ok_vpath length_vpath t V_ADDR_INDEX_less q] by simp
qed (use ret in \<open>simp add: UnmapPage_def\<close>)

section \<open>The contract of a page table\<close>

text \<open>
  Seen from its clients a page table is a function from pages to entries; mapping a page either
  updates that function at one page or fails and leaves it alone.
\<close>

locale page_table =
  fixes map_page :: "u64 \<Rightarrow> u64 \<Rightarrow> u16 \<Rightarrow> 's \<Rightarrow> (bool \<times> 's) option"
    and look :: "'s \<Rightarrow> u64 \<Rightarrow> u64"
    and wf :: "'s \<Rightarrow> bool"
    and page :: "u64 \<Rightarrow> u64"
  assumes map_wf: "wf s \<Longrightarrow> flags_ok f \<Longrightarrow> map_page v p f s = Some (b, s') \<Longrightarrow> wf s'"
    and map_look: "wf s \<Longrightarrow> flags_ok f \<Longrightarrow> map_page v p f s = Some (b, s') \<Longrightarrow>
      look s' w = (if b \<and> page w = page v then p OR ucast f else look s w)"

text \<open>A client that maps a list of pages with the same flags, ignoring failures.\<close>

fun map_list ::
  "(u64 \<Rightarrow> u64 \<Rightarrow> u16 \<Rightarrow> 's \<Rightarrow> (bool \<times> 's) option) \<Rightarrow> u16 \<Rightarrow> (u64 \<times> u64) list \<Rightarrow> 's \<Rightarrow> (bool \<times> 's) option" where
  "map_list mp f [] s = Some (True, s)"
| "map_list mp f ((v, p) # ps) s =
     (case mp v p f s of
        None \<Rightarrow> None
      | Some (b, s1) \<Rightarrow>
          (case map_list mp f ps s1 of None \<Rightarrow> None | Some (b', s2) \<Rightarrow> Some (b \<and> b', s2)))"

context page_table begin

text \<open>The last mapping of a page wins.\<close>

lemma map_list_look:
  "wf s \<Longrightarrow> flags_ok f \<Longrightarrow> map_list map_page f ps s = Some (True, s') \<Longrightarrow>
    wf s' \<and> look s' w = (case map_of (rev (map (\<lambda>(v, p). (page v, p)) ps)) (page w) of
      None \<Rightarrow> look s w | Some p \<Rightarrow> p OR ucast f)"
proof (induction ps arbitrary: s)
  case (Cons a ps)
  obtain v p where a: "a = (v, p)" by (cases a)
  obtain b s1 where s1: "map_page v p f s = Some (b, s1)" using Cons.prems(3) a by (auto split: option.splits)
  then have b: "b" "map_list map_page f ps s1 = Some (True, s')"
    using Cons.prems(3) a by (auto split: option.splits)
  note IH = Cons.IH [OF map_wf [OF Cons.prems(1,2) s1] Cons.prems(2) b(2)]
  then show ?case
    using map_look [OF Cons.prems(1,2) s1, of w] a b(1) by (auto simp: map_add_def split: option.splits)
qed simp

end

interpretation pt: page_table "MapPage root" "\<lambda>s. mapping s root" "\<lambda>s. tables_ok s root" page_number for root
  by unfold_locales (rule MapPage_effect; assumption)+

section \<open>Properties\<close>

text \<open>A small state for the witnesses: an empty root table in frame 2, and four free frames.\<close>

definition demo_vmm :: vmm_state where
  "demo_vmm = \<lparr>memory = (\<lambda>x. 0)(0x100000 := 0xC5),
     PHYS_MEMORY_MAP = \<lparr>num_entries = 6, last_used = 2, bitmap_size = 1, bitmap = 0x100000,
       mem_size = 0, max_blocks = 0, uppermost_addr = 0x6FFF, used_blocks = 0\<rparr>,
     KERNEL_PAGE_TABLE_ROOT = frame_addr 2,
     BASE_ADDR = \<lparr>physical_base_address = 0, virtual_base_address = 0\<rparr>,
     PMRs = [], MMAP = [], cr3 = 0, invlpg = [], klog = []\<rparr>"

lemma demo_vmm_fields [simp]:
  "frames demo_vmm = 6" "last_frame demo_vmm = 2" "bitmap_frames demo_vmm = 8"
  by (simp_all add: demo_vmm_def bitmap_frames_def)

lemma demo_vmm_used: "k < 8 \<Longrightarrow> frame_used demo_vmm k \<longleftrightarrow> k \<notin> {1, 3, 4, 5}"
proof -
  have "\<forall>k < 8. frame_used demo_vmm k \<longleftrightarrow> k \<notin> {1, 3, 4, 5}"
    unfolding all_less_8 by (simp add: demo_vmm_def frame_used_def)
  then show "k < 8 \<Longrightarrow> ?thesis" by blast
qed

lemma demo_vmm_inv: "pmm_inv demo_vmm" and demo_vmm_clear: "k \<le> 6 \<Longrightarrow> clear_of_bitmap demo_vmm k"
proof -
  show c: "clear_of_bitmap demo_vmm k" if "k \<le> 6" for k
    using that by (simp add: clear_of_bitmap_def demo_vmm_def)
  moreover have "unat (bitmap (PHYS_MEMORY_MAP demo_vmm)) + unat (bitmap_size (PHYS_MEMORY_MAP demo_vmm)) \<le> 2 ^ 64"
    by (simp add: demo_vmm_def)
  ultimately show "pmm_inv demo_vmm"
    using demo_vmm_used unfolding pmm_inv_def Let_def by auto
qed

lemma demo_vmm_pool: "pool demo_vmm = 4"
proof -
  have "avail demo_vmm \<inter> {..<frames demo_vmm} = {1, 3, 4, 5}" using demo_vmm_used by (auto simp: avail_def)
  then show ?thesis by (simp add: pool_def)
qed

lemma demo_vmm_entry:
  assumes "i < 512"
  shows "table_entry demo_vmm (frame_addr 2) i = 0"
proof (rule c64.load_zero)
  fix x assume "in_range x (entry_ptr (frame_addr 2) i) 8"
  then have "in_range x (frame_addr 2) 4096" by (intro entry_in_frame [OF _ assms]) simp_all
  then have "unat x < 12288" by (subst (asm) frame_range) simp_all
  then have "x \<noteq> 0x100000" by auto
  then show "memory demo_vmm x = 0" by (simp add: demo_vmm_def)
qed

lemma demo_vmm_table_at:
  assumes "path_ok p"
  shows "table_at demo_vmm (frame_addr 2) p = (if p = [] then Some (frame_addr 2) else None)"
proof (cases p)
  case (Cons i q)
  then have "i < 512" using assms by (simp add: path_ok_def)
  then show ?thesis using Cons demo_vmm_entry by (simp add: GetPageTable_def GetPageFlag_def)
qed simp

lemma demo_vmm_ok: "tables_ok demo_vmm (frame_addr 2)" and demo_vmm_links: "links_ok demo_vmm (frame_addr 2)"
proof -
  have "is_table demo_vmm (frame_addr 2)"
    unfolding is_table_def using demo_vmm_used [of 2] demo_vmm_clear [of 2] by (auto simp: freeable_def)
  then show "tables_ok demo_vmm (frame_addr 2)"
    using demo_vmm_inv unfolding tables_ok_def by (auto simp: demo_vmm_table_at split: if_splits)
  show "links_ok demo_vmm (frame_addr 2)"
    unfolding links_ok_def
  proof (intro allI impI)
    fix p i t assume *: "path_ok (p @ [i])" "table_at demo_vmm (frame_addr 2) p = Some t"
      "GetPageFlag (table_entry demo_vmm t i) PRESENT"
    then have "t = frame_addr 2" "i < 512"
      using path_ok_snoc [OF *(1)] by (auto simp: demo_vmm_table_at split: if_splits)
    then show "table_entry demo_vmm t i AND NOT 511 \<noteq> 0" using *(3) demo_vmm_entry by (simp add: GetPageFlag_def)
  qed
qed

lemma flags_ok_3: "flags_ok 3" by (simp add: flags_ok_def)

text \<open>C1. \<^verbatim>\<open>MapPage\<close> implements one update of the page map: on a well-formed tree of tables it keeps the
  tree well-formed; if it reports success, looking the page up gives the mapped address and the page's entry
  holds the address with the flags, if it reports failure no translation changes, and in both cases
  the translation of every other page is what it was.\<close>

theorem MapPage_correct:
  assumes "tables_ok s root" and "flags_ok flags" and "MapPage root v p flags s = Some (b, s')"
  shows "tables_ok s' root
    \<and> (b \<longrightarrow> VAddrToPAddr root v s' = p AND NOT 511 \<and> load64 (memory s') (GetPage root v s') = p OR ucast flags)
    \<and> (\<forall>w. \<not> b \<or> page_number w \<noteq> page_number v \<longrightarrow> VAddrToPAddr root w s' = VAddrToPAddr root w s)"
proof -
  note m = MapPage_effect [OF assms]
  have "load64 (memory s') (GetPage root v s') = p OR ucast flags" if b
  proof -
    have map: "mapping s' root v = p OR ucast flags" using m(3) that by simp
    have "bit flags 0" using assms(2) by (simp add: flags_ok_def)
    then have "bit (p OR ucast flags) 0" by (simp add: bit_simps)
    then have "mapping s' root v \<noteq> 0" using map by auto
    then show ?thesis using map by (auto simp: mapping_def leaf_def GetPage_def walk_loop_table_at split: option.splits)
  qed
  then show ?thesis using m(1,3) new_entry(2) [OF assms(2)] by (simp add: VAddrToPAddr_mapping)
qed

text \<open>\<^verbatim>\<open>MapPage\<close> returns, and succeeds, whenever four frames of the pool are free: three for the
  tables it may have to create and one more for the search of the allocator.\<close>

theorem MapPage_succeeds:
  assumes "tables_ok s root" and "links_ok s root" and "flags_ok flags" and "4 \<le> pool s"
  shows "\<exists>s'. MapPage root v p flags s = Some (True, s') \<and> tables_ok s' root \<and> links_ok s' root \<and> pool s \<le> pool s' + 3"
  using MapPage_live [OF assms] MapPage_effect(1) [OF assms(1,3)] by blast

theorem MapPage_succeeds_witness:
  "\<exists>s'. MapPage (frame_addr 2) 0xffff800000123000 0x7000 3 demo_vmm = Some (True, s')"
  using MapPage_succeeds [OF demo_vmm_ok demo_vmm_links flags_ok_3, of "0xffff800000123000" "0x7000"] demo_vmm_pool by auto

theorem MapPage_correct_witness:
  "\<exists>s'. MapPage (frame_addr 2) 0xffff800000123000 0x7000 3 demo_vmm = Some (True, s')
    \<and> VAddrToPAddr (frame_addr 2) 0xffff800000123000 s' = 0x7000"
proof -
  obtain s' where s': "MapPage (frame_addr 2) 0xffff800000123000 0x7000 3 demo_vmm = Some (True, s')"
    using MapPage_live [OF demo_vmm_ok demo_vmm_links flags_ok_3] demo_vmm_pool by auto
  then show ?thesis using MapPage_correct [OF demo_vmm_ok flags_ok_3 s'] by simp
qed

text \<open>C4. \<^verbatim>\<open>MapMultiple\<close> with enough free frames, three for each block of 2 MiB, returns true and maps the whole
  range: each page of \<open>[base, bound)\<close> is reached at its address plus the offset with the given flags, and no other
  page changes.\<close>

theorem MapMultiple_correct:
  assumes "tables_ok s root" and "links_ok s root" and "flags_ok flags" and "unat bound + 4096 \<le> 2 ^ 64"
    and "pages_between base bound \<le> 2 ^ 36" and "3 * blocks (base + offset) (pages_between base bound) + 1 \<le> pool s"
  shows "\<exists>s'. MapMultiple root base bound offset flags s = Some (True, s') \<and> tables_ok s' root
    \<and> range_mapped root base bound offset flags s s'"
proof -
  have "range_cost root (base + offset) (pages_between base bound) s + 1 \<le> pool s"
    using range_cost_le [of root "base + offset" "pages_between base bound" s] assms(6) by linarith
  from map_multiple_loop_live [OF assms(1-4) refl assms(5) this] show ?thesis unfolding MapMultiple_def by blast
qed

theorem MapMultiple_correct_witness:
  "\<exists>s'. MapMultiple (frame_addr 2) 0x7000 0x8000 0xffff800000000000 3 demo_vmm = Some (True, s')
    \<and> mapping s' (frame_addr 2) 0xffff800000007000 = 0x7003"
proof -
  have n: "pages_between 0x7000 0x8000 = 1" by (simp add: pages_between_def)
  then show ?thesis
    using MapMultiple_correct [OF demo_vmm_ok demo_vmm_links flags_ok_3, of "0x8000" "0x7000" "0xffff800000000000"] demo_vmm_pool
    by (auto simp: range_mapped_def blocks_def)
qed

text \<open>A sequence of successful \<^verbatim>\<open>MapPage\<close> calls refines the finite map built by the same updates:
  each page reads as the last address mapped to it.\<close>

theorem MapPage_sequence:
  assumes "tables_ok s root" and "flags_ok f" and "map_list (MapPage root) f ps s = Some (True, s')"
  shows "tables_ok s' root \<and> mapping s' root w =
    (case map_of (rev (map (\<lambda>(v, p). (page_number v, p)) ps)) (page_number w) of
      None \<Rightarrow> mapping s root w | Some p \<Rightarrow> p OR ucast f)"
  using assms by (rule pt.map_list_look)

theorem MapPage_sequence_witness:
  "\<exists>s'. map_list (MapPage (frame_addr 2)) 3 [(0x5000, 0x9000)] demo_vmm = Some (True, s')
    \<and> mapping s' (frame_addr 2) 0x5000 = 0x9003"
proof -
  obtain s' where "MapPage (frame_addr 2) 0x5000 0x9000 3 demo_vmm = Some (True, s')"
    using MapPage_live [OF demo_vmm_ok demo_vmm_links flags_ok_3] demo_vmm_pool by auto
  then have "map_list (MapPage (frame_addr 2)) 3 [(0x5000, 0x9000)] demo_vmm = Some (True, s')" by simp
  then show ?thesis using MapPage_sequence [OF demo_vmm_ok flags_ok_3, of "[(0x5000, 0x9000)]" s' "0x5000"] by auto
qed



text \<open>\<^verbatim>\<open>RemapPage\<close> does not do what its comment says: it maps the old virtual address again and never
  looks at the new one. When it reports success, the old address still translates as before and the
  new address has not been mapped.\<close>

theorem RemapPage_ignores_new_vaddr:
  assumes "tables_ok s root" and "flags_ok flags" and "GetPage root former_vaddr s \<noteq> 0"
    and "page_number new_vaddr \<noteq> page_number former_vaddr"
  shows "\<exists>s'. RemapPage root former_vaddr new_vaddr flags s = Some (True, s')
    \<and> VAddrToPAddr root former_vaddr s' = VAddrToPAddr root former_vaddr s
    \<and> VAddrToPAddr root new_vaddr s' = VAddrToPAddr root new_vaddr s"
proof -
  let ?p = "VAddrToPAddr root former_vaddr s"
  obtain b s1 where u: "UnmapPage root former_vaddr s = (b, s1)" by (cases "UnmapPage root former_vaddr s")
  note ue = UnmapPage_effect [OF assms(1) u]
  have t: "table_at s root (vpath former_vaddr) \<noteq> None"
    using assms(3) by (auto simp: GetPage_def walk_loop_table_at split: option.splits)
  then have "table_at s1 root (vpath former_vaddr) \<noteq> None"
    using UnmapPage_table_at [OF assms(1) u path_ok_vpath] by simp
  then obtain s' where m: "MapPage root former_vaddr ?p flags s1 = Some (True, s')"
    using MapPage_existing [OF ue(1)] by blast
  then have "RemapPage root former_vaddr new_vaddr flags s = Some (True, s')"
    using u ue(3) t by (simp add: RemapPage_def)
  moreover have "(x AND NOT 511) AND NOT 511 = x AND NOT (511 :: u64)" for x by (simp add: and.assoc)
  ultimately show ?thesis
    using MapPage_effect(3) [OF ue(1) assms(2) m] ue(4) assms(4) new_entry(2) [OF assms(2)]
    by (simp add: VAddrToPAddr_mapping)
qed

theorem RemapPage_ignores_new_vaddr_witness:
  "\<exists>s s'. RemapPage (frame_addr 2) 0x5000 0x6000 3 (s :: vmm_state) = Some (True, s')
    \<and> VAddrToPAddr (frame_addr 2) 0x5000 s' = 0x9000"
proof -
  obtain s where m: "MapPage (frame_addr 2) 0x5000 0x9000 3 demo_vmm = Some (True, s)"
    using MapPage_live [OF demo_vmm_ok demo_vmm_links flags_ok_3] demo_vmm_pool by auto
  note e = MapPage_effect [OF demo_vmm_ok flags_ok_3 m]
  have p: "mapping s (frame_addr 2) 0x5000 = 0x9003" using e(3) by simp
  then obtain t where t: "table_at s (frame_addr 2) (vpath 0x5000) = Some t"
    by (cases "table_at s (frame_addr 2) (vpath 0x5000)") (auto simp: mapping_def leaf_def)
  then have "GetPage (frame_addr 2) 0x5000 s \<noteq> 0"
    using entry_ptr_nonzero [OF tables_okD(1) [OF e(1)] tables_okD(2) [OF e(1) path_ok_vpath t] V_ADDR_INDEX_less]
    by (simp add: GetPage_def walk_loop_table_at)
  moreover have "page_number 0x6000 \<noteq> page_number 0x5000" by (simp add: page_number_def)
  ultimately show ?thesis
    using RemapPage_ignores_new_vaddr [OF e(1) flags_ok_3, of "0x5000" "0x6000"] p
    by (auto simp: VAddrToPAddr_mapping)
qed

text \<open>The self test \<^verbatim>\<open>AssertKernelMapping\<close> agrees with \<^verbatim>\<open>KernelVAddrToPAddr\<close>: with its own index
  arithmetic it accepts exactly when the root is set, the page's entry is not zero and the translation is the
  expected address. It does not test the present bit its comment speaks of.\<close>

theorem AssertKernelMapping_correct:
  "AssertKernelMapping p v s \<longleftrightarrow> KERNEL_PAGE_TABLE_ROOT s \<noteq> 0
     \<and> mapping s (KERNEL_PAGE_TABLE_ROOT s) v \<noteq> 0 \<and> KernelVAddrToPAddr v s = p"
  by (rule AssertKernelMapping_mapping)

end
