(* ===== verification/Kheap.thy ===== *)
theory Kheap
  imports Vmm
begin

text \<open>
  \<^verbatim>\<open>src/src/kernel/memory_management/kheap.c\<close>: the kernel heap, a sequence of blocks with a
  32-bit boundary tag at either end (the size of the body, with bit 0 set when the block is
  allocated), searched first fit. The heap is reached through the higher-half addresses
  \<^verbatim>\<open>init_heap\<close> computes, the only addresses the code uses for it.
\<close>

section \<open>Data\<close>

record heap_state = vmm_state +
  HEAP_START :: u64
  HEAP_SIZE :: u64

abbreviation HEADER_SIZE :: u64 where "HEADER_SIZE \<equiv> 4"

abbreviation FOOTER_SIZE :: u64 where "FOOTER_SIZE \<equiv> 4"

abbreviation MDATA_SIZE :: u64 where "MDATA_SIZE \<equiv> 8"

definition SIZE_MASK :: u32 where "SIZE_MASK = 0xFFFE"

text \<open>\<^verbatim>\<open>*p & SIZE_MASK\<close> as a \<^verbatim>\<open>size_t\<close>, for a pointer to a tag.\<close>

definition tag_size :: "'a pmm_state_scheme \<Rightarrow> u64 \<Rightarrow> u64" where
  "tag_size s p = ucast (load32 (memory s) p AND SIZE_MASK)"

abbreviation tag_used :: "'a pmm_state_scheme \<Rightarrow> u64 \<Rightarrow> bool" where
  "tag_used s p \<equiv> load32 (memory s) p AND 1 \<noteq> 0"

abbreviation put_tag :: "u64 \<Rightarrow> u32 \<Rightarrow> 'a pmm_state_scheme \<Rightarrow> 'a pmm_state_scheme" where
  "put_tag p v s \<equiv> s\<lparr>memory := store32 (memory s) p v\<rparr>"

section \<open>Boundary tags\<close>

definition footer_from_header :: "u64 \<Rightarrow> 'a pmm_state_scheme \<Rightarrow> u64" where
  "footer_from_header header s =
     (if header = 0 then 0 else header + HEADER_SIZE + tag_size s header)"

definition header_from_footer :: "u64 \<Rightarrow> 'a pmm_state_scheme \<Rightarrow> u64" where
  "header_from_footer footer s =
     (if footer = 0 then 0 else footer - tag_size s footer - HEADER_SIZE)"

definition next_header :: "u64 \<Rightarrow> 'a heap_state_scheme \<Rightarrow> u64" where
  "next_header header s =
     (let next_header = header + HEADER_SIZE + tag_size s header + FOOTER_SIZE
      in if next_header = HEAP_START s + HEAP_SIZE s then 0 else next_header)"

definition prev_footer :: "u64 \<Rightarrow> 'a heap_state_scheme \<Rightarrow> u64" where
  "prev_footer footer s =
     (let block_size = tag_size s footer
      in if footer - block_size - HEADER_SIZE = HEAP_START s then 0
         else footer - block_size - HEADER_SIZE - FOOTER_SIZE)"

definition merge_size :: "u64 \<Rightarrow> u64 \<Rightarrow> 'a pmm_state_scheme \<Rightarrow> u64" where
  "merge_size block1 block2 s = tag_size s block1 + tag_size s block2 + MDATA_SIZE"

definition threeway_merge_size :: "u64 \<Rightarrow> u64 \<Rightarrow> u64 \<Rightarrow> 'a pmm_state_scheme \<Rightarrow> u64" where
  "threeway_merge_size front middle back s =
     tag_size s front + tag_size s middle + tag_size s back + MDATA_SIZE * 2"

definition heap_pos :: "u64 \<Rightarrow> 'a heap_state_scheme \<Rightarrow> u64" where
  "heap_pos pos s = pos - HEAP_START s"

section \<open>Splitting and merging\<close>

definition split_block :: "u64 \<Rightarrow> u64 \<Rightarrow> 'a heap_state_scheme \<Rightarrow> u64 \<times> 'a heap_state_scheme" where
  "split_block block alloc_size s =
     (let outer_header = block;
          block_size = tag_size s outer_header
      in if block_size < alloc_size then (0, s)
         else
           (let outer_footer = footer_from_header outer_header s;
                s1 = put_tag outer_header (ucast (alloc_size OR 1)) s;
                inner_header = next_header outer_header s1;
                inner_footer = footer_from_header outer_header s1;
                s2 = put_tag inner_footer (load32 (memory s1) outer_header) s1
            in if alloc_size = block_size then (outer_header, s2)
               else if block_size < alloc_size + MDATA_SIZE then
                 (let s3 = put_tag outer_header (ucast (block_size OR 1)) s2
                  in (outer_header, put_tag inner_footer (load32 (memory s3) outer_header) s3))
               else
                 (let s3 = put_tag inner_header (ucast (block_size - alloc_size - MDATA_SIZE)) s2
                  in (outer_header, put_tag outer_footer (load32 (memory s3) inner_header) s3))))"

definition merge_block :: "u64 \<Rightarrow> u64 \<Rightarrow> 'a heap_state_scheme \<Rightarrow> u64 \<times> 'a heap_state_scheme" where
  "merge_block first_block second_block s =
     (let second_block_footer = footer_from_header second_block s
      in if next_header first_block s \<noteq> second_block then (0, s)
         else
           (let s1 = put_tag first_block
                       (ucast (merge_size first_block second_block s
                          OR ucast (load32 (memory s) first_block AND 1))) s
            in (first_block, put_tag second_block_footer (load32 (memory s1) first_block) s1)))"

definition merge_forward :: "u64 \<Rightarrow> u64 \<Rightarrow> u64 \<Rightarrow> 'a heap_state_scheme \<Rightarrow> u64 \<times> 'a heap_state_scheme" where
  "merge_forward first_block second_block sz s =
     (let second_block_size = tag_size s second_block;
          (new_block, s1) = merge_block first_block second_block s;
          s2 = s1\<lparr>memory := memset (memory s1) second_block 0 (second_block_size + HEADER_SIZE)\<rparr>
      in split_block new_block sz s2)"

definition merge_backward :: "u64 \<Rightarrow> u64 \<Rightarrow> u64 \<Rightarrow> 'a heap_state_scheme \<Rightarrow> u64 \<times> 'a heap_state_scheme" where
  "merge_backward first_block second_block sz s =
     (let second_block_size = tag_size s second_block;
          s1 = s\<lparr>memory := memmove (memory s) (first_block + HEADER_SIZE) (second_block + HEADER_SIZE)
                 second_block_size\<rparr>;
          (new_block, s2) = merge_block first_block second_block s1;
          s3 = s2\<lparr>memory := memset (memory s2) second_block 0 (second_block_size + HEADER_SIZE)\<rparr>
      in split_block new_block sz s3)"

definition threeway_merge ::
  "u64 \<Rightarrow> u64 \<Rightarrow> u64 \<Rightarrow> u64 \<Rightarrow> 'a heap_state_scheme \<Rightarrow> u64 \<times> 'a heap_state_scheme" where
  "threeway_merge front middle back sz s =
     (let back_footer = footer_from_header back s;
          middle_size = tag_size s middle;
          s1 = put_tag front (ucast (threeway_merge_size front middle back s OR 1)) s;
          s2 = put_tag back_footer (load32 (memory s1) front) s1;
          s3 = s2\<lparr>memory := memmove (memory s2) middle front middle_size\<rparr>;
          size_to_zero = back_footer - (front + middle_size);
          s4 = s3\<lparr>memory := memset (memory s3) (front + middle_size) 0 size_to_zero\<rparr>
      in split_block front sz s4)"

section \<open>Operations\<close>

definition init_heap :: "u64 \<Rightarrow> 'a heap_state_scheme \<Rightarrow> 'a heap_state_scheme option" where
  "init_heap heap_size s =
     (let s = PrintK_log (''Initializing heap.'' @ [CHR 0x0A]) [] s
      in do {
        (frame, s) \<leftarrow> AllocContiguous heap_size s;
        let s = s\<lparr>HEAP_START := frame + KERNEL_DATA, HEAP_SIZE := heap_size\<rparr>;
        let heap_header = HEAP_START s;
        let s = put_tag heap_header (ucast (heap_size - MDATA_SIZE)) s;
        let heap_footer = HEAP_START s + HEADER_SIZE + ucast (load32 (memory s) heap_header);
        let s = put_tag heap_footer (load32 (memory s) heap_header) s;
        Some (PrintK_log (''Heap initialized at 0x%h.'' @ [CHR 0x0A]) [KNum (HEAP_START s)] s)
      })"

definition map_heap :: "u64 \<Rightarrow> 'a heap_state_scheme \<Rightarrow> 'a heap_state_scheme option" where
  "map_heap page_table_root s =
     (let heap_paddr = KernelVAddrToPAddr (HEAP_START s) s;
          num_heap_pages = push_bit 12 (drop_bit 12 (HEAP_SIZE s + push_bit 12 1 - 1))
      in do {
        (_, s) \<leftarrow> MapMultiple page_table_root heap_paddr (heap_paddr + num_heap_pages) KERNEL_DATA
                   (ucast KERNEL_PAGE) s;
        Some s
      })"

text \<open>The search loop of \<^verbatim>\<open>kalloc\<close>; it ends inside the heap at a free block, or past its end.\<close>

partial_function (option) kalloc_loop :: "u64 \<Rightarrow> u64 \<Rightarrow> 'a heap_state_scheme \<Rightarrow> u64 option" where
  "kalloc_loop heap_ptr sz s =
     (if heap_ptr < HEAP_START s + HEAP_SIZE s \<and>
         (tag_used s heap_ptr \<or> ucast (load32 (memory s) heap_ptr) \<le> sz)
      then kalloc_loop (heap_ptr + (tag_size s heap_ptr + HEADER_SIZE + FOOTER_SIZE)) sz s
      else Some heap_ptr)"

definition kalloc :: "u64 \<Rightarrow> 'a heap_state_scheme \<Rightarrow> (u64 \<times> 'a heap_state_scheme) option" where
  "kalloc sz s = do {
     heap_ptr \<leftarrow> kalloc_loop (HEAP_START s) sz s;
     if heap_ptr < HEAP_START s + HEAP_SIZE s then
       (let new_size = push_bit 1 (drop_bit 1 (sz + 1));
            (_, s1) = split_block heap_ptr new_size s
        in Some (heap_ptr + HEADER_SIZE,
             s1\<lparr>memory := memset (memory s1) (heap_ptr + HEADER_SIZE) 0 new_size\<rparr>))
     else Some (0, s)
   }"

definition kfree :: "u64 \<Rightarrow> 'a heap_state_scheme \<Rightarrow> 'a heap_state_scheme" where
  "kfree allocation s =
     (let header = allocation - HEADER_SIZE;
          s1 = put_tag header (load32 (memory s) header AND SIZE_MASK) s;
          footer = allocation + ucast (load32 (memory s1) header);
          s2 = put_tag footer (load32 (memory s1) footer AND SIZE_MASK) s1;
          next_block_header = next_header header s2;
          prev_block_footer = prev_footer footer s2;
          s3 = (if next_block_header \<noteq> 0 \<and> \<not> tag_used s2 next_block_header
                then snd (merge_block header next_block_header s2) else s2)
      in if prev_block_footer \<noteq> 0 \<and> \<not> tag_used s3 prev_block_footer
         then snd (merge_block (header_from_footer prev_block_footer s3) header s3)
         else s3)"

definition krealloc :: "u64 \<Rightarrow> u64 \<Rightarrow> 'a heap_state_scheme \<Rightarrow> (u64 \<times> 'a heap_state_scheme) option" where
  "krealloc allocation sz0 s =
     (let sz = push_bit 1 (drop_bit 1 (sz0 + 1));
          header = allocation - HEADER_SIZE;
          footer = allocation + tag_size s header;
          next_block_header = next_header header s;
          prev_block_footer = prev_footer footer s;
          curr_block = header;
          next_block = next_block_header;
          prev_block = header_from_footer prev_block_footer s;
          block_size = tag_size s header
      in if next_block \<noteq> 0 \<and> \<not> tag_used s next_block_header \<and> merge_size curr_block next_block s \<ge> sz then
           (let (p, s1) = merge_forward curr_block next_block sz s in Some (p + HEADER_SIZE, s1))
         else if prev_block \<noteq> 0 \<and> \<not> tag_used s prev_block_footer \<and> merge_size prev_block curr_block s \<ge> sz then
           (let (p, s1) = merge_backward prev_block curr_block sz s in Some (p + HEADER_SIZE, s1))
         else if prev_block \<noteq> 0 \<and> next_block \<noteq> 0 \<and> \<not> tag_used s prev_block_footer
              \<and> \<not> tag_used s next_block_header
              \<and> threeway_merge_size prev_block curr_block next_block s \<ge> sz then
           (let (p, s1) = threeway_merge prev_block curr_block next_block sz s in Some (p + HEADER_SIZE, s1))
         else do {
           (new_allocation, s1) \<leftarrow> kalloc sz s;
           if new_allocation = 0 then Some (0, s1)
           else
             (let s2 = s1\<lparr>memory := memmove (memory s1) (new_allocation + HEADER_SIZE)
                         (allocation + HEADER_SIZE) block_size\<rparr>
              in Some (new_allocation + HEADER_SIZE, kfree allocation s2))
         })"

partial_function (option) print_alloc_loop :: "u64 \<Rightarrow> 'a heap_state_scheme \<Rightarrow> 'a heap_state_scheme option" where
  "print_alloc_loop heap_ptr s =
     (if heap_ptr < HEAP_START s + HEAP_SIZE s then
        print_alloc_loop (heap_ptr + (tag_size s heap_ptr + HEADER_SIZE + FOOTER_SIZE))
          (PrintK_log
            ([CHR 0x09] @ ''0x%lx: (%d) | H (4 bytes) - %d | BODY (%d bytes) | F (0x%lx) (4 bytes) - %d |'' @ [CHR 0x0A])
            [KNum (heap_ptr - HEAP_START s), KNum (if tag_used s heap_ptr then 1 else 0),
             KNum (tag_size s heap_ptr), KNum (tag_size s heap_ptr),
             KNum (heap_pos (footer_from_header heap_ptr s) s),
             KNum (tag_size s (footer_from_header heap_ptr s))] s)
      else Some s)"

definition print_allocations :: "'a heap_state_scheme \<Rightarrow> 'a heap_state_scheme option" where
  "print_allocations s =
     print_alloc_loop (HEAP_START s)
       (PrintK_log ([CHR 0x0A] @ ''HEAP: %ld bytes total'' @ [CHR 0x0A]) [KNum (HEAP_SIZE s)] s)"

section \<open>The heap as a list of blocks\<close>

text \<open>A block is the size of its body and whether it is allocated.\<close>

type_synonym block = "nat \<times> bool"

definition tagw :: "nat \<Rightarrow> bool \<Rightarrow> u32" where
  "tagw n u = of_nat (n + of_bool u)"

fun total :: "block list \<Rightarrow> nat" where
  "total [] = 0"
| "total ((n, u) # bs) = n + 8 + total bs"

fun heap_at :: "mem \<Rightarrow> u64 \<Rightarrow> block list \<Rightarrow> bool" where
  "heap_at m a [] \<longleftrightarrow> True"
| "heap_at m a ((n, u) # bs) \<longleftrightarrow> even n \<and> n < 65536 \<and> load32 m a = tagw n u
     \<and> load32 m (a + of_nat (n + 4)) = tagw n u \<and> heap_at m (a + of_nat (n + 8)) bs"

lemma total_append [simp]: "total (xs @ ys) = total xs + total ys"
  by (induction xs rule: total.induct) auto

lemma heap_at_append: "heap_at m a (xs @ ys) \<longleftrightarrow> heap_at m a xs \<and> heap_at m (a + of_nat (total xs)) ys"
proof (induction xs arbitrary: a)
  case (Cons x xs)
  obtain n u where x: "x = (n, u)" by (cases x)
  have "a + of_nat (n + 8) + of_nat (total xs) = a + (of_nat (total ((n, u) # xs)) :: u64)"
    by (simp add: algebra_simps)
  then show ?case unfolding x append_Cons heap_at.simps Cons by (simp only: conj_assoc)
qed simp

lemma tag_of_tagw:
  assumes "even n" "n < 65536"
  shows "unat (tagw n u AND SIZE_MASK) = n" "tagw n u AND 1 \<noteq> 0 \<longleftrightarrow> u" "unat (tagw n u) = n + of_bool u"
    "tagw n u AND SIZE_MASK = tagw n False"
proof -
  have "n + of_bool u < 2 ^ 32" using assms by auto
  then show un: "unat (tagw n u) = n + of_bool u" unfolding tagw_def by (rule unat_of_nat32)
  have lt: "n + of_bool u < 2 ^ 16" using assms by (cases u) (auto elim!: evenE)
  have m: "SIZE_MASK = push_bit 1 (mask 15)" by (simp add: SIZE_MASK_def mask_eq_exp_minus_1)
  have "tagw n u AND SIZE_MASK = push_bit 1 (drop_bit 1 (take_bit 16 (tagw n u)))"
    unfolding m
    by (rule bit_word_eqI, simp only: bit_and_iff bit_push_bit_iff bit_mask_iff bit_drop_bit_eq bit_take_bit_iff)
      (auto simp: bit_take_bit_iff)
  moreover have "take_bit 16 (tagw n u) = tagw n u"
    using take_bit_nat_eq_self [OF lt] un by (simp only: word_unat_eq_iff unsigned_take_bit_eq)
  ultimately have *: "tagw n u AND SIZE_MASK = push_bit 1 (drop_bit 1 (tagw n u))" by simp
  have "unat (push_bit 1 (drop_bit 1 (tagw n u))) = take_bit 32 (2 * (unat (tagw n u) div 2))"
    using take_bit_nat_eq_self [OF unat_less32 [of "tagw n u"]]
    by (simp only: unsigned_push_bit_eq unsigned_drop_bit_eq) (simp add: push_bit_eq_mult drop_bit_eq_div mult.commute)
  also have "\<dots> = n" using assms un by (auto simp: take_bit_nat_eq_self elim!: evenE)
  finally show r: "unat (tagw n u AND SIZE_MASK) = n" using * by simp
  have "n + of_bool False < 2 ^ 32" using assms by auto
  then have "unat (tagw n False) = n" unfolding tagw_def by (subst unat_of_nat32) simp_all
  then show "tagw n u AND SIZE_MASK = tagw n False" using r by (simp add: word_unat_eq_iff)
  have "tagw n u AND 1 \<noteq> 0 \<longleftrightarrow> odd (tagw n u)" by (simp add: and_one_eq mod_2_eq_odd)
  also have "\<dots> \<longleftrightarrow> odd (unat (tagw n u))"
    using bit_unsigned_iff [where 'a = nat, of "tagw n u" 0] by (simp add: bit_0)
  finally show "tagw n u AND 1 \<noteq> 0 \<longleftrightarrow> u" using un assms by simp
qed

section \<open>Tags at offsets\<close>

definition ld :: "mem \<Rightarrow> u64 \<Rightarrow> nat \<Rightarrow> u32" where
  "ld m p i = load32 m (p + of_nat i)"

definition st :: "mem \<Rightarrow> u64 \<Rightarrow> nat \<Rightarrow> u32 \<Rightarrow> mem" where
  "st m p i v = store32 m (p + of_nat i) v"

text \<open>The four bytes at an offset do not reach the end of the address space.\<close>

definition fits :: "u64 \<Rightarrow> nat \<Rightarrow> bool" where
  "fits p i \<longleftrightarrow> unat p + i + 4 \<le> 2 ^ 64"

lemma offset_range:
  assumes "unat p + i + n \<le> 2 ^ 64" "0 < n"
  shows "in_range x (p + of_nat i) n \<longleftrightarrow> unat p + i \<le> unat x \<and> unat x < unat p + i + n"
proof -
  have "unat (p + of_nat i) = unat p + i" using assms by (intro unat_add_of_nat) linarith
  then show ?thesis using assms by (subst in_range_nowrap) auto
qed

lemma ld_st:
  assumes "fits p i" "fits p j" "i + 4 \<le> j \<or> j + 4 \<le> i \<or> i = j"
  shows "ld (st m p i v) p j = (if i = j then v else ld m p j)"
proof (cases "i = j")
  case False
  then have "disjoint (p + of_nat j) 4 (p + of_nat i) 4"
    using assms by (auto simp: disjoint_def offset_range fits_def)
  then show ?thesis using False by (simp only: ld_def st_def c32.load_store_disjoint if_False)
qed (simp add: c32.load_store ld_def st_def)

lemma ld_st_same [simp]: "ld (st m p i v) p i = v"
  by (simp add: c32.load_store ld_def st_def)

lemma st_other:
  assumes "fits p i" "unat x < unat p + i \<or> unat p + i + 4 \<le> unat x"
  shows "st m p i v x = m x"
  using assms unfolding st_def by (intro c32.store_other) (auto simp: offset_range fits_def)

lemma heap_at_one: "heap_at m p [(n, u)] \<longleftrightarrow> even n \<and> n < 65536 \<and> ld m p 0 = tagw n u \<and> ld m p (n + 4) = tagw n u"
  by (simp add: ld_def)

lemma heap_at_two:
  "heap_at m p [(n, u), (k, v)] \<longleftrightarrow> heap_at m p [(n, u)] \<and> even k \<and> k < 65536
     \<and> ld m p (n + 8) = tagw k v \<and> ld m p (n + 8 + (k + 4)) = tagw k v"
  by (simp add: ld_def add.assoc)

lemma heap_at_cong:
  assumes "unat a + total bs \<le> 2 ^ 64" "\<And>x. unat a \<le> unat x \<Longrightarrow> unat x < unat a + total bs \<Longrightarrow> m' x = m x"
  shows "heap_at m' a bs = heap_at m a bs"
  using assms
proof (induction bs arbitrary: a)
  case (Cons b bs)
  obtain n u where b: "b = (n, u)" by (cases b)
  have l: "ld m' a i = ld m a i" if "i + 4 \<le> n + 8" for i
    using Cons.prems that b unfolding ld_def by (intro c32.load_cong) (auto simp: offset_range)
  have "heap_at m' (a + of_nat (n + 8)) bs = heap_at m (a + of_nat (n + 8)) bs"
  proof (cases "bs = []")
    case False
    then have "8 \<le> total bs" by (cases bs) auto
    then have "unat (a + of_nat (n + 8)) = unat a + (n + 8)" using Cons.prems(1) b by (intro unat_add_of_nat) simp
    then show ?thesis using Cons.prems b by (intro Cons.IH) auto
  qed simp
  then show ?case using l [of 0] l [of "n + 4"] b unfolding ld_def by (simp del: of_nat_add of_nat_numeral)
qed simp


section \<open>Walking and splitting\<close>

definition heap_inv :: "'a heap_state_scheme \<Rightarrow> block list \<Rightarrow> bool" where
  "heap_inv s bs \<longleftrightarrow> heap_at (memory s) (HEAP_START s) bs \<and> unat (HEAP_SIZE s) = total bs
     \<and> 0 < unat (HEAP_START s) \<and> unat (HEAP_START s) + total bs < 2 ^ 64"

lemma tag_size_heap_at:
  assumes "load32 (memory s) p = tagw n u" "even n" "n < 65536"
  shows "tag_size s p = of_nat n" "tag_used s p \<longleftrightarrow> u"
proof -
  have "unat (tag_size s p) = n"
    unfolding tag_size_def assms(1) using tag_of_tagw(1) [OF assms(2,3), of u]
      unat_less32 [of "tagw n u AND SIZE_MASK"]
    by (simp add: unsigned_ucast_eq take_bit_nat_eq_self)
  then show "tag_size s p = of_nat n" by (rule eq_of_nat)
  show "tag_used s p \<longleftrightarrow> u" unfolding assms(1) by (rule tag_of_tagw(2) [OF assms(2,3)])
qed

text \<open>The test of the search loop on a block.\<close>

fun skipped :: "nat \<Rightarrow> block \<Rightarrow> bool" where
  "skipped sz (n, u) \<longleftrightarrow> u \<or> n \<le> sz"

lemma kalloc_loop_skip:
  assumes "heap_at (memory s) p (xs @ ys)" "unat p + total (xs @ ys) < 2 ^ 64"
    and "HEAP_START s + HEAP_SIZE s = p + of_nat (total (xs @ ys))" "\<forall>b \<in> set xs. skipped (unat sz) b"
  shows "kalloc_loop p sz s = kalloc_loop (p + of_nat (total xs)) sz s"
  using assms
proof (induction xs arbitrary: p)
  case (Cons b xs)
  obtain n u where b: "b = (n, u)" by (cases b)
  let ?q = "p + of_nat (n + 8)"
  have t: "load32 (memory s) p = tagw n u" "even n" "n < 65536" and rest: "heap_at (memory s) ?q (xs @ ys)"
    using Cons.prems(1) b by simp_all
  note ts = tag_size_heap_at [OF t]
  have "unat (p + of_nat (total ((b # xs) @ ys))) = unat p + total ((b # xs) @ ys)"
    using Cons.prems(2) by (rule unat_add_of_nat)
  then have "p < HEAP_START s + HEAP_SIZE s"
    using b unfolding Cons.prems(3) word_less_nat_alt by simp
  moreover have "ucast (load32 (memory s) p) \<le> sz" if "\<not> u"
    using Cons.prems(4) b that tag_of_tagw(3) [OF t(2,3), of u] unat_less32 [of "tagw n u"]
    by (simp add: t(1) word_le_nat_alt unsigned_ucast_eq take_bit_nat_eq_self)
  ultimately have step: "kalloc_loop p sz s = kalloc_loop ?q sz s"
    using ts by (subst kalloc_loop.simps) (auto simp: algebra_simps)
  have q: "unat ?q = unat p + (n + 8)" using Cons.prems(2) b by (intro unat_add_of_nat) simp
  have "kalloc_loop ?q sz s = kalloc_loop (?q + of_nat (total xs)) sz s"
    using Cons.prems b rest q by (intro Cons.IH) (auto simp: algebra_simps)
  moreover have "?q + of_nat (total xs) = p + of_nat (total (b # xs))" by (simp add: b algebra_simps)
  ultimately show ?case using step by (simp only:)
qed simp

lemma even_or_1: "even k \<Longrightarrow> k < 65536 \<Longrightarrow> (ucast ((of_nat k :: u64) OR 1) :: u32) = tagw k True"
proof -
  assume k: "even k" "k < 65536"
  then have "even (unat (of_nat k :: u64))" by (subst unat_of_nat64) simp_all
  then have "\<not> bit (of_nat k :: u64) 0"
    using bit_unsigned_iff [where 'a = nat, of "of_nat k :: u64" 0] by (simp add: bit_0)
  then have "(of_nat k :: u64) OR 1 = of_nat (k + 1)" by (simp add: or_one_eq bit_0)
  moreover have u: "unat (of_nat (k + 1) :: u64) = k + 1" using k(2) by (intro unat_of_nat64) simp
  ultimately have "unat (ucast ((of_nat k :: u64) OR 1) :: u32) = k + of_bool True"
    using unat_ucast_small [of "of_nat (k + 1)"] k(2) by simp
  then show ?thesis unfolding tagw_def by (rule eq_of_nat)
qed

lemma ucast_tagw: "n < 65536 \<Longrightarrow> (ucast (of_nat n :: u64) :: u32) = tagw n False"
  unfolding tagw_def using unat_ucast_small [of "of_nat n"] by (intro eq_of_nat) simp

text \<open>What \<^verbatim>\<open>split_block\<close> makes of a free block when no slack of 2, 4 or 6 bytes is left.\<close>

definition split_list :: "nat \<Rightarrow> nat \<Rightarrow> block list" where
  "split_list n k = (if k = n then [(n, True)] else [(k, True), (n - k - 8, False)])"

lemma total_split_list: "k = n \<or> k + 8 \<le> n \<Longrightarrow> total (split_list n k) = n + 8"
  by (auto simp: split_list_def)

lemma tag_size_ld: "load32 (memory s) p = tagw n u \<Longrightarrow> even n \<Longrightarrow> n < 65536 \<Longrightarrow> tag_size s p = of_nat n"
  by (rule tag_size_heap_at)

lemma put_tag_st: "put_tag (p + of_nat i) v s = s\<lparr>memory := st (memory s) p i v\<rparr>" "put_tag p v s = s\<lparr>memory := st (memory s) p 0 v\<rparr>"
  by (simp_all add: st_def)

definition split_mem :: "mem \<Rightarrow> u64 \<Rightarrow> nat \<Rightarrow> nat \<Rightarrow> mem" where
  "split_mem m p n k =
     (let m2 = st (st m p 0 (tagw k True)) p (k + 4) (tagw k True)
      in if k = n then m2
         else st (st m2 p (k + 8) (tagw (n - k - 8) False)) p (n + 4) (tagw (n - k - 8) False))"

lemma split_mem_store:
  "split_mem m p n k =
     (let m2 = store32 (store32 m p (tagw k True)) (p + of_nat (k + 4)) (tagw k True)
      in if k = n then m2
         else store32 (store32 m2 (p + of_nat (k + 8)) (tagw (n - k - 8) False)) (p + of_nat (n + 4)) (tagw (n - k - 8) False))"
  by (simp add: split_mem_def st_def Let_def)

lemma split_block_mem:
  assumes n: "load32 (memory s) p = tagw n u" "even n" "n < 65536"
    and p: "0 < unat p" "unat p + n + 8 < 2 ^ 64"
    and k: "even k" "k = n \<or> k + 8 \<le> n"
    and last: "unat p + n + 8 \<le> unat (HEAP_START s + HEAP_SIZE s)"
  shows "split_block p (of_nat k) s = (p, s\<lparr>memory := split_mem (memory s) p n k\<rparr>)"
proof -
  note ts = tag_size_ld [OF n]
  have k': "k \<le> n" "k < 65536" using k(2) n(3) by auto
  have p0: "p \<noteq> 0" using p(1) by auto
  let ?m1 = "store32 (memory s) p (tagw k True)"
  let ?s1 = "s\<lparr>memory := ?m1\<rparr>"
  have t1: "tag_size ?s1 p = of_nat k" using k(1) k'(2) by (intro tag_size_ld) (simp_all add: mem_simps)
  have f: "footer_from_header p s = p + of_nat (n + 4)" "footer_from_header p ?s1 = p + of_nat (k + 4)"
    using p0 ts t1 by (simp_all add: footer_from_header_def algebra_simps)
  have lt: "\<not> of_nat n < (of_nat k :: u64)" "of_nat k = (of_nat n :: u64) \<longleftrightarrow> k = n"
    using k' n(3) by (simp_all add: word_less_nat_alt word_unat_eq_iff)
  note sb = split_block_def [of p "of_nat k" s, unfolded Let_def ts f(1) even_or_1 [OF k(1) k'(2)]]
  show ?thesis
  proof (cases "k = n")
    case True
    then show ?thesis using lt unfolding sb f(2) split_mem_store Let_def by (simp add: mem_simps)
  next
    case False
    then have kn: "k + 8 \<le> n" using k(2) by simp
    have u: "unat (p + of_nat (k + 8)) = unat p + (k + 8)" using p(2) kn by (intro unat_add_of_nat) simp
    have nh: "next_header p ?s1 = p + of_nat (k + 8)"
    proof -
      have "p + of_nat (k + 8) \<noteq> HEAP_START s + HEAP_SIZE s" using u last kn by auto
      moreover have "p + HEADER_SIZE + of_nat k + FOOTER_SIZE = p + of_nat (k + 8)" by (simp add: algebra_simps)
      ultimately show ?thesis by (simp only: next_header_def Let_def t1 if_False heap_state.update_convs heap_state.simps) simp
    qed
    have "unat (of_nat k + MDATA_SIZE) = k + 8" using k'(2) unat_of_nat64 [of "k + 8"] by (simp add: add.commute)
    then have nlt: "\<not> of_nat n < of_nat k + MDATA_SIZE"
      using kn n(3) by (simp add: word_less_nat_alt)
    have "(of_nat n - of_nat k - MDATA_SIZE :: u64) = of_nat (n - k - 8)" using kn by (simp add: of_nat_diff)
    then have "ucast (of_nat n - of_nat k - MDATA_SIZE :: u64) = tagw (n - k - 8) False"
      using ucast_tagw [of "n - k - 8"] n(3) by simp
    then show ?thesis
      using lt(2) False unfolding sb f(2) nh split_mem_store Let_def
      by (simp only: lt(1) nlt if_False fst_conv) (simp add: mem_simps)
  qed
qed

lemma split_mem_heap_at:
  assumes n: "even n" "n < 65536" and p: "unat p + n + 8 < 2 ^ 64" and k: "even k" "k = n \<or> k + 8 \<le> n"
  shows "heap_at (split_mem m p n k) p (split_list n k)"
    and "unat x < unat p \<or> unat p + n + 8 \<le> unat x \<Longrightarrow> split_mem m p n k x = m x"
proof -
  have fit: "fits p i" if "i \<le> n + 4" for i using p that by (simp add: fits_def)
  have k': "k \<le> n" "k < 65536" using k(2) n by auto
  show "heap_at (split_mem m p n k) p (split_list n k)"
  proof (cases "k = n")
    case True
    then show ?thesis using n by (simp add: split_list_def split_mem_def heap_at_one ld_st fit del: heap_at.simps)
  next
    case False
    then have kn: "k + 8 \<le> n" using k(2) by simp
    then have "k + 8 + (n - k - 8 + 4) = n + 4" by simp
    moreover have "even (n - k - 8)" using n(1) k(1) by simp
    ultimately show ?thesis
      using False kn n k' k(1)
      by (simp add: split_list_def split_mem_def Let_def heap_at_two heap_at_one ld_st fit del: heap_at.simps)
  qed
  show "split_mem m p n k x = m x" if "unat x < unat p \<or> unat p + n + 8 \<le> unat x"
    using that k' k(2) by (auto simp: split_mem_def Let_def st_other fit)
qed

section \<open>Allocation\<close>

definition round2 :: "nat \<Rightarrow> nat" where
  "round2 n = 2 * ((n + 1) div 2)"

lemma round2: "even (round2 n)" "n \<le> round2 n" "round2 n \<le> n + 1" "even m \<Longrightarrow> n < m \<Longrightarrow> round2 n \<le> m"
  unfolding round2_def by (auto elim!: evenE)

lemma unat_round2:
  assumes "unat sz + 1 < 2 ^ 64"
  shows "push_bit 1 (drop_bit 1 (sz + 1)) = (of_nat (round2 (unat sz)) :: u64)"
proof (rule eq_of_nat)
  have "unat (sz + 1) = unat sz + 1" using assms by (simp add: unat_plus_if')
  then show "unat (push_bit 1 (drop_bit 1 (sz + 1))) = round2 (unat sz)"
    by (simp only: unat_clear_low_bits round2_def power_one_right)
qed

lemma ld_memset:
  assumes "fits p i" "unat p + a + k < 2 ^ 64" "i + 4 \<le> a \<or> a + k \<le> i"
  shows "ld (memset m (p + of_nat a) v (of_nat k)) p i = ld m p i"
proof -
  have k: "unat (of_nat k :: u64) = k" using assms(2) by (intro unat_of_nat64) linarith
  have "disjoint (p + of_nat i) 4 (p + of_nat a) k"
  proof (cases "k = 0")
    case False
    then show ?thesis using assms by (auto simp: disjoint_def offset_range fits_def)
  qed (simp add: disjoint_def)
  then show ?thesis
    unfolding ld_def by (intro c32.load_frame) (auto simp: mem_simps k)
qed

lemma heap_inv_end:
  assumes "heap_inv s bs"
  shows "unat (HEAP_START s + HEAP_SIZE s) = unat (HEAP_START s) + total bs"
    "HEAP_START s + HEAP_SIZE s = HEAP_START s + of_nat (total bs)"
proof -
  have "unat (HEAP_SIZE s) = total bs" "unat (HEAP_START s) + total bs < 2 ^ 64"
    using assms by (simp_all add: heap_inv_def)
  then show "unat (HEAP_START s + HEAP_SIZE s) = unat (HEAP_START s) + total bs"
    by (subst unat_add_no_wrap) simp_all
  show "HEAP_START s + HEAP_SIZE s = HEAP_START s + of_nat (total bs)"
    using \<open>unat (HEAP_SIZE s) = total bs\<close> by (simp flip: \<open>unat (HEAP_SIZE s) = total bs\<close>)
qed

text \<open>The address of the block after the blocks \<open>xs\<close>.\<close>

definition block_addr :: "'a heap_state_scheme \<Rightarrow> block list \<Rightarrow> u64" where
  "block_addr s xs = HEAP_START s + of_nat (total xs)"

lemma unat_block_addr:
  assumes "heap_inv s (xs @ ys)"
  shows "unat (block_addr s xs) = unat (HEAP_START s) + total xs"
  using assms unfolding block_addr_def by (intro unat_add_of_nat) (simp add: heap_inv_def)

lemma heap_inv_block:
  assumes "heap_inv s (xs @ (n, u) # ys)"
  shows "heap_at (memory s) (block_addr s xs) ((n, u) # ys)"
    "0 < unat (block_addr s xs)" "unat (block_addr s xs) + n + 8 + total ys < 2 ^ 64"
    "unat (block_addr s xs) + n + 8 + total ys = unat (HEAP_START s + HEAP_SIZE s)"
  using assms unat_block_addr [OF assms] heap_inv_end(1) [OF assms]
  by (auto simp: heap_inv_def heap_at_append block_addr_def)

text \<open>Replacing one block by blocks of the same extent, when nothing outside it is written.\<close>

lemma heap_inv_replace:
  assumes inv: "heap_inv s (xs @ bs @ ys)" and "total cs = total bs"
    and out: "\<And>x. unat x < unat (block_addr s xs) \<or> unat (block_addr s xs) + total bs \<le> unat x \<Longrightarrow> m x = memory s x"
    and mid: "heap_at m (block_addr s xs) cs"
  shows "heap_inv (s\<lparr>memory := m\<rparr>) (xs @ cs @ ys)"
proof -
  note u = unat_block_addr [OF inv]
  have end64: "unat (HEAP_START s) + total (xs @ bs @ ys) < 2 ^ 64" using inv by (simp add: heap_inv_def)
  have "heap_at m (HEAP_START s) xs = heap_at (memory s) (HEAP_START s) xs"
    using end64 u out by (intro heap_at_cong) auto
  moreover have "heap_at m (block_addr s (xs @ bs)) ys = heap_at (memory s) (block_addr s (xs @ bs)) ys"
    using unat_block_addr [of s "xs @ bs" ys] inv end64 u out by (intro heap_at_cong) auto
  moreover have "block_addr s (xs @ bs) = block_addr s xs + of_nat (total bs)"
    by (simp add: block_addr_def)
  ultimately show ?thesis
    using inv mid assms(2) by (simp add: heap_inv_def heap_at_append block_addr_def add.assoc)
qed

lemma kalloc_loop_found:
  assumes inv: "heap_inv s (xs @ (n, False) # ys)" and skip: "\<forall>b \<in> set xs. skipped (unat sz) b" and n: "unat sz < n"
  shows "kalloc_loop (HEAP_START s) sz s = Some (block_addr s xs)"
proof -
  note b = heap_inv_block [OF inv]
  have "kalloc_loop (HEAP_START s) sz s = kalloc_loop (HEAP_START s + of_nat (total xs)) sz s"
    using inv heap_inv_end(2) [OF inv] skip by (intro kalloc_loop_skip) (auto simp: heap_inv_def)
  moreover have "load32 (memory s) (block_addr s xs) = tagw n False" "even n" "n < 65536" using b(1) by simp_all
  moreover from this have "\<not> tag_used s (block_addr s xs)" "unat (load32 (memory s) (block_addr s xs)) = n"
    using tag_size_heap_at(2) [of s "block_addr s xs" n False] tag_of_tagw(3) [of n False] by auto
  ultimately show ?thesis
    using n unat_less32 [of "load32 (memory s) (block_addr s xs)"]
    by (subst (asm) (2) kalloc_loop.simps)
      (simp add: block_addr_def word_le_nat_alt unsigned_ucast_eq take_bit_nat_eq_self)
qed

lemma heap_at_memset:
  assumes "heap_at m p (split_list n k)" and p: "unat p + n + 8 < 2 ^ 64" and k: "k = n \<or> k + 8 \<le> n"
  shows "heap_at (memset m (p + 4) 0 (of_nat k)) p (split_list n k)"
proof -
  have l: "ld (memset m (p + of_nat 4) 0 (of_nat k)) p i = ld m p i" if "i \<le> n + 4" "i = 0 \<or> 4 + k \<le> i" for i
    using p k that by (intro ld_memset) (auto simp: fits_def)
  show ?thesis
  proof (cases "k = n")
    case True
    then show ?thesis using assms(1) l [of 0] l [of "n + 4"]
      by (simp add: split_list_def heap_at_one del: heap_at.simps)
  next
    case False
    then have "k + 8 + (n - k - 8 + 4) = n + 4" "k + 8 \<le> n" using k by simp_all
    then show ?thesis using assms(1) False l [of 0] l [of "k + 4"] l [of "k + 8"] l [of "n + 4"]
      by (simp add: split_list_def heap_at_two heap_at_one add.commute [of 4 n] del: heap_at.simps)
  qed
qed

lemma kalloc_effect:
  assumes inv: "heap_inv s (xs @ (n, False) # ys)" and skip: "\<forall>b \<in> set xs. skipped (unat sz) b" and n: "unat sz < n"
  defines "k \<equiv> round2 (unat sz)"
  assumes k: "k = n \<or> k + 8 \<le> n"
  shows "\<exists>m. kalloc sz s = Some (block_addr s xs + 4, s\<lparr>memory := m\<rparr>)
    \<and> heap_inv (s\<lparr>memory := m\<rparr>) (xs @ split_list n k @ ys)
    \<and> (\<forall>x. in_range x (block_addr s xs + 4) k \<longrightarrow> m x = 0)
    \<and> (\<forall>x. unat x < unat (block_addr s xs) \<or> unat (block_addr s xs) + n + 8 \<le> unat x \<longrightarrow> m x = memory s x)"
proof -
  let ?p = "block_addr s xs"
  note b = heap_inv_block [OF inv]
  have t: "load32 (memory s) ?p = tagw n False" "even n" "n < 65536" using b(1) by simp_all
  have ek: "even k" "k \<le> n" unfolding k_def by (rule round2(1), rule round2(4) [OF t(2) n])
  have p: "unat ?p + n + 8 < 2 ^ 64" "unat ?p + n + 8 \<le> unat (HEAP_START s + HEAP_SIZE s)" using b(3,4) by linarith+
  let ?m1 = "split_mem (memory s) ?p n k"
  let ?m = "memset ?m1 (?p + 4) 0 (of_nat k)"
  have sp: "split_block ?p (of_nat k) s = (?p, s\<lparr>memory := ?m1\<rparr>)"
    by (rule split_block_mem [OF t b(2) p(1) ek(1) k p(2)])
  have "unat sz + 1 < 2 ^ 64" using n t(3) by simp
  note rd = unat_round2 [OF this, folded k_def]
  have "?p < HEAP_START s + HEAP_SIZE s" using p(2) by (simp add: word_less_nat_alt)
  then have ka: "kalloc sz s = Some (?p + 4, s\<lparr>memory := ?m\<rparr>)"
    using sp unfolding kalloc_def kalloc_loop_found [OF inv skip n] rd by simp
  have uk: "unat (of_nat k :: u64) = k" using ek(2) t(3) by (intro unat_of_nat64) simp
  note sm = split_mem_heap_at [OF t(2,3) p(1) ek(1) k]
  have "heap_at ?m ?p (split_list n k)" using sm(1) by (intro heap_at_memset [OF _ p(1) k]) simp_all
  moreover have out: "?m x = memory s x" if "unat x < unat ?p \<or> unat ?p + n + 8 \<le> unat x" for x
  proof -
    have "\<not> in_range x (?p + of_nat 4) k"
    proof (cases "k = 0")
      case False
      then have "in_range x (?p + of_nat 4) k \<longleftrightarrow> unat ?p + 4 \<le> unat x \<and> unat x < unat ?p + 4 + k"
        using ek(2) p(1) by (intro offset_range) simp_all
      then show ?thesis using that ek(2) by linarith
    qed simp
    then show ?thesis using sm(2) [OF that] by (simp add: mem_simps uk)
  qed
  ultimately have "heap_inv (s\<lparr>memory := ?m\<rparr>) (xs @ split_list n k @ ys)"
    using inv total_split_list [OF k] by (intro heap_inv_replace [where bs = "[(n, False)]"]) (auto simp: add.assoc)
  then show ?thesis using ka out by (auto simp: mem_simps uk)
qed

lemma kalloc_full:
  assumes inv: "heap_inv s bs" and skip: "\<forall>b \<in> set bs. skipped (unat sz) b"
  shows "kalloc sz s = Some (0, s)"
proof -
  have "kalloc_loop (HEAP_START s) sz s = kalloc_loop (HEAP_START s + of_nat (total bs)) sz s"
    using inv heap_inv_end(2) [OF inv] skip kalloc_loop_skip [of s "HEAP_START s" bs "[]" sz] by (simp add: heap_inv_def)
  also have "\<dots> = Some (HEAP_START s + of_nat (total bs))"
    unfolding heap_inv_end(2) [OF inv, symmetric] by (subst kalloc_loop.simps) simp
  finally show ?thesis unfolding kalloc_def heap_inv_end(2) [OF inv, symmetric] by simp
qed

section \<open>Release\<close>

lemma block_addr_snoc: "block_addr s (xs @ [(n, u)]) = block_addr s xs + of_nat (n + 8)"
  by (simp add: block_addr_def algebra_simps)

lemma block_tags:
  assumes "heap_inv s (xs @ (n, u) # ys)"
  shows "load32 (memory s) (block_addr s xs) = tagw n u"
    "load32 (memory s) (block_addr s xs + of_nat (n + 4)) = tagw n u" "even n" "n < 65536"
    "tag_size s (block_addr s xs) = of_nat n" "tag_used s (block_addr s xs) \<longleftrightarrow> u"
    "tag_size s (block_addr s xs + of_nat (n + 4)) = of_nat n"
    "tag_used s (block_addr s xs + of_nat (n + 4)) \<longleftrightarrow> u"
proof -
  show t: "load32 (memory s) (block_addr s xs) = tagw n u" "even n" "n < 65536"
    "load32 (memory s) (block_addr s xs + of_nat (n + 4)) = tagw n u"
    using heap_inv_block(1) [OF assms] by simp_all
  note a = tag_size_heap_at [OF t(1-3)] tag_size_heap_at [OF t(4,2,3)]
  show "tag_size s (block_addr s xs) = of_nat n" "tag_used s (block_addr s xs) \<longleftrightarrow> u"
    "tag_size s (block_addr s xs + of_nat (n + 4)) = of_nat n"
    "tag_used s (block_addr s xs + of_nat (n + 4)) \<longleftrightarrow> u"
    by (rule a)+
qed

lemma total_eq_0: "total bs = 0 \<longleftrightarrow> bs = []"
  by (cases bs) auto

lemma next_header_block:
  assumes inv: "heap_inv s (xs @ (n, u) # ys)"
  shows "next_header (block_addr s xs) s = (if ys = [] then 0 else block_addr s (xs @ [(n, u)]))"
proof -
  have e: "block_addr s xs + HEADER_SIZE + of_nat n + FOOTER_SIZE = block_addr s (xs @ [(n, u)])"
    by (simp add: block_addr_snoc algebra_simps)
  have "unat (block_addr s (xs @ [(n, u)])) = unat (HEAP_START s) + total (xs @ [(n, u)])"
    by (rule unat_block_addr [where ys = ys]) (use inv in simp)
  then have "block_addr s (xs @ [(n, u)]) = HEAP_START s + HEAP_SIZE s \<longleftrightarrow> ys = []"
    using heap_inv_end(1) [OF inv] total_eq_0 [of ys] by (auto simp: word_unat_eq_iff)
  then show ?thesis by (simp add: next_header_def block_tags(5) [OF inv] e Let_def)
qed

lemma prev_footer_block:
  assumes inv: "heap_inv s (xs @ (n, u) # ys)"
  shows "prev_footer (block_addr s xs + of_nat (n + 4)) s = (if xs = [] then 0 else block_addr s xs - 4)"
proof -
  have e: "block_addr s xs + of_nat (n + 4) - of_nat n - HEADER_SIZE = block_addr s xs" by simp
  have "block_addr s xs = HEAP_START s \<longleftrightarrow> xs = []"
    using unat_block_addr [OF inv] total_eq_0 [of xs] by (auto simp: word_unat_eq_iff)
  then show ?thesis unfolding prev_footer_def block_tags(7) [OF inv] Let_def e by simp
qed

lemma merge_tag:
  assumes "even n" "even k" "n + k + 8 < 65536"
  shows "(ucast (of_nat n + of_nat k + MDATA_SIZE OR ucast (tagw n u AND 1) :: u64) :: u32) = tagw (n + k + 8) u"
proof (cases u)
  case True
  have "tagw n u AND 1 = 1" using tag_of_tagw(2) [of n u] assms True by (simp add: and_one_eq split: if_splits)
  moreover have "of_nat n + of_nat k + MDATA_SIZE = (of_nat (n + k + 8) :: u64)" by simp
  ultimately show ?thesis using True even_or_1 [of "n + k + 8"] assms by simp
next
  case False
  have "tagw n u AND 1 = 0" using tag_of_tagw(2) [of n u] assms False by auto
  moreover have "of_nat n + of_nat k + MDATA_SIZE = (of_nat (n + k + 8) :: u64)" by simp
  ultimately show ?thesis using False ucast_tagw [of "n + k + 8"] assms by simp
qed

lemma merge_block_effect:
  assumes inv: "heap_inv s (xs @ (n, u) # (k, v) # ys)" and lt: "n + k + 8 < 65536"
  defines "p \<equiv> block_addr s xs"
  shows "\<exists>m. merge_block p (block_addr s (xs @ [(n, u)])) s = (p, s\<lparr>memory := m\<rparr>)
    \<and> heap_inv (s\<lparr>memory := m\<rparr>) (xs @ (n + k + 8, u) # ys)
    \<and> (\<forall>x. unat x < unat p \<or> unat p + (n + k + 16) \<le> unat x \<longrightarrow> m x = memory s x)"
proof -
  let ?q = "block_addr s (xs @ [(n, u)])"
  have inv2: "heap_inv s ((xs @ [(n, u)]) @ (k, v) # ys)" using inv by simp
  note b = heap_inv_block [OF inv] and t = block_tags [OF inv] and t2 = block_tags [OF inv2]
  have q0: "?q \<noteq> 0" using heap_inv_block(2) [OF inv2] by auto
  have f: "footer_from_header ?q s = p + of_nat (n + 8 + (k + 4))"
    using q0 t2(5) by (simp add: footer_from_header_def block_addr_snoc p_def algebra_simps)
  have nh: "next_header p s = ?q" unfolding p_def using next_header_block [OF inv] by simp
  let ?T = "tagw (n + k + 8) u"
  let ?m = "st (st (memory s) p 0 ?T) p (n + k + 8 + 4) ?T"
  have "merge_size p ?q s = of_nat n + of_nat k + MDATA_SIZE"
    unfolding merge_size_def p_def t(5) t2(5) ..
  then have tag: "ucast (merge_size p ?q s OR ucast (load32 (memory s) p AND 1)) = ?T"
    using merge_tag [OF t(3) t2(3) lt, of u] t(1) by (simp add: p_def)
  have off: "n + 8 + (k + 4) = n + k + 8 + 4" by simp
  have mb: "merge_block p ?q s = (p, s\<lparr>memory := ?m\<rparr>)"
    unfolding merge_block_def Let_def nh f tag off by (simp add: st_def mem_simps)
  have fit: "fits p i" if "i \<le> n + k + 12" for i using b(3) that by (simp add: fits_def p_def)
  have "heap_at ?m p [(n + k + 8, u)]"
    using lt t(3) t2(3) by (simp add: heap_at_one ld_st fit del: heap_at.simps)
  moreover have out: "?m x = memory s x" if "unat x < unat p \<or> unat p + (n + k + 16) \<le> unat x" for x
    using that by (auto simp: st_other fit)
  ultimately have "heap_inv (s\<lparr>memory := ?m\<rparr>) (xs @ [(n + k + 8, u)] @ ys)"
    using inv unfolding p_def by (intro heap_inv_replace [where bs = "[(n, u), (k, v)]"]) (auto simp: algebra_simps)
  then show ?thesis using mb out by auto
qed


text \<open>Releasing a block of size \<open>n\<close> between \<open>xs\<close> and \<open>ys\<close>: first with the next block, then with the previous.\<close>

fun join_next :: "nat \<Rightarrow> block list \<Rightarrow> block list" where
  "join_next n ((k, False) # ys) = (n + k + 8, False) # ys"
| "join_next n ys = (n, False) # ys"

fun join_prev :: "block list \<Rightarrow> block list \<Rightarrow> block list" where
  "join_prev xs [] = xs"
| "join_prev xs ((n, u) # ys) =
     (if xs \<noteq> [] \<and> \<not> snd (last xs) then butlast xs @ (fst (last xs) + n + 8, False) # ys
      else xs @ (n, u) # ys)"

definition before_free :: "block list \<Rightarrow> block list" where
  "before_free xs = (if xs \<noteq> [] \<and> \<not> snd (last xs) then butlast xs else xs)"

lemma join_next_cases: "\<exists>n' ys'. join_next n ys = (n', False) # ys' \<and> total (join_next n ys) = n + 8 + total ys \<and> n \<le> n'"
  by (cases "(n, ys)" rule: join_next.cases) auto

lemma clear_block:
  assumes inv: "heap_inv s (xs @ (n, True) # ys)"
  defines "p \<equiv> block_addr s xs"
  defines "m \<equiv> st (st (memory s) p 0 (tagw n False)) p (n + 4) (tagw n False)"
  shows "heap_inv (s\<lparr>memory := m\<rparr>) (xs @ (n, False) # ys)"
    and "unat x < unat p \<or> unat p + (n + 8) \<le> unat x \<Longrightarrow> m x = memory s x"
proof -
  note b = heap_inv_block [OF inv] and t = block_tags [OF inv]
  have fit: "fits p i" if "i \<le> n + 4" for i using b(3) that by (simp add: fits_def p_def)
  have "heap_at m p [(n, False)]"
    using t(3,4) by (simp add: m_def heap_at_one ld_st fit del: heap_at.simps)
  moreover show out: "m x = memory s x" if "unat x < unat p \<or> unat p + (n + 8) \<le> unat x" for x
    using that by (auto simp: m_def st_other fit)
  ultimately have "heap_inv (s\<lparr>memory := m\<rparr>) (xs @ [(n, False)] @ ys)"
    using inv unfolding p_def by (intro heap_inv_replace [where bs = "[(n, True)]"]) auto
  then show "heap_inv (s\<lparr>memory := m\<rparr>) (xs @ (n, False) # ys)" by simp
qed

lemma free_next:
  assumes inv: "heap_inv s (xs @ (n, False) # ys)" and lt: "total (xs @ (n, False) # ys) < 65544"
  defines "p \<equiv> block_addr s xs"
  defines "q \<equiv> next_header p s"
  defines "s' \<equiv> (if q \<noteq> 0 \<and> \<not> tag_used s q then snd (merge_block p q s) else s)"
  shows "\<exists>m. s' = s\<lparr>memory := m\<rparr> \<and> heap_inv s' (xs @ join_next n ys)
    \<and> (\<forall>x. unat x < unat p \<or> unat p + (fst (hd (join_next n ys)) + 8) \<le> unat x \<longrightarrow> m x = memory s x)"
proof (cases "\<exists>k ys'. ys = (k, False) # ys'")
  case True
  then obtain k ys' where ys: "ys = (k, False) # ys'" by blast
  have inv2: "heap_inv s ((xs @ [(n, False)]) @ (k, False) # ys')" using inv ys by simp
  have q: "q = block_addr s (xs @ [(n, False)])" unfolding q_def p_def using next_header_block [OF inv] ys by simp
  have "q \<noteq> 0" "\<not> tag_used s q"
    using heap_inv_block(2) [OF inv2] block_tags(6) [OF inv2] unfolding q by auto
  then have "s' = snd (merge_block p q s)" by (simp add: s'_def)
  moreover have "n + k + 8 < 65536" using lt ys by simp
  from merge_block_effect [OF inv [unfolded ys] this] obtain m where
    "merge_block p q s = (p, s\<lparr>memory := m\<rparr>)" "heap_inv (s\<lparr>memory := m\<rparr>) (xs @ (n + k + 8, False) # ys')"
    "\<forall>x. unat x < unat p \<or> unat p + (n + k + 16) \<le> unat x \<longrightarrow> m x = memory s x"
    unfolding p_def q by blast
  ultimately show ?thesis using ys by (intro exI [of _ m]) (simp add: algebra_simps)
next
  case False
  have "\<not> (q \<noteq> 0 \<and> \<not> tag_used s q)"
  proof (cases ys)
    case Nil
    then show ?thesis using next_header_block [OF inv] by (simp add: q_def p_def)
  next
    case (Cons a ys')
    then obtain k where ys: "ys = (k, True) # ys'" using False by (cases a) auto
    have inv2: "heap_inv s ((xs @ [(n, False)]) @ (k, True) # ys')" using inv ys by simp
    have "q = block_addr s (xs @ [(n, False)])" unfolding q_def p_def using next_header_block [OF inv] ys by simp
    then show ?thesis using block_tags(6) [OF inv2] by simp
  qed
  then have "s' = s" by (auto simp: s'_def)
  moreover have "join_next n ys = (n, False) # ys" using False by (cases "(n, ys)" rule: join_next.cases) auto
  ultimately show ?thesis using inv by (intro exI [of _ "memory s"]) simp
qed

lemma free_prev:
  assumes inv: "heap_inv s (xs @ (n, False) # ys)" and lt: "total (xs @ (n, False) # ys) < 65544"
  defines "p \<equiv> block_addr s xs"
  assumes f: "f = (if xs = [] then 0 else p - 4)"
  defines "s' \<equiv> (if f \<noteq> 0 \<and> \<not> tag_used s f then snd (merge_block (header_from_footer f s) p s) else s)"
  shows "\<exists>m. s' = s\<lparr>memory := m\<rparr> \<and> heap_inv s' (join_prev xs ((n, False) # ys))
    \<and> (\<forall>x. unat x < unat (block_addr s (before_free xs)) \<or> unat p + (n + 8) \<le> unat x \<longrightarrow> m x = memory s x)"
proof (cases "xs = []")
  case True
  then show ?thesis using inv f by (intro exI [of _ "memory s"]) (simp add: s'_def)
next
  case False
  obtain k u where l: "last xs = (k, u)" by (cases "last xs")
  have xs: "xs = butlast xs @ [(k, u)]" using append_butlast_last_id [OF False] l by simp
  have inv0: "heap_inv s (butlast xs @ (k, u) # (n, False) # ys)" using inv xs by (metis append.assoc append_Cons append_Nil)
  let ?h = "block_addr s (butlast xs)"
  have p: "p = ?h + of_nat (k + 8)" using block_addr_snoc [of s "butlast xs" k u] xs by (simp add: p_def)
  have fe: "f = ?h + of_nat (k + 4)" using f False p by simp
  note t = block_tags [OF inv0]
  have f0: "f \<noteq> 0"
  proof -
    have "unat p = unat (HEAP_START s) + total xs" "8 \<le> total xs"
      using unat_block_addr [OF inv] False by (auto simp: p_def neq_Nil_conv)
    then have "p \<noteq> 4" using inv by (auto simp: heap_inv_def)
    then show ?thesis using f False by simp
  qed
  have hf: "header_from_footer f s = ?h" using f0 t(7) by (simp add: header_from_footer_def fe)
  have tu: "tag_used s f \<longleftrightarrow> u" unfolding fe by (rule t(8))
  show ?thesis
  proof (cases u)
    case True
    then have "s' = s" using tu by (simp add: s'_def)
    then show ?thesis using inv l True by (intro exI [of _ "memory s"]) simp
  next
    case nu: False
    have s': "s' = snd (merge_block ?h p s)" using f0 tu nu hf by (simp add: s'_def)
    have "total xs = total (butlast xs) + (k + 8)" using arg_cong [OF xs, of total] by simp
    then have lt2: "k + n + 8 < 65536" using lt by simp
    have pq: "p = block_addr s (butlast xs @ [(k, u)])" using xs by (simp add: p_def)
    from merge_block_effect [OF inv0 lt2] obtain m where
      m: "merge_block ?h p s = (?h, s\<lparr>memory := m\<rparr>)" "heap_inv (s\<lparr>memory := m\<rparr>) (butlast xs @ (k + n + 8, u) # ys)"
      "\<forall>x. unat x < unat ?h \<or> unat ?h + (k + n + 16) \<le> unat x \<longrightarrow> m x = memory s x"
      unfolding pq by blast
    have "unat p = unat ?h + (k + 8)"
      using unat_block_addr [OF inv] unat_block_addr [OF inv0] \<open>total xs = total (butlast xs) + (k + 8)\<close> by (simp add: p_def)
    then show ?thesis using m s' l nu False by (intro exI [of _ m]) (simp add: algebra_simps before_free_def)
  qed
qed


definition cleared :: "'a heap_state_scheme \<Rightarrow> u64 \<Rightarrow> nat \<Rightarrow> 'a heap_state_scheme" where
  "cleared s p n = s\<lparr>memory := st (st (memory s) p 0 (tagw n False)) p (n + 4) (tagw n False)\<rparr>"

lemma kfree_steps:
  assumes inv: "heap_inv s (xs @ (n, True) # ys)"
  defines "p \<equiv> block_addr s xs"
  shows "kfree (p + 4) s =
    (let s2 = cleared s p n;
         s3 = (if next_header p s2 \<noteq> 0 \<and> \<not> tag_used s2 (next_header p s2)
               then snd (merge_block p (next_header p s2) s2) else s2);
         f = prev_footer (p + of_nat (n + 4)) s2
     in if f \<noteq> 0 \<and> \<not> tag_used s3 f then snd (merge_block (header_from_footer f s3) p s3) else s3)"
proof -
  note t = block_tags [OF inv]
  have fit: "fits p i" if "i \<le> n + 4" for i using heap_inv_block(3) [OF inv] that by (simp add: fits_def p_def)
  let ?m1 = "store32 (memory s) p (tagw n False)"
  have m1: "?m1 = st (memory s) p 0 (tagw n False)" by (simp add: st_def)
  have tags: "load32 (memory s) p AND SIZE_MASK = tagw n False"
    "load32 ?m1 (p + of_nat (n + 4)) AND SIZE_MASK = tagw n False"
    using t(1,2) tag_of_tagw(4) [OF t(3,4)] ld_st [OF fit fit, of 0 "n + 4" "memory s" "tagw n False"]
    unfolding m1 by (simp_all add: p_def ld_def)
  have l: "load32 ?m1 p = tagw n False" by (simp add: mem_simps)
  then have "unat (ucast (load32 ?m1 p) :: u64) = n"
    using tag_of_tagw(3) [OF t(3,4), of False] unat_less32 [of "tagw n False"]
    by (simp add: unsigned_ucast_eq take_bit_nat_eq_self)
  then have foot: "p + 4 + ucast (load32 ?m1 p) = p + of_nat (n + 4)" by (auto dest: eq_of_nat simp: add.commute)
  have hd: "p + 4 - HEADER_SIZE = p" by simp
  have s2: "(put_tag p (tagw n False) s)\<lparr>memory := store32 ?m1 (p + of_nat (n + 4)) (tagw n False)\<rparr> = cleared s p n"
    by (simp add: cleared_def st_def)
  have m: "memory (put_tag p (tagw n False) s) = ?m1" by simp
  show ?thesis unfolding kfree_def Let_def hd tags(1) m foot tags(2) s2 ..
qed

lemma kfree_effect:
  assumes inv: "heap_inv s (xs @ (n, True) # ys)" and lt: "total (xs @ (n, True) # ys) < 65544"
  defines "p \<equiv> block_addr s xs"
  shows "\<exists>m. kfree (p + 4) s = s\<lparr>memory := m\<rparr> \<and> heap_inv (s\<lparr>memory := m\<rparr>) (join_prev xs (join_next n ys))
    \<and> (\<forall>x. unat x < unat (block_addr s (before_free xs)) \<or> unat p + (fst (hd (join_next n ys)) + 8) \<le> unat x
        \<longrightarrow> m x = memory s x)"
proof -
  let ?s2 = "cleared s p n"
  have ba: "block_addr (s\<lparr>memory := m\<rparr>) zs = block_addr s zs" for m zs by (simp add: block_addr_def)
  have clear: "heap_inv ?s2 (xs @ (n, False) # ys)"
    "\<And>x. unat x < unat p \<or> unat p + (n + 8) \<le> unat x \<Longrightarrow> memory ?s2 x = memory s x"
    using clear_block [OF inv] by (auto simp: cleared_def p_def)
  have p2: "block_addr ?s2 xs = p" by (simp add: cleared_def ba p_def)
  define s3 where "s3 = (if next_header p ?s2 \<noteq> 0 \<and> \<not> tag_used ?s2 (next_header p ?s2)
    then snd (merge_block p (next_header p ?s2) ?s2) else ?s2)"
  have "total (xs @ (n, False) # ys) < 65544" using lt by simp
  from free_next [OF clear(1) this] obtain m3 where m3: "s3 = ?s2\<lparr>memory := m3\<rparr>" "heap_inv s3 (xs @ join_next n ys)"
    "\<forall>x. unat x < unat p \<or> unat p + (fst (hd (join_next n ys)) + 8) \<le> unat x \<longrightarrow> m3 x = memory ?s2 x"
    unfolding p2 s3_def by blast
  have ba3: "block_addr s3 zs = block_addr s zs" for zs by (simp add: m3(1) cleared_def ba)
  obtain n' ys' where j: "join_next n ys = (n', False) # ys'" "total (join_next n ys) = n + 8 + total ys" "n \<le> n'"
    using join_next_cases [of n ys] by blast
  have "total (xs @ (n', False) # ys') < 65544" using j(1,2) lt by simp
  moreover have f: "prev_footer (p + of_nat (n + 4)) ?s2 = (if xs = [] then 0 else block_addr s3 xs - 4)"
    using prev_footer_block [OF clear(1)] unfolding p2 ba3 p_def [symmetric] .
  ultimately obtain m4 where
    m4: "kfree (p + 4) s = s3\<lparr>memory := m4\<rparr>" "heap_inv (kfree (p + 4) s) (join_prev xs ((n', False) # ys'))"
    "\<forall>x. unat x < unat (block_addr s (before_free xs)) \<or> unat p + (n' + 8) \<le> unat x \<longrightarrow> m4 x = memory s3 x"
    using free_prev [OF m3(2) [unfolded j(1)] _ f]
    unfolding kfree_steps [OF inv, folded p_def, unfolded Let_def, folded s3_def] ba3 p_def [symmetric] by blast
  have le: "unat (block_addr s (before_free xs)) \<le> unat p"
  proof (cases "before_free xs = xs")
    case False
    then have "xs \<noteq> []" "before_free xs = butlast xs" by (auto simp: before_free_def split: if_splits)
    then have "xs = before_free xs @ [last xs]" by simp
    then obtain l where xs: "xs = before_free xs @ l" by blast
    then have "unat (block_addr s (before_free xs)) = unat (HEAP_START s) + total (before_free xs)"
      using inv by (intro unat_block_addr [where ys = "l @ (n, True) # ys"]) (metis append.assoc)
    moreover have "total xs = total (before_free xs) + total l" using arg_cong [OF xs, of total] by simp
    ultimately show ?thesis using unat_block_addr [OF inv] by (simp add: p_def)
  qed (simp add: p_def)
  have "m4 x = memory s x" if "unat x < unat (block_addr s (before_free xs)) \<or> unat p + (n' + 8) \<le> unat x" for x
    using that le m4(3) m3 clear(2) [of x] j by auto
  moreover have "kfree (p + 4) s = s\<lparr>memory := m4\<rparr>" using m4(1) by (simp add: m3(1) cleared_def)
  ultimately show ?thesis using m4(2) j(1) by (intro exI [of _ m4]) simp
qed

section \<open>First fit\<close>

fun first_fit :: "nat \<Rightarrow> block list \<Rightarrow> (block list \<times> nat \<times> block list) option" where
  "first_fit sz [] = None"
| "first_fit sz ((n, u) # bs) =
     (if \<not> u \<and> sz < n then Some ([], n, bs)
      else map_option (\<lambda>(xs, m, ys). ((n, u) # xs, m, ys)) (first_fit sz bs))"

lemma first_fit_Some:
  "first_fit sz bs = Some (xs, n, ys) \<Longrightarrow> bs = xs @ (n, False) # ys \<and> sz < n \<and> (\<forall>b \<in> set xs. skipped sz b)"
  by (induction sz bs arbitrary: xs rule: first_fit.induct) (fastforce split: if_splits)+

lemma first_fit_None: "first_fit sz bs = None \<Longrightarrow> \<forall>b \<in> set bs. skipped sz b"
  by (induction sz bs rule: first_fit.induct) (auto split: if_splits)

text \<open>The remainder of the block is either empty or large enough for two tags.\<close>

definition no_slack :: "nat \<Rightarrow> nat \<Rightarrow> bool" where
  "no_slack sz n \<longleftrightarrow> round2 sz = n \<or> round2 sz + 8 \<le> n"

fun no_adjacent_free :: "block list \<Rightarrow> bool" where
  "no_adjacent_free ((n, u) # (k, v) # bs) \<longleftrightarrow> (u \<or> v) \<and> no_adjacent_free ((k, v) # bs)"
| "no_adjacent_free bs \<longleftrightarrow> True"

lemma no_adjacent_free_split:
  "no_adjacent_free (xs @ (n, False) # ys) \<Longrightarrow> xs = [] \<or> snd (last xs)"
proof (induction xs)
  case (Cons a xs)
  obtain k u where a: "a = (k, u)" by (cases a)
  show ?case
  proof (cases xs)
    case Nil
    then show ?thesis using Cons.prems a by simp
  next
    case (Cons b zs)
    obtain j v where b: "b = (j, v)" by (cases b)
    have "no_adjacent_free (xs @ (n, False) # ys)" using Cons.prems a Cons b by simp
    then show ?thesis using Cons.IH Cons by simp
  qed
qed simp

lemma no_adjacent_free_next:
  "no_adjacent_free (xs @ (n, False) # ys) \<Longrightarrow> ys = [] \<or> snd (hd ys)"
proof (induction xs)
  case Nil
  then show ?case by (cases ys) auto
next
  case (Cons a xs)
  obtain k u where a: "a = (k, u)" by (cases a)
  have "no_adjacent_free (xs @ (n, False) # ys)"
    using Cons.prems a by (cases xs) (auto simp: no_adjacent_free.simps)
  then show ?case by (rule Cons.IH)
qed

lemma release_split:
  assumes "no_adjacent_free (xs @ (n, False) # ys)" "k = n \<or> k + 8 \<le> n"
  shows "join_prev xs (join_next k (tl (split_list n k) @ ys)) = xs @ (n, False) # ys"
proof -
  have "join_next k (tl (split_list n k) @ ys) = (n, False) # ys"
  proof (cases "k = n")
    case True
    then show ?thesis
      using no_adjacent_free_next [OF assms(1)] by (cases ys) (auto simp: split_list_def)
  qed (use assms(2) in \<open>simp add: split_list_def\<close>)
  then show ?thesis using no_adjacent_free_split [OF assms(1)] by auto
qed

lemma kalloc_first_fit:
  assumes "heap_inv s bs" and ff: "first_fit (unat sz) bs = Some (xs, n, ys)" and "no_slack (unat sz) n"
  shows "\<exists>m. kalloc sz s = Some (block_addr s xs + 4, s\<lparr>memory := m\<rparr>)
    \<and> heap_inv (s\<lparr>memory := m\<rparr>) (xs @ split_list n (round2 (unat sz)) @ ys)
    \<and> (\<forall>x. in_range x (block_addr s xs + 4) (round2 (unat sz)) \<longrightarrow> m x = 0)
    \<and> (\<forall>x. unat x < unat (block_addr s xs) \<or> unat (block_addr s xs) + n + 8 \<le> unat x \<longrightarrow> m x = memory s x)"
  using first_fit_Some [OF ff] assms(1,3) kalloc_effect [of s xs n ys sz] by (simp add: no_slack_def)

lemma split_block_slack:
  assumes n: "load32 (memory s) p = tagw n u" "even n" "n < 65536" and p: "0 < unat p"
    and k: "even k" "k < 65536" "k < n" "n < k + 8"
  shows "split_block p (of_nat k) s = (p, s\<lparr>memory :=
    st (st (st (st (memory s) p 0 (tagw k True)) p (k + 4) (tagw k True)) p 0 (tagw n True)) p (k + 4) (tagw n True)\<rparr>)"
proof -
  note ts = tag_size_ld [OF n]
  have p0: "p \<noteq> 0" using p by auto
  let ?s1 = "s\<lparr>memory := store32 (memory s) p (tagw k True)\<rparr>"
  have t1: "tag_size ?s1 p = of_nat k" using k(1,2) by (intro tag_size_ld) (simp_all add: mem_simps)
  have f: "footer_from_header p s = p + of_nat (n + 4)" "footer_from_header p ?s1 = p + of_nat (k + 4)"
    using p0 ts t1 by (simp_all add: footer_from_header_def algebra_simps)
  have lt: "\<not> of_nat n < (of_nat k :: u64)" "of_nat k \<noteq> (of_nat n :: u64)"
    using k n(3) by (simp_all add: word_less_nat_alt word_unat_eq_iff)
  have "unat (of_nat k + MDATA_SIZE) = k + 8" using k(2) unat_of_nat64 [of "k + 8"] by (simp add: add.commute)
  then have sl: "of_nat n < of_nat k + MDATA_SIZE" using k n(3) by (simp add: word_less_nat_alt)
  show ?thesis
    unfolding split_block_def Let_def ts f even_or_1 [OF k(1,2)] even_or_1 [OF n(2,3)]
    using lt sl by (simp add: mem_simps st_def)
qed

section \<open>Properties\<close>

text \<open>A heap of 64 bytes with one allocated block of 8 bytes followed by a free one of 40.\<close>

definition demo_heap :: heap_state where
  "demo_heap = \<lparr>memory = store32 (store32 (store32 (store32 (\<lambda>x. 0) 0x1000 9) 0x100C 9) 0x1010 40) 0x103C 40,
     PHYS_MEMORY_MAP = \<lparr>num_entries = 6, last_used = 2, bitmap_size = 1, bitmap = 0x100000,
       mem_size = 0, max_blocks = 0, uppermost_addr = 0x6FFF, used_blocks = 0\<rparr>,
     KERNEL_PAGE_TABLE_ROOT = 0,
     BASE_ADDR = \<lparr>physical_base_address = 0, virtual_base_address = 0\<rparr>,
     PMRs = [], MMAP = [], cr3 = 0, invlpg = [], klog = [], HEAP_START = 0x1000, HEAP_SIZE = 64\<rparr>"

lemma demo_heap_inv: "heap_inv demo_heap [(8, True), (40, False)]"
proof -
  have d: "disjoint a 4 b 4" if "unat a + 4 \<le> unat b \<or> unat b + 4 \<le> unat a" "unat a < 0x2000" "unat b < 0x2000" for a b :: u64
    using that by (intro disjoint_nowrap) simp_all
  show ?thesis
    by (simp add: heap_inv_def demo_heap_def tagw_def c32.load_store c32.load_store_disjoint d)
qed







text \<open>C31. On the heap the kernel really creates, of 0x20000 bytes, the tag of the initial block does not
  fit the 16-bit size mask: a request above 0xFFF8 bytes is answered with the start of the heap without marking
  anything as allocated, so a second request gets the same address.\<close>

theorem kalloc_large_twice:
  assumes "load32 (memory s) (HEAP_START s) = 0x1FFF8" and "HEAP_SIZE s = 0x20000"
    and "unat (HEAP_START s) + 0x20000 < 2 ^ 64" and "0xFFF8 < unat sz" and "unat sz < 0x1FFF8"
  shows "\<exists>s'. kalloc sz s = Some (HEAP_START s + 4, s') \<and> (\<exists>s''. kalloc sz s' = Some (HEAP_START s + 4, s''))"
proof -
  let ?k = "push_bit 1 (drop_bit 1 (sz + 1))"
  have k: "?k = of_nat (round2 (unat sz))" using assms(5) by (intro unat_round2) simp
  have uk: "unat ?k = round2 (unat sz)"
    unfolding k using round2(3) [of "unat sz"] assms(5) by (intro unat_of_nat64) simp
  have once: "kalloc sz s1 = Some (HEAP_START s + 4, s1\<lparr>memory := memset (memory s1) (HEAP_START s + 4) 0 ?k\<rparr>)"
    if h: "load32 (memory s1) (HEAP_START s) = 0x1FFF8" "HEAP_SIZE s1 = 0x20000" "HEAP_START s1 = HEAP_START s"
    for s1 :: "'a heap_state_scheme"
  proof -
    have "unat (HEAP_START s + 0x20000) = unat (HEAP_START s) + 0x20000"
      using assms(3) by (subst unat_add_no_wrap) simp_all
    then have lt: "HEAP_START s < HEAP_START s + 0x20000" by (simp add: word_less_nat_alt)
    have "\<not> ucast (load32 (memory s1) (HEAP_START s)) \<le> sz" using assms(5) by (simp add: h word_le_nat_alt)
    then have loop: "kalloc_loop (HEAP_START s1) sz s1 = Some (HEAP_START s)"
      using h lt by (subst kalloc_loop.simps) simp
    have "tag_size s1 (HEAP_START s) = 0xFFF8" by (simp add: tag_size_def h SIZE_MASK_def)
    moreover have "(0xFFF8 :: u64) < ?k" using uk round2(2) [of "unat sz"] assms(4) by (simp add: word_less_nat_alt)
    ultimately have "split_block (HEAP_START s) ?k s1 = (0, s1)" by (simp add: split_block_def Let_def)
    then show ?thesis using loop lt h unfolding kalloc_def by simp
  qed
  have "ld (memset (memory s) (HEAP_START s + of_nat 4) 0 (of_nat (round2 (unat sz)))) (HEAP_START s) 0 = ld (memory s) (HEAP_START s) 0"
    using assms(3,5) round2(3) [of "unat sz"] by (intro ld_memset) (simp_all add: fits_def)
  then have "load32 (memset (memory s) (HEAP_START s + 4) 0 ?k) (HEAP_START s) = 0x1FFF8"
    unfolding k using assms(1) by (simp add: ld_def)
  then show ?thesis using once [of s] once assms(1,2) by simp
qed

theorem kalloc_large_twice_witness:
  "\<exists>s s'. kalloc 0x10000 (s :: heap_state) = Some (0x1004, s') \<and> (\<exists>s''. kalloc 0x10000 s' = Some (0x1004, s''))"
  using kalloc_large_twice [of "demo_heap\<lparr>memory := store32 (\<lambda>x. 0) 0x1000 0x1FFF8, HEAP_SIZE := 0x20000\<rparr>" "0x10000"]
  by (auto simp: demo_heap_def mem_simps)

text \<open>When the chosen block is larger than the rounded request by only 4 or 6 bytes, \<^verbatim>\<open>kalloc\<close>
  leaves inconsistent tags: the header says allocated with the size of the whole block, while the footer at
  the block's end still says free, so freeing the next block merges it with this live one.\<close>

theorem kalloc_slack_stale_footer:
  assumes "heap_inv s (xs @ (n, False) # ys)" and "\<forall>b \<in> set xs. skipped (unat sz) b"
    and "round2 (unat sz) + 4 \<le> n" and "n < round2 (unat sz) + 8"
  shows "\<exists>s'. kalloc sz s = Some (block_addr s xs + 4, s')
    \<and> load32 (memory s') (block_addr s xs) = tagw n True
    \<and> load32 (memory s') (block_addr s xs + of_nat (n + 4)) = tagw n False"
proof -
  let ?p = "block_addr s xs" and ?k = "round2 (unat sz)"
  have inv: "heap_inv s (xs @ (n, False) # ys)" using assms(1) .
  note b = heap_inv_block [OF inv] and t = block_tags [OF inv]
  have sz: "unat sz < n" using round2(2) [of "unat sz"] assms(3) by linarith
  have k: "even ?k" "?k < 65536" using round2(1) t(4) assms(3) by auto
  have fit: "fits ?p i" if "i \<le> n + 4" for i using b(3) that by (simp add: fits_def)
  let ?m = "st (st (st (st (memory s) ?p 0 (tagw ?k True)) ?p (?k + 4) (tagw ?k True)) ?p 0 (tagw n True)) ?p (?k + 4) (tagw n True)"
  have split: "split_block ?p (of_nat ?k) s = (?p, s\<lparr>memory := ?m\<rparr>)"
    by (rule split_block_slack [OF t(1,3,4) b(2) k]) (use assms in simp_all)
  have lt: "?p < HEAP_START s + HEAP_SIZE s" using b(4) by (simp add: word_less_nat_alt)
  have rd: "push_bit 1 (drop_bit 1 (sz + 1)) = of_nat ?k" using sz t(4) by (intro unat_round2) simp
  let ?m' = "memset ?m (?p + 4) 0 (of_nat ?k)"
  have "kalloc sz s = Some (?p + 4, s\<lparr>memory := ?m'\<rparr>)"
    using split lt unfolding kalloc_def kalloc_loop_found [OF inv assms(2) sz] rd by simp
  moreover have "ld (memset ?m (?p + of_nat 4) 0 (of_nat ?k)) ?p i = ld ?m ?p i" if "i \<le> n + 4" "i = 0 \<or> 4 + ?k \<le> i" for i
    using that fit b(3) assms(3) by (intro ld_memset) auto
  from this [of 0] this [of "n + 4"] have "ld ?m' ?p 0 = tagw n True" "ld ?m' ?p (n + 4) = tagw n False"
    using t(2) assms(3) by (simp_all add: ld_st fit ld_def [of "memory s"])
  ultimately show ?thesis by (auto simp: ld_def)
qed

theorem kalloc_slack_stale_footer_witness:
  "\<exists>s'. kalloc 36 demo_heap = Some (0x1014, s') \<and> load32 (memory s') 0x1010 = 41 \<and> load32 (memory s') 0x103C = 40"
  using kalloc_slack_stale_footer [of demo_heap "[(8, True)]" 40 "[]" 36] demo_heap_inv
  by (auto simp: round2_def block_addr_def demo_heap_def tagw_def)

end
