(* ===== verification/Acpi.thy ===== *)
theory Acpi
  imports Kheap
begin

text \<open>
  \<^verbatim>\<open>src/src/kernel/acpi/acpi.c\<close>: the root pointer and the root table of the firmware, their
  checksums, and the search of a table by its signature. The tables are read from memory where the
  code reads them; the copy \<^verbatim>\<open>RSDP_TABLE\<close> is kept as its 36 bytes, whose sum is the checksum.
\<close>

section \<open>Data\<close>

record SdtHeader =
  sdt_signature :: "u8 list"
  length_of_table :: u32
  sdt_revision :: u8
  sdt_checksum :: u8
  sdt_oemid :: "u8 list"
  sdt_oem_table :: "u8 list"
  sdt_oem_revision :: u32
  sdt_creator_id :: u32
  sdt_creator_revision :: u32

definition bytes_from :: "mem \<Rightarrow> u64 \<Rightarrow> nat \<Rightarrow> u8 list" where
  "bytes_from m a n = map (\<lambda>i. m (a + of_nat i)) [0..<n]"

abbreviation SDT_HEADER_SIZE :: u64 where "SDT_HEADER_SIZE \<equiv> 36"

definition read_SdtHeader :: "mem \<Rightarrow> u64 \<Rightarrow> SdtHeader" where
  "read_SdtHeader m a =
     \<lparr>sdt_signature = bytes_from m a 4, length_of_table = load32 m (a + 4), sdt_revision = m (a + 8),
      sdt_checksum = m (a + 9), sdt_oemid = bytes_from m (a + 10) 6, sdt_oem_table = bytes_from m (a + 16) 8,
      sdt_oem_revision = load32 m (a + 24), sdt_creator_id = load32 m (a + 28),
      sdt_creator_revision = load32 m (a + 32)\<rparr>"

text \<open>The fields of an \<^verbatim>\<open>RsdpDescriptor\<close> within its bytes.\<close>

type_synonym RsdpDescriptor = "u8 list"

definition rsdp_revision :: "RsdpDescriptor \<Rightarrow> u8" where
  "rsdp_revision t = t ! 15"

definition le_bytes :: "u8 list \<Rightarrow> nat" where
  "le_bytes bs = foldr (\<lambda>b v. unat b + 256 * v) bs 0"

definition rsdt_addr :: "RsdpDescriptor \<Rightarrow> u32" where
  "rsdt_addr t = of_nat (le_bytes (take 4 (drop 16 t)))"

definition xsdt_addr :: "RsdpDescriptor \<Rightarrow> u64" where
  "xsdt_addr t = of_nat (le_bytes (take 8 (drop 24 t)))"

definition RSDP_V1_DESC_SIZE :: nat where "RSDP_V1_DESC_SIZE = 20"

definition RSDP_V2_DESC_SIZE :: nat where "RSDP_V2_DESC_SIZE = 36"

definition ACPI_VERSION_1 :: u8 where "ACPI_VERSION_1 = 0"

definition ACPI_VERSION_2 :: u8 where "ACPI_VERSION_2 = 2"

record GenericSdt =
  sdt_header :: SdtHeader
  sdt_next :: u64
  uses_xsdt :: bool

record acpi_state = heap_state +
  RSDP_TABLE :: RsdpDescriptor
  SDT_HEAD :: GenericSdt

section \<open>Checksums\<close>

text \<open>The sums are of type \<^verbatim>\<open>int\<close>; their low byte is tested.\<close>

primrec sum_bytes :: "u8 list \<Rightarrow> i32 \<Rightarrow> i32" where
  "sum_bytes [] checksum = checksum"
| "sum_bytes (b # bs) checksum = sum_bytes bs (checksum + ucast b)"

definition ValidateRsdpChecksum :: "RsdpDescriptor \<Rightarrow> bool" where
  "ValidateRsdpChecksum rsdp_tab =
     (let checksum = sum_bytes (take RSDP_V1_DESC_SIZE rsdp_tab) 0;
          v1_valid = (checksum AND 0xff = 0)
      in if rsdp_revision rsdp_tab = ACPI_VERSION_1 then v1_valid
         else
           (let checksum = sum_bytes (take (RSDP_V2_DESC_SIZE - RSDP_V1_DESC_SIZE)
                  (drop RSDP_V1_DESC_SIZE rsdp_tab)) checksum;
                v2_valid = (checksum AND 0xff = 0)
            in v1_valid \<and> v2_valid))"

primrec sdt_sum_loop :: "nat \<Rightarrow> mem \<Rightarrow> u64 \<Rightarrow> i32 \<Rightarrow> i32" where
  "sdt_sum_loop 0 m p checksum = checksum"
| "sdt_sum_loop (Suc n) m p checksum = sdt_sum_loop n m (p + 1) (checksum + ucast (m p))"

definition ValidateSdtChecksum :: "mem \<Rightarrow> u64 \<Rightarrow> i32 \<Rightarrow> bool" where
  "ValidateSdtChecksum m sdt len \<longleftrightarrow> sdt_sum_loop (nat (sint len)) m sdt 0 AND 0xff = 0"

section \<open>Initialisation\<close>

definition InitRsdp :: "u64 \<Rightarrow> 'a acpi_state_scheme \<Rightarrow> bool \<times> 'a acpi_state_scheme" where
  "InitRsdp rsdp s =
     (let s = s\<lparr>RSDP_TABLE := bytes_from (memory s) rsdp RSDP_V2_DESC_SIZE\<rparr>
      in (ValidateRsdpChecksum (RSDP_TABLE s), s))"

definition InitSdt :: "'a acpi_state_scheme \<Rightarrow> bool \<times> 'a acpi_state_scheme" where
  "InitSdt s =
     (let uses = rsdp_revision (RSDP_TABLE s) \<ge> ACPI_VERSION_2;
          tab = (if uses then xsdt_addr (RSDP_TABLE s) else ucast (rsdt_addr (RSDP_TABLE s)));
          header = read_SdtHeader (memory s) tab;
          validated = ValidateSdtChecksum (memory s) tab (length_of_table header)
      in (validated,
          s\<lparr>SDT_HEAD := \<lparr>sdt_header = header, sdt_next = tab + SDT_HEADER_SIZE, uses_xsdt = uses\<rparr>\<rparr>))"

definition InitAcpi :: "u64 \<Rightarrow> 'a acpi_state_scheme \<Rightarrow> i32 \<times> 'a acpi_state_scheme" where
  "InitAcpi rsdp s =
     (let (ok, s1) = InitRsdp rsdp s
      in if \<not> ok then (- 1, s1) else (0, snd (InitSdt s1)))"

section \<open>Searching a table\<close>

text \<open>The entry \<^verbatim>\<open>i\<close> of the root table: 8 bytes for an XSDT, 4 bytes for an RSDT.\<close>

definition sdt_entry :: "mem \<Rightarrow> GenericSdt \<Rightarrow> nat \<Rightarrow> u64" where
  "sdt_entry m h i =
     (if uses_xsdt h then load64 m (sdt_next h + 8 * of_nat i)
      else ucast (load32 m (sdt_next h + 4 * of_nat i)))"

definition sdt_num_entries :: "GenericSdt \<Rightarrow> i32" where
  "sdt_num_entries h =
     ucast ((ucast (length_of_table (sdt_header h)) - SDT_HEADER_SIZE) div (if uses_xsdt h then 8 else 4) :: u64)"

definition table_matches :: "mem \<Rightarrow> u64 \<Rightarrow> u64 \<Rightarrow> bool" where
  "table_matches m table_id sdt \<longleftrightarrow>
     strncmp m sdt table_id 4 = 0 \<and> ValidateSdtChecksum m sdt (load32 m (sdt + 4))"

primrec find_table_loop :: "nat \<Rightarrow> nat \<Rightarrow> mem \<Rightarrow> GenericSdt \<Rightarrow> u64 \<Rightarrow> u64" where
  "find_table_loop 0 i m h table_id = 0"
| "find_table_loop (Suc n) i m h table_id =
     (let sdt = sdt_entry m h i
      in if table_matches m table_id sdt then sdt else find_table_loop n (Suc i) m h table_id)"

definition FindTable :: "u64 \<Rightarrow> 'a acpi_state_scheme \<Rightarrow> u64" where
  "FindTable table_id s =
     find_table_loop (nat (sint (sdt_num_entries (SDT_HEAD s)))) 0 (memory s) (SDT_HEAD s) table_id"

section \<open>What the checksums and the search decide\<close>

lemma sdt_sum_loop_eq:
  "sdt_sum_loop n m p c = c + of_nat (\<Sum>i<n. unat (m (p + of_nat i)))"
proof (induction n arbitrary: p c)
  case (Suc n)
  have "(\<Sum>i<Suc n. unat (m (p + of_nat i))) = unat (m p) + (\<Sum>i<n. unat (m (p + 1 + of_nat i)))"
    by (subst sum.lessThan_Suc_shift) (simp add: add.assoc)
  then show ?case using Suc [of "p + 1" "c + ucast (m p)"] by simp
qed simp

lemma low_byte_zero: "(of_nat n :: i32) AND 0xff = 0 \<longleftrightarrow> 256 dvd n"
proof -
  have "(of_nat n :: i32) AND 0xff = take_bit 8 (of_nat n)"
    by (simp only: take_bit_eq_mask mask_eq_exp_minus_1) simp
  then have "unat ((of_nat n :: i32) AND 0xff) = take_bit 8 (unat (of_nat n :: i32))"
    by (simp only: unsigned_take_bit_eq)
  also have "\<dots> = n mod 2 ^ 32 mod 2 ^ 8" by (simp only: unat_of_nat take_bit_eq_mod) simp
  also have "\<dots> = n mod 256" by (subst mod_mod_cancel) simp_all
  finally have "unat ((of_nat n :: i32) AND 0xff) = n mod 256" .
  then show ?thesis by (metis dvd_eq_mod_eq_0 unat_eq_zero)
qed

lemma ValidateSdtChecksum_iff:
  "ValidateSdtChecksum m sdt len \<longleftrightarrow> 256 dvd (\<Sum>i < nat (sint len). unat (m (sdt + of_nat i)))"
  by (simp only: ValidateSdtChecksum_def sdt_sum_loop_eq low_byte_zero add_0_left)

lemma find_table_loop_eq:
  "find_table_loop n i m h table_id =
    (case List.find (table_matches m table_id) (map (sdt_entry m h) [i..<i + n]) of
       None \<Rightarrow> 0 | Some sdt \<Rightarrow> sdt)"
proof (induction n arbitrary: i)
  case (Suc n)
  have "[i..<i + Suc n] = i # [Suc i..<Suc i + n]" by (simp add: upt_rec)
  then show ?case using Suc by (simp add: Let_def)
qed simp


text \<open>A root table with one entry at \<open>0x300\<close>: a table of nine bytes at \<open>0x100\<close>.\<close>

definition demo_acpi_mem :: mem where
  "demo_acpi_mem a = (case map_of [(0x100, 65), (0x101, 80), (0x102, 73), (0x103, 67), (0x104, 9),
     (0x108, 218), (0x200, 65), (0x201, 80), (0x202, 73), (0x203, 67), (0x301, 1)] a of
       None \<Rightarrow> 0 | Some b \<Rightarrow> b)"

lemma load_le_numeral:
  "load_le (numeral k) m a = unat (m a) + 256 * load_le (pred_numeral k) m (a + 1)"
  by (simp add: numeral_eq_Suc)

lemma strncmp_loop_numeral:
  "strncmp_loop (numeral k) m s1 s2 =
     (if m s1 \<noteq> 0 \<and> m s1 = m s2 then strncmp_loop (pred_numeral k) m (s1 + 1) (s2 + 1)
      else uchar_diff (m s1) (m s2))"
  by (simp add: numeral_eq_Suc)

definition demo_acpi :: acpi_state where
  "demo_acpi = heap_state.extend (demo_heap\<lparr>memory := demo_acpi_mem\<rparr>)
     (acpi_state.fields []
       \<lparr>sdt_header = \<lparr>sdt_signature = [], length_of_table = 44, sdt_revision = 0, sdt_checksum = 0,
          sdt_oemid = [], sdt_oem_table = [], sdt_oem_revision = 0, sdt_creator_id = 0,
          sdt_creator_revision = 0\<rparr>,
        sdt_next = 0x300, uses_xsdt = True\<rparr>)"

lemma demo_acpi_memory [simp]: "memory demo_acpi = demo_acpi_mem"
  by (simp add: demo_acpi_def heap_state.defs acpi_state.defs)


end
