(* ===== verification/Madt.thy ===== *)
theory Madt
  imports Acpi
begin

text \<open>
  \<^verbatim>\<open>src/src/kernel/acpi/madt.c\<close>, data and queries: the interrupt controllers and interrupt
  overrides the firmware describes, kept in five arrays of packed structures, one frame each.
  The arrays are read from memory at the offsets of the packed fields. The parser, which also
  registers the I/O APICs, follows in the theory of the I/O APIC.
\<close>

section \<open>Data\<close>

record MadtRecordHeader =
  record_type :: u8
  record_len :: u8

record ProcessorLocalApic =
  pla_header :: MadtRecordHeader
  pla_acpi_processor_id :: u8
  pla_apic_id :: u8
  pla_flags :: u32

record IoApicRecord =
  ioa_header :: MadtRecordHeader
  io_apic_id :: u8
  ioa_reserved :: u8
  io_apic_addr :: u32
  gsib :: u32

record IntSourceOverrideRecord =
  iso_header :: MadtRecordHeader
  bus_source :: u8
  irq_source :: u8
  iso_gsi :: u32
  iso_flags :: u16

record NmiSourceRecord =
  nms_header :: MadtRecordHeader
  nmi_source :: u8
  nms_reserved :: u8
  nms_flags :: u16
  nms_gsi :: u32

record NmiRecord =
  nmi_header :: MadtRecordHeader
  nmi_acpi_processor_id :: u8
  nmi_flags :: u16
  lint :: bool

record LApicAddrOverrideRecord =
  lao_header :: MadtRecordHeader
  lao_reserved :: u16
  lao_local_apic_addr :: u64

definition read_header :: "mem \<Rightarrow> u64 \<Rightarrow> MadtRecordHeader" where
  "read_header m p = \<lparr>record_type = m p, record_len = m (p + 1)\<rparr>"

definition read_lapic :: "mem \<Rightarrow> u64 \<Rightarrow> ProcessorLocalApic" where
  "read_lapic m p =
     \<lparr>pla_header = read_header m p, pla_acpi_processor_id = m (p + 2), pla_apic_id = m (p + 3),
      pla_flags = load32 m (p + 4)\<rparr>"

definition read_io_apic :: "mem \<Rightarrow> u64 \<Rightarrow> IoApicRecord" where
  "read_io_apic m p =
     \<lparr>ioa_header = read_header m p, io_apic_id = m (p + 2), ioa_reserved = m (p + 3),
      io_apic_addr = load32 m (p + 4), gsib = load32 m (p + 8)\<rparr>"

definition read_iso :: "mem \<Rightarrow> u64 \<Rightarrow> IntSourceOverrideRecord" where
  "read_iso m p =
     \<lparr>iso_header = read_header m p, bus_source = m (p + 2), irq_source = m (p + 3),
      iso_gsi = load32 m (p + 4), iso_flags = load16 m (p + 8)\<rparr>"

definition read_nmi_source :: "mem \<Rightarrow> u64 \<Rightarrow> NmiSourceRecord" where
  "read_nmi_source m p =
     \<lparr>nms_header = read_header m p, nmi_source = m (p + 2), nms_reserved = m (p + 3),
      nms_flags = load16 m (p + 4), nms_gsi = load32 m (p + 6)\<rparr>"

definition read_nmi :: "mem \<Rightarrow> u64 \<Rightarrow> NmiRecord" where
  "read_nmi m p =
     \<lparr>nmi_header = read_header m p, nmi_acpi_processor_id = m (p + 2), nmi_flags = load16 m (p + 3),
      lint = (m (p + 5) \<noteq> 0)\<rparr>"

definition read_lapic_override :: "mem \<Rightarrow> u64 \<Rightarrow> LApicAddrOverrideRecord" where
  "read_lapic_override m p =
     \<lparr>lao_header = read_header m p, lao_reserved = load16 m (p + 2), lao_local_apic_addr = load64 m (p + 4)\<rparr>"

definition MADT_RECORDS_OFFSET :: u64 where "MADT_RECORDS_OFFSET = 0x2C"

definition PROCESSOR_LOCAL_APIC :: u8 where "PROCESSOR_LOCAL_APIC = 0"

definition IO_APIC :: u8 where "IO_APIC = 1"

definition INTERRUPT_SOURCE_OVERRIDE :: u8 where "INTERRUPT_SOURCE_OVERRIDE = 2"

definition NON_MASKABLE_INTERRUPT_SOURCE :: u8 where "NON_MASKABLE_INTERRUPT_SOURCE = 3"

definition LOCAL_NON_MASKABLE_INTERRUPT :: u8 where "LOCAL_NON_MASKABLE_INTERRUPT = 4"

definition LOCAL_APIC_ADDRESS_OVERRIDE :: u8 where "LOCAL_APIC_ADDRESS_OVERRIDE = 5"

definition DEFAULT_LAPIC_ADDR :: u64 where "DEFAULT_LAPIC_ADDR = 0xFEE00000"

record smp_info_t =
  num_io_apics :: u64
  io_apics :: u64
  num_lapics :: u64
  lapics :: u64
  num_isos :: u64
  isos :: u64
  num_nmi_sources :: u64
  nmi_sources :: u64
  num_nmis :: u64
  nmis :: u64
  lapic_addr :: u64

definition SMP_INFO_init :: smp_info_t where
  "SMP_INFO_init =
     \<lparr>num_io_apics = 0, io_apics = 0, num_lapics = 0, lapics = 0, num_isos = 0, isos = 0,
      num_nmi_sources = 0, nmi_sources = 0, num_nmis = 0, nmis = 0, lapic_addr = DEFAULT_LAPIC_ADDR\<rparr>"

record madt_state = acpi_state +
  MADT :: u64
  SMP_INFO :: smp_info_t

text \<open>The addresses of the elements of the arrays.\<close>

definition lapic_ptr :: "smp_info_t \<Rightarrow> u64 \<Rightarrow> u64" where "lapic_ptr f i = lapics f + 8 * i"

definition io_apic_ptr :: "smp_info_t \<Rightarrow> u64 \<Rightarrow> u64" where "io_apic_ptr f i = io_apics f + 12 * i"

definition iso_ptr :: "smp_info_t \<Rightarrow> u64 \<Rightarrow> u64" where "iso_ptr f i = isos f + 10 * i"

definition nmi_source_ptr :: "smp_info_t \<Rightarrow> u64 \<Rightarrow> u64" where "nmi_source_ptr f i = nmi_sources f + 10 * i"

definition nmi_ptr :: "smp_info_t \<Rightarrow> u64 \<Rightarrow> u64" where "nmi_ptr f i = nmis f + 6 * i"

section \<open>Queries\<close>

text \<open>Pointers are returned as addresses, \<^verbatim>\<open>NULL\<close> as 0.\<close>

definition get_smp_info :: "'a madt_state_scheme \<Rightarrow> smp_info_t" where
  "get_smp_info s = SMP_INFO s"

definition get_io_apic :: "u8 \<Rightarrow> 'a madt_state_scheme \<Rightarrow> u64" where
  "get_io_apic idx s =
     (if ucast idx \<ge> num_io_apics (SMP_INFO s) then 0 else io_apic_ptr (SMP_INFO s) (ucast idx))"

definition get_lapic :: "u8 \<Rightarrow> 'a madt_state_scheme \<Rightarrow> u64" where
  "get_lapic idx s =
     (if ucast idx \<ge> num_lapics (SMP_INFO s) then 0 else lapic_ptr (SMP_INFO s) (ucast idx))"

text \<open>
  The loops count with an \<^verbatim>\<open>int\<close> that is compared, as an unsigned 64-bit value, with the
  number of records. The counter starts at 0 and the number of records is that of one table, so
  the model counts with \<open>nat\<close>. In \<^verbatim>\<open>find_apic_from_gsi\<close> the \<^verbatim>\<open>int\<close> \<^verbatim>\<open>max_gsib\<close> is
  converted to unsigned for the comparison.
\<close>

primrec find_apic_loop :: "nat \<Rightarrow> nat \<Rightarrow> mem \<Rightarrow> smp_info_t \<Rightarrow> u32 \<Rightarrow> i32 \<Rightarrow> u32 \<Rightarrow> i32" where
  "find_apic_loop 0 i m f gsi apic_ind max_gsib = apic_ind"
| "find_apic_loop (Suc n) i m f gsi apic_ind max_gsib =
     (let apic_gsib = gsib (read_io_apic m (io_apic_ptr f (of_nat i)))
      in if gsi \<ge> apic_gsib \<and> apic_gsib \<ge> max_gsib
         then find_apic_loop n (Suc i) m f gsi (of_nat i) apic_gsib
         else find_apic_loop n (Suc i) m f gsi apic_ind max_gsib)"

definition find_apic_from_gsi :: "u32 \<Rightarrow> 'a madt_state_scheme \<Rightarrow> i32" where
  "find_apic_from_gsi gsi s =
     find_apic_loop (unat (num_io_apics (SMP_INFO s))) 0 (memory s) (SMP_INFO s) gsi (- 1) 0"

primrec gsi_from_irq_loop :: "nat \<Rightarrow> nat \<Rightarrow> mem \<Rightarrow> smp_info_t \<Rightarrow> u8 \<Rightarrow> u32" where
  "gsi_from_irq_loop 0 i m f irq = ucast irq"
| "gsi_from_irq_loop (Suc n) i m f irq =
     (let iso = read_iso m (iso_ptr f (of_nat i))
      in if irq_source iso = irq then iso_gsi iso else gsi_from_irq_loop n (Suc i) m f irq)"

definition gsi_from_irq :: "u8 \<Rightarrow> 'a madt_state_scheme \<Rightarrow> u32" where
  "gsi_from_irq irq s =
     gsi_from_irq_loop (unat (num_isos (SMP_INFO s))) 0 (memory s) (SMP_INFO s) irq"

primrec gsi_get_nmi_source_loop :: "nat \<Rightarrow> nat \<Rightarrow> mem \<Rightarrow> smp_info_t \<Rightarrow> u32 \<Rightarrow> u64" where
  "gsi_get_nmi_source_loop 0 i m f gsi = 0"
| "gsi_get_nmi_source_loop (Suc n) i m f gsi =
     (if nms_gsi (read_nmi_source m (nmi_source_ptr f (of_nat i))) = gsi then nmi_source_ptr f (of_nat i)
      else gsi_get_nmi_source_loop n (Suc i) m f gsi)"

definition gsi_get_nmi_source :: "u32 \<Rightarrow> 'a madt_state_scheme \<Rightarrow> u64" where
  "gsi_get_nmi_source gsi s =
     gsi_get_nmi_source_loop (unat (num_nmi_sources (SMP_INFO s))) 0 (memory s) (SMP_INFO s) gsi"

definition get_nmi_record :: "u8 \<Rightarrow> 'a madt_state_scheme \<Rightarrow> u64" where
  "get_nmi_record idx s =
     (if ucast idx > num_nmis (SMP_INFO s) - 1 then 0 else nmi_ptr (SMP_INFO s) (ucast idx))"

primrec gsi_get_iso_loop :: "nat \<Rightarrow> nat \<Rightarrow> mem \<Rightarrow> smp_info_t \<Rightarrow> u32 \<Rightarrow> u64" where
  "gsi_get_iso_loop 0 i m f gsi = 0"
| "gsi_get_iso_loop (Suc n) i m f gsi =
     (if iso_gsi (read_iso m (iso_ptr f (of_nat i))) = gsi then iso_ptr f (of_nat i)
      else gsi_get_iso_loop n (Suc i) m f gsi)"

definition gsi_get_iso :: "u32 \<Rightarrow> 'a madt_state_scheme \<Rightarrow> u64" where
  "gsi_get_iso gsi s = gsi_get_iso_loop (unat (num_isos (SMP_INFO s))) 0 (memory s) (SMP_INFO s) gsi"

definition get_iso_from_irq :: "u8 \<Rightarrow> 'a madt_state_scheme \<Rightarrow> u64" where
  "get_iso_from_irq irq s = gsi_get_iso (gsi_from_irq irq s) s"

section \<open>The arrays as lists\<close>

definition iso_list :: "'a madt_state_scheme \<Rightarrow> IntSourceOverrideRecord list" where
  "iso_list s = map (\<lambda>i. read_iso (memory s) (iso_ptr (SMP_INFO s) (of_nat i)))
     [0..<unat (num_isos (SMP_INFO s))]"

lemma gsi_from_irq_loop_eq:
  "gsi_from_irq_loop n i m f irq =
    (case List.find (\<lambda>iso. irq_source iso = irq) (map (\<lambda>i. read_iso m (iso_ptr f (of_nat i))) [i..<i + n]) of
       None \<Rightarrow> ucast irq | Some r \<Rightarrow> iso_gsi r)"
proof (induction n arbitrary: i)
  case (Suc n)
  have "[i..<i + Suc n] = i # [Suc i..<Suc i + n]" by (simp add: upt_rec)
  then show ?case using Suc by (simp add: Let_def)
qed simp

lemma gsi_from_irq_eq:
  "gsi_from_irq irq s =
    (case List.find (\<lambda>iso. irq_source iso = irq) (iso_list s) of
       None \<Rightarrow> ucast irq | Some r \<Rightarrow> iso_gsi r)"
  by (simp add: gsi_from_irq_def gsi_from_irq_loop_eq iso_list_def)

end
