(* ===== verification/Bitfield.thy ===== *)
theory Bitfield
  imports Prelude
begin

text \<open>
  C bit-fields: a field of \<open>w\<close> bits from bit \<open>lo\<close> on within a word. Two different fields of a
  structure do not overlap, so an assignment to one keeps the others.
\<close>

unbundle bit_operations_syntax

definition get_field :: "nat \<Rightarrow> nat \<Rightarrow> 'a::len word \<Rightarrow> 'a word" where
  "get_field lo w x = take_bit w (drop_bit lo x)"

definition set_field :: "nat \<Rightarrow> nat \<Rightarrow> 'a::len word \<Rightarrow> 'a word \<Rightarrow> 'a word" where
  "set_field lo w v x = (x AND NOT (push_bit lo (mask w))) OR push_bit lo (take_bit w v)"

lemma bit_get_field: "bit (get_field lo w x) i \<longleftrightarrow> i < w \<and> bit x (lo + i)"
  by (auto simp: get_field_def bit_take_bit_iff bit_drop_bit_eq)

lemma bit_set_field:
  "bit (set_field lo w v (x :: 'a::len word)) i \<longleftrightarrow>
    (if lo \<le> i \<and> i < lo + w then i < LENGTH('a) \<and> bit v (i - lo) else bit x i)"
  by (auto simp: set_field_def bit_or_iff bit_and_iff bit_not_iff bit_push_bit_iff bit_mask_iff
      bit_take_bit_iff dest: bit_imp_le_length)

lemma get_set_field:
  "lo + w \<le> LENGTH('a) \<Longrightarrow> get_field lo w (set_field lo w v (x :: 'a::len word)) = take_bit w v"
  by (rule bit_word_eqI) (auto simp: bit_get_field bit_set_field bit_take_bit_iff)

lemma get_set_field_other:
  "lo + w \<le> lo' \<or> lo' + w' \<le> lo \<Longrightarrow> get_field lo w (set_field lo' w' v (x :: 'a::len word)) = get_field lo w x"
  by (rule bit_word_eqI) (auto simp: bit_get_field bit_set_field)

lemma set_get_field: "set_field lo w (get_field lo w x) x = (x :: 'a::len word)"
  by (rule bit_word_eqI) (auto simp: bit_get_field bit_set_field)

lemma set_set_field: "set_field lo w u (set_field lo w v x) = set_field lo w u (x :: 'a::len word)"
  by (rule bit_word_eqI) (auto simp: bit_set_field)

lemma set_field_commute:
  "lo + w \<le> lo' \<or> lo' + w' \<le> lo \<Longrightarrow>
    set_field lo w u (set_field lo' w' v x) = set_field lo' w' v (set_field lo w u (x :: 'a::len word))"
  by (rule bit_word_eqI) (auto simp: bit_set_field)

lemmas field_simps_set = get_set_field get_set_field_other set_get_field set_set_field

end
