(* ===== verification/Packed.thy ===== *)
theory Packed
  imports Memory
begin

text \<open>
  Packed C structures in the byte memory: reading a field back after writes to other fields of the
  same structure. A field is a load or a store at a constant offset from the address of the structure;
  the rules of the collection \<open>packed_simps\<close> compare the offsets.
\<close>

named_theorems packed_simps

lemma in_range_offset: "in_range (g + k) (g + j) n \<longleftrightarrow> in_range k j n"
  by (simp add: in_range_def)

lemma in_range_offset_base: "in_range (g + k) g n \<longleftrightarrow> in_range k 0 n" "in_range g (g + j) n \<longleftrightarrow> in_range 0 j n"
  by (simp_all add: in_range_def)

lemma in_range_diff: "in_range x (g + k) n \<longleftrightarrow> in_range (x - g) k n"
  by (simp add: in_range_def diff_diff_add)

lemma disjoint_offset [packed_simps]:
  assumes "unat k + n \<le> unat j \<or> unat j + i \<le> unat k" "unat k + n \<le> 2 ^ 64" "unat j + i \<le> 2 ^ 64"
  shows "disjoint (g + k) n (g + j) i"
  using assms by (auto simp: disjoint_def in_range_diff in_range_nowrap)

lemma disjoint_offset_base [packed_simps]:
  assumes "n \<le> unat j" "unat j + i \<le> 2 ^ 64"
  shows "disjoint g n (g + j) i" "disjoint (g + j) i g n"
proof -
  have "n \<le> 2 ^ 64" using assms(1) unat_less64 [of j] by linarith
  then show "disjoint g n (g + j) i" using disjoint_offset [of 0 n j i g] assms by simp
  then show "disjoint (g + j) i g n" by (rule disjoint_sym)
qed

lemma field_range: "in_range x (a + j) k \<Longrightarrow> unat j + k \<le> n \<Longrightarrow> n \<le> 2 ^ 64 \<Longrightarrow> in_range x a n"
  using in_range_diff [of x a j k] in_range_nowrap [of j k "x - a"] by (auto simp: in_range_def)

lemma byte_field_range: "unat j < n \<Longrightarrow> in_range (a + j) a n"
  by (simp add: in_range_def)

text \<open>A load past a store of another width, and past the store of a byte.\<close>

lemma load16_past [packed_simps]:
  "disjoint a 2 b 2 \<Longrightarrow> load16 (store16 m b u) a = load16 m a"
  "disjoint a 2 b 4 \<Longrightarrow> load16 (store32 m b v) a = load16 m a"
  "disjoint a 2 b 8 \<Longrightarrow> load16 (store64 m b w) a = load16 m a"
  "\<not> in_range b a 2 \<Longrightarrow> load16 (m(b := c)) a = load16 m a"
  by (rule c16.load_cong; auto dest: disjointD intro: c16.store_other c32.store_other c64.store_other)+

lemma load32_past [packed_simps]:
  "disjoint a 4 b 2 \<Longrightarrow> load32 (store16 m b u) a = load32 m a"
  "disjoint a 4 b 4 \<Longrightarrow> load32 (store32 m b v) a = load32 m a"
  "disjoint a 4 b 8 \<Longrightarrow> load32 (store64 m b w) a = load32 m a"
  "\<not> in_range b a 4 \<Longrightarrow> load32 (m(b := c)) a = load32 m a"
  by (rule c32.load_cong; auto dest: disjointD intro: c16.store_other c32.store_other c64.store_other)+

lemma load64_past [packed_simps]:
  "disjoint a 8 b 2 \<Longrightarrow> load64 (store16 m b u) a = load64 m a"
  "disjoint a 8 b 4 \<Longrightarrow> load64 (store32 m b v) a = load64 m a"
  "disjoint a 8 b 8 \<Longrightarrow> load64 (store64 m b w) a = load64 m a"
  "\<not> in_range b a 8 \<Longrightarrow> load64 (m(b := c)) a = load64 m a"
  by (rule c64.load_cong; auto dest: disjointD intro: c16.store_other c32.store_other c64.store_other)+

lemmas byte_past [packed_simps] = c16.store_other c32.store_other c64.store_other

lemmas packed_load_store [packed_simps] = c16.load_store c32.load_store c64.load_store
  in_range_offset in_range_offset_base

lemma in_range_numeral [packed_simps]: "unat k < unat j \<or> unat j + n \<le> unat k \<Longrightarrow> unat j + n \<le> 2 ^ 64 \<Longrightarrow> \<not> in_range k j n"
  by (auto simp: in_range_nowrap)

section \<open>The contract of a packed structure\<close>

locale packed_struct =
  fixes size_of :: nat
    and get :: "mem \<Rightarrow> u64 \<Rightarrow> 'e"
    and put :: "u64 \<Rightarrow> 'e \<Rightarrow> mem \<Rightarrow> mem"
  assumes size_bound: "size_of \<le> 2 ^ 64"
    and get_put: "get (put a e m) a = e"
    and get_cong: "(\<And>x. in_range x a size_of \<Longrightarrow> m x = m' x) \<Longrightarrow> get m a = get m' a"
    and put_other: "\<not> in_range x a size_of \<Longrightarrow> put a e m x = m x"
begin

lemma get_frame: "(\<And>x. \<not> in_range x b n \<Longrightarrow> m' x = m x) \<Longrightarrow> disjoint a size_of b n \<Longrightarrow> get m' a = get m a"
  by (rule get_cong) (auto dest: disjointD)

lemma get_put_disjoint: "disjoint a size_of b size_of \<Longrightarrow> get (put b e m) a = get m a"
  by (rule get_frame [of b size_of]) (simp_all add: put_other)

text \<open>Elements of an array of such structures.\<close>

lemma elements_disjoint:
  assumes "i \<noteq> j" "size_of * Suc i \<le> 2 ^ 64" "size_of * Suc j \<le> 2 ^ 64"
  shows "disjoint (a + of_nat (size_of * i)) size_of (a + of_nat (size_of * j)) size_of"
proof (cases "size_of = 0")
  case False
  have u: "unat (of_nat (size_of * k) :: u64) = size_of * k" if "size_of * Suc k \<le> 2 ^ 64" for k
    using that False by (intro unat_of_nat64) simp
  have "size_of * i + size_of \<le> size_of * j \<or> size_of * j + size_of \<le> size_of * i"
    using assms(1) False mult_le_mono2 [of "Suc i" j size_of] mult_le_mono2 [of "Suc j" i size_of] by fastforce
  then show ?thesis using assms(2,3) by (intro disjoint_offset) (simp_all add: u del: of_nat_mult)
qed (simp add: disjoint_def)

lemma get_put_element:
  assumes "size_of * Suc i \<le> 2 ^ 64" "size_of * Suc j \<le> 2 ^ 64"
  shows "get (put (a + of_nat (size_of * j)) e m) (a + of_nat (size_of * i))
    = (if i = j then e else get m (a + of_nat (size_of * i)))"
  using assms elements_disjoint [of i j a] by (simp add: get_put get_put_disjoint del: of_nat_mult)

end

end
