(* ===== verification/Io_Apic.thy ===== *)
theory Io_Apic
  imports Madt Bitfield Packed
begin

text \<open>
  \<^verbatim>\<open>src/src/kernel/hal/io_apic.c\<close>: the registered I/O APICs and their redirection tables, and
  the parser \<^verbatim>\<open>ParseMadt\<close> of \<^verbatim>\<open>acpi/madt.c\<close>, which registers them. An I/O APIC is a device
  with an index register and a data window, at the two addresses kept in its \<^verbatim>\<open>ioapic_t\<close>: a
  write of the index selects one of its registers. The device is part of the state, a register file
  of which every register has a set of read-only bits (\<open>dev_ro\<close>, arbitrary) that a write keeps.
\<close>

unbundle bit_operations_syntax

section \<open>Data\<close>

definition MAX_IOAPICS :: nat where "MAX_IOAPICS = 16"

definition IOAPIC_ID_SHIFT :: nat where "IOAPIC_ID_SHIFT = 24"

definition IOAPIC_ID_MASK :: u32 where "IOAPIC_ID_MASK = push_bit IOAPIC_ID_SHIFT 0xF"

definition IOAPIC_VERSION_MASK :: u32 where "IOAPIC_VERSION_MASK = 0xFF"

definition IOAPIC_MAX_RED_SHIFT :: nat where "IOAPIC_MAX_RED_SHIFT = 16"

definition IOAPIC_MAX_RED_MASK :: u32 where "IOAPIC_MAX_RED_MASK = push_bit IOAPIC_MAX_RED_SHIFT 0xFF"

definition MAX_ISA_IRQ :: int where "MAX_ISA_IRQ = 16"

definition IOAPIC_ID :: u8 where "IOAPIC_ID = 0"

definition IOAPIC_VER :: u8 where "IOAPIC_VER = 1"

text \<open>A redirection entry: the union of the bit-fields with the two double words.\<close>

type_synonym ioredtbl_t = u64

definition red_vector :: "ioredtbl_t \<Rightarrow> u8" where "red_vector e = ucast (get_field 0 8 e)"

definition red_delivery_mode :: "ioredtbl_t \<Rightarrow> u32" where "red_delivery_mode e = ucast (get_field 8 3 e)"

definition red_polarity :: "ioredtbl_t \<Rightarrow> u32" where "red_polarity e = ucast (get_field 13 1 e)"

definition red_trigger_mode :: "ioredtbl_t \<Rightarrow> u32" where "red_trigger_mode e = ucast (get_field 15 1 e)"

definition red_mask :: "ioredtbl_t \<Rightarrow> u32" where "red_mask e = ucast (get_field 16 1 e)"

definition red_destination :: "ioredtbl_t \<Rightarrow> u8" where "red_destination e = ucast (get_field 56 8 e)"

definition set_vector :: "u8 \<Rightarrow> ioredtbl_t \<Rightarrow> ioredtbl_t" where "set_vector v = set_field 0 8 (ucast v)"

definition set_delivery_mode :: "u32 \<Rightarrow> ioredtbl_t \<Rightarrow> ioredtbl_t" where
  "set_delivery_mode v = set_field 8 3 (ucast v)"

definition set_destination_mode :: "u32 \<Rightarrow> ioredtbl_t \<Rightarrow> ioredtbl_t" where
  "set_destination_mode v = set_field 11 1 (ucast v)"

definition set_polarity :: "u32 \<Rightarrow> ioredtbl_t \<Rightarrow> ioredtbl_t" where "set_polarity v = set_field 13 1 (ucast v)"

definition set_trigger_mode :: "u32 \<Rightarrow> ioredtbl_t \<Rightarrow> ioredtbl_t" where
  "set_trigger_mode v = set_field 15 1 (ucast v)"

definition set_mask :: "u32 \<Rightarrow> ioredtbl_t \<Rightarrow> ioredtbl_t" where "set_mask v = set_field 16 1 (ucast v)"

definition set_destination :: "u8 \<Rightarrow> ioredtbl_t \<Rightarrow> ioredtbl_t" where
  "set_destination v = set_field 56 8 (ucast v)"

definition lower_dword :: "ioredtbl_t \<Rightarrow> u32" where "lower_dword e = ucast e"

definition upper_dword :: "ioredtbl_t \<Rightarrow> u32" where "upper_dword e = ucast (drop_bit 32 e)"

definition ACTIVE_HIGH :: u32 where "ACTIVE_HIGH = 0"

definition ACTIVE_LOW :: u32 where "ACTIVE_LOW = 1"

definition EDGE_SENSITIVE :: u32 where "EDGE_SENSITIVE = 0"

definition LEVEL_SENSITIVE :: u32 where "LEVEL_SENSITIVE = 1"

definition ICR_FIXED :: u32 where "ICR_FIXED = 0"

definition ICR_SMI :: u32 where "ICR_SMI = 2"

definition ICR_NMI :: u32 where "ICR_NMI = 4"

definition IOAPIC_PHYSICAL :: u32 where "IOAPIC_PHYSICAL = 0"

record ioapic_t =
  present :: bool
  ioregsel :: u64
  iowin :: u64
  min_gsi :: u32
  num_pins :: u8
  has_eoi :: u8
  apic_id :: u8

record int_attr_t =
  attrs :: ioredtbl_t
  attr_gsi :: u32
  attr_irq :: u8
  ioapic_ind :: u8

record ioapic_dev =
  dev_sel :: u32
  dev_regs :: "u8 \<Rightarrow> u32"
  dev_ro :: "u8 \<Rightarrow> u32"

record ioapic_state = madt_state +
  IOAPICS :: "ioapic_t list"
  VECTOR_ATTRS :: "u8 \<Rightarrow> int_attr_t"
  ioapic_devs :: "u64 \<Rightarrow> ioapic_dev"
  bsp_lapic_id :: u8

definition get_bsp_lapic_id :: "'a ioapic_state_scheme \<Rightarrow> u8" where
  "get_bsp_lapic_id s = bsp_lapic_id s"

section \<open>Register access\<close>

text \<open>The window of the device at \<open>a\<close> is 16 bytes above its index register.\<close>

definition write_ioregsel :: "u64 \<Rightarrow> u32 \<Rightarrow> 'a ioapic_state_scheme \<Rightarrow> 'a ioapic_state_scheme" where
  "write_ioregsel a v s =
     s\<lparr>ioapic_devs := (ioapic_devs s)(a := (ioapic_devs s a)\<lparr>dev_sel := v\<rparr>)\<rparr>"

definition read_iowin :: "u64 \<Rightarrow> 'a ioapic_state_scheme \<Rightarrow> u32" where
  "read_iowin a s = (let d = ioapic_devs s (a - 0x10) in dev_regs d (ucast (dev_sel d)))"

definition dev_write :: "u8 \<Rightarrow> u32 \<Rightarrow> ioapic_dev \<Rightarrow> ioapic_dev" where
  "dev_write r v d = d\<lparr>dev_regs := (dev_regs d)(r := (dev_regs d r AND dev_ro d r) OR (v AND NOT (dev_ro d r)))\<rparr>"

definition write_iowin :: "u64 \<Rightarrow> u32 \<Rightarrow> 'a ioapic_state_scheme \<Rightarrow> 'a ioapic_state_scheme" where
  "write_iowin a v s =
     (let d = ioapic_devs s (a - 0x10)
      in s\<lparr>ioapic_devs := (ioapic_devs s)(a - 0x10 := dev_write (ucast (dev_sel d)) v d)\<rparr>)"

definition ioapic_read :: "ioapic_t \<Rightarrow> u8 \<Rightarrow> 'a ioapic_state_scheme \<Rightarrow> u32 \<times> 'a ioapic_state_scheme" where
  "ioapic_read ioapic offset s =
     (let s = write_ioregsel (ioregsel ioapic) (ucast offset) s in (read_iowin (iowin ioapic) s, s))"

definition ioapic_write :: "ioapic_t \<Rightarrow> u8 \<Rightarrow> u32 \<Rightarrow> 'a ioapic_state_scheme \<Rightarrow> 'a ioapic_state_scheme" where
  "ioapic_write ioapic offset val s =
     write_iowin (iowin ioapic) val (write_ioregsel (ioregsel ioapic) (ucast offset) s)"

definition ioapic_write_entry ::
  "ioapic_t \<Rightarrow> u32 \<Rightarrow> ioredtbl_t \<Rightarrow> 'a ioapic_state_scheme \<Rightarrow> 'a ioapic_state_scheme" where
  "ioapic_write_entry ioapic gsi entry s =
     (let pin = gsi - min_gsi ioapic;
          s = ioapic_write ioapic (ucast (0x10 + pin * 2)) (lower_dword entry) s
      in ioapic_write ioapic (ucast (0x11 + pin * 2)) (upper_dword entry) s)"

text \<open>The upper double word is shifted within 32 bits before it is widened.\<close>

definition ioapic_read_entry ::
  "ioapic_t \<Rightarrow> u32 \<Rightarrow> 'a ioapic_state_scheme \<Rightarrow> ioredtbl_t \<times> 'a ioapic_state_scheme" where
  "ioapic_read_entry ioapic gsi s =
     (let pin = gsi - min_gsi ioapic;
          (lo, s) = ioapic_read ioapic (ucast (0x10 + pin * 2)) s;
          (hi, s) = ioapic_read ioapic (ucast (0x11 + pin * 2)) s
      in (ucast lo OR ucast (shl32 hi 31), s))"

definition get_pin_polarity :: "u16 \<Rightarrow> u32" where
  "get_pin_polarity flags = (if flags AND 2 \<noteq> 0 then ACTIVE_HIGH else ACTIVE_LOW)"

definition get_trigger_mode :: "u16 \<Rightarrow> u32" where
  "get_trigger_mode flags = (if flags AND 8 \<noteq> 0 then LEVEL_SENSITIVE else EDGE_SENSITIVE)"

section \<open>Registration\<close>

text \<open>
  The entry local to a loop round is not initialised: \<open>junk gsi\<close> is what it holds before the
  assignments, which leave the status and reserved bits alone.
\<close>

definition gsi_entry ::
  "i32 \<Rightarrow> ioredtbl_t \<Rightarrow> 'a ioapic_state_scheme \<Rightarrow> ioredtbl_t \<times> 'a ioapic_state_scheme" where
  "gsi_entry gsi entry s =
     (let iso_info = gsi_get_iso gsi s;
          nmi_info = gsi_get_nmi_source gsi s
      in if sint gsi < MAX_ISA_IRQ then
           (set_mask 1 (set_trigger_mode EDGE_SENSITIVE (set_polarity ACTIVE_HIGH
              (set_delivery_mode ICR_FIXED (set_vector (ucast gsi + 0x20) entry)))),
            PrintK_log (''Writing GSI 0x%h to vector 0x%h'' @ [CHR 0x0A])
              [KNum (i32_to_u64 gsi), KNum (i32_to_u64 (gsi + 0x20))] s)
         else if iso_info \<noteq> 0 then
           (let r = read_iso (memory s) iso_info
            in (set_mask 1 (set_trigger_mode (get_trigger_mode (iso_flags r))
                  (set_polarity (get_pin_polarity (iso_flags r))
                    (set_delivery_mode ICR_FIXED (set_vector (irq_source r + 0x20) entry)))),
                PrintK_log (''Iso for GSI %d'' @ [CHR 0x0A]) [KNum (i32_to_u64 gsi)] s))
         else if nmi_info \<noteq> 0 then
           (let r = read_nmi_source (memory s) nmi_info
            in (set_mask 0 (set_trigger_mode (get_trigger_mode (nms_flags r))
                  (set_polarity (get_pin_polarity (nms_flags r))
                    (set_delivery_mode ICR_NMI (set_vector (ucast gsi + 0x20) entry)))), s))
         else
           (set_mask 1 (set_trigger_mode LEVEL_SENSITIVE (set_polarity ACTIVE_HIGH
              (set_delivery_mode ICR_FIXED (set_vector (ucast gsi + 0x20) entry)))), s))"

definition init_gsi ::
  "(i32 \<Rightarrow> ioredtbl_t) \<Rightarrow> ioapic_t \<Rightarrow> i32 \<Rightarrow> 'a ioapic_state_scheme \<Rightarrow> 'a ioapic_state_scheme" where
  "init_gsi junk ioapic gsi s =
     (if gsi = 0 then s
      else
        (let (entry, s) = gsi_entry gsi (junk gsi) s;
             entry = set_destination_mode IOAPIC_PHYSICAL entry;
             v = red_vector entry;
             s = s\<lparr>VECTOR_ATTRS := (VECTOR_ATTRS s)(v :=
                    \<lparr>attrs = entry, attr_gsi = gsi, attr_irq = v - 0x20, ioapic_ind = apic_id ioapic\<rparr>)\<rparr>;
             entry = set_destination (get_bsp_lapic_id s) entry
         in ioapic_write_entry ioapic gsi entry s))"

function init_ints_loop ::
  "(i32 \<Rightarrow> ioredtbl_t) \<Rightarrow> ioapic_t \<Rightarrow> i32 \<Rightarrow> u32 \<Rightarrow> 'a ioapic_state_scheme \<Rightarrow> 'a ioapic_state_scheme" where
  "init_ints_loop junk ioapic gsi bound s =
     (if gsi < bound then init_ints_loop junk ioapic (gsi + 1) bound (init_gsi junk ioapic gsi s) else s)"
  by pat_completeness auto
termination
proof (relation "measure (\<lambda>(junk, ioapic, gsi, bound, s). unat bound - unat gsi)", goal_cases)
  case (2 junk ioapic gsi bound s)
  then have less: "unat gsi < unat bound" by (simp add: word_less_nat_alt)
  then have "unat (gsi + 1) = Suc (unat gsi)"
    using unat_less32 [of bound] by (simp add: unat_word_ariths)
  then show ?case using less by simp
qed simp

declare init_ints_loop.simps [simp del]

definition initialize_ioapic_ints ::
  "(i32 \<Rightarrow> ioredtbl_t) \<Rightarrow> ioapic_t \<Rightarrow> 'a ioapic_state_scheme \<Rightarrow> 'a ioapic_state_scheme" where
  "initialize_ioapic_ints junk ioapic s =
     init_ints_loop junk ioapic (min_gsi ioapic) (min_gsi ioapic + ucast (num_pins ioapic)) s"

definition register_ioapic ::
  "(i32 \<Rightarrow> ioredtbl_t) \<Rightarrow> IoApicRecord \<Rightarrow> 'a ioapic_state_scheme \<Rightarrow> 'a ioapic_state_scheme" where
  "register_ioapic junk ioapic_record s =
     (let ioapic = \<lparr>present = True, ioregsel = ucast (io_apic_addr ioapic_record),
            iowin = ucast (io_apic_addr ioapic_record) + 0x10, min_gsi = gsib ioapic_record,
            num_pins = 0, has_eoi = 0, apic_id = 0\<rparr>;
          (ioapic_id_reg, s) = ioapic_read ioapic IOAPIC_ID s;
          ioapic = ioapic\<lparr>apic_id := ucast (drop_bit IOAPIC_ID_SHIFT (ioapic_id_reg AND IOAPIC_ID_MASK))\<rparr>;
          (ioapic_ver_reg, s) = ioapic_read ioapic IOAPIC_VER s;
          ioapic = ioapic\<lparr>num_pins := ucast (drop_bit IOAPIC_MAX_RED_SHIFT (ioapic_ver_reg AND IOAPIC_MAX_RED_MASK) + 1),
                          has_eoi := (if ioapic_ver_reg AND IOAPIC_VERSION_MASK \<ge> 0x20 then 1 else 0)\<rparr>;
          s = s\<lparr>IOAPICS := (IOAPICS s)[unat (apic_id ioapic) := ioapic]\<rparr>
      in initialize_ioapic_ints junk ioapic s)"

section \<open>Operations on a global system interrupt\<close>

definition serves :: "u32 \<Rightarrow> ioapic_t \<Rightarrow> bool" where
  "serves gsi io \<longleftrightarrow> present io \<and> gsi \<ge> min_gsi io \<and> gsi \<le> min_gsi io + ucast (num_pins io) - 1"

text \<open>\<^verbatim>\<open>ioapic_from_gsi\<close>: the first entry of the array that serves the interrupt.\<close>

definition ioapic_from_gsi :: "u32 \<Rightarrow> 'a ioapic_state_scheme \<Rightarrow> ioapic_t option" where
  "ioapic_from_gsi gsi s = List.find (serves gsi) (take MAX_IOAPICS (IOAPICS s))"

definition ioapic_route_irq ::
  "u8 \<Rightarrow> u8 \<Rightarrow> u8 \<Rightarrow> bool \<Rightarrow> 'a ioapic_state_scheme \<Rightarrow> bool \<times> 'a ioapic_state_scheme" where
  "ioapic_route_irq irq rec_lapic_id vector masked s =
     (let s = PrintK_log (''Routing irq 0x%h to LAPIC 0x%h w/ vector 0x%h'' @ [CHR 0x0A])
                [KNum (ucast irq), KNum (ucast rec_lapic_id), KNum (ucast vector)] s;
          gsi = gsi_from_irq irq s
      in case ioapic_from_gsi gsi s of
           None \<Rightarrow> (False, s)
         | Some ioapic \<Rightarrow>
             (let (entry, s) = ioapic_read_entry ioapic gsi s;
                  entry = set_mask (if masked then 1 else 0) (set_destination rec_lapic_id
                    (set_trigger_mode EDGE_SENSITIVE (set_delivery_mode ICR_FIXED
                      (set_polarity ACTIVE_HIGH (set_vector vector entry)))));
                  s = PrintK_log (''Lower dword: 0x%h'' @ [CHR 0x0A]) [KNum (ucast (lower_dword entry))] s;
                  s = PrintK_log (''Upper dword: 0x%h'' @ [CHR 0x0A]) [KNum (ucast (upper_dword entry))] s
              in (True, ioapic_write_entry ioapic gsi entry s)))"

definition ioapic_route_irq_to_bsp ::
  "u8 \<Rightarrow> u8 \<Rightarrow> bool \<Rightarrow> 'a ioapic_state_scheme \<Rightarrow> bool \<times> 'a ioapic_state_scheme" where
  "ioapic_route_irq_to_bsp irq vector masked s = ioapic_route_irq irq (get_bsp_lapic_id s) vector masked s"

definition ioapic_set_smi_gsi ::
  "ioredtbl_t \<Rightarrow> u32 \<Rightarrow> 'a ioapic_state_scheme \<Rightarrow> bool \<times> 'a ioapic_state_scheme" where
  "ioapic_set_smi_gsi junk gsi s =
     (case ioapic_from_gsi gsi s of
        None \<Rightarrow> (False, s)
      | Some ioapic \<Rightarrow>
          (True, ioapic_write_entry ioapic gsi
             (set_mask 0 (set_trigger_mode EDGE_SENSITIVE (set_polarity ACTIVE_HIGH
                (set_delivery_mode ICR_SMI (set_vector 0 junk))))) s))"

text \<open>\<^verbatim>\<open>vector_from_gsi\<close> does not test the pointer: \<open>None\<close> is the null dereference.\<close>

definition vector_from_gsi :: "u32 \<Rightarrow> 'a ioapic_state_scheme \<Rightarrow> (u8 \<times> 'a ioapic_state_scheme) option" where
  "vector_from_gsi gsi s =
     (case ioapic_from_gsi gsi s of
        None \<Rightarrow> None
      | Some ioapic \<Rightarrow> (let (e, s) = ioapic_read_entry ioapic gsi s in Some (red_vector e, s)))"

definition int_attrs_from_vector ::
  "u8 \<Rightarrow> bool \<Rightarrow> 'a ioapic_state_scheme \<Rightarrow> ioredtbl_t option \<times> 'a ioapic_state_scheme" where
  "int_attrs_from_vector vector fill s =
     (let gsi = attr_gsi (VECTOR_ATTRS s vector)
      in case ioapic_from_gsi gsi s of
           None \<Rightarrow> (None, s)
         | Some ioapic \<Rightarrow>
             if \<not> fill then (None, s)
             else (let (e, s) = ioapic_read_entry ioapic gsi s in (Some e, s)))"

definition ioapic_set_gsi_mask :: "u32 \<Rightarrow> bool \<Rightarrow> 'a ioapic_state_scheme \<Rightarrow> bool \<times> 'a ioapic_state_scheme" where
  "ioapic_set_gsi_mask gsi masked s =
     (case ioapic_from_gsi gsi s of
        None \<Rightarrow> (False, s)
      | Some ioapic \<Rightarrow>
          (let (current_entry, s) = ioapic_read_entry ioapic gsi s
           in if red_mask current_entry \<noteq> (if masked then 1 else 0)
              then (True, ioapic_write_entry ioapic gsi (set_mask (if masked then 1 else 0) current_entry) s)
              else (True, s)))"

definition ioapic_set_gsi_vector :: "u32 \<Rightarrow> u8 \<Rightarrow> 'a ioapic_state_scheme \<Rightarrow> bool \<times> 'a ioapic_state_scheme" where
  "ioapic_set_gsi_vector gsi vector s =
     (case ioapic_from_gsi gsi s of
        None \<Rightarrow> (False, s)
      | Some ioapic \<Rightarrow>
          if \<not> (vector > 15) then (False, s)
          else
            (let (current_entry, s) = ioapic_read_entry ioapic gsi s
             in if red_vector current_entry \<noteq> vector
                then (let s = ioapic_write_entry ioapic gsi (set_vector vector current_entry) s
                      in (True, s\<lparr>VECTOR_ATTRS := (VECTOR_ATTRS s)(vector :=
                            (VECTOR_ATTRS s vector)\<lparr>attr_gsi := gsi\<rparr>)\<rparr>))
                else (True, s)))"

definition ioapic_set_gsi_trigger_mode ::
  "u32 \<Rightarrow> u32 \<Rightarrow> 'a ioapic_state_scheme \<Rightarrow> bool \<times> 'a ioapic_state_scheme" where
  "ioapic_set_gsi_trigger_mode gsi trigger_mode s =
     (if gsi = 0 \<and> trigger_mode \<noteq> LEVEL_SENSITIVE then (False, s)
      else
        (case ioapic_from_gsi gsi s of
           None \<Rightarrow> (False, s)
         | Some ioapic \<Rightarrow>
             (let (current_entry, s) = ioapic_read_entry ioapic gsi s;
                  nmi_or_smi = (red_delivery_mode current_entry = ICR_NMI \<or>
                                red_delivery_mode current_entry = ICR_SMI)
              in if nmi_or_smi \<and> trigger_mode \<noteq> EDGE_SENSITIVE then (False, s)
                 else if red_trigger_mode current_entry \<noteq> trigger_mode
                 then (True, ioapic_write_entry ioapic gsi (set_trigger_mode trigger_mode current_entry) s)
                 else (True, s))))"

definition ioapic_set_gsi_polarity ::
  "u32 \<Rightarrow> u32 \<Rightarrow> 'a ioapic_state_scheme \<Rightarrow> bool \<times> 'a ioapic_state_scheme" where
  "ioapic_set_gsi_polarity gsi polarity s =
     (case ioapic_from_gsi gsi s of
        None \<Rightarrow> (False, s)
      | Some ioapic \<Rightarrow>
          (let (current_entry, s) = ioapic_read_entry ioapic gsi s
           in if red_delivery_mode current_entry = ICR_SMI \<and> polarity \<noteq> ACTIVE_HIGH then (False, s)
              else if red_polarity current_entry \<noteq> polarity
              then (True, ioapic_write_entry ioapic gsi (set_polarity polarity current_entry) s)
              else (True, s)))"

definition ioapic_reroute_gsi :: "u32 \<Rightarrow> u8 \<Rightarrow> 'a ioapic_state_scheme \<Rightarrow> bool \<times> 'a ioapic_state_scheme" where
  "ioapic_reroute_gsi gsi lapic_id s =
     (case ioapic_from_gsi gsi s of
        None \<Rightarrow> (False, s)
      | Some ioapic \<Rightarrow>
          (let (current_entry, s) = ioapic_read_entry ioapic gsi s
           in if red_destination current_entry \<noteq> lapic_id
              then (True, ioapic_write_entry ioapic gsi (set_destination lapic_id current_entry) s)
              else (True, s)))"

definition mask_irq :: "u8 \<Rightarrow> 'a ioapic_state_scheme \<Rightarrow> 'a ioapic_state_scheme" where
  "mask_irq irq s = snd (ioapic_set_gsi_mask (gsi_from_irq irq s) True s)"

definition unmask_irq :: "u8 \<Rightarrow> 'a ioapic_state_scheme \<Rightarrow> 'a ioapic_state_scheme" where
  "unmask_irq irq s = snd (ioapic_set_gsi_mask (gsi_from_irq irq s) False s)"

section \<open>Parsing the table\<close>

text \<open>A structure assignment copies the bytes of the structure.\<close>

primrec store_bytes :: "mem \<Rightarrow> u64 \<Rightarrow> u8 list \<Rightarrow> mem" where
  "store_bytes m a [] = m"
| "store_bytes m a (b # bs) = store_bytes (m(a := b)) (a + 1) bs"

definition copy_struct :: "nat \<Rightarrow> u64 \<Rightarrow> u64 \<Rightarrow> 'a ioapic_state_scheme \<Rightarrow> 'a ioapic_state_scheme" where
  "copy_struct n src dst s = s\<lparr>memory := store_bytes (memory s) dst (bytes_from (memory s) src n)\<rparr>"

text \<open>One round of the loop of \<^verbatim>\<open>ParseMadt\<close>; \<open>record\<close> is the address of the record.\<close>

definition parse_record ::
  "(i32 \<Rightarrow> ioredtbl_t) \<Rightarrow> u64 \<Rightarrow> 'a ioapic_state_scheme \<Rightarrow> 'a ioapic_state_scheme" where
  "parse_record junk rec s =
     (let f = SMP_INFO s; m = memory s; ty = m rec
      in if ty = PROCESSOR_LOCAL_APIC then
           (let r = read_lapic m rec;
                s = copy_struct 8 rec (lapic_ptr f (num_lapics f)) s;
                s = s\<lparr>SMP_INFO := (SMP_INFO s)\<lparr>num_lapics := num_lapics f + 1\<rparr>\<rparr>
            in PrintK_log (''Detected LAPIC w/ id %d and processor id %d'' @ [CHR 0x0A])
                 [KNum (ucast (pla_apic_id r)), KNum (ucast (pla_acpi_processor_id r))] s)
         else if ty = IO_APIC then
           (let r = read_io_apic m rec;
                s = copy_struct 12 rec (io_apic_ptr f (num_io_apics f)) s;
                s = s\<lparr>SMP_INFO := (SMP_INFO s)\<lparr>num_io_apics := num_io_apics f + 1\<rparr>\<rparr>;
                s = PrintK_log (''Detected IO APIC at addr 0x%h w/ GSI base 0x%h'' @ [CHR 0x0A])
                      [KNum (ucast (io_apic_addr r)), KNum (ucast (gsib r))] s
            in register_ioapic junk r s)
         else if ty = INTERRUPT_SOURCE_OVERRIDE then
           (let r = read_iso m rec;
                s = copy_struct 10 rec (iso_ptr f (num_isos f)) s;
                s = s\<lparr>SMP_INFO := (SMP_INFO s)\<lparr>num_isos := num_isos f + 1\<rparr>\<rparr>
            in PrintK_log (''Detected ISO w/ GSI %d, IRQ %d'' @ [CHR 0x0A])
                 [KNum (ucast (iso_gsi r)), KNum (ucast (irq_source r))] s)
         else if ty = NON_MASKABLE_INTERRUPT_SOURCE then
           (let r = read_nmi_source m rec;
                s = copy_struct 10 rec (nmi_source_ptr f (num_nmi_sources f)) s;
                s = s\<lparr>SMP_INFO := (SMP_INFO s)\<lparr>num_nmi_sources := num_nmi_sources f + 1\<rparr>\<rparr>
            in PrintK_log (''Detected NMI source w/ GSI %d, source %d'' @ [CHR 0x0A])
                 [KNum (ucast (nms_gsi r)), KNum (ucast (nmi_source r))] s)
         else if ty = LOCAL_NON_MASKABLE_INTERRUPT then
           (let r = read_nmi m rec;
                s = copy_struct 6 rec (nmi_ptr f (num_nmis f)) s;
                s = s\<lparr>SMP_INFO := (SMP_INFO s)\<lparr>num_nmis := num_nmis f + 1\<rparr>\<rparr>
            in PrintK_log (''Detected NMI w/ LAPIC ID %d, LINT %d'' @ [CHR 0x0A])
                 [KNum (ucast (nmi_acpi_processor_id r)), KNum (if lint r then 1 else 0)] s)
         else if ty = LOCAL_APIC_ADDRESS_OVERRIDE then
           (let r = read_lapic_override m rec;
                s = s\<lparr>SMP_INFO := (SMP_INFO s)\<lparr>lapic_addr := lao_local_apic_addr r\<rparr>\<rparr>
            in PrintK_log (''Detected new LAPIC addr of %d'' @ [CHR 0x0A])
                 [KNum (lapic_addr (SMP_INFO s))] s)
         else s)"

text \<open>The loop ends when the records fill the table; a record of length 0 never ends it.\<close>

partial_function (option) madt_loop ::
  "(i32 \<Rightarrow> ioredtbl_t) \<Rightarrow> u64 \<Rightarrow> i32 \<Rightarrow> i32 \<Rightarrow> 'a ioapic_state_scheme \<Rightarrow> 'a ioapic_state_scheme option" where
  "madt_loop junk base i madt_len s =
     (if sint (0x2C + i) < sint madt_len then
        madt_loop junk base (i + ucast (memory s (base + i32_to_u64 i + 1))) madt_len
          (parse_record junk (base + i32_to_u64 i) s)
      else Some s)"

text \<open>
  \<^verbatim>\<open>ParseMadt\<close>; \<open>apic_id_str\<close> is the address of the literal \<^verbatim>\<open>"APIC"\<close>. The result of
  \<^verbatim>\<open>FindTable\<close> is dereferenced without a test for \<^verbatim>\<open>NULL\<close>.
\<close>

definition ParseMadt ::
  "(i32 \<Rightarrow> ioredtbl_t) \<Rightarrow> u64 \<Rightarrow> 'a ioapic_state_scheme \<Rightarrow> 'a ioapic_state_scheme option" where
  "ParseMadt junk apic_id_str s =
     (let s = s\<lparr>MADT := FindTable apic_id_str s\<rparr>;
          madt_len = load32 (memory s) (MADT s + 4)
      in do {
        (p, s) \<leftarrow> AllocFirstFrame s;
        let s = s\<lparr>SMP_INFO := (SMP_INFO s)\<lparr>io_apics := p\<rparr>\<rparr>;
        (p, s) \<leftarrow> AllocFirstFrame s;
        let s = s\<lparr>SMP_INFO := (SMP_INFO s)\<lparr>lapics := p\<rparr>\<rparr>;
        (p, s) \<leftarrow> AllocFirstFrame s;
        let s = s\<lparr>SMP_INFO := (SMP_INFO s)\<lparr>isos := p\<rparr>\<rparr>;
        (p, s) \<leftarrow> AllocFirstFrame s;
        let s = s\<lparr>SMP_INFO := (SMP_INFO s)\<lparr>nmi_sources := p\<rparr>\<rparr>;
        (p, s) \<leftarrow> AllocFirstFrame s;
        let s = s\<lparr>SMP_INFO := (SMP_INFO s)\<lparr>nmis := p\<rparr>\<rparr>;
        madt_loop junk (MADT s + MADT_RECORDS_OFFSET) 0 madt_len s
      })"

section \<open>What the device keeps\<close>

text \<open>The registers of the device that an \<^verbatim>\<open>ioapic_t\<close> addresses, its index aside.\<close>

definition well_addressed :: "ioapic_t \<Rightarrow> bool" where
  "well_addressed io \<longleftrightarrow> iowin io = ioregsel io + 0x10"

abbreviation dev :: "ioapic_t \<Rightarrow> 'a ioapic_state_scheme \<Rightarrow> ioapic_dev" where
  "dev io s \<equiv> ioapic_devs s (ioregsel io)"

definition kept_bits :: "ioapic_dev \<Rightarrow> u8 \<Rightarrow> u32 \<Rightarrow> u32" where
  "kept_bits d r v = (dev_regs d r AND dev_ro d r) OR (v AND NOT (dev_ro d r))"

lemma ucast_8_32_8 [simp]: "(ucast (ucast (r :: u8) :: u32) :: u8) = r"
  by (rule bit_word_eqI) (simp add: bit_ucast_iff)

lemma ioapic_read_eq:
  "well_addressed io \<Longrightarrow> ioapic_read io r s =
    (dev_regs (dev io s) r, s\<lparr>ioapic_devs := (ioapic_devs s)(ioregsel io := (dev io s)\<lparr>dev_sel := ucast r\<rparr>)\<rparr>)"
  by (simp add: ioapic_read_def write_ioregsel_def read_iowin_def well_addressed_def Let_def)

lemma ioapic_write_eq:
  "well_addressed io \<Longrightarrow> ioapic_write io r v s =
    s\<lparr>ioapic_devs := (ioapic_devs s)(ioregsel io := (dev io s)\<lparr>dev_sel := ucast r,
        dev_regs := (dev_regs (dev io s))(r := kept_bits (dev io s) r v)\<rparr>)\<rparr>"
  by (simp add: ioapic_write_def write_ioregsel_def write_iowin_def dev_write_def well_addressed_def
      kept_bits_def Let_def)

definition pin_reg :: "ioapic_t \<Rightarrow> u32 \<Rightarrow> u8" where
  "pin_reg io gsi = ucast (0x10 + (gsi - min_gsi io) * 2)"

lemma pin_reg_high: "(ucast (0x11 + (gsi - min_gsi io) * 2 :: u32) :: u8) = pin_reg io gsi + 1"
proof -
  have step: "(ucast (x + 1 :: u32) :: u8) = ucast x + 1" for x
  proof -
    have "unat (x + 1) mod 256 = (unat x + 1) mod 256"
      by (simp add: unat_word_ariths mod_mod_cancel)
    then show ?thesis
      by (simp add: word_unat_eq_iff unsigned_ucast_eq take_bit_eq_mod unat_word_ariths mod_simps)
  qed
  have "(0x11 + (gsi - min_gsi io) * 2 :: u32) = (0x10 + (gsi - min_gsi io) * 2) + 1" by simp
  then show ?thesis by (simp only: pin_reg_def step)
qed

lemma plus_one_neq [simp]: "(x :: u8) + 1 \<noteq> x" "x \<noteq> (x :: u8) + 1"
  by simp_all

lemma ioapic_read_entry_eq:
  assumes "well_addressed io"
  shows "ioapic_read_entry io gsi s =
    (ucast (dev_regs (dev io s) (pin_reg io gsi)) OR ucast (shl32 (dev_regs (dev io s) (pin_reg io gsi + 1)) 31),
     s\<lparr>ioapic_devs := (ioapic_devs s)(ioregsel io := (dev io s)\<lparr>dev_sel := ucast (pin_reg io gsi + 1)\<rparr>)\<rparr>)"
  unfolding ioapic_read_entry_def Let_def pin_reg_high pin_reg_def [symmetric]
  by (simp add: ioapic_read_eq [OF assms])

lemma ioapic_write_entry_regs:
  assumes "well_addressed io"
  shows "dev_regs (dev io (ioapic_write_entry io gsi e s)) =
    (dev_regs (dev io s))(pin_reg io gsi := kept_bits (dev io s) (pin_reg io gsi) (lower_dword e),
       pin_reg io gsi + 1 := kept_bits (dev io s) (pin_reg io gsi + 1) (upper_dword e))"
  unfolding ioapic_write_entry_def Let_def pin_reg_high pin_reg_def [symmetric]
  by (simp add: ioapic_write_eq [OF assms] kept_bits_def)

text \<open>Only the double words of the entry written change, in the device addressed.\<close>

lemma ioapic_write_entry_frame:
  assumes "well_addressed io"
  shows "memory (ioapic_write_entry io gsi e s) = memory s"
    and "SMP_INFO (ioapic_write_entry io gsi e s) = SMP_INFO s"
    and "a \<noteq> ioregsel io \<Longrightarrow> ioapic_devs (ioapic_write_entry io gsi e s) a = ioapic_devs s a"
    and "IOAPICS (ioapic_write_entry io gsi e s) = IOAPICS s"
    and "VECTOR_ATTRS (ioapic_write_entry io gsi e s) = VECTOR_ATTRS s"
    and "dev_ro (dev io (ioapic_write_entry io gsi e s)) = dev_ro (dev io s)"
  by (simp_all add: ioapic_write_entry_def ioapic_write_eq [OF assms] Let_def)

section \<open>Masking and routing\<close>

lemma shl32_31: "shl32 hi 31 = push_bit 31 hi"
proof -
  have "unat ((31 :: u32) AND 31) = 31" by (simp add: unat_and_31)
  then show ?thesis by (simp only: shl32_def)
qed

definition entry_read :: "ioapic_dev \<Rightarrow> u8 \<Rightarrow> ioredtbl_t" where
  "entry_read d r = ucast (dev_regs d r) OR ucast (shl32 (dev_regs d (r + 1)) 31)"

lemma bit_entry_read:
  "bit (entry_read d r) i \<longleftrightarrow> bit (dev_regs d r) i \<or> i = 31 \<and> bit (dev_regs d (r + 1)) 0"
  by (auto simp: entry_read_def shl32_31 bit_or_iff bit_ucast_iff bit_push_bit_iff dest: bit_imp_le_length)

lemma red_mask_iff: "red_mask e = (if masked then 1 else 0) \<longleftrightarrow> bit e 16 = masked"
proof -
  have "red_mask e = (if bit e 16 then 1 else 0)"
    by (rule bit_word_eqI) (auto simp: red_mask_def bit_ucast_iff bit_get_field bit_1_iff)
  then show ?thesis by simp
qed

lemma lower_set_mask_read:
  "lower_dword (set_mask (if masked then 1 else 0) (entry_read d r)) =
    (if masked then set_bit 16 (dev_regs d r) else unset_bit 16 (dev_regs d r)) OR push_bit 31 (dev_regs d (r + 1))"
  by (rule bit_word_eqI)
    (auto simp: lower_dword_def set_mask_def bit_ucast_iff bit_set_field bit_entry_read bit_or_iff
      bit_set_bit_iff bit_unset_bit_iff bit_push_bit_iff possible_bit_def bit_1_iff)

lemma upper_set_mask_read: "upper_dword (set_mask v (entry_read d r)) = 0"
  by (rule bit_word_eqI)
    (auto simp: upper_dword_def set_mask_def bit_ucast_iff bit_drop_bit_eq bit_set_field bit_entry_read
      dest: bit_imp_le_length)

text \<open>Masking an interrupt. For an interrupt that a registered I/O APIC serves,
  \<^verbatim>\<open>ioapic_set_gsi_mask\<close> succeeds and leaves the mask bit of its redirection entry as asked
  (when the device lets it be written). When the bit has to change, the entry is written back from a
  faulty read: its upper double word becomes 0, so the interrupt is sent to processor 0 whatever
  processor it was routed to, and bit 31 picks up bit 0 of the upper double word.
\<close>

theorem ioapic_set_gsi_mask_effect:
  assumes "ioapic_from_gsi gsi s = Some io" "well_addressed io" "ioapic_set_gsi_mask gsi masked s = (ok, s')"
    and "r = pin_reg io gsi" "d = dev io s" "d' = dev io s'"
  shows "ok \<and> (\<not> bit (dev_ro d r) 16 \<longrightarrow> bit (dev_regs d' r) 16 = masked) \<and>
    dev_regs d' = (if bit (dev_regs d r) 16 = masked then dev_regs d
      else (dev_regs d)(r := kept_bits d r
          ((if masked then set_bit 16 (dev_regs d r) else unset_bit 16 (dev_regs d r))
             OR push_bit 31 (dev_regs d (r + 1))),
        r + 1 := kept_bits d (r + 1) 0))"
proof -
  let ?s1 = "s\<lparr>ioapic_devs := (ioapic_devs s)(ioregsel io := d\<lparr>dev_sel := ucast (r + 1)\<rparr>)\<rparr>"
  have read: "ioapic_read_entry io gsi s = (entry_read d r, ?s1)"
    using ioapic_read_entry_eq [OF assms(2), of gsi s] assms(4,5) by (simp add: entry_read_def)
  have mask: "red_mask (entry_read d r) = (if masked then 1 else 0) \<longleftrightarrow> bit (dev_regs d r) 16 = masked"
    by (simp add: red_mask_iff bit_entry_read)
  show ?thesis
  proof (cases "bit (dev_regs d r) 16 = masked")
    case True
    then have "ok" "s' = ?s1" using assms(1,3) read mask by (auto simp: ioapic_set_gsi_mask_def)
    then show ?thesis using True assms(5,6) by simp
  next
    case False
    then have w: "ok" "s' = ioapic_write_entry io gsi (set_mask (if masked then 1 else 0) (entry_read d r)) ?s1"
      using assms(1,3) read mask by (auto simp: ioapic_set_gsi_mask_def)
    have regs: "dev_regs d' = (dev_regs d)(r := kept_bits d r
          ((if masked then set_bit 16 (dev_regs d r) else unset_bit 16 (dev_regs d r))
             OR push_bit 31 (dev_regs d (r + 1))),
        r + 1 := kept_bits d (r + 1) 0)"
      unfolding assms(6) w(2) ioapic_write_entry_regs [OF assms(2)] lower_set_mask_read upper_set_mask_read
      by (simp add: assms(4) [symmetric] kept_bits_def)
    have "bit (dev_regs d' r) 16 = masked" if "\<not> bit (dev_ro d r) 16"
      unfolding regs using that
      by (auto simp: kept_bits_def bit_or_iff bit_and_iff bit_not_iff bit_set_bit_iff bit_unset_bit_iff
          bit_push_bit_iff possible_bit_def)
    then show ?thesis using w(1) regs False by simp
  qed
qed

text \<open>One I/O APIC at \<open>0xFEC00000\<close> with 24 pins; pin 1 is masked and routed to processor 3.\<close>

definition demo_ioapic_t :: ioapic_t where
  "demo_ioapic_t = \<lparr>present = True, ioregsel = 0xFEC00000, iowin = 0xFEC00010, min_gsi = 0, num_pins = 24,
     has_eoi = 1, apic_id = 0\<rparr>"

definition demo_ioapic :: ioapic_state where
  "demo_ioapic = madt_state.extend (acpi_state.extend demo_acpi (madt_state.fields 0 SMP_INFO_init))
     (ioapic_state.fields [demo_ioapic_t]
       (\<lambda>_. \<lparr>attrs = 0, attr_gsi = 0, attr_irq = 0, ioapic_ind = 0\<rparr>)
       (\<lambda>_. \<lparr>dev_sel = 0, dev_regs = (\<lambda>_. 0)(0x12 := 0x10021, 0x13 := 0x03000000), dev_ro = (\<lambda>_. 0)\<rparr>) 3)"

lemma demo_ioapic_fields [simp]:
  "IOAPICS demo_ioapic = [demo_ioapic_t]"
  "ioapic_devs demo_ioapic a =
     \<lparr>dev_sel = 0, dev_regs = (\<lambda>_. 0)(0x12 := 0x10021, 0x13 := 0x03000000), dev_ro = (\<lambda>_. 0)\<rparr>"
  "SMP_INFO demo_ioapic = SMP_INFO_init"
  by (simp_all add: demo_ioapic_def madt_state.defs acpi_state.defs ioapic_state.defs)

lemma demo_ioapic_serves: "ioapic_from_gsi 1 demo_ioapic = Some demo_ioapic_t" "well_addressed demo_ioapic_t"
  "pin_reg demo_ioapic_t 1 = 0x12" "ioregsel demo_ioapic_t = 0xFEC00000"
  by (simp_all add: ioapic_from_gsi_def serves_def demo_ioapic_t_def well_addressed_def pin_reg_def MAX_IOAPICS_def)

theorem ioapic_set_gsi_mask_effect_witness:
  "let s' = snd (ioapic_set_gsi_mask 1 False demo_ioapic)
   in fst (ioapic_set_gsi_mask 1 False demo_ioapic) \<and> dev_regs (ioapic_devs s' 0xFEC00000) 0x13 = 0
      \<and> \<not> bit (dev_regs (ioapic_devs s' 0xFEC00000) 0x12) 16"
proof -
  obtain ok s' where e: "ioapic_set_gsi_mask 1 False demo_ioapic = (ok, s')" by (cases "ioapic_set_gsi_mask 1 False demo_ioapic")
  have "bit (0x10021 :: u32) 16" by simp
  then show ?thesis
    using ioapic_set_gsi_mask_effect [OF demo_ioapic_serves(1,2) e refl refl refl]
    by (simp add: e demo_ioapic_serves kept_bits_def)
qed

text \<open>C33. Routing an interrupt. For an interrupt line whose global interrupt a registered I/O APIC serves,
  \<^verbatim>\<open>ioapic_route_irq\<close> succeeds and writes, to the two double words of the pin and to no other
  register of any device, an entry with the vector, the destination and the mask asked for, fixed
  delivery, active high and edge triggered; without such an I/O APIC it fails and writes nothing. The
  global interrupt is the one of the first override of the line, or the line itself.
\<close>

theorem ioapic_route_irq_correct:
  assumes "gsi = (case List.find (\<lambda>r. irq_source r = irq) (iso_list s) of None \<Rightarrow> ucast irq | Some r \<Rightarrow> iso_gsi r)"
    and "\<forall>io. ioapic_from_gsi gsi s = Some io \<longrightarrow> well_addressed io"
  shows "case ioapic_from_gsi gsi s of
      None \<Rightarrow> \<not> fst (ioapic_route_irq irq lapic vector masked s)
        \<and> ioapic_devs (snd (ioapic_route_irq irq lapic vector masked s)) = ioapic_devs s
    | Some io \<Rightarrow> \<exists>e. fst (ioapic_route_irq irq lapic vector masked s) \<and>
        red_vector e = vector \<and> red_destination e = lapic \<and> (red_mask e = 1 \<longleftrightarrow> masked) \<and>
        red_delivery_mode e = ICR_FIXED \<and> red_polarity e = ACTIVE_HIGH \<and> red_trigger_mode e = EDGE_SENSITIVE \<and>
        dev_regs (dev io (snd (ioapic_route_irq irq lapic vector masked s))) =
          (dev_regs (dev io s))(pin_reg io gsi := kept_bits (dev io s) (pin_reg io gsi) (lower_dword e),
             pin_reg io gsi + 1 := kept_bits (dev io s) (pin_reg io gsi + 1) (upper_dword e)) \<and>
        (\<forall>a. a \<noteq> ioregsel io \<longrightarrow>
          ioapic_devs (snd (ioapic_route_irq irq lapic vector masked s)) a = ioapic_devs s a)"
proof -
  define s0 where "s0 = PrintK_log (''Routing irq 0x%h to LAPIC 0x%h w/ vector 0x%h'' @ [CHR 0x0A])
                [KNum (ucast irq), KNum (ucast lapic), KNum (ucast vector)] s"
  have s0 [simp]: "ioapic_devs s0 = ioapic_devs s" "ioapic_from_gsi gsi s0 = ioapic_from_gsi gsi s"
    "gsi_from_irq irq s0 = gsi"
    by (simp_all add: s0_def PrintK_log_def ioapic_from_gsi_def gsi_from_irq_eq iso_list_def assms(1))
  show ?thesis
  proof (cases "ioapic_from_gsi gsi s")
    case None
    then show ?thesis unfolding ioapic_route_irq_def s0_def [symmetric] by (simp add: Let_def)
  next
    case (Some io)
    then have wa: "well_addressed io" using assms(2) by blast
    define e where "e = set_mask (if masked then 1 else 0) (set_destination lapic
       (set_trigger_mode EDGE_SENSITIVE (set_delivery_mode ICR_FIXED
         (set_polarity ACTIVE_HIGH (set_vector vector (entry_read (dev io s) (pin_reg io gsi)))))))"
    define s1 where "s1 = PrintK_log (''Upper dword: 0x%h'' @ [CHR 0x0A]) [KNum (ucast (upper_dword e))]
       (PrintK_log (''Lower dword: 0x%h'' @ [CHR 0x0A]) [KNum (ucast (lower_dword e))]
         (s0\<lparr>ioapic_devs := (ioapic_devs s)(ioregsel io := (dev io s)\<lparr>dev_sel := ucast (pin_reg io gsi + 1)\<rparr>)\<rparr>))"
    have run: "ioapic_route_irq irq lapic vector masked s = (True, ioapic_write_entry io gsi e s1)"
      using Some unfolding ioapic_route_irq_def s0_def [symmetric] s1_def e_def entry_read_def
      by (simp add: Let_def ioapic_read_entry_eq [OF wa])
    have devs: "ioapic_devs s1 = (ioapic_devs s)(ioregsel io := (dev io s)\<lparr>dev_sel := ucast (pin_reg io gsi + 1)\<rparr>)"
      by (simp add: s1_def PrintK_log_def)
    have 1: "red_vector e = vector" "red_destination e = lapic" "red_delivery_mode e = ICR_FIXED"
      "red_polarity e = ACTIVE_HIGH" "red_trigger_mode e = EDGE_SENSITIVE"
      by (rule bit_word_eqI; simp add: e_def red_vector_def red_destination_def red_delivery_mode_def
          red_polarity_def red_trigger_mode_def set_mask_def set_destination_def set_trigger_mode_def
          set_delivery_mode_def set_polarity_def set_vector_def bit_ucast_iff bit_get_field bit_set_field
          ICR_FIXED_def ACTIVE_HIGH_def EDGE_SENSITIVE_def)+
    have 2: "red_mask e = 1 \<longleftrightarrow> masked"
      using red_mask_iff [of e True] by (auto simp: e_def set_mask_def bit_set_field)
    have 3: "dev_regs (dev io (ioapic_write_entry io gsi e s1)) =
          (dev_regs (dev io s))(pin_reg io gsi := kept_bits (dev io s) (pin_reg io gsi) (lower_dword e),
             pin_reg io gsi + 1 := kept_bits (dev io s) (pin_reg io gsi + 1) (upper_dword e))"
      unfolding ioapic_write_entry_regs [OF wa] devs by (simp add: kept_bits_def)
    have 4: "ioapic_devs (ioapic_write_entry io gsi e s1) a = ioapic_devs s a" if "a \<noteq> ioregsel io" for a
      using that by (simp add: ioapic_write_entry_frame(3) [OF wa] devs)
    show ?thesis unfolding Some option.case run fst_conv snd_conv using 1 2 3 4 by blast
  qed
qed

theorem ioapic_route_irq_correct_witness:
  "\<exists>e. red_vector e = 0x21 \<and> red_destination e = 2 \<and> red_mask e \<noteq> 1 \<and>
    dev_regs (ioapic_devs (snd (ioapic_route_irq 1 2 0x21 False demo_ioapic)) 0xFEC00000) 0x13 = upper_dword e"
proof -
  have "iso_list demo_ioapic = []" by (simp add: iso_list_def SMP_INFO_init_def)
  then show ?thesis
    using ioapic_route_irq_correct [of 1 1 demo_ioapic 2 "0x21" False]
    by (auto simp: demo_ioapic_serves kept_bits_def)
qed

section \<open>The parsed records\<close>

text \<open>Registering an I/O APIC programs the device only: memory and the arrays stay.\<close>

definition smp_frame :: "'a ioapic_state_scheme \<Rightarrow> 'a ioapic_state_scheme \<Rightarrow> bool" where
  "smp_frame s s' \<longleftrightarrow> memory s' = memory s \<and> SMP_INFO s' = SMP_INFO s"

lemma smp_frame_refl [simp]: "smp_frame s s"
  by (simp add: smp_frame_def)

lemma smp_frame_trans: "smp_frame s t \<Longrightarrow> smp_frame t u \<Longrightarrow> smp_frame s u"
  by (simp add: smp_frame_def)

lemma ioapic_access_frame [simp]:
  "memory (snd (ioapic_read io r s)) = memory s" "SMP_INFO (snd (ioapic_read io r s)) = SMP_INFO s"
  "memory (ioapic_write io r v s) = memory s" "SMP_INFO (ioapic_write io r v s) = SMP_INFO s"
  "memory (ioapic_write_entry io gsi e s) = memory s" "SMP_INFO (ioapic_write_entry io gsi e s) = SMP_INFO s"
  by (simp_all add: ioapic_read_def ioapic_write_def ioapic_write_entry_def
      write_ioregsel_def write_iowin_def Let_def)

lemma gsi_entry_frame [simp]:
  "memory (snd (gsi_entry gsi e s)) = memory s" "SMP_INFO (snd (gsi_entry gsi e s)) = SMP_INFO s"
  by (simp_all add: gsi_entry_def Let_def PrintK_log_def)

lemma init_gsi_frame: "smp_frame s (init_gsi junk io gsi s)"
  by (simp add: init_gsi_def Let_def smp_frame_def case_prod_beta)

lemma init_ints_loop_frame: "smp_frame s (init_ints_loop junk io gsi bound s)"
proof (induction junk io gsi bound s rule: init_ints_loop.induct)
  case (1 junk io gsi bound s)
  then show ?case
    using smp_frame_trans [OF init_gsi_frame [of s junk io gsi]] by (subst init_ints_loop.simps) simp
qed

lemma register_ioapic_frame: "smp_frame s (register_ioapic junk r s)"
  unfolding register_ioapic_def initialize_ioapic_ints_def Let_def case_prod_beta
  by (rule smp_frame_trans [OF _ init_ints_loop_frame]) (simp add: smp_frame_def)

lemma store_bytes_other: "\<not> in_range x a (length bs) \<Longrightarrow> store_bytes m a bs x = m x"
  by (induction bs arbitrary: m a) (auto simp: in_range_Suc)

lemma store_bytes_at: "length bs < 2 ^ 64 \<Longrightarrow> i < length bs \<Longrightarrow> store_bytes m a bs (a + of_nat i) = bs ! i"
proof (induction bs arbitrary: m a i)
  case (Cons b bs)
  show ?case
  proof (cases i)
    case 0
    then show ?thesis
      using Cons.prems(1) by (simp add: store_bytes_other in_range_next_self)
  next
    case (Suc j)
    then show ?thesis using Cons.IH [of j _ "a + 1"] Cons.prems by (simp add: add.assoc)
  qed
qed simp

lemma copy_struct_at:
  "i < n \<Longrightarrow> n < 2 ^ 64 \<Longrightarrow> memory (copy_struct n src dst s) (dst + of_nat i) = memory s (src + of_nat i)"
  by (simp add: copy_struct_def store_bytes_at bytes_from_def)

lemma copy_struct_other: "\<not> in_range x dst n \<Longrightarrow> memory (copy_struct n src dst s) x = memory s x"
  by (simp add: copy_struct_def store_bytes_other bytes_from_def)

text \<open>A record is determined by its bytes.\<close>

lemma read_iso_cong:
  assumes "\<And>i. i < 10 \<Longrightarrow> m' (q + of_nat i) = m (p + of_nat i)"
  shows "read_iso m' q = read_iso m p"
proof -
  have at: "m' (q + numeral k) = m (p + numeral k)" if "numeral k < (10 :: nat)" for k
    using assms [of "numeral k"] that by simp
  have "m' q = m p" "m' (q + 1) = m (p + 1)" using assms [of 0] assms [of 1] by simp_all
  then show ?thesis
    using at
    by (simp add: read_iso_def read_header_def load32_def load16_def load_le_numeral add.assoc)
qed

lemma register_ioapic_keeps [simp]:
  "memory (register_ioapic junk r s) = memory s" "SMP_INFO (register_ioapic junk r s) = SMP_INFO s"
  using register_ioapic_frame [of s junk r] by (simp_all add: smp_frame_def)

lemma copy_struct_SMP_INFO [simp]: "SMP_INFO (copy_struct n src dst s) = SMP_INFO s"
  by (simp add: copy_struct_def)

lemma parse_record_memory:
  "memory (parse_record junk p s) =
    (let f = SMP_INFO s; ty = memory s p
     in if ty = 0 then memory (copy_struct 8 p (lapic_ptr f (num_lapics f)) s)
        else if ty = 1 then memory (copy_struct 12 p (io_apic_ptr f (num_io_apics f)) s)
        else if ty = 2 then memory (copy_struct 10 p (iso_ptr f (num_isos f)) s)
        else if ty = 3 then memory (copy_struct 10 p (nmi_source_ptr f (num_nmi_sources f)) s)
        else if ty = 4 then memory (copy_struct 6 p (nmi_ptr f (num_nmis f)) s)
        else memory s)"
  by (simp add: parse_record_def Let_def PrintK_log_def PROCESSOR_LOCAL_APIC_def IO_APIC_def
      INTERRUPT_SOURCE_OVERRIDE_def NON_MASKABLE_INTERRUPT_SOURCE_def LOCAL_NON_MASKABLE_INTERRUPT_def
      LOCAL_APIC_ADDRESS_OVERRIDE_def)

lemma parse_record_SMP_INFO:
  "SMP_INFO (parse_record junk p s) =
    (let f = SMP_INFO s; ty = memory s p
     in if ty = 0 then f\<lparr>num_lapics := num_lapics f + 1\<rparr>
        else if ty = 1 then f\<lparr>num_io_apics := num_io_apics f + 1\<rparr>
        else if ty = 2 then f\<lparr>num_isos := num_isos f + 1\<rparr>
        else if ty = 3 then f\<lparr>num_nmi_sources := num_nmi_sources f + 1\<rparr>
        else if ty = 4 then f\<lparr>num_nmis := num_nmis f + 1\<rparr>
        else if ty = 5 then f\<lparr>lapic_addr := lao_local_apic_addr (read_lapic_override (memory s) p)\<rparr>
        else f)"
  by (simp add: parse_record_def Let_def PrintK_log_def PROCESSOR_LOCAL_APIC_def IO_APIC_def
      INTERRUPT_SOURCE_OVERRIDE_def NON_MASKABLE_INTERRUPT_SOURCE_def LOCAL_NON_MASKABLE_INTERRUPT_def
      LOCAL_APIC_ADDRESS_OVERRIDE_def)

text \<open>
  The table of \<open>n\<close> bytes at \<open>base\<close> lies apart from the five frames, the frame of the overrides
  apart from the others, and there is room for \<open>k\<close> more records of each kind.
\<close>

definition smp_frames :: "smp_info_t \<Rightarrow> u64 list" where
  "smp_frames f = [lapics f, io_apics f, nmi_sources f, nmis f]"

definition madt_layout :: "smp_info_t \<Rightarrow> u64 \<Rightarrow> nat \<Rightarrow> bool" where
  "madt_layout f base n \<longleftrightarrow>
     list_all (\<lambda>a. disjoint base n a 4096 \<and> disjoint (isos f) 4096 a 4096) (smp_frames f) \<and>
     disjoint base n (isos f) 4096"

definition madt_room :: "smp_info_t \<Rightarrow> nat \<Rightarrow> bool" where
  "madt_room f k \<longleftrightarrow> list_all (\<lambda>c. unat c + k \<le> 341)
     [num_lapics f, num_io_apics f, num_isos f, num_nmi_sources f, num_nmis f]"

lemma unat_mult_small: "unat (c :: u64) \<le> 341 \<Longrightarrow> unat e \<le> 12 \<Longrightarrow> unat (e * c) = unat e * unat c"
proof -
  assume c: "unat (c :: u64) \<le> 341" "unat e \<le> 12"
  then have "unat e * unat c \<le> 12 * 341" by (intro mult_le_mono)
  then have "unat e * unat c < 2 ^ 64" by (rule le_less_trans) simp
  then show ?thesis by (simp only: unat_word_ariths) simp
qed

text \<open>The element written lies in the frame of its array.\<close>

lemma element_in_frame:
  assumes "in_range x (a + e * c) n" "unat c < 341" "unat e = n" "n \<le> 12"
  shows "in_range x a 4096"
proof (rule field_range [OF assms(1)])
  have "unat (e * c) = n * unat c" using unat_mult_small [of c e] assms(2-4) by simp
  moreover have "n * unat c + n \<le> 12 * 341"
  proof -
    have "n * unat c + n = n * Suc (unat c)" by simp
    also have "\<dots> \<le> 12 * 341" by (rule mult_le_mono) (use assms in auto)
    finally show ?thesis .
  qed
  ultimately show "unat (e * c) + n \<le> 4096" by simp
qed simp

lemma iso_elements_apart:
  assumes "i < n" "n \<le> 341" "j < 10"
  shows "\<not> in_range (a + 10 * of_nat i + of_nat j) (a + 10 * of_nat n) 10"
proof
  assume *: "in_range (a + 10 * of_nat i + of_nat j) (a + 10 * of_nat n) 10"
  define d where "d = unat (a + 10 * of_nat i + of_nat j - (a + 10 * of_nat n))"
  have d: "d < 10" using * by (simp add: in_range_def d_def)
  have "a + 10 * of_nat i + of_nat j = a + 10 * of_nat n + of_nat d" by (simp add: d_def)
  then have "(of_nat (10 * i + j) :: u64) = of_nat (10 * n + d)" by (simp add: add.assoc)
  then have "unat (of_nat (10 * i + j) :: u64) = unat (of_nat (10 * n + d) :: u64)" by (rule arg_cong)
  moreover have "10 * i + j < 2 ^ 64" "10 * n + d < 2 ^ 64" using assms d by simp_all
  ultimately have "10 * i + j = 10 * n + d" by (simp only: unat_of_nat64)
  then show False using assms d by linarith
qed

lemma parse_record_step:
  assumes "madt_layout (SMP_INFO s) base n" "madt_room (SMP_INFO s) (Suc k)"
    and "memory s p = 2 \<Longrightarrow> \<forall>i < 10. in_range (p + of_nat i) base n"
    and s'_def: "s' = parse_record junk p s"
  shows "madt_layout (SMP_INFO s') base n \<and> madt_room (SMP_INFO s') k \<and>
    (\<forall>x. in_range x base n \<longrightarrow> memory s' x = memory s x) \<and>
    iso_list s' = iso_list s @ (if memory s p = 2 then [read_iso (memory s) p] else [])"
proof -
  let ?f = "SMP_INFO s" and ?m = "memory s" and ?m' = "memory s'"
  have room: "unat (num_lapics ?f) < 341" "unat (num_io_apics ?f) < 341" "unat (num_isos ?f) < 341"
    "unat (num_nmi_sources ?f) < 341" "unat (num_nmis ?f) < 341"
    using assms(2) by (auto simp: madt_room_def)
  have inc: "unat (c + 1) \<le> Suc (unat c)" for c :: u64
    using mod_less_eq_dividend [of "unat c + 1" "2 ^ 64"] by (simp add: unat_word_ariths)
  have inc': "unat (c + 1) + k \<le> 341" "unat c + k \<le> 341" if "unat c + Suc k \<le> 341" for c :: u64
    using inc [of c] that by linarith+
  have layout: "madt_layout (SMP_INFO s') base n" "madt_room (SMP_INFO s') k"
    using assms(1,2) inc' unfolding s'_def parse_record_SMP_INFO
    by (simp_all add: madt_layout_def smp_frames_def madt_room_def Let_def)
  have mem: "?m' x = ?m x" if "\<not> in_range x (lapics ?f) 4096" "\<not> in_range x (io_apics ?f) 4096"
    "\<not> in_range x (nmi_sources ?f) 4096" "\<not> in_range x (nmis ?f) 4096"
    "?m p = 2 \<Longrightarrow> \<not> in_range x (iso_ptr ?f (num_isos ?f)) 10" for x
    using that element_in_frame [where x = x] room
    unfolding s'_def parse_record_memory Let_def lapic_ptr_def io_apic_ptr_def nmi_source_ptr_def nmi_ptr_def
    by (auto intro!: copy_struct_other)
  have iso_frame: "in_range x (isos ?f) 4096" if "in_range x (iso_ptr ?f c) 10" "unat c < 341" for x c
    using element_in_frame [of x "isos ?f" 10 c 10] that by (simp add: iso_ptr_def)
  have table: "?m' x = ?m x" if "in_range x base n" for x
    using that assms(1) iso_frame room(3)
    by (intro mem) (auto simp: madt_layout_def smp_frames_def dest: disjointD)
  have iso_mem: "?m' x = ?m x" if "in_range x (isos ?f) 4096" "?m p = 2 \<Longrightarrow> \<not> in_range x (iso_ptr ?f (num_isos ?f)) 10" for x
    using that assms(1) by (intro mem) (auto simp: madt_layout_def smp_frames_def dest: disjointD)
  have old: "read_iso ?m' (iso_ptr ?f (of_nat i)) = read_iso ?m (iso_ptr ?f (of_nat i))"
    if "i < unat (num_isos ?f)" for i
  proof (rule read_iso_cong, rule iso_mem)
    fix j :: nat assume j: "j < 10"
    have "unat (of_nat i :: u64) < 341" using that room(3) by simp
    then show "in_range (iso_ptr ?f (of_nat i) + of_nat j) (isos ?f) 4096"
      using j iso_frame [of "iso_ptr ?f (of_nat i) + of_nat j" "of_nat i"] by (simp add: in_range_def)
    show "\<not> in_range (iso_ptr ?f (of_nat i) + of_nat j) (iso_ptr ?f (num_isos ?f)) 10"
      using iso_elements_apart [OF that _ j, of "isos ?f"] room(3) by (simp add: iso_ptr_def)
  qed
  have new: "read_iso ?m' (iso_ptr ?f (num_isos ?f)) = read_iso ?m p" if "?m p = 2"
    unfolding s'_def parse_record_memory using that
    by (intro read_iso_cong) (simp add: Let_def copy_struct_at)
  have "unat (num_isos ?f + 1) = Suc (unat (num_isos ?f))"
    using room(3) by (simp add: unat_plus_if')
  moreover have "iso_ptr (SMP_INFO s') = iso_ptr ?f"
    "num_isos (SMP_INFO s') = (if ?m p = 2 then num_isos ?f + 1 else num_isos ?f)"
    unfolding s'_def parse_record_SMP_INFO by (auto simp: Let_def iso_ptr_def)
  ultimately have "iso_list s' = iso_list s @ (if ?m p = 2 then [read_iso ?m p] else [])"
    using old new by (auto simp: iso_list_def)
  then show ?thesis using layout table by blast
qed

text \<open>The records \<open>rs\<close> as bytes, one after the other from \<open>p\<close> on; the second byte is the length.\<close>

fun madt_records :: "mem \<Rightarrow> u64 \<Rightarrow> u8 list list \<Rightarrow> bool" where
  "madt_records m p [] \<longleftrightarrow> True"
| "madt_records m p (r # rs) \<longleftrightarrow>
     2 \<le> length r \<and> length r < 256 \<and> r ! 1 = of_nat (length r) \<and> (r ! 0 = 2 \<longrightarrow> 10 \<le> length r) \<and>
     bytes_at m p r \<and> madt_records m (p + of_nat (length r)) rs"

fun iso_records :: "mem \<Rightarrow> u64 \<Rightarrow> u8 list list \<Rightarrow> IntSourceOverrideRecord list" where
  "iso_records m p [] = []"
| "iso_records m p (r # rs) =
     (if r ! 0 = 2 then [read_iso m p] else []) @ iso_records m (p + of_nat (length r)) rs"

abbreviation total_length :: "u8 list list \<Rightarrow> nat" where
  "total_length rs \<equiv> sum_list (map length rs)"

lemma in_range_between:
  "j < k \<Longrightarrow> k \<le> n \<Longrightarrow> n \<le> 2 ^ 64 \<Longrightarrow> in_range (base + of_nat j) base n"
  by (simp add: in_range_def)

lemma bytes_at_cong:
  "(\<And>j. j < length bs \<Longrightarrow> m' (a + of_nat j) = m (a + of_nat j)) \<Longrightarrow> bytes_at m' a bs = bytes_at m a bs"
  by (simp add: bytes_at_def)

lemma table_records_cong:
  assumes "\<And>x. in_range x base n \<Longrightarrow> m' x = m x" "off + total_length rs \<le> n" "n < 2 ^ 64"
  shows "madt_records m (base + of_nat off) rs \<Longrightarrow> madt_records m' (base + of_nat off) rs"
    and "madt_records m (base + of_nat off) rs \<Longrightarrow>
      iso_records m' (base + of_nat off) rs = iso_records m (base + of_nat off) rs"
proof -
  have same: "m' (base + of_nat off + of_nat j) = m (base + of_nat off + of_nat j)" if "off + j < n" for off j
  proof -
    have "in_range (base + of_nat (off + j)) base n"
      using that assms(3) by (intro in_range_between [of _ "Suc (off + j)"]) simp_all
    then show ?thesis using assms(1) by (simp add: add.assoc)
  qed
  have "madt_records m (base + of_nat off) rs \<Longrightarrow>
      madt_records m' (base + of_nat off) rs \<and>
      iso_records m' (base + of_nat off) rs = iso_records m (base + of_nat off) rs"
    using assms(2)
  proof (induction rs arbitrary: off)
    case (Cons r rs)
    let ?p = "base + of_nat off"
    have next_p: "?p + of_nat (length r) = base + of_nat (off + length r)" by (simp add: add.assoc)
    have "madt_records m (base + of_nat (off + length r)) rs" using Cons.prems(1) next_p by simp
    then have IH: "madt_records m' (base + of_nat (off + length r)) rs \<and>
        iso_records m' (base + of_nat (off + length r)) rs = iso_records m (base + of_nat (off + length r)) rs"
      using Cons.prems(2) by (intro Cons.IH) simp_all
    have at: "bytes_at m' ?p r = bytes_at m ?p r"
      using Cons.prems(2) by (intro bytes_at_cong same) simp
    have iso: "read_iso m' ?p = read_iso m ?p" if "10 \<le> length r"
      using that Cons.prems(2) by (intro read_iso_cong same) simp
    show ?case using Cons.prems(1) IH at iso unfolding madt_records.simps iso_records.simps next_p by simp
  qed simp
  then show "madt_records m (base + of_nat off) rs \<Longrightarrow> madt_records m' (base + of_nat off) rs"
    "madt_records m (base + of_nat off) rs \<Longrightarrow>
      iso_records m' (base + of_nat off) rs = iso_records m (base + of_nat off) rs" by blast+
qed

lemma sint_of_nat32: "n < 2 ^ 31 \<Longrightarrow> sint (of_nat n :: i32) = int n"
proof -
  assume n: "n < 2 ^ 31"
  then have "n < 2 ^ 32" by simp
  then have u: "unat (of_nat n :: i32) = n" by (rule unat_of_nat32)
  then have "nonneg (of_nat n :: i32)" using n unfolding nonneg_def by simp
  then show ?thesis by (simp only: sint_nonneg u)
qed

lemma madt_loop_records:
  assumes "madt_records (memory s) (base + of_nat off) rs" "0x2C + n < 2 ^ 31" "n = off + total_length rs"
    and "madt_layout (SMP_INFO s) base n" "madt_room (SMP_INFO s) (length rs)"
  shows "\<exists>s'. madt_loop junk base (of_nat off) (of_nat (0x2C + n)) s = Some s' \<and>
    iso_list s' = iso_list s @ iso_records (memory s) (base + of_nat off) rs"
  using assms
proof (induction rs arbitrary: off s)
  case Nil
  then have "of_nat (0x2C + n) = (0x2C + of_nat off :: i32)" by simp
  then show ?case by (subst madt_loop.simps) (simp only: less_irrefl if_False, simp)
next
  case (Cons r rs)
  let ?p = "base + of_nat off" and ?off = "off + length r"
  let ?s = "parse_record junk ?p s"
  have r: "2 \<le> length r" "length r < 256" "r ! 1 = of_nat (length r)" "r ! 0 = 2 \<Longrightarrow> 10 \<le> length r"
    "bytes_at (memory s) ?p r" "madt_records (memory s) (base + of_nat ?off) rs"
    using Cons.prems(1) by (simp_all add: add.assoc)
  have n: "?off + total_length rs = n" "n < 2 ^ 31" using Cons.prems(2,3) by simp_all
  have at: "memory s (?p + 1) = of_nat (length r)" "memory s ?p = r ! 0"
    using r(1,3) spec [OF r(5) [unfolded bytes_at_def], of 1] spec [OF r(5) [unfolded bytes_at_def], of 0]
    by (simp_all only: of_nat_1 of_nat_0 add_0_right) (cases r, simp_all)+
  have iso_in: "\<forall>i < 10. in_range (?p + of_nat i) base n" if "memory s ?p = 2"
  proof (intro allI impI)
    fix i :: nat assume "i < 10"
    then have "in_range (base + of_nat (off + i)) base n"
      using that at(2) r(4) n by (intro in_range_between [of _ "Suc (off + i)"]) simp_all
    then show "in_range (?p + of_nat i) base n" by (simp add: add.assoc)
  qed
  have "madt_room (SMP_INFO s) (Suc (length rs))" using Cons.prems(5) by simp
  note step = parse_record_step [OF Cons.prems(4) this iso_in refl, of junk]
  have tab: "memory ?s x = memory s x" if "in_range x base n" for x using step that by blast
  have recs: "madt_records (memory ?s) (base + of_nat ?off) rs"
    "iso_records (memory ?s) (base + of_nat ?off) rs = iso_records (memory s) (base + of_nat ?off) rs"
    using table_records_cong [of base n "memory ?s" "memory s" ?off rs] tab n r(6) by auto
  have "\<exists>s'. madt_loop junk base (of_nat ?off) (of_nat (0x2C + n)) ?s = Some s' \<and>
      iso_list s' = iso_list ?s @ iso_records (memory ?s) (base + of_nat ?off) rs"
    using step recs(1) n(1) by (intro Cons.IH [OF _ Cons.prems(2)]) (simp_all only: simp_thms)
  moreover have "madt_loop junk base (of_nat off) (of_nat (0x2C + n)) s
      = madt_loop junk base (of_nat ?off) (of_nat (0x2C + n)) ?s"
  proof -
    have "sint (0x2C + of_nat off :: i32) = int (0x2C + off)"
    proof -
      have "0x2C + off < 2 ^ 31" using n Cons.prems(2) by linarith
      from sint_of_nat32 [OF this] show ?thesis by (simp only: of_nat_add of_nat_numeral)
    qed
    moreover have "sint (of_nat (0x2C + n) :: i32) = int (0x2C + n)"
      by (rule sint_of_nat32 [OF Cons.prems(2)])
    moreover have "off < n" using n r(1) by simp
    ultimately have less: "sint (0x2C + of_nat off :: i32) < sint (of_nat (0x2C + n) :: i32)" by simp
    have "off < 2 ^ 31" using n by linarith
    then have off: "i32_to_u64 (of_nat off) = of_nat off"
      by (simp only: scast_eq sint_of_nat32 of_int_of_nat_eq)
    have "take_bit LENGTH(8) (length r) = length r"
      using r(2) by (intro take_bit_nat_eq_self) simp
    then have len: "(ucast (of_nat (length r) :: u8) :: i32) = of_nat (length r)"
      by (simp only: unsigned_of_nat)
    have "of_nat off + of_nat (length r) = (of_nat ?off :: i32)" by simp
    then show ?thesis using less by (subst madt_loop.simps) (simp only: off at len if_True)
  qed
  moreover have "iso_records (memory s) ?p (r # rs) =
      (if memory s ?p = 2 then [read_iso (memory s) ?p] else []) @ iso_records (memory s) (base + of_nat ?off) rs"
    by (simp add: at(2) add.assoc)
  ultimately show ?case using step recs(2) by (simp only: append_assoc)
qed

text \<open>C34. \<^verbatim>\<open>ParseMadt\<close>'s loop over a well-formed table returns, and the interrupt source overrides
  of the table, in their order, follow those known before; afterwards \<^verbatim>\<open>gsi_from_irq\<close> answers
  with the first of them for the line, and with the line itself when there is none. The table and the
  five frames the records are copied to must lie apart, with room for the records.\<close>

theorem madt_loop_overrides:
  assumes "madt_records (memory s) base rs" "0x2C + total_length rs < 2 ^ 31"
    and "madt_layout (SMP_INFO s) base (total_length rs)" "madt_room (SMP_INFO s) (length rs)"
  shows "\<exists>s'. madt_loop junk base 0 (of_nat (0x2C + total_length rs)) s = Some s' \<and>
    iso_list s' = iso_list s @ iso_records (memory s) base rs \<and>
    (\<forall>irq. gsi_from_irq irq s' =
      (case List.find (\<lambda>r. irq_source r = irq) (iso_list s @ iso_records (memory s) base rs) of
         None \<Rightarrow> ucast irq | Some r \<Rightarrow> iso_gsi r))"
  using madt_loop_records [of s base 0 rs "total_length rs" junk] assms
  by (auto simp: gsi_from_irq_eq)

text \<open>A table with one override: line 0 raises the global interrupt 2.\<close>

definition demo_madt_mem :: mem where
  "demo_madt_mem a = (case map_of [(0x102C, 2), (0x102D, 10), (0x1030, 2)] a of None \<Rightarrow> 0 | Some b \<Rightarrow> b)"

definition demo_madt :: ioapic_state where
  "demo_madt = demo_ioapic\<lparr>memory := demo_madt_mem,
     SMP_INFO := SMP_INFO_init\<lparr>io_apics := 0x2000, lapics := 0x3000, isos := 0x4000,
       nmi_sources := 0x5000, nmis := 0x6000\<rparr>\<rparr>"

theorem madt_loop_overrides_witness:
  "\<exists>s'. madt_loop (\<lambda>_. 0) 0x102C 0 54 demo_madt = Some s' \<and> gsi_from_irq 0 s' = 2 \<and> gsi_from_irq 1 s' = 1"
proof -
  let ?rs = "[[2, 10, 0, 0, 2, 0, 0, 0, 0, 0]] :: u8 list list"
  have "madt_records (memory demo_madt) 0x102C ?rs"
    by (simp add: demo_madt_def demo_madt_mem_def)
  moreover have "madt_layout (SMP_INFO demo_madt) 0x102C (total_length ?rs)"
    by (simp add: demo_madt_def madt_layout_def smp_frames_def SMP_INFO_init_def disjoint_nowrap)
  moreover have "madt_room (SMP_INFO demo_madt) (length ?rs)"
    by (simp add: demo_madt_def madt_room_def SMP_INFO_init_def)
  moreover have "iso_list demo_madt = []"
    by (simp add: iso_list_def demo_madt_def SMP_INFO_init_def)
  moreover have "irq_source (read_iso (memory demo_madt) 0x102C) = 0"
    "iso_gsi (read_iso (memory demo_madt) 0x102C) = 2"
    by (simp_all add: read_iso_def demo_madt_def demo_madt_mem_def load32_def load_le_numeral)
  ultimately show ?thesis
    using madt_loop_overrides [of demo_madt "0x102C" ?rs "\<lambda>_. 0"] by auto
qed

text \<open>A record of length 0 that the parser does not know keeps it in its loop for ever.\<close>

lemma madt_loop_zero_length:
  assumes "memory s (base + i32_to_u64 i + 1) = 0" "memory s (base + i32_to_u64 i) > 5"
    and "sint (0x2C + i) < sint madt_len"
  shows "madt_loop junk base i madt_len s = None"
proof -
  have skip: "parse_record junk (base + i32_to_u64 i) s = s"
    using assms(2) by (auto simp: parse_record_def Let_def PROCESSOR_LOCAL_APIC_def IO_APIC_def
      INTERRUPT_SOURCE_OVERRIDE_def NON_MASKABLE_INTERRUPT_SOURCE_def LOCAL_NON_MASKABLE_INTERRUPT_def
      LOCAL_APIC_ADDRESS_OVERRIDE_def)
  have "\<not> (junk' = junk \<and> base' = base \<and> i' = i \<and> l' = madt_len \<and> t = s)"
    if "madt_loop junk' base' i' l' t = Some y" for junk' base' i' l' t y
  proof (rule madt_loop.raw_induct [OF _ that], goal_cases)
    case (1 f junk' base' i' l' t y)
    then show ?case using assms(1,3) skip by (auto split: if_splits)
  qed
  from this [of junk base i madt_len s] show ?thesis
    by (cases "madt_loop junk base i madt_len s") simp_all
qed

end
