(* ===== verification/Pit.thy ===== *)
theory Pit
  imports Io_Apic
begin

text \<open>
  \<^verbatim>\<open>src/src/kernel/interrupts/io.c\<close> and \<^verbatim>\<open>src/src/kernel/hal/pit.c\<close>: port output and the
  interval timer. The bytes written to ports are recorded in order; a byte read from a port is an
  argument, since the device chooses it.
\<close>

unbundle bit_operations_syntax

section \<open>Data\<close>

text \<open>The functions the kernel registers as timer handler.\<close>

datatype timer_handler = Pit_increment

record pit_state = ioapic_state +
  ports_out :: "(u16 \<times> u8) list"
  TIMER_HANDLER :: "timer_handler option"

definition DEFAULT_PIT_HZ :: int where "DEFAULT_PIT_HZ = 1193180"

definition PIT_CHAN0_DATA :: u16 where "PIT_CHAN0_DATA = 0x40"

definition PIT_COMMAND :: u16 where "PIT_COMMAND = 0x43"

datatype pit_op_mode_t =
  INT_TERMINAL_COUNT | RETRIG_ONE_SHOT | RATE_GENERATOR | SQUARE_WAVE_GENERATOR | SOFTWARE_STROBE | HARDWARE_STROBE

fun pit_op_mode :: "pit_op_mode_t \<Rightarrow> u8" where
  "pit_op_mode INT_TERMINAL_COUNT = 0"
| "pit_op_mode RETRIG_ONE_SHOT = 1"
| "pit_op_mode RATE_GENERATOR = 2"
| "pit_op_mode SQUARE_WAVE_GENERATOR = 3"
| "pit_op_mode SOFTWARE_STROBE = 4"
| "pit_op_mode HARDWARE_STROBE = 5"

datatype pit_access_mode_t = PIT_LATCH | PIT_LOBYTE_ONLY | PIT_HIBYTE_ONLY | PIT_LO_AND_HI_BYTES

fun pit_access_mode :: "pit_access_mode_t \<Rightarrow> u8" where
  "pit_access_mode PIT_LATCH = 0"
| "pit_access_mode PIT_LOBYTE_ONLY = 1"
| "pit_access_mode PIT_HIBYTE_ONLY = 2"
| "pit_access_mode PIT_LO_AND_HI_BYTES = 3"

datatype pit_binary_mode_t = PIT_BINARY | PIT_BCD

fun pit_binary_mode :: "pit_binary_mode_t \<Rightarrow> u8" where
  "pit_binary_mode PIT_BINARY = 0"
| "pit_binary_mode PIT_BCD = 1"

text \<open>The packed bit-fields of the command byte.\<close>

definition pit_command_t :: "pit_binary_mode_t \<Rightarrow> pit_op_mode_t \<Rightarrow> pit_access_mode_t \<Rightarrow> u8 \<Rightarrow> u8" where
  "pit_command_t binary_mode operating_mode access_mode channel =
     set_field 6 2 channel (set_field 4 2 (pit_access_mode access_mode)
       (set_field 1 3 (pit_op_mode operating_mode) (set_field 0 1 (pit_binary_mode binary_mode) 0)))"

section \<open>Ports\<close>

definition outportb :: "u16 \<Rightarrow> u8 \<Rightarrow> 'a pit_state_scheme \<Rightarrow> 'a pit_state_scheme" where
  "outportb port byte s = s\<lparr>ports_out := ports_out s @ [(port, byte)]\<rparr>"

definition io_wait :: "'a pit_state_scheme \<Rightarrow> 'a pit_state_scheme" where
  "io_wait s = outportb 0x80 0 s"

section \<open>The timer\<close>

definition send_pit_command :: "u8 \<Rightarrow> 'a pit_state_scheme \<Rightarrow> 'a pit_state_scheme" where
  "send_pit_command command s = outportb PIT_COMMAND command s"

text \<open>\<open>None\<close> is the division fault of a rate of 0.\<close>

definition set_pit_periodic :: "u16 \<Rightarrow> 'a pit_state_scheme \<Rightarrow> 'a pit_state_scheme option" where
  "set_pit_periodic hz s =
     (let s = send_pit_command (pit_command_t PIT_BINARY RATE_GENERATOR PIT_LO_AND_HI_BYTES 0) s
      in if hz = 0 then None
         else
           (let reset_value = word_of_int (DEFAULT_PIT_HZ sdiv uint hz) :: u16;
                reset_lower = ucast reset_value :: u8;
                reset_upper = ucast (drop_bit 8 reset_value) :: u8
            in Some (outportb PIT_CHAN0_DATA reset_upper (outportb PIT_CHAN0_DATA reset_lower s))))"

definition read_pit_count :: "u8 \<Rightarrow> u8 \<Rightarrow> 'a pit_state_scheme \<Rightarrow> u32 \<times> 'a pit_state_scheme" where
  "read_pit_count low high s =
     (let s = send_pit_command (pit_command_t PIT_BINARY INT_TERMINAL_COUNT PIT_LATCH 0) s
      in (ucast low OR shl32 (ucast high) 8, s))"

definition register_pit_handler :: "timer_handler option \<Rightarrow> 'a pit_state_scheme \<Rightarrow> 'a pit_state_scheme" where
  "register_pit_handler handler s = s\<lparr>TIMER_HANDLER := handler\<rparr>"

definition get_timer_handler :: "'a pit_state_scheme \<Rightarrow> timer_handler option" where
  "get_timer_handler s = TIMER_HANDLER s"

section \<open>The reload value\<close>

lemma two_bytes_u16:
  "256 * unat (ucast (drop_bit 8 (v :: u16)) :: u8) + unat (ucast v :: u8) = unat v"
proof -
  have "unat v < 2 ^ 16" using unsigned_less [of v] by simp
  then have "unat v div 256 < 256" by (simp add: div_less_iff_less_mult)
  then have "unat (ucast (drop_bit 8 v) :: u8) = unat v div 256" "unat (ucast v :: u8) = unat v mod 256"
    by (simp_all add: unsigned_ucast_eq take_bit_eq_mod drop_bit_eq_div unat_div)
  then show ?thesis by simp
qed

text \<open>\<^verbatim>\<open>set_pit_periodic\<close> writes the rate generator command and then the low and the high byte
  of a reload value. From 19 Hz on the two bytes are the quotient of the timer's frequency by the
  rate; below, the quotient does not fit in 16 bits and the timer runs at a higher rate than asked.\<close>

theorem set_pit_periodic_reload:
  assumes "hz \<noteq> 0"
  shows "\<exists>low high. set_pit_periodic hz s =
      Some (s\<lparr>ports_out := ports_out s @ [(0x43, 0x34), (0x40, low), (0x40, high)]\<rparr>) \<and>
    256 * unat high + unat low = 1193180 div unat hz mod 65536 \<and>
    (unat hz \<ge> 19 \<longleftrightarrow> 256 * unat high + unat low = 1193180 div unat hz)"
proof -
  let ?v = "word_of_int (DEFAULT_PIT_HZ sdiv uint hz) :: u16"
  have cmd: "pit_command_t PIT_BINARY RATE_GENERATOR PIT_LO_AND_HI_BYTES 0 = 0x34"
    by (simp add: pit_command_t_def set_field_def mask_eq_exp_minus_1)
  have pos: "0 < unat hz" using assms by (simp add: unat_gt_0)
  have "DEFAULT_PIT_HZ sdiv uint hz = int (1193180 div unat hz)"
    using sdiv_of_nat [of 1193180 "unat hz"] by (simp only: DEFAULT_PIT_HZ_def uint_nat) simp
  then have v: "unat ?v = 1193180 div unat hz mod 65536"
    by (simp only: of_int_of_nat_eq unat_of_nat) simp
  have iff: "unat hz \<ge> 19 \<longleftrightarrow> 1193180 div unat hz mod 65536 = 1193180 div unat hz"
  proof -
    have "1193180 div unat hz < 65536 \<longleftrightarrow> 1193180 < 65536 * unat hz"
      using pos by (simp add: div_less_iff_less_mult)
    also have "\<dots> \<longleftrightarrow> 19 \<le> unat hz" by linarith
    finally show ?thesis
      by (metis mod_less mod_less_divisor zero_less_numeral)
  qed
  show ?thesis
    using assms two_bytes_u16 [of ?v] iff
    by (intro exI [of _ "ucast ?v"] exI [of _ "ucast (drop_bit 8 ?v)"])
      (simp add: set_pit_periodic_def send_pit_command_def outportb_def cmd PIT_COMMAND_def PIT_CHAN0_DATA_def
        Let_def v)
qed

definition demo_pit :: pit_state where
  "demo_pit = ioapic_state.extend demo_ioapic (pit_state.fields [] None)"

theorem set_pit_periodic_reload_witness:
  "\<exists>low high. set_pit_periodic 1000 demo_pit =
      Some (demo_pit\<lparr>ports_out := ports_out demo_pit @ [(0x43, 0x34), (0x40, low), (0x40, high)]\<rparr>) \<and>
    256 * unat high + unat low = 1193"
  using set_pit_periodic_reload [of 1000 demo_pit] by auto

end
