(* ===== verification/Lapic.thy ===== *)
theory Lapic
  imports Pit
begin

text \<open>
  \<^verbatim>\<open>src/src/kernel/hal/lapic.c\<close> and \<^verbatim>\<open>hal/cpu_init.c\<close>: the interrupt controller local to a
  processor and the start of the other processors. The registers of the controller of the processor
  that runs are a field of the state, addressed as the code does; what the hardware alone decides
  (the two readings of the running counter, the number of timer ticks seen when the busy wait ends,
  the contents of an uninitialised structure) is an argument.
\<close>

unbundle bit_operations_syntax

section \<open>Data\<close>

record lapic_state = pit_state +
  LAPIC_BASE :: u64
  lapic_regs :: "u64 \<Rightarrow> u32"
  LAPIC_TIMER_HZs :: "u8 \<Rightarrow> u16"
  PIT_COUNT :: u32
  PIT_COUNT_LOCK :: bool
  interrupts_enabled :: bool

datatype lapic_reg_t =
  LAPIC_ID_REG | LAPIC_VERSION_REG | LAPIC_EOI_REG | LAPIC_SPURIOUS_INT_REG | LAPIC_ICR0_REG |
  LAPIC_ICR1_REG | LAPIC_TIMER_REG | LAPIC_THERMAL_REG | LAPIC_PERFORMANCE_REG | LAPIC_LINT0_REG |
  LAPIC_LINT1_REG | LAPIC_ERROR_REG | LAPIC_INIT_COUNT_REG | LAPIC_CURRENT_COUNT_REG | LAPIC_DIVIDE_CONFIG_REG

fun lapic_offset :: "lapic_reg_t \<Rightarrow> u64" where
  "lapic_offset LAPIC_ID_REG = 0x020"
| "lapic_offset LAPIC_VERSION_REG = 0x030"
| "lapic_offset LAPIC_EOI_REG = 0x0B0"
| "lapic_offset LAPIC_SPURIOUS_INT_REG = 0x0F0"
| "lapic_offset LAPIC_ICR0_REG = 0x300"
| "lapic_offset LAPIC_ICR1_REG = 0x310"
| "lapic_offset LAPIC_TIMER_REG = 0x320"
| "lapic_offset LAPIC_THERMAL_REG = 0x330"
| "lapic_offset LAPIC_PERFORMANCE_REG = 0x340"
| "lapic_offset LAPIC_LINT0_REG = 0x350"
| "lapic_offset LAPIC_LINT1_REG = 0x360"
| "lapic_offset LAPIC_ERROR_REG = 0x370"
| "lapic_offset LAPIC_INIT_COUNT_REG = 0x380"
| "lapic_offset LAPIC_CURRENT_COUNT_REG = 0x390"
| "lapic_offset LAPIC_DIVIDE_CONFIG_REG = 0x3E0"

datatype lvt_delivery_t = LVT_FIXED | LVT_SMI | LVT_NMI | LVT_INIT | LVT_EXTERNAL

fun lvt_delivery :: "lvt_delivery_t \<Rightarrow> u32" where
  "lvt_delivery LVT_FIXED = 0"
| "lvt_delivery LVT_SMI = 1"
| "lvt_delivery LVT_NMI = 4"
| "lvt_delivery LVT_INIT = 5"
| "lvt_delivery LVT_EXTERNAL = 7"

datatype timer_mode_t = ONE_SHOT | PERIODIC | TSC_DEADLINE

fun timer_mode :: "timer_mode_t \<Rightarrow> u32" where
  "timer_mode ONE_SHOT = 0"
| "timer_mode PERIODIC = 1"
| "timer_mode TSC_DEADLINE = 2"

definition ALL_LAPICS :: u8 where "ALL_LAPICS = 0xFF"

definition NMI_INT_VECTOR :: u32 where "NMI_INT_VECTOR = 0xFF"

text \<open>An entry of the local vector table: the union of a double word and its bit-fields.\<close>

type_synonym lvt_entry_t = u32

definition lvt_set_vector :: "u32 \<Rightarrow> lvt_entry_t \<Rightarrow> lvt_entry_t" where "lvt_set_vector = set_field 0 8"

definition lvt_set_delivery_mode :: "u32 \<Rightarrow> lvt_entry_t \<Rightarrow> lvt_entry_t" where
  "lvt_set_delivery_mode = set_field 8 3"

definition lvt_set_pin_polarity :: "u32 \<Rightarrow> lvt_entry_t \<Rightarrow> lvt_entry_t" where
  "lvt_set_pin_polarity = set_field 13 1"

definition lvt_set_trigger_mode :: "u32 \<Rightarrow> lvt_entry_t \<Rightarrow> lvt_entry_t" where
  "lvt_set_trigger_mode = set_field 15 1"

definition lvt_set_mask :: "u32 \<Rightarrow> lvt_entry_t \<Rightarrow> lvt_entry_t" where "lvt_set_mask = set_field 16 1"

definition lvt_set_timer_mode :: "u32 \<Rightarrow> lvt_entry_t \<Rightarrow> lvt_entry_t" where
  "lvt_set_timer_mode = set_field 17 2"

record ipi_t =
  ipi_lower_dword :: u32
  ipi_upper_dword :: u32

section \<open>Register access\<close>

definition lapic_write :: "lapic_reg_t \<Rightarrow> u32 \<Rightarrow> 'a lapic_state_scheme \<Rightarrow> 'a lapic_state_scheme" where
  "lapic_write lapic_reg val s =
     s\<lparr>lapic_regs := (lapic_regs s)(LAPIC_BASE s + lapic_offset lapic_reg := val)\<rparr>"

definition lapic_read :: "lapic_reg_t \<Rightarrow> 'a lapic_state_scheme \<Rightarrow> u32" where
  "lapic_read lapic_reg s = lapic_regs s (LAPIC_BASE s + lapic_offset lapic_reg)"

definition get_lapic_id :: "'a lapic_state_scheme \<Rightarrow> u8" where
  "get_lapic_id s = ucast (drop_bit 24 (lapic_read LAPIC_ID_REG s))"

definition get_lapic_version :: "'a lapic_state_scheme \<Rightarrow> u8" where
  "get_lapic_version s = ucast (lapic_read LAPIC_VERSION_REG s)"

definition end_of_interrupt :: "bool \<Rightarrow> u8 \<Rightarrow> 'a lapic_state_scheme \<Rightarrow> 'a lapic_state_scheme" where
  "end_of_interrupt broadcast vector s = lapic_write LAPIC_EOI_REG 0 s"

definition eoi_is_broadcast :: "'a lapic_state_scheme \<Rightarrow> bool" where
  "eoi_is_broadcast s \<longleftrightarrow> lapic_read LAPIC_SPURIOUS_INT_REG s AND shl32 1 12 = 0"

definition set_eoi_broadcast :: "bool \<Rightarrow> 'a lapic_state_scheme \<Rightarrow> 'a lapic_state_scheme" where
  "set_eoi_broadcast enabled s =
     (if eoi_is_broadcast s = enabled then s
      else
        (let spurious_reg = lapic_read LAPIC_SPURIOUS_INT_REG s;
             new_reg_val = spurious_reg OR shl32 (if enabled then 0 else 1) 12
         in lapic_write LAPIC_SPURIOUS_INT_REG new_reg_val s))"

definition send_ipi :: "ipi_t \<Rightarrow> 'a lapic_state_scheme \<Rightarrow> 'a lapic_state_scheme" where
  "send_ipi ipi s =
     lapic_write LAPIC_ICR0_REG (ipi_lower_dword ipi) (lapic_write LAPIC_ICR1_REG (ipi_upper_dword ipi) s)"

section \<open>Enabling\<close>

definition enable_nmi :: "lvt_entry_t \<Rightarrow> NmiRecord \<Rightarrow> 'a lapic_state_scheme \<Rightarrow> 'a lapic_state_scheme" where
  "enable_nmi junk nmi_record s =
     (let lapic_id = nmi_acpi_processor_id nmi_record
      in if get_lapic_id s \<noteq> lapic_id \<and> lapic_id \<noteq> ALL_LAPICS then s
         else
           (let nmi = lvt_set_trigger_mode
                  (if nmi_flags nmi_record AND 8 \<noteq> 0 then LEVEL_SENSITIVE else EDGE_SENSITIVE)
                  (lvt_set_pin_polarity
                    (if nmi_flags nmi_record AND 2 \<noteq> 0 then ACTIVE_HIGH else ACTIVE_LOW)
                    (lvt_set_delivery_mode (lvt_delivery LVT_NMI)
                      (lvt_set_mask 0 (lvt_set_vector NMI_INT_VECTOR junk))));
                lint_reg = (if lint nmi_record then LAPIC_LINT0_REG else LAPIC_LINT1_REG)
            in lapic_write lint_reg nmi s))"

text \<open>
  \<^verbatim>\<open>for(int i = 0; (nmi = get_nmi_record(i)); ++i)\<close>: the index is truncated to a byte by the
  call, and the loop runs until a null pointer is returned.
\<close>

partial_function (option) nmi_loop ::
  "lvt_entry_t \<Rightarrow> i32 \<Rightarrow> 'a lapic_state_scheme \<Rightarrow> 'a lapic_state_scheme option" where
  "nmi_loop junk i s =
     (let nmi = get_nmi_record (ucast i) s
      in if nmi \<noteq> 0 then nmi_loop junk (i + 1) (enable_nmi junk (read_nmi (memory s) nmi) s) else Some s)"

definition enable_lapic :: "lvt_entry_t \<Rightarrow> 'a lapic_state_scheme \<Rightarrow> 'a lapic_state_scheme option" where
  "enable_lapic junk s =
     (let s = s\<lparr>LAPIC_BASE := lapic_addr (get_smp_info s)\<rparr>
      in case nmi_loop junk 0 s of
           None \<Rightarrow> None
         | Some s \<Rightarrow>
             (let current_val = lapic_read LAPIC_SPURIOUS_INT_REG s;
                  enabled = current_val OR shl32 1 8
              in Some (PrintK_log (''Completed'' @ [CHR 0x0A]) [] (lapic_write LAPIC_SPURIOUS_INT_REG enabled s))))"

definition disable_lapic :: "'a lapic_state_scheme \<Rightarrow> 'a lapic_state_scheme" where
  "disable_lapic s =
     (let s = s\<lparr>LAPIC_BASE := lapic_addr (get_smp_info s)\<rparr>;
          current_val = lapic_read LAPIC_SPURIOUS_INT_REG s;
          enabled = current_val OR shl32 0 8
      in lapic_write LAPIC_SPURIOUS_INT_REG enabled s)"

section \<open>The timer\<close>

definition pit_increment :: "'a lapic_state_scheme \<Rightarrow> 'a lapic_state_scheme" where
  "pit_increment s = s\<lparr>PIT_COUNT := PIT_COUNT s + 1\<rparr>"

text \<open>
  The calibration. \<open>init_lapic_count\<close> and \<open>final_lapic_count\<close> are the two readings of the
  running counter, \<open>pit_count\<close> the tick count with which the busy wait ends. \<open>None\<close>: the lock
  is taken, or fewer ticks than waited for arrive.
\<close>

definition lapic_timer_init ::
  "u32 \<Rightarrow> u32 \<Rightarrow> u32 \<Rightarrow> u8 \<Rightarrow> 'a lapic_state_scheme \<Rightarrow> 'a lapic_state_scheme option" where
  "lapic_timer_init init_lapic_count final_lapic_count pit_count vector s =
     (let s = s\<lparr>interrupts_enabled := False\<rparr>;
          timer_entry = lvt_set_timer_mode (timer_mode ONE_SHOT) (lvt_set_mask 1
            (lvt_set_delivery_mode (lvt_delivery LVT_FIXED)
              (lvt_set_vector (ucast vector) (lapic_read LAPIC_TIMER_REG s))));
          s = lapic_write LAPIC_TIMER_REG timer_entry s;
          s = lapic_write LAPIC_DIVIDE_CONFIG_REG 2 s;
          s = lapic_write LAPIC_INIT_COUNT_REG 0xFFFFFFFF s
      in if PIT_COUNT_LOCK s then None
         else
           (let s = s\<lparr>PIT_COUNT_LOCK := True, PIT_COUNT := 0\<rparr>;
                s = register_pit_handler (Some Pit_increment) s;
                pit_rate_hz = (1000 :: u32);
                total_pit_tics = (100 :: u32)
            in case set_pit_periodic (ucast pit_rate_hz) s of
                 None \<Rightarrow> None
               | Some s \<Rightarrow>
                   (let s = s\<lparr>interrupts_enabled := True\<rparr>
                    in if pit_count < total_pit_tics then None
                       else
                         (let s = s\<lparr>PIT_COUNT := pit_count\<rparr>;
                              total_lapic_tics = (init_lapic_count - final_lapic_count) * 8;
                              s = s\<lparr>PIT_COUNT_LOCK := False\<rparr>;
                              lapic_id = get_lapic_id s;
                              hz = ucast ((total_lapic_tics div total_pit_tics) * pit_rate_hz) :: u16;
                              s = s\<lparr>LAPIC_TIMER_HZs := (LAPIC_TIMER_HZs s)(lapic_id := hz)\<rparr>
                          in Some (PrintK_log (''LAPIC timer for LAPIC #%d has frequency of %d hz.'' @ [CHR 0x0A])
                               [KNum (ucast lapic_id), KNum (ucast hz)] s)))))"

section \<open>Starting the other processors\<close>

record stivale2_smp_info =
  smp_processor_id :: u32
  smp_lapic_id :: u32
  target_stack :: u64
  goto_address :: u64
  extra_argument :: u64

text \<open>
  The records of the boot loader's tag, updated in order; \<open>ap_entry_addr\<close> is the address of
  \<^verbatim>\<open>ap_entry\<close>. A failed allocation leaves a null stack.
\<close>

fun startup_loop ::
  "u64 \<Rightarrow> u32 \<Rightarrow> stivale2_smp_info list \<Rightarrow> 'a lapic_state_scheme
    \<Rightarrow> (stivale2_smp_info list \<times> 'a lapic_state_scheme) option" where
  "startup_loop ap_entry_addr bsp [] s = Some ([], s)"
| "startup_loop ap_entry_addr bsp (c # cs) s =
     (if smp_lapic_id c \<noteq> bsp then do {
        (stack, s) \<leftarrow> AllocFirstFrame s;
        (cs, s) \<leftarrow> startup_loop ap_entry_addr bsp cs s;
        Some (c\<lparr>target_stack := stack, goto_address := ap_entry_addr\<rparr> # cs, s)
      } else do {
        (cs, s) \<leftarrow> startup_loop ap_entry_addr bsp cs s;
        Some (c # cs, s)
      })"

definition startup_aps ::
  "u64 \<Rightarrow> lvt_entry_t \<Rightarrow> u32 \<times> u32 \<times> u32 \<Rightarrow> u32 \<Rightarrow> stivale2_smp_info list \<Rightarrow> 'a lapic_state_scheme
    \<Rightarrow> (stivale2_smp_info list \<times> 'a lapic_state_scheme) option" where
  "startup_aps ap_entry_addr junk counts bsp cpus s = do {
     s \<leftarrow> enable_lapic junk s;
     s \<leftarrow> lapic_timer_init (fst counts) (fst (snd counts)) (snd (snd counts)) 0xFF s;
     let s = s\<lparr>bsp_lapic_id := ucast bsp\<rparr>;
     startup_loop ap_entry_addr bsp cpus s
   }"

definition ap_entry :: "lvt_entry_t \<Rightarrow> u32 \<times> u32 \<times> u32 \<Rightarrow> 'a lapic_state_scheme \<Rightarrow> 'a lapic_state_scheme option" where
  "ap_entry junk counts s = do {
     s \<leftarrow> enable_lapic junk (PrintK_log (''Enabling LAPIC.'' @ [CHR 0x0A]) [] s);
     s \<leftarrow> lapic_timer_init (fst counts) (fst (snd counts)) (snd (snd counts)) 0xFF s;
     Some (PrintK_log (''Processor online.'' @ [CHR 0x0A]) [] s)
   }"

section \<open>What enabling and disabling do\<close>

lemma enable_nmi_keeps [simp]:
  "SMP_INFO (enable_nmi junk r s) = SMP_INFO s" "memory (enable_nmi junk r s) = memory s"
  "LAPIC_BASE (enable_nmi junk r s) = LAPIC_BASE s"
  by (simp_all add: enable_nmi_def lapic_write_def Let_def)

lemma get_nmi_record_cong [simp]: "get_nmi_record i (enable_nmi junk r s) = get_nmi_record i s"
  by (simp add: get_nmi_record_def)

definition nmis_known :: "smp_info_t \<Rightarrow> bool" where
  "nmis_known f \<longleftrightarrow> (\<forall>i :: u8. nmi_ptr f (ucast i) \<noteq> 0)"

lemma unat_ucast_8_64 [simp]: "unat (ucast (x :: u8) :: u64) = unat x"
  using unat_less8 [of x] by (simp add: unsigned_ucast_eq take_bit_nat_eq_self)

lemma get_nmi_record_index:
  assumes "nmis_known (SMP_INFO s)" "1 \<le> unat (num_nmis (SMP_INFO s))" "i < 256"
  shows "get_nmi_record (of_nat i) s \<noteq> 0 \<longleftrightarrow> i < unat (num_nmis (SMP_INFO s))"
proof -
  let ?n = "num_nmis (SMP_INFO s)"
  have i: "unat (of_nat i :: u8) = i" using assms(3) by (simp add: unat_of_nat)
  have "?n \<noteq> 0" using assms(2) by (auto simp: unat_eq_0)
  then have "unat (?n - 1) = unat ?n - 1" by (rule unat_minus_one)
  then have "ucast (of_nat i :: u8) > ?n - 1 \<longleftrightarrow> \<not> i < unat ?n"
    using assms(2) by (simp add: word_less_nat_alt i) linarith
  then show ?thesis using assms(1) by (simp add: get_nmi_record_def nmis_known_def)
qed

lemma nmi_loop_returns:
  assumes "nmis_known (SMP_INFO s)" "1 \<le> unat (num_nmis (SMP_INFO s))" "unat (num_nmis (SMP_INFO s)) \<le> 255"
    and "i \<le> unat (num_nmis (SMP_INFO s))"
  shows "\<exists>s'. nmi_loop junk (of_nat i) s = Some s' \<and> SMP_INFO s' = SMP_INFO s \<and> LAPIC_BASE s' = LAPIC_BASE s"
  using assms
proof (induction "unat (num_nmis (SMP_INFO s)) - i" arbitrary: i s)
  case 0
  then have "i < 256" "(ucast (of_nat i :: i32) :: u8) = of_nat i"
    by (simp_all add: unsigned_of_nat take_bit_nat_eq_self)
  moreover have "\<not> i < unat (num_nmis (SMP_INFO s))" using 0 by simp
  ultimately have "get_nmi_record (ucast (of_nat i :: i32)) s = 0"
    using get_nmi_record_index [OF 0(2,3), of i] by simp
  then show ?case by (subst nmi_loop.simps) simp
next
  case (Suc k)
  let ?p = "get_nmi_record (of_nat i) s"
  let ?s = "enable_nmi junk (read_nmi (memory s) ?p) s"
  have i: "i < 256" "(ucast (of_nat i :: i32) :: u8) = of_nat i"
    using Suc.prems by (simp_all add: unsigned_of_nat take_bit_nat_eq_self)
  have "i < unat (num_nmis (SMP_INFO s))" using Suc.hyps(2) by simp
  then have nz: "?p \<noteq> 0" using get_nmi_record_index [OF Suc.prems(1,2) i(1)] by simp
  have "\<exists>s'. nmi_loop junk (of_nat (Suc i)) ?s = Some s' \<and> SMP_INFO s' = SMP_INFO ?s \<and> LAPIC_BASE s' = LAPIC_BASE ?s"
    using Suc.hyps(2) Suc.prems by (intro Suc.hyps(1)) simp_all
  moreover have "nmi_loop junk (of_nat i) s = nmi_loop junk (of_nat (Suc i)) ?s"
    using nz by (subst nmi_loop.simps) (simp add: i(2) add.commute)
  ultimately show ?case by simp
qed

lemma nmi_loop_diverges:
  assumes "nmis_known (SMP_INFO s)" "num_nmis (SMP_INFO s) = 0"
  shows "nmi_loop junk i s = None"
proof -
  have nz: "get_nmi_record j t \<noteq> 0" if "SMP_INFO t = SMP_INFO s" for j and t :: "'a lapic_state_scheme"
  proof -
    have "\<not> ucast j > (- 1 :: u64)" by (simp add: not_less)
    then show ?thesis using that assms by (simp add: get_nmi_record_def nmis_known_def)
  qed
  have "SMP_INFO t \<noteq> SMP_INFO s" if "nmi_loop junk' i' t = Some y" for junk' i' and t y :: "'a lapic_state_scheme"
  proof (rule nmi_loop.raw_induct [OF _ that], goal_cases)
    case (1 f junk' i' t y)
    show ?case
    proof
      assume t: "SMP_INFO t = SMP_INFO s"
      let ?t = "enable_nmi junk' (read_nmi (memory t) (get_nmi_record (ucast i') t)) t"
      have "f junk' (i' + 1) ?t = Some y" using 1(2) nz [OF t] by (simp add: Let_def)
      from 1(1) [OF this] show False using t by simp
    qed
  qed
  from this [of junk i s] show ?thesis by (cases "nmi_loop junk i s") simp_all
qed

text \<open>C35. \<^verbatim>\<open>enable_lapic\<close> returns when the firmware lists between 1 and 255 local non-maskable
  interrupts, and then the enable bit of the controller at the firmware's address is set. When the
  firmware lists none it never returns: the bound of \<^verbatim>\<open>get_nmi_record\<close> wraps around and the loop
  meets no null pointer.\<close>

theorem enable_lapic_termination:
  assumes "nmis_known (SMP_INFO s)"
  shows "(1 \<le> unat (num_nmis (SMP_INFO s)) \<and> unat (num_nmis (SMP_INFO s)) \<le> 255 \<longrightarrow>
      (\<exists>s'. enable_lapic junk s = Some s' \<and> LAPIC_BASE s' = lapic_addr (SMP_INFO s) \<and>
        bit (lapic_regs s' (lapic_addr (SMP_INFO s) + 0xF0)) 8)) \<and>
    (num_nmis (SMP_INFO s) = 0 \<longrightarrow> enable_lapic junk s = None)"
proof -
  let ?s = "s\<lparr>LAPIC_BASE := lapic_addr (SMP_INFO s)\<rparr>"
  have "nmis_known (SMP_INFO ?s)" using assms by simp
  note ret = nmi_loop_returns [OF this, of 0 junk] and div = nmi_loop_diverges [OF this, of junk 0]
  have "unat ((8 :: u32) AND 31) = 8" by (simp add: unat_and_31)
  then have "bit (v OR shl32 1 8) 8" for v :: u32
    by (simp only: shl32_def bit_or_iff) (simp add: bit_simps)
  then have fin: "bit (lapic_regs (PrintK_log fmt args (lapic_write LAPIC_SPURIOUS_INT_REG
      (v OR shl32 1 8) t)) (LAPIC_BASE t + 0xF0)) 8" for fmt args v and t :: "'a lapic_state_scheme"
    by (simp add: PrintK_log_def lapic_write_def)
  show ?thesis
  proof (intro conjI impI)
    assume n: "1 \<le> unat (num_nmis (SMP_INFO s)) \<and> unat (num_nmis (SMP_INFO s)) \<le> 255"
    then obtain s1 where s1: "nmi_loop junk 0 ?s = Some s1" "LAPIC_BASE s1 = lapic_addr (SMP_INFO s)"
      using ret by auto
    then show "\<exists>s'. enable_lapic junk s = Some s' \<and> LAPIC_BASE s' = lapic_addr (SMP_INFO s) \<and>
        bit (lapic_regs s' (lapic_addr (SMP_INFO s) + 0xF0)) 8"
      using fin [where t = s1] by (simp add: enable_lapic_def get_smp_info_def Let_def)
        (simp add: PrintK_log_def lapic_write_def)
  next
    assume "num_nmis (SMP_INFO s) = 0"
    then show "enable_lapic junk s = None"
      using div by (simp add: enable_lapic_def get_smp_info_def Let_def)
  qed
qed

definition demo_lapic :: lapic_state where
  "demo_lapic = pit_state.extend (demo_pit\<lparr>SMP_INFO := SMP_INFO_init\<lparr>nmis := 0x6000\<rparr>\<rparr>)
     (lapic_state.fields 0 (\<lambda>_. 0) (\<lambda>_. 0) 0 False False)"

lemma demo_lapic_nmis: "SMP_INFO demo_lapic = SMP_INFO_init\<lparr>nmis := 0x6000\<rparr>"
  by (simp add: demo_lapic_def pit_state.defs lapic_state.defs)

lemma frame_nmis_known: "nmis f = 0x6000 \<Longrightarrow> nmis_known f"
proof -
  assume f: "nmis f = 0x6000"
  have "unat (nmi_ptr f (ucast i)) \<noteq> 0" for i :: u8
  proof -
    have "unat (6 * ucast i :: u64) = 6 * unat i"
      using unat_mult_small [of "ucast i" 6] unat_less8 [of i] by simp
    then show ?thesis using unat_less8 [of i] by (simp add: nmi_ptr_def f unat_add_no_wrap)
  qed
  then show ?thesis unfolding nmis_known_def by (metis unsigned_0)
qed

theorem enable_lapic_termination_witness:
  "enable_lapic 0 demo_lapic = None \<and>
   (\<exists>s'. enable_lapic 0 (demo_lapic\<lparr>SMP_INFO := SMP_INFO_init\<lparr>nmis := 0x6000, num_nmis := 1\<rparr>\<rparr>) = Some s' \<and>
      bit (lapic_regs s' 0xFEE000F0) 8)"
proof
  show "enable_lapic 0 demo_lapic = None"
    using enable_lapic_termination [of demo_lapic 0] frame_nmis_known [of "SMP_INFO demo_lapic"]
    by (simp add: demo_lapic_nmis SMP_INFO_init_def)
  show "\<exists>s'. enable_lapic 0 (demo_lapic\<lparr>SMP_INFO := SMP_INFO_init\<lparr>nmis := 0x6000, num_nmis := 1\<rparr>\<rparr>) = Some s' \<and>
      bit (lapic_regs s' 0xFEE000F0) 8"
    using enable_lapic_termination [of "demo_lapic\<lparr>SMP_INFO := SMP_INFO_init\<lparr>nmis := 0x6000, num_nmis := 1\<rparr>\<rparr>" 0]
      frame_nmis_known [of "SMP_INFO_init\<lparr>nmis := 0x6000, num_nmis := 1\<rparr>"]
    by (auto simp: SMP_INFO_init_def DEFAULT_LAPIC_ADDR_def)
qed

text \<open>Disabling ORs a shifted zero into the register, so it changes nothing.\<close>

lemma disable_lapic_no_effect: "lapic_regs (disable_lapic s) = lapic_regs s"
  by (simp add: disable_lapic_def Let_def lapic_write_def lapic_read_def shl32_def)

text \<open>Nor can end-of-interrupt broadcasts be turned on again once they are off.\<close>

lemma set_eoi_broadcast_on: "lapic_regs (set_eoi_broadcast True s) = lapic_regs s"
  by (simp add: set_eoi_broadcast_def Let_def lapic_write_def lapic_read_def shl32_def)

text \<open>The calibrated frequency is kept modulo \<open>2\<^sup>1\<^sup>6\<close>.\<close>

lemma lapic_timer_hz:
  assumes "\<not> PIT_COUNT_LOCK s" "100 \<le> pit_count" "lapic_timer_init a b pit_count vector s = Some s'"
  shows "\<not> PIT_COUNT_LOCK s' \<and>
    unat (LAPIC_TIMER_HZs s' (get_lapic_id s')) = unat ((a - b) * 8 div 100 * 1000) mod 65536"
proof -
  have hz: "unat (ucast w :: u16) = unat w mod 65536" for w :: u32
    by (simp add: unsigned_ucast_eq take_bit_eq_mod)
  have "\<not> pit_count < 100" using assms(2) by simp
  then have "\<not> PIT_COUNT_LOCK s' \<and> LAPIC_TIMER_HZs s' (get_lapic_id s') = ucast ((a - b) * 8 div 100 * 1000)"
    using assms(1) assms(3) [symmetric]
    by (simp add: lapic_timer_init_def Let_def lapic_write_def register_pit_handler_def set_pit_periodic_def
        send_pit_command_def outportb_def PrintK_log_def get_lapic_id_def lapic_read_def)
  then show ?thesis by (simp only: hz simp_thms)
qed

end
