(* ===== verification/Font.thy ===== *)
theory Font
  imports Lapic
begin

text \<open>
  \<^verbatim>\<open>src/src/kernel/graphics/font.c\<close> and the types of \<^verbatim>\<open>graphics_types.h\<close>: colours, coordinates,
  the font and its bitmap. A row of the C array holds 16 bytes of which the initialiser gives 15;
  the last one is 0.
\<close>

section \<open>Types\<close>

record RGB =
  red :: u8
  green :: u8
  blue :: u8

record Coordinate =
  coord_x :: u16
  coord_y :: u16

record Dimensions =
  dim_width :: u16
  dim_height :: u16

text \<open>
  The bitmap of a font is a pointer to rows of 16 bytes, which the code indexes with a signed
  character and a row number: \<open>matrix k\<close> is the byte at offset \<open>k\<close> from the pointer.
\<close>

record Font =
  matrix :: "int \<Rightarrow> u8"
  font_rgb :: RGB
  font_height :: u8
  font_width :: u8

section \<open>The bitmap\<close>

definition pad_row :: "u8 list \<Rightarrow> u8 list" where
  "pad_row r = take 16 (r @ replicate 16 0)"

definition GnuFontBitmap :: "u8 list list" where
  "GnuFontBitmap = map pad_row [
    [0, 0, 0, 0, 0, 0, 0, 0, 0, 0, 0, 0, 0, 0, 0],
    [0, 0, 0, 0, 0, 0, 0, 0, 0, 0, 0, 0, 0, 0, 0],
    [0, 0, 0, 0, 0, 0, 0, 0, 0, 0, 0, 0, 0, 0, 0],
    [0, 0, 0, 0, 0, 0, 0, 0, 0, 0, 0, 0, 0, 0, 0],
    [0, 0, 0, 0, 0, 0, 0, 0, 0, 0, 0, 0, 0, 0, 0],
    [0, 0, 0, 0, 0, 0, 0, 0, 0, 0, 0, 0, 0, 0, 0],
    [0, 0, 0, 0, 0, 0, 0, 0, 0, 0, 0, 0, 0, 0, 0],
    [0, 0, 0, 0, 0, 0, 0, 0, 0, 0, 0, 0, 0, 0, 0],
    [0, 0, 0, 0, 0, 0, 0, 0, 0, 0, 0, 0, 0, 0, 0],
    [0, 0, 0, 0, 0, 0, 0, 0, 0, 0, 0, 0, 0, 0, 0],
    [0, 0, 0, 0, 0, 0, 0, 0, 0, 0, 0, 0, 0, 0, 0],
    [0, 0, 0, 0, 0, 0, 0, 0, 0, 0, 0, 0, 0, 0, 0],
    [0, 0, 0, 0, 0, 0, 0, 0, 0, 0, 0, 0, 0, 0, 0],
    [0, 0, 0, 0, 0, 0, 0, 0, 0, 0, 0, 0, 0, 0, 0],
    [0, 0, 0, 0, 0, 0, 0, 0, 0, 0, 0, 0, 0, 0, 0],
    [0, 0, 0, 0, 0, 0, 0, 0, 0, 0, 0, 0, 0, 0, 0],
    [0, 0, 0, 0, 0, 0, 0, 0, 0, 0, 0, 0, 0, 0, 0],
    [0, 0, 0, 0, 0, 0, 0, 0, 0, 0, 0, 0, 0, 0, 0],
    [0, 0, 0, 0, 0, 0, 0, 0, 0, 0, 0, 0, 0, 0, 0],
    [0, 0, 0, 0, 0, 0, 0, 0, 0, 0, 0, 0, 0, 0, 0],
    [0, 0, 0, 0, 0, 0, 0, 0, 0, 0, 0, 0, 0, 0, 0],
    [0, 0, 0, 0, 0, 0, 0, 0, 0, 0, 0, 0, 0, 0, 0],
    [0, 0, 0, 0, 0, 0, 0, 0, 0, 0, 0, 0, 0, 0, 0],
    [0, 0, 0, 0, 0, 0, 0, 0, 0, 0, 0, 0, 0, 0, 0],
    [0, 0, 0, 0, 0, 0, 0, 0, 0, 0, 0, 0, 0, 0, 0],
    [0, 0, 0, 0, 0, 0, 0, 0, 0, 0, 0, 0, 0, 0, 0],
    [0, 0, 0, 0, 0, 0, 0, 0, 0, 0, 0, 0, 0, 0, 0],
    [0, 0, 0, 0, 0, 0, 0, 0, 0, 0, 0, 0, 0, 0, 0],
    [0, 0, 0, 0, 0, 0, 0, 0, 0, 0, 0, 0, 0, 0, 0],
    [0, 0, 0, 0, 0, 0, 0, 0, 0, 0, 0, 0, 0, 0, 0],
    [0, 0, 0, 0, 0, 0, 0, 0, 0, 0, 0, 0, 0, 0, 0],
    [0, 0, 0, 0, 0, 0, 0, 0, 0, 0, 0, 0, 0, 0, 0],
    [0, 0, 0, 0, 0, 0, 0, 0, 0, 0, 0, 0, 0, 0, 0],
    [0, 0x10, 0x10, 0x10, 0x10, 0x10, 0x10, 0x10, 0, 0, 0x10, 0x10, 0, 0, 0],
    [0, 0, 0x48, 0x48, 0x48, 0, 0, 0, 0, 0, 0, 0, 0, 0, 0],
    [0, 0, 0, 0x24, 0x24, 0x7e, 0x24, 0x24, 0x7e, 0x24, 0x24, 0, 0, 0, 0],
    [0, 0, 0x10, 0x7c, 0x92, 0x12, 0x14, 0x38, 0x50, 0x90, 0x92, 0x7c, 0x10, 0, 0],
    [0, 0, 0x84, 0x4a, 0x4a, 0x24, 0x10, 0x10, 0x48, 0xa4, 0xa4, 0x42, 0, 0, 0],
    [0, 0, 0x0c, 0x12, 0x12, 0x12, 0x0c, 0x8c, 0x52, 0x22, 0x52, 0x8c, 0, 0, 0],
    [0, 0, 0x10, 0x10, 0x10, 0, 0, 0, 0, 0, 0, 0, 0, 0, 0],
    [0, 0x20, 0x10, 0x10, 0x08, 0x08, 0x08, 0x08, 0x08, 0x08, 0x10, 0x10, 0x20, 0, 0],
    [0, 0x08, 0x10, 0x10, 0x20, 0x20, 0x20, 0x20, 0x20, 0x20, 0x10, 0x10, 0x08, 0, 0],
    [0, 0, 0x10, 0x92, 0x54, 0x38, 0x54, 0x92, 0x10, 0, 0, 0, 0, 0, 0],
    [0, 0, 0, 0, 0x10, 0x10, 0x10, 0xfe, 0x10, 0x10, 0x10, 0, 0, 0, 0],
    [0, 0, 0, 0, 0, 0, 0, 0, 0, 0, 0x30, 0x30, 0x20, 0x20, 0x10],
    [0, 0, 0, 0, 0, 0, 0, 0xfe, 0, 0, 0, 0, 0, 0, 0],
    [0, 0, 0, 0, 0, 0, 0, 0, 0, 0, 0x30, 0x30, 0, 0, 0],
    [0, 0, 0x80, 0x40, 0x40, 0x20, 0x10, 0x10, 0x08, 0x04, 0x04, 0x02, 0, 0, 0],
    [0, 0, 0x38, 0x44, 0x82, 0x82, 0x82, 0x82, 0x82, 0x82, 0x44, 0x38, 0, 0, 0],
    [0, 0, 0x10, 0x18, 0x14, 0x12, 0x10, 0x10, 0x10, 0x10, 0x10, 0xfe, 0, 0, 0],
    [0, 0, 0x7c, 0x82, 0x82, 0x40, 0x20, 0x10, 0x08, 0x04, 0x02, 0xfe, 0, 0, 0],
    [0, 0, 0xfe, 0x80, 0x40, 0x20, 0x70, 0x80, 0x80, 0x80, 0x82, 0x7c, 0, 0, 0],
    [0, 0, 0x40, 0x60, 0x50, 0x48, 0x44, 0x42, 0xfe, 0x40, 0x40, 0x40, 0, 0, 0],
    [0, 0, 0xfe, 0x02, 0x02, 0x7a, 0x86, 0x80, 0x80, 0x80, 0x82, 0x7c, 0, 0, 0],
    [0, 0, 0x78, 0x04, 0x02, 0x02, 0x7a, 0x86, 0x82, 0x82, 0x82, 0x7c, 0, 0, 0],
    [0, 0, 0xfe, 0x80, 0x40, 0x40, 0x20, 0x20, 0x10, 0x10, 0x08, 0x08, 0, 0, 0],
    [0, 0, 0x38, 0x44, 0x82, 0x44, 0x38, 0x44, 0x82, 0x82, 0x44, 0x38, 0, 0, 0],
    [0, 0, 0x7c, 0x82, 0x82, 0x82, 0xc2, 0xbc, 0x80, 0x80, 0x40, 0x3c, 0, 0, 0],
    [0, 0, 0, 0, 0, 0x30, 0x30, 0, 0, 0, 0x30, 0x30, 0, 0, 0],
    [0, 0, 0, 0, 0, 0x30, 0x30, 0, 0, 0, 0x30, 0x30, 0x20, 0x20, 0x10],
    [0, 0, 0x40, 0x20, 0x10, 0x08, 0x04, 0x04, 0x08, 0x10, 0x20, 0x40, 0, 0, 0],
    [0, 0, 0, 0, 0, 0, 0xfe, 0, 0, 0xfe, 0, 0, 0, 0, 0],
    [0, 0, 0x04, 0x08, 0x10, 0x20, 0x40, 0x40, 0x20, 0x10, 0x08, 0x04, 0, 0, 0],
    [0, 0, 0x7c, 0x82, 0x82, 0x80, 0x40, 0x20, 0x10, 0x10, 0, 0x10, 0, 0, 0],
    [0, 0, 0x7c, 0x82, 0x82, 0xf2, 0x8a, 0xca, 0xb2, 0x02, 0x02, 0x7c, 0, 0, 0],
    [0, 0, 0x10, 0x28, 0x44, 0x82, 0x82, 0x82, 0xfe, 0x82, 0x82, 0x82, 0, 0, 0],
    [0, 0, 0x3e, 0x42, 0x82, 0x42, 0x3e, 0x42, 0x82, 0x82, 0x42, 0x3e, 0, 0, 0],
    [0, 0, 0x7c, 0x82, 0x02, 0x02, 0x02, 0x02, 0x02, 0x02, 0x82, 0x7c, 0, 0, 0],
    [0, 0, 0x3e, 0x42, 0x82, 0x82, 0x82, 0x82, 0x82, 0x82, 0x42, 0x3e, 0, 0, 0],
    [0, 0, 0xfe, 0x02, 0x02, 0x02, 0x3e, 0x02, 0x02, 0x02, 0x02, 0xfe, 0, 0, 0],
    [0, 0, 0xfe, 0x02, 0x02, 0x02, 0x3e, 0x02, 0x02, 0x02, 0x02, 0x02, 0, 0, 0],
    [0, 0, 0x7c, 0x82, 0x02, 0x02, 0x02, 0xe2, 0x82, 0x82, 0x82, 0x7c, 0, 0, 0],
    [0, 0, 0x82, 0x82, 0x82, 0x82, 0xfe, 0x82, 0x82, 0x82, 0x82, 0x82, 0, 0, 0],
    [0, 0, 0x7c, 0x10, 0x10, 0x10, 0x10, 0x10, 0x10, 0x10, 0x10, 0x7c, 0, 0, 0],
    [0, 0, 0xf1, 0x40, 0x40, 0x40, 0x40, 0x40, 0x40, 0x40, 0x42, 0x3c, 0, 0, 0],
    [0, 0, 0x82, 0x42, 0x22, 0x12, 0x0e, 0x0a, 0x12, 0x22, 0x42, 0x82, 0, 0, 0],
    [0, 0, 0x02, 0x02, 0x02, 0x02, 0x02, 0x02, 0x02, 0x02, 0x02, 0xfe, 0, 0, 0],
    [0, 0, 0x82, 0x82, 0xc6, 0xaa, 0xaa, 0x92, 0x92, 0x82, 0x82, 0x82, 0, 0, 0],
    [0, 0, 0x82, 0x82, 0x86, 0x8a, 0x92, 0xa2, 0xc2, 0x82, 0x82, 0x82, 0, 0, 0],
    [0, 0, 0x7c, 0x82, 0x82, 0x82, 0x82, 0x82, 0x82, 0x82, 0x82, 0x7c, 0, 0, 0],
    [0, 0, 0x7e, 0x82, 0x82, 0x82, 0x7e, 0x02, 0x02, 0x02, 0x02, 0x02, 0, 0, 0],
    [0, 0, 0x7c, 0x82, 0x82, 0x82, 0x82, 0x82, 0x82, 0x8a, 0x92, 0x7c, 0x20, 0xc0, 0],
    [0, 0, 0x7e, 0x82, 0x82, 0x82, 0x7e, 0x12, 0x22, 0x42, 0x82, 0x82, 0, 0, 0],
    [0, 0, 0x7c, 0x82, 0x82, 0x02, 0x1c, 0x60, 0x80, 0x82, 0x82, 0x7c, 0, 0, 0],
    [0, 0, 0xfe, 0x10, 0x10, 0x10, 0x10, 0x10, 0x10, 0x10, 0x10, 0x10, 0, 0, 0],
    [0, 0, 0x82, 0x82, 0x82, 0x82, 0x82, 0x82, 0x82, 0x82, 0x82, 0x7c, 0, 0, 0],
    [0, 0, 0x82, 0x82, 0x82, 0x44, 0x44, 0x44, 0x28, 0x28, 0x28, 0x10, 0, 0, 0],
    [0, 0, 0x82, 0x82, 0x82, 0x82, 0x92, 0x92, 0x92, 0x92, 0xaa, 0x44, 0, 0, 0],
    [0, 0, 0x82, 0x82, 0x44, 0x28, 0x10, 0x10, 0x28, 0x44, 0x82, 0x82, 0, 0, 0],
    [0, 0, 0x82, 0x82, 0x44, 0x28, 0x10, 0x10, 0x10, 0x10, 0x10, 0x10, 0, 0, 0],
    [0, 0, 0xfe, 0x80, 0x40, 0x20, 0x10, 0x08, 0x04, 0x02, 0x02, 0xfe, 0, 0, 0],
    [0, 0x78, 0x08, 0x08, 0x08, 0x08, 0x08, 0x08, 0x08, 0x08, 0x08, 0x08, 0x78, 0, 0],
    [0, 0, 0x02, 0x04, 0x04, 0x08, 0x10, 0x10, 0x20, 0x40, 0x40, 0x80, 0, 0, 0],
    [0, 0x3c, 0x20, 0x20, 0x20, 0x20, 0x20, 0x20, 0x20, 0x20, 0x20, 0x20, 0x3c, 0, 0],
    [0, 0, 0x10, 0x28, 0x44, 0x82, 0, 0, 0, 0, 0, 0, 0, 0, 0],
    [0, 0, 0, 0, 0, 0, 0, 0, 0, 0, 0, 0, 0xff, 0, 0],
    [0, 0x08, 0x10, 0x20, 0, 0, 0, 0, 0, 0, 0, 0, 0, 0, 0],
    [0, 0, 0, 0, 0, 0x7c, 0x80, 0x80, 0xfc, 0x82, 0xc2, 0xbc, 0, 0, 0],
    [0, 0, 0x02, 0x02, 0x02, 0x7a, 0x86, 0x82, 0x82, 0x82, 0x86, 0x7a, 0, 0, 0],
    [0, 0, 0, 0, 0, 0x7c, 0x82, 0x02, 0x02, 0x02, 0x82, 0x7c, 0, 0, 0],
    [0, 0, 0x80, 0x80, 0x80, 0xbc, 0xc2, 0x82, 0x82, 0x82, 0xc2, 0xbc, 0, 0, 0],
    [0, 0, 0, 0, 0, 0x7c, 0x82, 0x82, 0xfe, 0x02, 0x02, 0x7c, 0, 0, 0],
    [0, 0, 0x70, 0x88, 0x88, 0x08, 0x08, 0x3e, 0x08, 0x08, 0x08, 0x08, 0, 0, 0],
    [0, 0, 0, 0, 0, 0xbc, 0x42, 0x42, 0x42, 0x3c, 0x02, 0x7c, 0x82, 0x82, 0x7c],
    [0, 0, 0x02, 0x02, 0x02, 0x7a, 0x86, 0x82, 0x82, 0x82, 0x82, 0x82, 0, 0, 0],
    [0, 0, 0x18, 0, 0, 0x1c, 0x10, 0x10, 0x10, 0x10, 0x10, 0x7c, 0, 0, 0],
    [0, 0, 0x60, 0, 0, 0x70, 0x40, 0x40, 0x40, 0x40, 0x40, 0x42, 0x42, 0x42, 0x3c],
    [0, 0, 0x02, 0x02, 0x02, 0x82, 0x62, 0x1a, 0x06, 0x1a, 0x62, 0x82, 0, 0, 0],
    [0, 0, 0x1c, 0x10, 0x10, 0x10, 0x10, 0x10, 0x10, 0x10, 0x10, 0x7c, 0, 0, 0],
    [0, 0, 0, 0, 0, 0x6e, 0x92, 0x92, 0x92, 0x92, 0x92, 0x82, 0, 0, 0],
    [0, 0, 0, 0, 0, 0x7a, 0x86, 0x82, 0x82, 0x82, 0x82, 0x82, 0, 0, 0],
    [0, 0, 0, 0, 0, 0x7c, 0x82, 0x82, 0x82, 0x82, 0x82, 0x7c, 0, 0, 0],
    [0, 0, 0, 0, 0, 0x7a, 0x86, 0x82, 0x82, 0x82, 0x86, 0x7a, 0x02, 0x02, 0x02],
    [0, 0, 0, 0, 0, 0xbc, 0xc2, 0x82, 0x82, 0x82, 0xc2, 0xbc, 0x80, 0x80, 0x80],
    [0, 0, 0, 0, 0, 0x72, 0x8c, 0x84, 0x04, 0x04, 0x04, 0x04, 0, 0, 0],
    [0, 0, 0, 0, 0, 0x7c, 0x82, 0x02, 0x7c, 0x80, 0x82, 0x7c, 0, 0, 0],
    [0, 0, 0, 0x08, 0x08, 0x7e, 0x08, 0x08, 0x08, 0x08, 0x88, 0x70, 0, 0, 0],
    [0, 0, 0, 0, 0, 0x42, 0x42, 0x42, 0x42, 0x42, 0x42, 0xbc, 0, 0, 0],
    [0, 0, 0, 0, 0, 0x82, 0x82, 0x44, 0x44, 0x28, 0x28, 0x10, 0, 0, 0],
    [0, 0, 0, 0, 0, 0x82, 0x82, 0x92, 0x92, 0x92, 0xaa, 0x44, 0, 0, 0],
    [0, 0, 0, 0, 0, 0x82, 0x44, 0x28, 0x10, 0x28, 0x44, 0x82, 0, 0, 0],
    [0, 0, 0, 0, 0, 0x42, 0x42, 0x42, 0x42, 0x42, 0x62, 0x5c, 0x40, 0x42, 0x3c],
    [0, 0, 0, 0, 0, 0xfe, 0x40, 0x20, 0x10, 0x08, 0x04, 0xfe, 0, 0, 0],
    [0, 0xe0, 0x10, 0x10, 0x10, 0x20, 0x18, 0x18, 0x20, 0x10, 0x10, 0x10, 0xe0, 0, 0],
    [0, 0x10, 0x10, 0x10, 0x10, 0x10, 0x10, 0x10, 0x10, 0x10, 0x10, 0x10, 0x10, 0, 0],
    [0, 0x0e, 0x10, 0x10, 0x10, 0x08, 0x30, 0x30, 0x08, 0x10, 0x10, 0x10, 0x0e, 0, 0],
    [0, 0, 0x8c, 0x92, 0x62, 0, 0, 0, 0, 0, 0, 0, 0, 0, 0],
    [0, 0, 0, 0, 0, 0, 0, 0, 0, 0, 0, 0, 0, 0, 0]]"

definition InitFont :: "(int \<Rightarrow> u8) \<Rightarrow> RGB \<Rightarrow> Dimensions \<Rightarrow> Font" where
  "InitFont m rgb dims =
     \<lparr>matrix = m, font_rgb = rgb, font_height = ucast (dim_height dims), font_width = ucast (dim_width dims)\<rparr>"

text \<open>\<open>beyond\<close> is what memory holds around the bitmap.\<close>

definition gnu_font_matrix :: "(int \<Rightarrow> u8) \<Rightarrow> int \<Rightarrow> u8" where
  "gnu_font_matrix beyond k =
     (if 0 \<le> k \<and> k < 2048 then GnuFontBitmap ! nat (k div 16) ! nat (k mod 16) else beyond k)"

definition InitGnuFont :: "(int \<Rightarrow> u8) \<Rightarrow> RGB \<Rightarrow> Dimensions \<Rightarrow> Font" where
  "InitGnuFont beyond rgb dims = InitFont (gnu_font_matrix beyond) rgb dims"

lemma GnuFontBitmap_shape: "length GnuFontBitmap = 128" "list_all (\<lambda>r. length r = 16) GnuFontBitmap"
  by (simp_all add: GnuFontBitmap_def pad_row_def)

end
