(* ===== verification/Graphics.thy ===== *)
theory Graphics
  imports Font
begin

text \<open>
  \<^verbatim>\<open>src/src/kernel/graphics/graphics_types.c\<close> and \<^verbatim>\<open>graphics_ctx.c\<close>: packed colours and the
  double-buffered screen. The back buffer and the frame buffer are ranges of the byte memory; a bit
  string says which of 64 bands of pixel rows differ between them. Indices are C \<^verbatim>\<open>int\<close>s. A
  division by a band height of 0, the height of the bands of a screen of fewer than 64 rows, is
  \<open>None\<close>.
\<close>

unbundle bit_operations_syntax

section \<open>Data\<close>

record stivale2_struct_tag_framebuffer =
  framebuffer_addr :: u64
  framebuffer_width :: u16
  framebuffer_height :: u16
  framebuffer_pitch :: u16
  framebuffer_bpp :: u16
  memory_model :: u8
  red_mask_size :: u8
  red_mask_shift :: u8
  green_mask_size :: u8
  green_mask_shift :: u8
  blue_mask_size :: u8
  blue_mask_shift :: u8

record GraphicsCtx =
  fb :: stivale2_struct_tag_framebuffer
  dirty_block_str :: u64
  buffer :: u64
  num_rows :: u8
  row_height :: u8

record graphics_state = lapic_state +
  GLOBAL_CTX :: GraphicsCtx

section \<open>Colours\<close>

text \<open>
  The macro \<^verbatim>\<open>ABS_RIGHT_SHIFT\<close> on an unsigned shift: the test \<^verbatim>\<open>shift >= 0\<close> always holds.
\<close>

definition ABS_RIGHT_SHIFT :: "i32 \<Rightarrow> u32 \<Rightarrow> i32" where
  "ABS_RIGHT_SHIFT num shift = sar32 num shift * 1 + shl32 num (shift * (- 1)) * 0"

definition pack_component :: "u8 \<Rightarrow> u8 \<Rightarrow> u8 \<Rightarrow> u32" where
  "pack_component c mask_size mask_shift =
     (let shift = 8 - ucast mask_size;
          shifted = ABS_RIGHT_SHIFT (ucast c) shift;
          c_and = shl32 2 (ucast mask_size) - 1
      in shl32 (shifted AND c_and) (ucast mask_shift))"

definition PackRgb :: "RGB \<Rightarrow> stivale2_struct_tag_framebuffer \<Rightarrow> u32" where
  "PackRgb rgb f =
     (if framebuffer_bpp f \<noteq> 32 then 0
      else pack_component (red rgb) (red_mask_size f) (red_mask_shift f)
        OR pack_component (green rgb) (green_mask_size f) (green_mask_shift f)
        OR pack_component (blue rgb) (blue_mask_size f) (blue_mask_shift f))"

section \<open>The context\<close>

text \<open>\<open>back_buffer\<close> is the address of the static array \<^verbatim>\<open>BACK_BUFFER\<close>.\<close>

definition InitGraphicsCtx ::
  "u64 \<Rightarrow> stivale2_struct_tag_framebuffer \<Rightarrow> 'a graphics_state_scheme \<Rightarrow> 'a graphics_state_scheme" where
  "InitGraphicsCtx back_buffer f s =
     s\<lparr>GLOBAL_CTX := \<lparr>fb = f, dirty_block_str = 0, buffer = back_buffer, num_rows = 64,
         row_height = ucast (framebuffer_height f div 64)\<rparr>\<rparr>"

definition fb_width :: "'a graphics_state_scheme \<Rightarrow> i32" where
  "fb_width s = ucast (framebuffer_width (fb (GLOBAL_CTX s)))"

definition PixelIndex :: "Coordinate \<Rightarrow> 'a graphics_state_scheme \<Rightarrow> i32" where
  "PixelIndex coords s = ucast (coord_x coords) + ucast (coord_y coords) * fb_width s"

text \<open>\<^verbatim>\<open>GLOBAL_CTX.buffer + i\<close> for an \<^verbatim>\<open>int\<close> index.\<close>

definition pixel_ptr :: "'a graphics_state_scheme \<Rightarrow> i32 \<Rightarrow> u64" where
  "pixel_ptr s i = buffer (GLOBAL_CTX s) + 4 * i32_to_u64 i"

text \<open>\<^verbatim>\<open>n * framebuffer_bpp / 8\<close>, computed in \<^verbatim>\<open>int\<close> and converted to \<^verbatim>\<open>size_t\<close>.\<close>

definition row_bytes :: "u16 \<Rightarrow> 'a graphics_state_scheme \<Rightarrow> u64" where
  "row_bytes w s = i32_to_u64 (div_i32 (ucast w * ucast (framebuffer_bpp (fb (GLOBAL_CTX s)))) 8)"

primrec fill_pixels :: "nat \<Rightarrow> mem \<Rightarrow> u64 \<Rightarrow> u32 \<Rightarrow> mem" where
  "fill_pixels 0 m dest v = m"
| "fill_pixels (Suc n) m dest v = fill_pixels n (store32 m dest v) (dest + 4) v"

definition ClearScreen :: "RGB \<Rightarrow> 'a graphics_state_scheme \<Rightarrow> 'a graphics_state_scheme" where
  "ClearScreen rgb s =
     (let f = fb (GLOBAL_CTX s);
          num_pixels = ucast (framebuffer_height f) * ucast (framebuffer_width f) :: i32;
          packed_rgb = PackRgb rgb f;
          s = s\<lparr>memory := fill_pixels (nat (sint num_pixels)) (memory s) (buffer (GLOBAL_CTX s)) packed_rgb\<rparr>
      in s\<lparr>GLOBAL_CTX := (GLOBAL_CTX s)\<lparr>dirty_block_str := 0xFFFFFFFFFFFFFFFF\<rparr>\<rparr>)"

section \<open>Dirty bands\<close>

text \<open>The loops \<^verbatim>\<open>for(int i = first; i < bound; ++i) SetNthBit(&dirty_block_str, i)\<close>.\<close>

function set_dirty :: "int \<Rightarrow> int \<Rightarrow> u64 \<Rightarrow> u64" where
  "set_dirty i bound d = (if i < bound then set_dirty (i + 1) bound (SetNthBit d (word_of_int i)) else d)"
  by pat_completeness auto
termination by (relation "measure (\<lambda>(i, bound, d). nat (bound - i))") auto

declare set_dirty.simps [simp del]

definition mark_dirty :: "int \<Rightarrow> int \<Rightarrow> 'a graphics_state_scheme \<Rightarrow> 'a graphics_state_scheme" where
  "mark_dirty i bound s =
     s\<lparr>GLOBAL_CTX := (GLOBAL_CTX s)\<lparr>dirty_block_str := set_dirty i bound (dirty_block_str (GLOBAL_CTX s))\<rparr>\<rparr>"

primrec write_back_rows :: "nat \<Rightarrow> i32 \<Rightarrow> i32 \<Rightarrow> 'a graphics_state_scheme \<Rightarrow> 'a graphics_state_scheme" where
  "write_back_rows 0 buff_index screen_index s = s"
| "write_back_rows (Suc n) buff_index screen_index s =
     (let f = fb (GLOBAL_CTX s);
          dest = framebuffer_addr f + i32_to_u64 screen_index;
          src = pixel_ptr s buff_index;
          s = s\<lparr>memory := memmove (memory s) dest src (row_bytes (framebuffer_width f) s)\<rparr>
      in write_back_rows n (buff_index + fb_width s) (screen_index + ucast (framebuffer_pitch f)) s)"

definition WriteBackCell :: "u8 \<Rightarrow> 'a graphics_state_scheme \<Rightarrow> 'a graphics_state_scheme" where
  "WriteBackCell cell_ind s =
     (let c = GLOBAL_CTX s;
          buff_index = ucast cell_ind * ucast (row_height c) * fb_width s :: i32;
          screen_index = ucast cell_ind * ucast (row_height c) * ucast (framebuffer_pitch (fb c)) :: i32;
          s = write_back_rows (unat (row_height c)) buff_index screen_index s
      in s\<lparr>GLOBAL_CTX := (GLOBAL_CTX s)\<lparr>dirty_block_str :=
             ClearNthBit (dirty_block_str (GLOBAL_CTX s)) (ucast cell_ind)\<rparr>\<rparr>)"

primrec write_back_loop :: "nat \<Rightarrow> nat \<Rightarrow> 'a graphics_state_scheme \<Rightarrow> 'a graphics_state_scheme" where
  "write_back_loop 0 x s = s"
| "write_back_loop (Suc n) x s =
     write_back_loop n (Suc x)
       (if GetNthBit (dirty_block_str (GLOBAL_CTX s)) (of_nat x) \<noteq> 0 then WriteBackCell (of_nat x) s else s)"

definition WriteBack :: "'a graphics_state_scheme \<Rightarrow> 'a graphics_state_scheme" where
  "WriteBack s = write_back_loop (unat (num_rows (GLOBAL_CTX s))) 0 s"

section \<open>Drawing\<close>

primrec copy_rows :: "nat \<Rightarrow> mem \<Rightarrow> u64 \<Rightarrow> u64 \<Rightarrow> u64 \<Rightarrow> u64 \<Rightarrow> mem" where
  "copy_rows 0 m dest src stride nbytes = m"
| "copy_rows (Suc n) m dest src stride nbytes =
     copy_rows n (memmove m (dest + stride) src nbytes) (dest + stride) src stride nbytes"

definition DrawRect ::
  "Coordinate \<Rightarrow> Dimensions \<Rightarrow> RGB \<Rightarrow> 'a graphics_state_scheme \<Rightarrow> 'a graphics_state_scheme option" where
  "DrawRect coords dims rgb s =
     (let packed_rgb = PackRgb rgb (fb (GLOBAL_CTX s));
          dest = pixel_ptr s (PixelIndex coords s);
          m = fill_pixels (unat (dim_width dims)) (memory s) dest packed_rgb;
          m = copy_rows (unat (dim_height dims) - 1) m dest dest (4 * ucast (framebuffer_width (fb (GLOBAL_CTX s))))
                (row_bytes (dim_width dims) s);
          s = s\<lparr>memory := m\<rparr>;
          y = uint (coord_y coords);
          rh = uint (row_height (GLOBAL_CTX s))
      in if rh = 0 then None
         else
           (let starting_row = y sdiv rh;
                ending_row = (y + uint (dim_height dims)) sdiv rh + (if y smod rh = 0 then 1 else 0)
            in Some (mark_dirty starting_row (ending_row + 1) s)))"

text \<open>The pixels of one row of a character, and of all its rows.\<close>

primrec char_row :: "nat \<Rightarrow> nat \<Rightarrow> u8 \<Rightarrow> u32 \<Rightarrow> i32 \<Rightarrow> i32 \<Rightarrow> 'a graphics_state_scheme \<Rightarrow> 'a graphics_state_scheme" where
  "char_row 0 i row v x y s = s"
| "char_row (Suc n) i row v x y s =
     char_row n (Suc i) row v x y
       (if GetNthBit (ucast row) (of_nat i) \<noteq> 0
        then s\<lparr>memory := store32 (memory s) (pixel_ptr s (x + of_nat i + y * fb_width s)) v\<rparr> else s)"

primrec char_rows :: "nat \<Rightarrow> nat \<Rightarrow> Font \<Rightarrow> u8 \<Rightarrow> u32 \<Rightarrow> Coordinate \<Rightarrow> 'a graphics_state_scheme \<Rightarrow> 'a graphics_state_scheme" where
  "char_rows 0 j font c v coords s = s"
| "char_rows (Suc n) j font c v coords s =
     char_rows n (Suc j) font c v coords
       (char_row (unat (font_width font)) 0 (matrix font (16 * sint c + int j)) v
          (ucast (coord_x coords)) (ucast (coord_y coords) + of_nat j) s)"

definition DrawChar :: "Font \<Rightarrow> Coordinate \<Rightarrow> u8 \<Rightarrow> 'a graphics_state_scheme \<Rightarrow> 'a graphics_state_scheme option" where
  "DrawChar font coords c s =
     (let packed_rgb = PackRgb (font_rgb font) (fb (GLOBAL_CTX s));
          s = char_rows (unat (font_height font)) 0 font c packed_rgb coords s;
          y = uint (coord_y coords);
          h = uint (font_height font);
          rh = uint (row_height (GLOBAL_CTX s))
      in if rh = 0 then None
         else
           (let starting_row = y sdiv rh;
                ending_row = (y + h) sdiv rh + (if (y + h) smod rh > 0 then 1 else 0)
            in Some (mark_dirty starting_row ending_row s)))"

partial_function (option) print_str_loop ::
  "Font \<Rightarrow> Coordinate \<Rightarrow> i32 \<Rightarrow> i32 \<Rightarrow> u64 \<Rightarrow> 'a graphics_state_scheme \<Rightarrow> 'a graphics_state_scheme option" where
  "print_str_loop font coords x y str s =
     (let c = memory s str
      in if c = 0 then Some s
         else if c = 10 \<or> sint (ucast (coord_x coords) + x) > sint (fb_width s)
         then print_str_loop font coords (ucast (coord_x coords)) (y + ucast (font_height font)) (str + 1) s
         else
           (let x = x + ucast (font_width font)
            in case DrawChar font \<lparr>coord_x = coord_x coords + ucast x, coord_y = coord_y coords + ucast y\<rparr> c s of
                 None \<Rightarrow> None
               | Some s \<Rightarrow> print_str_loop font coords x y (str + 1) s))"

definition PrintStr :: "Font \<Rightarrow> Coordinate \<Rightarrow> u64 \<Rightarrow> 'a graphics_state_scheme \<Rightarrow> 'a graphics_state_scheme option" where
  "PrintStr font coords str s =
     print_str_loop font coords (ucast (coord_x coords)) (ucast (coord_y coords)) str s"

primrec transpose_rows ::
  "nat \<Rightarrow> i32 \<Rightarrow> Coordinate \<Rightarrow> Dimensions \<Rightarrow> i32 \<Rightarrow> i32 \<Rightarrow> 'a graphics_state_scheme \<Rightarrow> 'a graphics_state_scheme" where
  "transpose_rows 0 y top_left dims down left s = s"
| "transpose_rows (Suc n) y top_left dims down left s =
     (let src = pixel_ptr s (PixelIndex \<lparr>coord_x = coord_x top_left, coord_y = ucast y\<rparr> s);
          dest = pixel_ptr s (PixelIndex \<lparr>coord_x = coord_x top_left + ucast left, coord_y = ucast (y + down)\<rparr> s);
          s = s\<lparr>memory := memmove (memory s) dest src (row_bytes (dim_width dims) s)\<rparr>
      in transpose_rows n (y + 1) top_left dims down left s)"

definition Transpose ::
  "Coordinate \<Rightarrow> Dimensions \<Rightarrow> i32 \<Rightarrow> i32 \<Rightarrow> 'a graphics_state_scheme \<Rightarrow> 'a graphics_state_scheme option" where
  "Transpose top_left dims down left s =
     (let s = transpose_rows (unat (dim_height dims)) (ucast (coord_y top_left)) top_left dims down left s;
          y = uint (coord_y top_left);
          h = uint (dim_height dims);
          top_row = (if sint down > 0 then y else sint (ucast (coord_y top_left) + down :: i32));
          bottom_row = (if sint down > 0 then sint (ucast (coord_y top_left) + ucast (dim_height dims) + down :: i32) else y + h);
          rh = uint (row_height (GLOBAL_CTX s))
      in if rh = 0 then None
         else
           (let top_invalid_row = top_row sdiv rh;
                bottom_invalid_row = bottom_row sdiv rh + (if bottom_row smod rh \<noteq> 0 then 1 else 0)
            in Some (mark_dirty top_invalid_row bottom_invalid_row s)))"

end
