(* ===== verification/Keycodes.thy ===== *)
theory Keycodes
  imports Graphics
begin

text \<open>
  \<^verbatim>\<open>src/src/kernel/interrupts/keycodes.c\<close>: the state of the keyboard and the characters of the
  scan codes. The arrays hold 128 characters, of which the initialisers give the first ones. An index
  beyond the array is \<open>None\<close>; the interrupt handler calls the consumer below 128 only.
\<close>

section \<open>Data\<close>

definition BACKSPACE_PRESSED :: u8 where "BACKSPACE_PRESSED = 0x0E"

definition BACKSPACE_RELEASED :: u8 where "BACKSPACE_RELEASED = 0x8E"

definition ENTER_PRESSED :: u8 where "ENTER_PRESSED = 0x1C"

definition ENTER_RELEASED :: u8 where "ENTER_RELEASED = 0x9C"

definition LEFT_SHIFT_PRESSED :: u8 where "LEFT_SHIFT_PRESSED = 0x2A"

definition LEFT_SHIFT_RELEASED :: u8 where "LEFT_SHIFT_RELEASED = 0xAA"

definition RIGHT_SHIFT_PRESSED :: u8 where "RIGHT_SHIFT_PRESSED = 0x36"

definition RIGHT_SHIFT_RELEASED :: u8 where "RIGHT_SHIFT_RELEASED = 0xB6"

definition CTRL_PRESSED :: u8 where "CTRL_PRESSED = 0x1E"

definition CTRL_RELEASED :: u8 where "CTRL_RELEASED = 0x9E"

record KeyInfo =
  shift :: bool
  backspace :: bool
  ctrl :: bool
  enter :: bool
  scancode :: u8

definition LOWERCASE_CHARS_BY_SCANCODE :: "u8 list" where
  "LOWERCASE_CHARS_BY_SCANCODE = take 128 (
    [0, 0, 49, 50, 51, 52, 53, 54, 55, 56, 57, 48, 45, 61, 0,
     0, 113, 119, 101, 114, 116, 121, 117, 105, 111, 112, 91, 93, 0, 0,
     97, 115, 100, 102, 103, 104, 106, 107, 108, 59, 39, 96, 0, 92, 122,
     120, 99, 118, 98, 110, 109, 44, 46, 47, 0, 0, 0, 32, 0] @ replicate 128 0)"

definition UPPERCASE_CHARS_BY_SCANCODE :: "u8 list" where
  "UPPERCASE_CHARS_BY_SCANCODE = take 128 (
    [0, 0, 33, 64, 35, 36, 37, 94, 38, 42, 40, 41, 95, 43, 0,
     0, 81, 87, 69, 82, 84, 89, 85, 73, 79, 80, 123, 125, 0, 0,
     65, 83, 68, 70, 71, 72, 74, 75, 76, 58, 34, 126, 0, 124, 90,
     88, 67, 86, 66, 78, 77, 60, 62, 63, 0, 0, 0, 32, 0] @ replicate 128 0)"

section \<open>Characters\<close>

definition char_at :: "u8 list \<Rightarrow> u8 \<Rightarrow> u8 option" where
  "char_at t code = (if unat code < length t then Some (t ! unat code) else None)"

definition CharFromScancode :: "KeyInfo \<Rightarrow> u8 option" where
  "CharFromScancode key_info =
     (if shift key_info then char_at UPPERCASE_CHARS_BY_SCANCODE (scancode key_info)
      else char_at LOWERCASE_CHARS_BY_SCANCODE (scancode key_info))"

lemma CharFromScancode_defined: "CharFromScancode k \<noteq> None \<longleftrightarrow> scancode k < 0x80"
  by (simp add: CharFromScancode_def char_at_def LOWERCASE_CHARS_BY_SCANCODE_def
      UPPERCASE_CHARS_BY_SCANCODE_def word_less_nat_alt)

end
