(* ===== verification/Terminal.thy ===== *)
theory Terminal
  imports Keycodes
begin

text \<open>
  \<^verbatim>\<open>src/src/kernel/graphics/terminal.c\<close>: the terminal window, its cursor, scrolling and the
  handling of key strokes. The functions take a pointer to a terminal; the program has two, the static
  \<^verbatim>\<open>main_term\<close> and the copy that \<^verbatim>\<open>kernel.c\<close> keeps. Strings are read from memory; the local
  array of \<^verbatim>\<open>HandleKeyStroke\<close> is at an address given as an argument.
\<close>

unbundle bit_operations_syntax

section \<open>Data\<close>

record Terminal =
  dims :: Dimensions
  font :: Font
  chars_per_line :: u16
  num_lines :: u16
  top_left :: Coordinate
  cursor :: Coordinate
  bg_color :: RGB
  border_color :: RGB
  border_thickness :: u8
  prompt :: u64

datatype term_ptr = Main_term | Kernel_term

record term_state = graphics_state +
  terminals :: "term_ptr \<Rightarrow> Terminal"

abbreviation main_term :: "'a term_state_scheme \<Rightarrow> Terminal" where
  "main_term s \<equiv> terminals s Main_term"

definition set_cursor :: "term_ptr \<Rightarrow> u16 \<Rightarrow> u16 \<Rightarrow> 'a term_state_scheme \<Rightarrow> 'a term_state_scheme" where
  "set_cursor p x y s =
     s\<lparr>terminals := (terminals s)(p := (terminals s p)\<lparr>cursor := \<lparr>coord_x = x, coord_y = y\<rparr>\<rparr>)\<rparr>"

section \<open>Scrolling\<close>

primrec scroll_loop :: "nat \<Rightarrow> nat \<Rightarrow> 'a term_state_scheme \<Rightarrow> 'a term_state_scheme option" where
  "scroll_loop 0 i s = Some s"
| "scroll_loop (Suc n) i s =
     (let t = main_term s;
          row_top_left = \<lparr>coord_x = coord_x (top_left t),
            coord_y = of_nat i * ucast (font_height (font t)) + coord_y (top_left t)\<rparr>;
          row_dims = \<lparr>dim_width = dim_width (dims t), dim_height = ucast (font_height (font t))\<rparr>
      in case Transpose row_top_left row_dims (- 1 * ucast (font_height (font t))) 0 s of
           None \<Rightarrow> None
         | Some s \<Rightarrow> scroll_loop n (Suc i) (WriteBack s))"

definition Scroll :: "term_ptr \<Rightarrow> 'a term_state_scheme \<Rightarrow> 'a term_state_scheme option" where
  "Scroll p s =
     (case scroll_loop (unat (num_lines (main_term s))) 1 s of
        None \<Rightarrow> None
      | Some s \<Rightarrow>
          (let t = main_term s;
               final_rect_top_left = \<lparr>coord_x = coord_x (top_left t),
                 coord_y = coord_y (top_left t) + ucast (font_height (font t)) * (num_lines t - 1)\<rparr>;
               final_rect_dims = \<lparr>dim_width = dim_width (dims t), dim_height = ucast (font_height (font t))\<rparr>
           in case DrawRect final_rect_top_left final_rect_dims (bg_color (terminals s p)) s of
                None \<Rightarrow> None
              | Some s \<Rightarrow> Some (WriteBack s)))"

section \<open>Printing\<close>

definition TermNewLine :: "term_ptr \<Rightarrow> 'a term_state_scheme \<Rightarrow> 'a term_state_scheme option" where
  "TermNewLine p s =
     (let s = set_cursor p 0 (coord_y (cursor (terminals s p))) s;
          t = terminals s p;
          h = uint (font_height (font t))
      in if uint (coord_y (cursor t)) + h * 2 > uint (dim_height (dims t)) then Scroll p s
         else Some (set_cursor p 0 (coord_y (cursor t) + ucast (font_height (font t))) s))"

text \<open>One character: move the cursor, then draw the character there, a line feed too.\<close>

definition term_put :: "term_ptr \<Rightarrow> u8 \<Rightarrow> 'a term_state_scheme \<Rightarrow> 'a term_state_scheme option" where
  "term_put p c s =
     (let t = terminals s p;
          max_y = uint (dim_width (dims t)) - uint (border_thickness t) * 6;
          exceeds_term_width = uint (coord_x (cursor t)) > max_y
      in case (if c = 10 \<or> exceeds_term_width then TermNewLine p s
               else Some (set_cursor p (coord_x (cursor t) + ucast (font_width (font t))) (coord_y (cursor t)) s)) of
           None \<Rightarrow> None
         | Some s \<Rightarrow>
             (let t = terminals s p;
                  char_coords = \<lparr>coord_x = coord_x (top_left t) + coord_x (cursor t),
                    coord_y = coord_y (top_left t) + coord_y (cursor t)\<rparr>
              in DrawChar (font t) char_coords c s))"

partial_function (option) TermPrint :: "term_ptr \<Rightarrow> u64 \<Rightarrow> 'a term_state_scheme \<Rightarrow> 'a term_state_scheme option" where
  "TermPrint p str s =
     (if memory s str = 0 then Some s
      else (case term_put p (memory s str) s of None \<Rightarrow> None | Some s \<Rightarrow> TermPrint p (str + 1) s))"

definition TermPrintMain :: "u64 \<Rightarrow> 'a term_state_scheme \<Rightarrow> 'a term_state_scheme option" where
  "TermPrintMain str s = TermPrint Main_term str s"

definition RenderBorders :: "term_ptr \<Rightarrow> 'a term_state_scheme \<Rightarrow> 'a term_state_scheme option" where
  "RenderBorders p s =
     (let t = terminals s p;
          corner = \<lparr>coord_x = coord_x (top_left t) - ucast (border_thickness t),
            coord_y = coord_y (top_left t) - ucast (border_thickness t)\<rparr>;
          d = \<lparr>dim_width = dim_width (dims t) + ucast (border_thickness t) * 2,
            dim_height = dim_height (dims t) + ucast (border_thickness t) * 2\<rparr>
      in DrawRect corner d (border_color t) s)"

definition Render :: "term_ptr \<Rightarrow> 'a term_state_scheme \<Rightarrow> 'a term_state_scheme option" where
  "Render p s =
     (case RenderBorders p s of
        None \<Rightarrow> None
      | Some s \<Rightarrow>
          (let t = terminals s p
           in case DrawRect (top_left t) (dims t) (bg_color t) s of
                None \<Rightarrow> None
              | Some s \<Rightarrow> TermPrint p (prompt t) s))"

definition RenderMain :: "'a term_state_scheme \<Rightarrow> 'a term_state_scheme option" where
  "RenderMain s = Render Main_term s"

text \<open>\<open>None\<close> also for the division by the width or height of an empty font.\<close>

definition InitTerminal ::
  "Dimensions \<Rightarrow> Coordinate \<Rightarrow> Font \<Rightarrow> RGB \<Rightarrow> RGB \<Rightarrow> u8 \<Rightarrow> u64 \<Rightarrow> 'a term_state_scheme
    \<Rightarrow> (Terminal \<times> 'a term_state_scheme) option" where
  "InitTerminal d corner f bg border thickness prompt_str s =
     (if font_width f = 0 \<or> font_height f = 0 then None
      else
        (let t = \<lparr>dims = \<lparr>dim_width = dim_width d - ucast thickness * 2, dim_height = dim_height d - ucast thickness * 2\<rparr>,
               font = f, chars_per_line = dim_width d div ucast (font_width f),
               num_lines = dim_height d div ucast (font_height f),
               top_left = \<lparr>coord_x = coord_x corner + ucast thickness, coord_y = coord_y corner + ucast thickness\<rparr>,
               cursor = \<lparr>coord_x = 0, coord_y = 0\<rparr>, bg_color = bg, border_color = border,
               border_thickness = thickness, prompt = prompt_str\<rparr>;
             s = s\<lparr>terminals := (terminals s)(Main_term := t)\<rparr>
         in case Render Main_term s of None \<Rightarrow> None | Some s \<Rightarrow> Some (t, s)))"

section \<open>Key strokes\<close>

definition RemoveChar :: "'a term_state_scheme \<Rightarrow> 'a term_state_scheme option" where
  "RemoveChar s =
     (let t = main_term s
      in if coord_x (cursor t) = 0 \<and> coord_y (cursor t) = 0 then Some s
         else
           (let char_width = ucast (font_width (font t)) :: u16;
                char_height = ucast (font_height (font t)) :: u16;
                char_coords = \<lparr>coord_x = coord_x (top_left t) + coord_x (cursor t),
                  coord_y = coord_y (top_left t) + coord_y (cursor t)\<rparr>
            in case DrawRect char_coords \<lparr>dim_width = char_width, dim_height = char_height\<rparr> (bg_color t) s of
                 None \<Rightarrow> None
               | Some s \<Rightarrow>
                   Some (if coord_x (cursor (main_term s)) = 0
                     then set_cursor Main_term ((chars_per_line (main_term s) - 1) * char_width)
                            (coord_y (cursor (main_term s)) - char_height) s
                     else set_cursor Main_term (coord_x (cursor (main_term s)) - char_width)
                            (coord_y (cursor (main_term s))) s)))"

definition HandleKeyStroke :: "u64 \<Rightarrow> KeyInfo \<Rightarrow> 'a term_state_scheme \<Rightarrow> 'a term_state_scheme option" where
  "HandleKeyStroke c key_info s = do {
     ch \<leftarrow> CharFromScancode key_info;
     let s = s\<lparr>memory := (memory s)(c := ch, c + 1 := 0)\<rparr>;
     s \<leftarrow> (if backspace key_info then RemoveChar s
          else if enter key_info then do {
            s \<leftarrow> TermNewLine Main_term s;
            TermPrint Main_term (prompt (main_term s)) s
          } else TermPrint Main_term c s);
     Some (WriteBack s)
   }"

section \<open>The cursor stays in the window\<close>

lemma terminals_mark_dirty [simp]: "terminals (mark_dirty i b s) = terminals s"
  by (simp add: mark_dirty_def)

lemma terminals_char_row [simp]: "terminals (char_row n i row v x y s) = terminals s"
  by (induction n arbitrary: i s) simp_all

lemma terminals_char_rows [simp]: "terminals (char_rows n j f c v coords s) = terminals s"
  by (induction n arbitrary: j s) simp_all

lemma terminals_write_back_rows [simp]: "terminals (write_back_rows n b d s) = terminals s"
  by (induction n arbitrary: b d s) (simp_all add: Let_def)

lemma terminals_WriteBack [simp]: "terminals (WriteBack s) = terminals s"
proof -
  have "terminals (write_back_loop n x t) = terminals t" for n x and t :: "'a term_state_scheme"
    by (induction n arbitrary: x t) (simp_all add: WriteBackCell_def Let_def)
  then show ?thesis by (simp add: WriteBack_def)
qed

lemma terminals_transpose_rows [simp]: "terminals (transpose_rows n y corner d down left s) = terminals s"
  by (induction n arbitrary: y s) (simp_all add: Let_def)

lemma row_height_mark_dirty [simp]: "row_height (GLOBAL_CTX (mark_dirty i b s)) = row_height (GLOBAL_CTX s)"
  by (simp add: mark_dirty_def)

lemma ctx_char_row [simp]: "GLOBAL_CTX (char_row n i row v x y s) = GLOBAL_CTX s"
  by (induction n arbitrary: i s) simp_all

lemma ctx_char_rows [simp]: "GLOBAL_CTX (char_rows n j f c v coords s) = GLOBAL_CTX s"
  by (induction n arbitrary: j s) simp_all

lemma ctx_write_back_rows [simp]: "GLOBAL_CTX (write_back_rows n b d s) = GLOBAL_CTX s"
  by (induction n arbitrary: b d s) (simp_all add: Let_def)

lemma row_height_WriteBack [simp]: "row_height (GLOBAL_CTX (WriteBack s)) = row_height (GLOBAL_CTX s)"
proof -
  have "row_height (GLOBAL_CTX (write_back_loop n x t)) = row_height (GLOBAL_CTX t)" for n x and t :: "'a graphics_state_scheme"
    by (induction n arbitrary: x t) (simp_all add: WriteBackCell_def Let_def)
  then show ?thesis by (simp add: WriteBack_def)
qed

lemma ctx_transpose_rows [simp]: "GLOBAL_CTX (transpose_rows n y corner d down left s) = GLOBAL_CTX s"
  by (induction n arbitrary: y s) (simp_all add: Let_def)

text \<open>What every drawing function keeps of the terminals, and that it returns on a screen with bands.\<close>

definition same_windows :: "'a term_state_scheme \<Rightarrow> 'a term_state_scheme \<Rightarrow> bool" where
  "same_windows s s' \<longleftrightarrow> terminals s' = terminals s \<and> row_height (GLOBAL_CTX s') = row_height (GLOBAL_CTX s)"

lemma draw_keeps:
  fixes s :: "'a term_state_scheme"
  shows DrawRect_keeps: "DrawRect co d rgb s = Some s' \<Longrightarrow> same_windows s s'"
    and DrawChar_keeps: "DrawChar f co c s = Some s' \<Longrightarrow> same_windows s s'"
    and Transpose_keeps: "Transpose co d down left s = Some s' \<Longrightarrow> same_windows s s'"
  by (auto simp: same_windows_def DrawRect_def DrawChar_def Transpose_def Let_def split: if_splits)

lemma draw_returns:
  fixes s :: "'a term_state_scheme"
  assumes "row_height (GLOBAL_CTX s) \<noteq> 0"
  shows DrawRect_returns: "\<exists>s'. DrawRect co d rgb s = Some s'"
    and DrawChar_returns: "\<exists>s'. DrawChar f co c s = Some s'"
    and Transpose_returns: "\<exists>s'. Transpose co d down left s = Some s'"
  using assms by (auto simp: DrawRect_def DrawChar_def Transpose_def Let_def unsigned_eq_0_iff)

lemma scroll_loop_keeps: "scroll_loop n i s = Some s' \<Longrightarrow> same_windows s s'"
proof (induction n arbitrary: i s)
  case (Suc n)
  then show ?case
    by (auto simp: Let_def split: option.splits dest!: Suc.IH Transpose_keeps) (simp add: same_windows_def)
qed (simp add: same_windows_def)

lemma scroll_loop_returns: "row_height (GLOBAL_CTX s) \<noteq> 0 \<Longrightarrow> \<exists>s'. scroll_loop n i s = Some s'"
proof (induction n arbitrary: i s)
  case (Suc n)
  let ?t = "main_term s"
  obtain s1 where s1: "Transpose \<lparr>coord_x = coord_x (top_left ?t),
      coord_y = of_nat i * ucast (font_height (font ?t)) + coord_y (top_left ?t)\<rparr>
      \<lparr>dim_width = dim_width (dims ?t), dim_height = ucast (font_height (font ?t))\<rparr>
      (- 1 * ucast (font_height (font ?t))) 0 s = Some s1"
    using Transpose_returns [OF Suc.prems] by blast
  with Suc.prems have "row_height (GLOBAL_CTX (WriteBack s1)) \<noteq> 0"
    using Transpose_keeps by (fastforce simp: same_windows_def)
  with Suc.IH s1 show ?case by (simp add: Let_def)
qed simp

lemma Scroll_keeps: "Scroll p s = Some s' \<Longrightarrow> same_windows s s'"
  by (auto simp: Scroll_def Let_def split: option.splits dest!: scroll_loop_keeps DrawRect_keeps)
    (simp add: same_windows_def)

lemma Scroll_returns:
  assumes "row_height (GLOBAL_CTX s) \<noteq> 0" shows "\<exists>s'. Scroll p s = Some s'"
proof -
  obtain s1 where s1: "scroll_loop (unat (num_lines (main_term s))) 1 s = Some s1"
    using scroll_loop_returns [OF assms] by blast
  with assms have "row_height (GLOBAL_CTX s1) \<noteq> 0"
    using scroll_loop_keeps by (fastforce simp: same_windows_def)
  then show ?thesis using s1 by (auto simp: Scroll_def Let_def split: option.splits dest: DrawRect_returns)
qed


text \<open>
  The invariant of a window: the cursor is on a cell boundary, a whole line fits below it, and its
  column stays within the bordered window and one more character.
\<close>

definition term_inv :: "Terminal \<Rightarrow> bool" where
  "term_inv t \<longleftrightarrow>
     (let w = unat (font_width (font t)); h = unat (font_height (font t));
          x = unat (coord_x (cursor t)); y = unat (coord_y (cursor t));
          full_width = unat (dim_width (dims t)) + 2 * unat (border_thickness t)
      in 0 < w \<and> 0 < h \<and> h dvd y \<and> y + h \<le> unat (dim_height (dims t)) \<and>
         w dvd x \<and> x \<le> full_width + w \<and> full_width + w < 2 ^ 16 \<and>
         0 < chars_per_line t \<and> unat (chars_per_line t) * w \<le> full_width)"

text \<open>\<open>moves p s s'\<close>: nothing of the windows but the cursor of \<open>p\<close> changed.\<close>

definition moves :: "term_ptr \<Rightarrow> 'a term_state_scheme \<Rightarrow> 'a term_state_scheme \<Rightarrow> bool" where
  "moves p s s' \<longleftrightarrow> row_height (GLOBAL_CTX s') = row_height (GLOBAL_CTX s) \<and>
     (\<exists>c. terminals s' = (terminals s)(p := (terminals s p)\<lparr>cursor := c\<rparr>))"

lemma moves_refl: "moves p s s"
  by (auto simp: moves_def intro: exI [of _ "cursor (terminals s p)"])

lemma moves_trans: "moves p s t \<Longrightarrow> moves p t u \<Longrightarrow> moves p s u"
  by (auto simp: moves_def)

lemma moves_set_cursor: "moves p s (set_cursor p x y s)"
  by (auto simp: moves_def set_cursor_def)

lemma terminals_set_cursor [simp]:
  "terminals (set_cursor p x y s) p = (terminals s p)\<lparr>cursor := \<lparr>coord_x = x, coord_y = y\<rparr>\<rparr>"
  by (simp add: set_cursor_def)

lemma ctx_set_cursor [simp]: "GLOBAL_CTX (set_cursor p x y s) = GLOBAL_CTX s"
  by (simp add: set_cursor_def)

lemma same_windows_moves: "same_windows s s' \<Longrightarrow> moves p s s'"
  unfolding same_windows_def moves_def by (auto intro: exI [of _ "cursor (terminals s p)"])

lemma unat_ucast_8_16 [simp]: "unat (ucast (b :: u8) :: u16) = unat b"
  using unat_less8 [of b] by (simp add: unsigned_ucast_eq take_bit_nat_eq_self)

lemma unat_less16: "unat (x :: u16) < 2 ^ 16"
  using unsigned_less [of x] by simp

lemma TermNewLine_inv:
  assumes inv: "term_inv (terminals s p)" and ret: "TermNewLine p s = Some s'"
  shows "term_inv (terminals s' p)"
proof (cases "uint (coord_y (cursor (terminals s p))) + uint (font_height (font (terminals s p))) * 2
    > uint (dim_height (dims (terminals s p)))")
  case True
  with ret have "Scroll p (set_cursor p 0 (coord_y (cursor (terminals s p))) s) = Some s'"
    by (simp add: TermNewLine_def Let_def)
  then have "terminals s' p = terminals (set_cursor p 0 (coord_y (cursor (terminals s p))) s) p"
    by (auto dest!: Scroll_keeps simp: same_windows_def)
  with inv show ?thesis by (simp add: term_inv_def Let_def)
next
  case False
  let ?t = "terminals s p"
  from False [unfolded uint_nat]
  have le: "unat (coord_y (cursor ?t)) + 2 * unat (font_height (font ?t)) \<le> unat (dim_height (dims ?t))"
    by linarith
  have "unat (coord_y (cursor ?t) + ucast (font_height (font ?t))) =
      unat (coord_y (cursor ?t)) + unat (font_height (font ?t))"
    using le unat_less16 [of "dim_height (dims ?t)"] by (simp add: unat_plus_if')
  moreover from ret False have "s' = set_cursor p 0 (coord_y (cursor ?t) + ucast (font_height (font ?t)))
      (set_cursor p 0 (coord_y (cursor ?t)) s)"
    by (simp add: TermNewLine_def Let_def)
  ultimately show ?thesis using inv le by (simp add: term_inv_def Let_def)
qed

lemma TermNewLine_returns: "row_height (GLOBAL_CTX s) \<noteq> 0 \<Longrightarrow> \<exists>s'. TermNewLine p s = Some s'"
  by (auto simp: TermNewLine_def Let_def intro!: Scroll_returns)

lemma TermNewLine_moves: "TermNewLine p s = Some s' \<Longrightarrow> moves p s s'"
  by (auto simp: TermNewLine_def Let_def split: if_splits
      dest!: Scroll_keeps same_windows_moves intro: moves_trans moves_set_cursor)


lemma term_put_moves: "term_put p c s = Some s' \<Longrightarrow> moves p s s'"
  by (auto simp: term_put_def Let_def split: if_splits option.splits
      dest!: DrawChar_keeps same_windows_moves TermNewLine_moves intro: moves_trans moves_set_cursor)

lemma set_cursor_right_inv:
  assumes inv: "term_inv t"
    and le: "uint (coord_x (cursor t)) \<le> uint (dim_width (dims t)) - uint (border_thickness t) * 6"
  shows "term_inv (t\<lparr>cursor := \<lparr>coord_x = coord_x (cursor t) + ucast (font_width (font t)), coord_y = coord_y (cursor t)\<rparr>\<rparr>)"
proof -
  from le [unfolded uint_nat]
  have "unat (coord_x (cursor t)) \<le> unat (dim_width (dims t))" by linarith
  moreover from this inv
  have "unat (coord_x (cursor t) + ucast (font_width (font t))) = unat (coord_x (cursor t)) + unat (font_width (font t))"
    by (simp add: unat_plus_if' term_inv_def Let_def)
  ultimately show ?thesis using inv by (simp add: term_inv_def Let_def)
qed

lemma term_put_inv:
  assumes "term_inv (terminals s p)" "term_put p c s = Some s'"
  shows "term_inv (terminals s' p)"
  using assms
  by (auto simp: term_put_def Let_def same_windows_def not_less split: if_splits option.splits
      dest!: DrawChar_keeps dest: TermNewLine_inv set_cursor_right_inv)

lemma term_put_returns:
  assumes "row_height (GLOBAL_CTX s) \<noteq> 0"
  shows "\<exists>s'. term_put p c s = Some s'"
  using assms TermNewLine_returns [OF assms, of p]
  by (auto simp: term_put_def Let_def intro!: DrawChar_returns split: option.splits)
    (auto simp: moves_def dest!: TermNewLine_moves)

lemma TermPrint_keeps:
  assumes "TermPrint p str s = Some s'"
  shows "moves p s s'" and "term_inv (terminals s p) \<Longrightarrow> term_inv (terminals s' p)"
proof -
  let ?P = "\<lambda>p (str :: u64) (s :: 'a term_state_scheme) s'. moves p s s' \<and> (term_inv (terminals s p) \<longrightarrow> term_inv (terminals s' p))"
  have "?P p str s s'"
  proof (rule TermPrint.raw_induct [OF _ assms, where P = ?P], goal_cases)
    case (1 print p str s s')
    then show ?case
      by (auto split: if_splits option.splits dest: term_put_moves term_put_inv intro: moves_trans)
        (simp_all add: moves_refl)
  qed
  then show "moves p s s'" and "term_inv (terminals s p) \<Longrightarrow> term_inv (terminals s' p)" by simp_all
qed

lemma RemoveChar_returns: "row_height (GLOBAL_CTX s) \<noteq> 0 \<Longrightarrow> \<exists>s'. RemoveChar s = Some s'"
  by (auto simp: RemoveChar_def Let_def split: option.splits) (metis DrawRect_returns option.distinct(1))+

lemma RemoveChar_moves: "RemoveChar s = Some s' \<Longrightarrow> moves Main_term s s'"
  by (auto simp: RemoveChar_def Let_def split: if_splits option.splits
      dest!: DrawRect_keeps same_windows_moves intro: moves_refl moves_trans moves_set_cursor)

lemma term_inv_back:
  assumes inv: "term_inv t" and x: "coord_x (cursor t) \<noteq> 0"
  shows "term_inv (t\<lparr>cursor := \<lparr>coord_x = coord_x (cursor t) - ucast (font_width (font t)), coord_y = coord_y (cursor t)\<rparr>\<rparr>)"
proof -
  have "unat (font_width (font t)) \<le> unat (coord_x (cursor t))"
    using inv x by (auto simp: term_inv_def Let_def unat_gt_0 intro!: dvd_imp_le)
  then have "unat (coord_x (cursor t) - ucast (font_width (font t))) = unat (coord_x (cursor t)) - unat (font_width (font t))"
    by (simp add: unat_sub_if')
  then show ?thesis using inv by (auto simp: term_inv_def Let_def intro: dvd_diff_nat)
qed

lemma term_inv_line_up:
  assumes inv: "term_inv t" and y: "coord_y (cursor t) \<noteq> 0"
  shows "term_inv (t\<lparr>cursor := \<lparr>coord_x = (chars_per_line t - 1) * ucast (font_width (font t)),
    coord_y = coord_y (cursor t) - ucast (font_height (font t))\<rparr>\<rparr>)"
proof -
  let ?w = "unat (font_width (font t))" and ?n = "unat (chars_per_line t)"
  have "unat (font_height (font t)) \<le> unat (coord_y (cursor t))"
    using inv y by (auto simp: term_inv_def Let_def unat_gt_0 intro!: dvd_imp_le)
  then have "unat (coord_y (cursor t) - ucast (font_height (font t))) = unat (coord_y (cursor t)) - unat (font_height (font t))"
    by (simp add: unat_sub_if')
  moreover have n: "unat (chars_per_line t - 1) = ?n - 1"
    using inv by (simp add: term_inv_def Let_def unat_minus_one word_gt_0)
  have "(?n - 1) * ?w \<le> ?n * ?w" by simp
  then have "(?n - 1) * ?w \<le> unat (dim_width (dims t)) + 2 * unat (border_thickness t) + ?w" and "(?n - 1) * ?w < 2 ^ 16"
    using inv unfolding term_inv_def Let_def by linarith+
  moreover from this(2) have "unat ((chars_per_line t - 1) * ucast (font_width (font t))) = (?n - 1) * ?w"
    by (simp add: unat_word_ariths n)
  ultimately show ?thesis using inv by (auto simp: term_inv_def Let_def intro: dvd_diff_nat simp del: mult_le_cancel2)
qed

lemma RemoveChar_inv:
  assumes "term_inv (main_term s)" "RemoveChar s = Some s'"
  shows "term_inv (main_term s')"
  using assms
  by (auto simp: RemoveChar_def Let_def same_windows_def split: if_splits option.splits
      dest!: DrawRect_keeps intro: term_inv_back term_inv_line_up)

lemma HandleKeyStroke_keeps:
  assumes ret: "HandleKeyStroke c k s = Some s'"
  shows "moves Main_term s s'" and "term_inv (main_term s) \<Longrightarrow> term_inv (main_term s')"
proof -
  from ret obtain ch where ch: "CharFromScancode k = Some ch" by (auto simp: HandleKeyStroke_def bind_eq_Some_conv)
  let ?s0 = "s\<lparr>memory := (memory s)(c := ch, c + 1 := 0)\<rparr>"
  have s0: "same_windows s ?s0" by (simp add: same_windows_def)
  from ret ch obtain s1 where s1: "s' = WriteBack s1"
    "(if backspace k then RemoveChar ?s0
      else if enter k then TermNewLine Main_term ?s0 \<bind> (\<lambda>s. TermPrint Main_term (prompt (main_term s)) s)
      else TermPrint Main_term c ?s0) = Some s1"
    by (auto simp: HandleKeyStroke_def bind_eq_Some_conv Let_def)
  have "moves Main_term t s1 \<and> (term_inv (main_term t) \<longrightarrow> term_inv (main_term s1))"
    if "(if backspace k then RemoveChar t
      else if enter k then TermNewLine Main_term t \<bind> (\<lambda>s. TermPrint Main_term (prompt (main_term s)) s)
      else TermPrint Main_term c t) = Some s1" for t
    using that by (auto simp: bind_eq_Some_conv split: if_splits
        dest: RemoveChar_moves RemoveChar_inv TermNewLine_moves TermNewLine_inv TermPrint_keeps intro: moves_trans)
  from this [OF s1(2)]
  show "moves Main_term s s'" and "term_inv (main_term s) \<Longrightarrow> term_inv (main_term s')"
    using s0 s1(1) by (auto simp: same_windows_def moves_def)
qed

text \<open>The states of the main terminal: key strokes and prints, in any order.\<close>

inductive term_step :: "'a term_state_scheme \<Rightarrow> 'a term_state_scheme \<Rightarrow> bool" where
  key: "HandleKeyStroke c k s = Some s' \<Longrightarrow> term_step s s'"
| print: "TermPrintMain str s = Some s' \<Longrightarrow> term_step s s'"

lemma term_step_keeps:
  assumes "term_step s s'"
  shows "moves Main_term s s'" and "term_inv (main_term s) \<Longrightarrow> term_inv (main_term s')"
  using assms by (cases; auto simp: TermPrintMain_def dest: HandleKeyStroke_keeps TermPrint_keeps)+

lemma term_steps_keep:
  assumes "term_step\<^sup>*\<^sup>* s s'"
  shows "moves Main_term s s'" and "term_inv (main_term s) \<Longrightarrow> term_inv (main_term s')"
  using assms by (induction rule: rtranclp_induct) (auto intro: moves_refl moves_trans term_step_keeps)

lemma Render_keeps:
  assumes "Render p s = Some s'"
  shows "moves p s s'" and "term_inv (terminals s p) \<Longrightarrow> term_inv (terminals s' p)"
proof -
  from assms obtain s1 str where s1: "same_windows s s1" "TermPrint p str s1 = Some s'"
    by (auto simp: Render_def RenderBorders_def Let_def same_windows_def split: option.splits dest!: DrawRect_keeps)
  then show "moves p s s'" "term_inv (terminals s p) \<Longrightarrow> term_inv (terminals s' p)"
    using TermPrint_keeps [OF s1(2)] by (auto simp: same_windows_def moves_def)
qed


lemma InitTerminal_inv:
  assumes "0 < unat (font_width f)" "0 < unat (font_height f)"
    and "2 * unat thickness \<le> unat (dim_width d)" "2 * unat thickness + unat (font_height f) \<le> unat (dim_height d)"
    and "unat (font_width f) \<le> unat (dim_width d)" "unat (dim_width d) + unat (font_width f) < 2 ^ 16"
    and init: "InitTerminal d corner f bg border thickness prompt_str s = Some (t, s')"
  shows "term_inv t" "term_inv (main_term s')" "row_height (GLOBAL_CTX s') = row_height (GLOBAL_CTX s)"
proof -
  have t: "t = \<lparr>dims = \<lparr>dim_width = dim_width d - ucast thickness * 2, dim_height = dim_height d - ucast thickness * 2\<rparr>,
      font = f, chars_per_line = dim_width d div ucast (font_width f),
      num_lines = dim_height d div ucast (font_height f),
      top_left = \<lparr>coord_x = coord_x corner + ucast thickness, coord_y = coord_y corner + ucast thickness\<rparr>,
      cursor = \<lparr>coord_x = 0, coord_y = 0\<rparr>, bg_color = bg, border_color = border,
      border_thickness = thickness, prompt = prompt_str\<rparr>"
    and r: "Render Main_term (s\<lparr>terminals := (terminals s)(Main_term := t)\<rparr>) = Some s'"
    using init by (auto simp: InitTerminal_def Let_def split: if_splits option.splits)
  have th: "unat (ucast thickness * 2 :: u16) = 2 * unat thickness"
    using unat_less8 [of thickness] by (simp add: unat_word_ariths)
  have "unat (dim_width d - ucast thickness * 2) = unat (dim_width d) - 2 * unat thickness"
    "unat (dim_height d - ucast thickness * 2) = unat (dim_height d) - 2 * unat thickness"
    using assms(3,4) by (simp_all add: unat_sub_if' th)
  moreover have "0 < unat (dim_width d div ucast (font_width f))"
    "unat (dim_width d div ucast (font_width f)) * unat (font_width f) \<le> unat (dim_width d)"
    using assms(1,5) by (simp_all add: unat_div_distrib div_greater_zero_iff)
  ultimately show inv: "term_inv t" using assms(1-6) by (simp add: t term_inv_def Let_def unat_gt_0 word_gt_0)
  show "term_inv (main_term s')" "row_height (GLOBAL_CTX s') = row_height (GLOBAL_CTX s)"
    using Render_keeps [OF r] inv by (simp_all add: moves_def)
qed



definition demo_font :: Font where
  "demo_font = \<lparr>matrix = (\<lambda>_. 1), font_rgb = \<lparr>red = 255, green = 255, blue = 255\<rparr>, font_height = 1, font_width = 1\<rparr>"

definition demo_fb :: stivale2_struct_tag_framebuffer where
  "demo_fb = \<lparr>framebuffer_addr = 0x900000, framebuffer_width = 64, framebuffer_height = 64, framebuffer_pitch = 256,
     framebuffer_bpp = 32, memory_model = 1, red_mask_size = 8, red_mask_shift = 16, green_mask_size = 8,
     green_mask_shift = 8, blue_mask_size = 8, blue_mask_shift = 0\<rparr>"

definition demo_window :: Terminal where
  "demo_window = \<lparr>dims = \<lparr>dim_width = 0, dim_height = 0\<rparr>, font = demo_font, chars_per_line = 0, num_lines = 0,
     top_left = \<lparr>coord_x = 0, coord_y = 0\<rparr>, cursor = \<lparr>coord_x = 0, coord_y = 0\<rparr>, bg_color = font_rgb demo_font,
     border_color = font_rgb demo_font, border_thickness = 0, prompt = 0\<rparr>"

definition demo_term :: term_state where
  "demo_term = graphics_state.extend
     (lapic_state.extend (demo_lapic\<lparr>memory := \<lambda>_. 0\<rparr>)
        (graphics_state.fields \<lparr>fb = demo_fb, dirty_block_str = 0, buffer = 0x100000, num_rows = 64, row_height = 1\<rparr>))
     (term_state.fields (\<lambda>_. demo_window))"

lemma demo_term_simps:
  "GLOBAL_CTX demo_term = \<lparr>fb = demo_fb, dirty_block_str = 0, buffer = 0x100000, num_rows = 64, row_height = 1\<rparr>"
  "memory demo_term = (\<lambda>_. 0)"
  by (simp_all add: demo_term_def graphics_state.defs lapic_state.defs term_state.defs)

lemma TermPrint_empty: "memory s str = 0 \<Longrightarrow> TermPrint p str s = Some s"
  by (subst TermPrint.simps) simp

lemma demo_term_init:
  "\<exists>t s0. InitTerminal \<lparr>dim_width = 1, dim_height = 1\<rparr> \<lparr>coord_x = 2, coord_y = 2\<rparr> demo_font
     \<lparr>red = 0, green = 0, blue = 0\<rparr> \<lparr>red = 9, green = 9, blue = 9\<rparr> 0 0x7000 demo_term = Some (t, s0)"
  by (simp add: InitTerminal_def Render_def RenderBorders_def demo_term_simps demo_font_def DrawRect_def
      pixel_ptr_def PixelIndex_def fb_width_def demo_fb_def Let_def mark_dirty_def
      signed_modulo_int_def TermPrint_empty c32.store_other in_range_def)


end
