(* ===== verification/Gdt.thy ===== *)
theory Gdt
  imports Terminal Packed
begin

text \<open>
  \<^verbatim>\<open>src/src/kernel/gdt/gdt.c\<close>: the descriptor table and the task state segments, as packed
  structures in memory. The addresses of the static objects are given by \<open>gdt_syms\<close>; \<^verbatim>\<open>lgdt\<close>,
  \<^verbatim>\<open>ltr\<close> and the segment registers are fields of the state. \<^verbatim>\<open>wait\<close> on a taken lock
  is \<open>None\<close>: on one processor it never returns.
\<close>

unbundle bit_operations_syntax

section \<open>Data\<close>

definition KERN_CS_SEGSEL :: u16 where "KERN_CS_SEGSEL = 0x28"

definition KERN_DS_SEGSEL :: u16 where "KERN_DS_SEGSEL = 0x30"

definition USER_CS_SEGSEL :: u16 where "USER_CS_SEGSEL = 0x3B"

definition USER_DS_SEGSEL :: u16 where "USER_DS_SEGSEL = 0x43"

record gdt_entry_t =
  gdt_limit :: u16
  gdt_base_low :: u16
  gdt_base_mid :: u8
  gdt_access :: u8
  limit_and_flags :: u8
  gdt_base_high :: u8

record tss_entry_t =
  tss_length :: u16
  tss_base_low :: u16
  tss_base_mid :: u8
  tss_flags1 :: u8
  tss_flags2 :: u8
  tss_base_high :: u8
  tss_base_byte2 :: u32
  tss_reserved :: u32

text \<open>\<^verbatim>\<open>sizeof(tss_t)\<close>, the offsets of its fields that are used, and \<^verbatim>\<open>sizeof(gdt_t)\<close>.\<close>

definition TSS_SIZE :: u64 where "TSS_SIZE = 4 + 3 * 8 + 2 * 4 + 7 * 8 + 3 * 4"

definition RSP0_OFFSET :: u64 where "RSP0_OFFSET = 4"

definition IST1_OFFSET :: u64 where "IST1_OFFSET = 4 + 3 * 8 + 2 * 4"

definition GDT_SIZE :: u64 where "GDT_SIZE = 9 * 8 + 16"

record gdt_syms =
  GDT :: u64
  GDT_DESC :: u64
  TSS :: u64

record gdt_state = term_state +
  LTR_LOCK :: bool
  gdtr_limit :: u16
  gdtr_base :: u64
  task_register :: u16
  cs_selector :: u16
  ds_selector :: u16

section \<open>Fields in memory\<close>

definition put_segment :: "u64 \<Rightarrow> gdt_entry_t \<Rightarrow> mem \<Rightarrow> mem" where
  "put_segment a e m =
     (store16 (store16 m a (gdt_limit e)) (a + 2) (gdt_base_low e))
       (a + 4 := gdt_base_mid e, a + 5 := gdt_access e, a + 6 := limit_and_flags e, a + 7 := gdt_base_high e)"

definition get_segment :: "mem \<Rightarrow> u64 \<Rightarrow> gdt_entry_t" where
  "get_segment m a = \<lparr>gdt_limit = load16 m a, gdt_base_low = load16 m (a + 2), gdt_base_mid = m (a + 4),
     gdt_access = m (a + 5), limit_and_flags = m (a + 6), gdt_base_high = m (a + 7)\<rparr>"

definition put_tss_entry :: "u64 \<Rightarrow> tss_entry_t \<Rightarrow> mem \<Rightarrow> mem" where
  "put_tss_entry a e m =
     store32 (store32
       ((store16 (store16 m a (tss_length e)) (a + 2) (tss_base_low e))
          (a + 4 := tss_base_mid e, a + 5 := tss_flags1 e, a + 6 := tss_flags2 e, a + 7 := tss_base_high e))
       (a + 8) (tss_base_byte2 e)) (a + 12) (tss_reserved e)"

definition get_tss_entry :: "mem \<Rightarrow> u64 \<Rightarrow> tss_entry_t" where
  "get_tss_entry m a = \<lparr>tss_length = load16 m a, tss_base_low = load16 m (a + 2), tss_base_mid = m (a + 4),
     tss_flags1 = m (a + 5), tss_flags2 = m (a + 6), tss_base_high = m (a + 7),
     tss_base_byte2 = load32 m (a + 8), tss_reserved = load32 m (a + 12)\<rparr>"

section \<open>Operations\<close>

definition tss_entry_of :: "u64 \<Rightarrow> u8 \<Rightarrow> u8 \<Rightarrow> tss_entry_t" where
  "tss_entry_of base flags access =
     \<lparr>tss_length = 104, tss_base_low = ucast (base AND 0xFFFF), tss_base_mid = ucast (drop_bit 16 base AND 0xFF),
      tss_flags1 = access, tss_flags2 = flags, tss_base_high = ucast (drop_bit 24 base AND 0xFF),
      tss_base_byte2 = ucast (drop_bit 32 base), tss_reserved = 0\<rparr>"

definition set_tss_entry :: "gdt_syms \<Rightarrow> u64 \<Rightarrow> u8 \<Rightarrow> u8 \<Rightarrow> 'a gdt_state_scheme \<Rightarrow> 'a gdt_state_scheme" where
  "set_tss_entry y base flags access s =
     s\<lparr>memory := put_tss_entry (GDT y + 72) (tss_entry_of base flags access) (memory s)\<rparr>"

definition tss_of :: "gdt_syms \<Rightarrow> u8 \<Rightarrow> u64" where
  "tss_of y lapic_id = TSS y + TSS_SIZE * ucast lapic_id"

definition init_tss :: "gdt_syms \<Rightarrow> u64 \<Rightarrow> 'a gdt_state_scheme \<Rightarrow> 'a gdt_state_scheme option" where
  "init_tss y stack s =
     (let lapic_id = get_lapic_id s
      in if LTR_LOCK s then None
         else
           (let s = s\<lparr>LTR_LOCK := True\<rparr>;
                s = set_tss_entry y (tss_of y lapic_id) 0x20 0x89 s;
                s = s\<lparr>memory := memset (memory s) (tss_of y lapic_id) 0 TSS_SIZE\<rparr>;
                s = s\<lparr>memory := store64 (memory s) (tss_of y lapic_id + RSP0_OFFSET) stack\<rparr>;
                s = s\<lparr>memory := store64 (memory s) (tss_of y lapic_id + IST1_OFFSET) 0\<rparr>
            in Some (s\<lparr>LTR_LOCK := False\<rparr>)))"

definition load_tss :: "u16 \<Rightarrow> 'a gdt_state_scheme \<Rightarrow> 'a gdt_state_scheme option" where
  "load_tss tss_selector s =
     (if LTR_LOCK s then None
      else Some (s\<lparr>LTR_LOCK := True, task_register := tss_selector, LTR_LOCK := False\<rparr>))"

text \<open>
  \<^verbatim>\<open>load_gdt\<close> of \<^verbatim>\<open>gdt_asm.asm\<close>: the operand of \<^verbatim>\<open>lgdt\<close> is read from memory, then the
  code segment is reloaded by a far return and the data segments by moves.
\<close>

definition load_gdt :: "u64 \<Rightarrow> 'a gdt_state_scheme \<Rightarrow> 'a gdt_state_scheme" where
  "load_gdt gdtr s =
     s\<lparr>gdtr_limit := load16 (memory s) gdtr, gdtr_base := load64 (memory s) (gdtr + 2),
       cs_selector := 0x28, ds_selector := 0x30\<rparr>"

definition gdt_segments :: "gdt_entry_t list" where
  "gdt_segments =
     [\<lparr>gdt_limit = 0, gdt_base_low = 0, gdt_base_mid = 0, gdt_access = 0, limit_and_flags = 0, gdt_base_high = 0\<rparr>,
      \<lparr>gdt_limit = 0xffff, gdt_base_low = 0, gdt_base_mid = 0, gdt_access = 0x9A, limit_and_flags = 0x80, gdt_base_high = 0\<rparr>,
      \<lparr>gdt_limit = 0xffff, gdt_base_low = 0, gdt_base_mid = 0, gdt_access = 0x9A, limit_and_flags = 0x80, gdt_base_high = 0\<rparr>,
      \<lparr>gdt_limit = 0xffff, gdt_base_low = 0, gdt_base_mid = 0, gdt_access = 0x9A, limit_and_flags = 0xCF, gdt_base_high = 0\<rparr>,
      \<lparr>gdt_limit = 0xffff, gdt_base_low = 0, gdt_base_mid = 0, gdt_access = 0x92, limit_and_flags = 0xCF, gdt_base_high = 0\<rparr>,
      \<lparr>gdt_limit = 0, gdt_base_low = 0, gdt_base_mid = 0, gdt_access = 0x9A, limit_and_flags = 0xA2, gdt_base_high = 0\<rparr>,
      \<lparr>gdt_limit = 0, gdt_base_low = 0, gdt_base_mid = 0, gdt_access = 0x92, limit_and_flags = 0xA0, gdt_base_high = 0\<rparr>,
      \<lparr>gdt_limit = 0, gdt_base_low = 0, gdt_base_mid = 0, gdt_access = 0xFA, limit_and_flags = 0x20, gdt_base_high = 0\<rparr>,
      \<lparr>gdt_limit = 0, gdt_base_low = 0, gdt_base_mid = 0, gdt_access = 0xF2, limit_and_flags = 0, gdt_base_high = 0\<rparr>]"

primrec put_segments :: "u64 \<Rightarrow> gdt_entry_t list \<Rightarrow> mem \<Rightarrow> mem" where
  "put_segments a [] m = m"
| "put_segments a (e # es) m = put_segments (a + 8) es (put_segment a e m)"

definition initialize_gdt :: "gdt_syms \<Rightarrow> u64 \<Rightarrow> 'a gdt_state_scheme \<Rightarrow> 'a gdt_state_scheme option" where
  "initialize_gdt y stack s =
     (let s = s\<lparr>memory := put_segments (GDT y) gdt_segments (memory s)\<rparr>
      in case init_tss y stack s of
           None \<Rightarrow> None
         | Some s \<Rightarrow>
             (let s = s\<lparr>memory := store16 (memory s) (GDT_DESC y) (ucast (GDT_SIZE - 1))\<rparr>;
                  s = s\<lparr>memory := store64 (memory s) (GDT_DESC y + 2) (GDT y)\<rparr>;
                  s = load_gdt (GDT_DESC y) s
              in load_tss 0x48 s))"

section \<open>What the processor finds\<close>

text \<open>The segment a selector names in the loaded table, and the fields of descriptors as the processor reads them.\<close>

definition segment_at :: "'a gdt_state_scheme \<Rightarrow> u16 \<Rightarrow> gdt_entry_t" where
  "segment_at s sel = get_segment (memory s) (gdtr_base s + ucast (sel AND NOT 7))"

definition tss_at :: "'a gdt_state_scheme \<Rightarrow> u16 \<Rightarrow> tss_entry_t" where
  "tss_at s sel = get_tss_entry (memory s) (gdtr_base s + ucast (sel AND NOT 7))"

definition tss_entry_base :: "tss_entry_t \<Rightarrow> u64" where
  "tss_entry_base e = ucast (tss_base_low e) OR push_bit 16 (ucast (tss_base_mid e))
     OR push_bit 24 (ucast (tss_base_high e)) OR push_bit 32 (ucast (tss_base_byte2 e))"

definition seg_present :: "gdt_entry_t \<Rightarrow> bool" where "seg_present e = bit (gdt_access e) 7"

definition seg_ring :: "gdt_entry_t \<Rightarrow> u8" where "seg_ring e = drop_bit 5 (gdt_access e) AND 3"

definition seg_code :: "gdt_entry_t \<Rightarrow> bool" where "seg_code e = bit (gdt_access e) 3"

definition seg_long :: "gdt_entry_t \<Rightarrow> bool" where "seg_long e = bit (limit_and_flags e) 5"

lemma tss_entry_base_of: "tss_entry_base (tss_entry_of base flags access) = base" (is "?b = base")
proof (rule bit_word_eqI)
  fix n assume n: "n < LENGTH(64)"
  have m: "bit (0xFFFF :: u64) k \<longleftrightarrow> k < 16" "bit (0xFF :: u64) k \<longleftrightarrow> k < 8" for k
    using bit_mask_iff [of 16 k, where 'a = u64] bit_mask_iff [of 8 k, where 'a = u64]
    by (auto simp: mask_eq_exp_minus_1)
  have "bit ?b n \<longleftrightarrow> n < 16 \<and> bit base n \<or> 16 \<le> n \<and> n < 24 \<and> bit base (16 + (n - 16)) \<or>
      24 \<le> n \<and> n < 32 \<and> bit base (24 + (n - 24)) \<or> 32 \<le> n \<and> bit base (32 + (n - 32))"
    using n unfolding tss_entry_base_def tss_entry_of_def tss_entry_t.simps bit_or_iff bit_and_iff bit_push_bit_iff bit_drop_bit_eq
      bit_unsigned_iff o_def m possible_bit_word
    by simp linarith
  then show "bit ?b n = bit base n" using n by auto
qed

section \<open>Descriptors in memory\<close>

interpretation segment: packed_struct 8 get_segment put_segment
proof unfold_locales
  fix a e m
  show "get_segment (put_segment a e m) a = e" by (simp add: get_segment_def put_segment_def packed_simps)
next
  fix a and m m' :: mem
  assume eq: "\<And>x. in_range x a 8 \<Longrightarrow> m x = m' x"
  have "load16 m a = load16 m' a" by (rule c16.load_cong, rule eq, erule in_range_mono) simp
  moreover have "load16 m (a + 2) = load16 m' (a + 2)" by (rule c16.load_cong, rule eq) (auto intro: field_range)
  ultimately show "get_segment m a = get_segment m' a" by (simp add: get_segment_def eq byte_field_range)
next
  fix x a e m
  assume x: "\<not> in_range x a 8"
  have "\<not> in_range x a 2" using x by (auto dest: in_range_mono [of _ _ 2 8])
  moreover have "\<not> in_range x (a + 2) 2" using x field_range [of x a 2 2 8] by auto
  moreover have "x \<noteq> a + 4" "x \<noteq> a + 5" "x \<noteq> a + 6" "x \<noteq> a + 7" using x byte_field_range [of _ 8 a] by force+
  ultimately show "put_segment a e m x = m x" by (simp add: put_segment_def c16.store_other)
qed simp

lemma put_segments_other:
  "\<not> in_range x a (8 * length es) \<Longrightarrow> 8 * length es \<le> 2 ^ 64 \<Longrightarrow> put_segments a es m x = m x"
proof (induction es arbitrary: a m)
  case (Cons e es)
  have "\<not> in_range x a 8" using Cons.prems(1) in_range_mono [of x a 8 "8 * length (e # es)"] by auto
  moreover have "\<not> in_range x (a + 8) (8 * length es)"
    using Cons.prems field_range [of x a 8 "8 * length es" "8 * length (e # es)"] by auto
  ultimately show ?case using Cons.prems(2) by (simp add: Cons.IH segment.put_other)
qed simp

lemma get_put_segments:
  "i < length es \<Longrightarrow> 8 * length es \<le> 2 ^ 64 \<Longrightarrow> get_segment (put_segments a es m) (a + 8 * of_nat i) = es ! i"
proof (induction es arbitrary: a m i)
  case (Cons e es)
  show ?case
  proof (cases i)
    case 0
    have "put_segments (a + 8) es (put_segment a e m) x = put_segment a e m x" if "in_range x a 8" for x
    proof (rule put_segments_other)
      have "disjoint a 8 (a + 8) (8 * length es)" using Cons.prems by (intro disjoint_offset_base) simp_all
      with that show "\<not> in_range x (a + 8) (8 * length es)" by (auto dest: disjointD)
    qed (use Cons.prems in simp)
    then have "get_segment (put_segments (a + 8) es (put_segment a e m)) a = get_segment (put_segment a e m) a"
      by (rule segment.get_cong)
    then show ?thesis using 0 by (simp add: segment.get_put)
  next
    case (Suc j)
    then show ?thesis using Cons.IH [of j "a + 8" "put_segment a e m"] Cons.prems
      by (simp add: algebra_simps)
  qed
qed simp

interpretation tss_entry: packed_struct 16 get_tss_entry put_tss_entry
proof unfold_locales
  fix a e m
  show "get_tss_entry (put_tss_entry a e m) a = e" by (simp add: get_tss_entry_def put_tss_entry_def packed_simps)
next
  fix a and m m' :: mem
  assume eq: "\<And>x. in_range x a 16 \<Longrightarrow> m x = m' x"
  have "load16 m a = load16 m' a" by (rule c16.load_cong, rule eq, erule in_range_mono) simp
  moreover have "load16 m (a + 2) = load16 m' (a + 2)" by (rule c16.load_cong, rule eq) (auto intro: field_range)
  moreover have "load32 m (a + 8) = load32 m' (a + 8)" "load32 m (a + 12) = load32 m' (a + 12)"
    by (rule c32.load_cong, rule eq, auto intro: field_range)+
  ultimately show "get_tss_entry m a = get_tss_entry m' a" by (simp add: get_tss_entry_def eq byte_field_range)
next
  fix x a e m
  assume x: "\<not> in_range x a 16"
  have "\<not> in_range x a 2" using x by (auto dest: in_range_mono [of _ _ 2 16])
  moreover have "\<not> in_range x (a + 2) 2" "\<not> in_range x (a + 8) 4" "\<not> in_range x (a + 12) 4"
    using x field_range [of x a 2 2 16] field_range [of x a 8 4 16] field_range [of x a 12 4 16] by auto
  moreover have "x \<noteq> a + 4" "x \<noteq> a + 5" "x \<noteq> a + 6" "x \<noteq> a + 7" using x byte_field_range [of _ 16 a] by force+
  ultimately show "put_tss_entry a e m x = m x" by (simp add: put_tss_entry_def c16.store_other c32.store_other)
qed simp

section \<open>The table after initialisation\<close>

text \<open>The static objects of \<^verbatim>\<open>gdt.c\<close> do not overlap.\<close>

definition gdt_layout :: "gdt_syms \<Rightarrow> u8 \<Rightarrow> bool" where
  "gdt_layout y lapic_id \<longleftrightarrow> disjoint (GDT y) 88 (tss_of y lapic_id) 104 \<and> disjoint (GDT y) 88 (GDT_DESC y) 10 \<and>
     disjoint (tss_of y lapic_id) 104 (GDT_DESC y) 10"

lemma get_lapic_id_memory [simp]: "get_lapic_id (s\<lparr>memory := m\<rparr>) = get_lapic_id s"
  by (simp add: get_lapic_id_def lapic_read_def)

lemma initialize_gdt_result:
  assumes lock: "\<not> LTR_LOCK s" and layout: "gdt_layout y (get_lapic_id s)"
  shows "\<exists>s' m. initialize_gdt y stack s = Some s' \<and> \<not> LTR_LOCK s' \<and> gdtr_limit s' = 87 \<and> gdtr_base s' = GDT y \<and>
    task_register s' = 0x48 \<and> cs_selector s' = 0x28 \<and> ds_selector s' = 0x30 \<and>
    m = put_tss_entry (GDT y + 72) (tss_entry_of (tss_of y (get_lapic_id s)) 0x20 0x89)
         (put_segments (GDT y) gdt_segments (memory s)) \<and>
    (\<forall>x. in_range x (GDT y) 88 \<longrightarrow> memory s' x = m x) \<and>
    load64 (memory s') (tss_of y (get_lapic_id s) + RSP0_OFFSET) = stack"
  (is "\<exists>s' m. _ \<and> _ \<and> _ \<and> _ \<and> _ \<and> _ \<and> _ \<and> m = ?m \<and> _")
proof -
  let ?t = "tss_of y (get_lapic_id s)" and ?d = "GDT_DESC y"
  let ?mt = "store64 (store64 (memset ?m ?t 0 TSS_SIZE) (?t + RSP0_OFFSET) stack) (?t + IST1_OFFSET) 0"
  let ?m' = "store64 (store16 ?mt ?d 87) (?d + 2) (GDT y)"
  have desc: "load16 ?m' ?d = 87" "load64 ?m' (?d + 2) = GDT y" by (simp_all add: packed_simps)
  have dis: "disjoint (GDT y) 88 ?t 104" "disjoint (GDT y) 88 ?d 10" "disjoint ?t 104 ?d 10"
    using layout by (simp_all add: gdt_layout_def)
  have d10: "?m' x = ?mt x" if "\<not> in_range x ?d 10" for x
  proof -
    have "\<not> in_range x ?d 2" using that by (auto dest: in_range_mono [of _ _ 2 10])
    moreover have "\<not> in_range x (?d + 2) 8" using that field_range [of x ?d 2 8 10] by auto
    ultimately show ?thesis by (simp add: c16.store_other c64.store_other)
  qed
  have t104: "?mt x = ?m x" if "\<not> in_range x ?t 104" for x
  proof -
    have "\<not> in_range x (?t + 4) 8" "\<not> in_range x (?t + 36) 8"
      using that field_range [of x ?t 4 8 104] field_range [of x ?t 36 8 104] by auto
    then show ?thesis using that
      by (simp add: c64.store_other RSP0_OFFSET_def IST1_OFFSET_def TSS_SIZE_def memset_apply)
  qed
  have frame: "?m' x = ?m x" if "in_range x (GDT y) 88" for x
    using that dis d10 [of x] t104 [of x] disjointD by metis
  have "load64 ?m' (?t + RSP0_OFFSET) = load64 ?mt (?t + RSP0_OFFSET)"
  proof (rule c64.load_cong, rule d10)
    fix x assume "in_range x (?t + RSP0_OFFSET) 8"
    then have "in_range x ?t 104" by (rule field_range) (simp_all add: RSP0_OFFSET_def)
    then show "\<not> in_range x ?d 10" using dis(3) by (auto dest: disjointD)
  qed
  also have "\<dots> = stack" by (simp add: packed_simps RSP0_OFFSET_def IST1_OFFSET_def)
  finally have rsp: "load64 ?m' (?t + RSP0_OFFSET) = stack" .
  show ?thesis using lock desc frame rsp
    by (simp add: initialize_gdt_def init_tss_def set_tss_entry_def load_gdt_def load_tss_def Let_def GDT_SIZE_def)
qed

lemma gdt_segment_attributes:
  "seg_code (gdt_segments ! 5)" "seg_long (gdt_segments ! 5)" "seg_ring (gdt_segments ! 5) = 0"
  "\<not> seg_code (gdt_segments ! 6)" "seg_ring (gdt_segments ! 6) = 0"
  "seg_code (gdt_segments ! 7)" "seg_long (gdt_segments ! 7)" "seg_ring (gdt_segments ! 7) = 3"
  "\<not> seg_code (gdt_segments ! 8)" "seg_ring (gdt_segments ! 8) = 3"
  by (simp_all add: gdt_segments_def seg_code_def seg_long_def seg_ring_def)

text \<open>C6. After \<^verbatim>\<open>initialize_gdt\<close> the processor finds what the kernel relies on: the loaded table is the
  one in memory with its last byte as limit, every selector names the descriptor the code wrote for it, the
  kernel's selectors are 64-bit code and data of ring 0, the user's are of ring 3, and the task register
  names a descriptor whose four base fields put together are the address of the task state segment of this
  processor, whose ring 0 stack is the one given.\<close>

theorem initialize_gdt_descriptors:
  assumes "\<not> LTR_LOCK s" and "gdt_layout y (get_lapic_id s)"
  shows "\<exists>s'. initialize_gdt y stack s = Some s' \<and> gdtr_base s' = GDT y \<and> gdtr_limit s' = 87 \<and>
    (\<forall>i < 9. get_segment (memory s') (gdtr_base s' + 8 * of_nat i) = gdt_segments ! i) \<and>
    seg_code (segment_at s' KERN_CS_SEGSEL) \<and> seg_long (segment_at s' KERN_CS_SEGSEL) \<and> seg_ring (segment_at s' KERN_CS_SEGSEL) = 0 \<and>
    \<not> seg_code (segment_at s' KERN_DS_SEGSEL) \<and> seg_ring (segment_at s' KERN_DS_SEGSEL) = 0 \<and>
    seg_code (segment_at s' USER_CS_SEGSEL) \<and> seg_long (segment_at s' USER_CS_SEGSEL) \<and> seg_ring (segment_at s' USER_CS_SEGSEL) = 3 \<and>
    \<not> seg_code (segment_at s' USER_DS_SEGSEL) \<and> seg_ring (segment_at s' USER_DS_SEGSEL) = 3 \<and>
    tss_entry_base (tss_at s' (task_register s')) = tss_of y (get_lapic_id s) \<and>
    load64 (memory s') (tss_of y (get_lapic_id s) + RSP0_OFFSET) = stack"
proof -
  obtain s' e where s': "initialize_gdt y stack s = Some s'" "gdtr_limit s' = 87" "gdtr_base s' = GDT y"
    "task_register s' = 0x48" "load64 (memory s') (tss_of y (get_lapic_id s) + RSP0_OFFSET) = stack"
    and frame: "\<And>x. in_range x (GDT y) 88 \<Longrightarrow>
      memory s' x = put_tss_entry (GDT y + 72) e (put_segments (GDT y) gdt_segments (memory s)) x"
    and e: "tss_entry_base e = tss_of y (get_lapic_id s)"
    using initialize_gdt_result [OF assms] tss_entry_base_of by blast
  have seg: "get_segment (memory s') (GDT y + 8 * of_nat i) = gdt_segments ! i" if i: "i < 9" for i
  proof -
    have "get_segment (memory s') (GDT y + 8 * of_nat i)
        = get_segment (put_segments (GDT y) gdt_segments (memory s)) (GDT y + 8 * of_nat i)"
    proof (rule segment.get_cong)
      fix x assume x: "in_range x (GDT y + 8 * of_nat i) 8"
      have u: "unat (8 * of_nat i :: u64) = 8 * i" using i by (simp add: unat_word_ariths)
      have "in_range x (GDT y) 88" using x by (rule field_range) (use i in \<open>simp_all add: u\<close>)
      moreover have "disjoint (GDT y + 8 * of_nat i) 8 (GDT y + 72) 16" by (rule disjoint_offset) (use i in \<open>simp_all add: u\<close>)
      ultimately show "memory s' x = put_segments (GDT y) gdt_segments (memory s) x"
        using x frame by (simp add: tss_entry.put_other disjointD)
    qed
    also have "\<dots> = gdt_segments ! i" using i by (intro get_put_segments) (simp_all add: gdt_segments_def)
    finally show ?thesis .
  qed
  have sel: "segment_at s' KERN_CS_SEGSEL = gdt_segments ! 5" "segment_at s' KERN_DS_SEGSEL = gdt_segments ! 6"
    "segment_at s' USER_CS_SEGSEL = gdt_segments ! 7" "segment_at s' USER_DS_SEGSEL = gdt_segments ! 8"
    using seg [of 5] seg [of 6] seg [of 7] seg [of 8]
    by (simp_all add: segment_at_def s'(3) KERN_CS_SEGSEL_def KERN_DS_SEGSEL_def USER_CS_SEGSEL_def USER_DS_SEGSEL_def)
  have "tss_at s' (task_register s') = e"
  proof -
    have "get_tss_entry (memory s') (GDT y + 72)
        = get_tss_entry (put_tss_entry (GDT y + 72) e (put_segments (GDT y) gdt_segments (memory s))) (GDT y + 72)"
      by (rule tss_entry.get_cong, rule frame) (auto intro: field_range)
    then show ?thesis by (simp add: tss_at_def s'(3,4) tss_entry.get_put)
  qed
  then have "tss_entry_base (tss_at s' (task_register s')) = tss_of y (get_lapic_id s)" using e by simp
  then show ?thesis using s' seg gdt_segment_attributes unfolding sel [symmetric] by (intro exI [of _ s']) simp
qed

definition demo_gdt :: gdt_state where
  "demo_gdt = term_state.extend demo_term (gdt_state.fields False 0 0 0 0 0)"

definition demo_gdt_syms :: gdt_syms where
  "demo_gdt_syms = \<lparr>GDT = 0x1000, GDT_DESC = 0x2000, TSS = 0x10000\<rparr>"

theorem initialize_gdt_descriptors_witness:
  "\<exists>s'. initialize_gdt demo_gdt_syms 0x8000 demo_gdt = Some s' \<and> seg_ring (segment_at s' USER_CS_SEGSEL) = 3 \<and>
     tss_entry_base (tss_at s' (task_register s')) = 0x10000 \<and> load64 (memory s') (0x10000 + RSP0_OFFSET) = 0x8000"
proof -
  have "\<not> LTR_LOCK demo_gdt" and id: "get_lapic_id demo_gdt = 0"
    by (simp_all add: demo_gdt_def demo_term_def demo_lapic_def get_lapic_id_def lapic_read_def
        gdt_state.defs term_state.defs graphics_state.defs lapic_state.defs pit_state.defs)
  moreover have "gdt_layout demo_gdt_syms 0"
    by (auto simp: gdt_layout_def demo_gdt_syms_def tss_of_def intro!: disjoint_nowrap)
  ultimately show ?thesis
    using initialize_gdt_descriptors [where s = demo_gdt and y = demo_gdt_syms and stack = "0x8000"] by (auto simp: tss_of_def demo_gdt_syms_def)
qed

end
