(* ===== verification/Printf.thy ===== *)
theory Printf
  imports Utils
begin

text \<open>
  \<^verbatim>\<open>src/src/kernel/utils/printf.c\<close>: the conversion of a number to a numeral and the formatted
  printing \<^verbatim>\<open>PrintK\<close>. The function \<^verbatim>\<open>term_write\<close> is a pointer into the boot loader; the
  model records the bytes given to it. The variadic arguments are a list of 64-bit values, a
  string argument being its address. \<open>None\<close> stands for a call that does not return: it spins on
  \<^verbatim>\<open>IN_USE\<close>, or runs past the end of the format in memory that holds no zero byte. Reading an
  argument that was not passed is also \<open>None\<close>, since its value is whatever the register or the
  stack holds.
\<close>

section \<open>Conversion\<close>

definition hex_digits :: "u8 list" where
  "hex_digits = [48, 49, 50, 51, 52, 53, 54, 55, 56, 57, 65, 66, 67, 68, 69, 70, 0]"

text \<open>
  \<^verbatim>\<open>Convert\<close> fills its static buffer from the end; the third argument is the index of
  \<^verbatim>\<open>ptr\<close>. Leaving the buffer at its lower end, a zero base and a digit outside
  \<^verbatim>\<open>hex_digits\<close> are \<open>None\<close>.
\<close>

primrec convert_loop :: "nat \<Rightarrow> u64 \<Rightarrow> u64 \<Rightarrow> u8 list \<Rightarrow> (u8 list \<times> nat) option" where
  "convert_loop 0 num base buffer = None"
| "convert_loop (Suc ptr) num base buffer =
     (if base = 0 \<or> unat (num mod base) \<ge> length hex_digits then None
      else
        (let buffer = buffer[ptr := hex_digits ! unat (num mod base)];
             num = num div base
         in if num \<noteq> 0 then convert_loop ptr num base buffer else Some (buffer, ptr)))"

definition Convert :: "u8 list \<Rightarrow> u64 \<Rightarrow> i32 \<Rightarrow> (u8 list \<times> nat) option" where
  "Convert buffer num base = convert_loop 31 num (i32_to_u64 base) (buffer[31 := 0])"

section \<open>Output\<close>

record printk_state =
  IN_USE :: bool
  convert_buffer :: "u8 list"
  term_out :: "u8 list"

definition PutChar :: "u8 \<Rightarrow> printk_state \<Rightarrow> printk_state" where
  "PutChar c s = s\<lparr>term_out := term_out s @ [c]\<rparr>"

text \<open>\<^verbatim>\<open>Puts\<close> on the static buffer of \<^verbatim>\<open>Convert\<close>, and on a string in memory.\<close>

definition Puts_buffer :: "nat \<Rightarrow> printk_state \<Rightarrow> printk_state" where
  "Puts_buffer ptr s = s\<lparr>term_out := term_out s @ takeWhile (\<lambda>c. c \<noteq> 0) (drop ptr (convert_buffer s))\<rparr>"

partial_function (option) Puts :: "mem \<Rightarrow> u64 \<Rightarrow> printk_state \<Rightarrow> printk_state option" where
  "Puts m c s = (if m c \<noteq> 0 then Puts m (c + 1) (PutChar (m c) s) else Some s)"

definition print_number :: "u64 \<Rightarrow> i32 \<Rightarrow> printk_state \<Rightarrow> printk_state option" where
  "print_number i base s =
     (case Convert (convert_buffer s) i base of
        None \<Rightarrow> None
      | Some (buffer, ptr) \<Rightarrow> Some (Puts_buffer ptr (s\<lparr>convert_buffer := buffer\<rparr>)))"

text \<open>
  The \<^verbatim>\<open>switch\<close> on the data type. \<^verbatim>\<open>i < 0\<close> is false of an unsigned \<^verbatim>\<open>i\<close>, so
  \<^verbatim>\<open>%d\<close> never prints a sign.
\<close>

definition directive ::
  "mem \<Rightarrow> u8 \<Rightarrow> u64 list \<Rightarrow> printk_state \<Rightarrow> (u64 list \<times> printk_state) option" where
  "directive m data_type args s =
     (if data_type = 99 \<comment> \<open>c\<close> then
        (case args of [] \<Rightarrow> None | i # args \<Rightarrow> Some (args, PutChar (ucast i) s))
      else if data_type = 100 \<comment> \<open>d\<close> then
        (case args of [] \<Rightarrow> None
         | i # args \<Rightarrow> (case print_number i 10 s of None \<Rightarrow> None | Some s \<Rightarrow> Some (args, s)))
      else if data_type = 111 \<comment> \<open>o\<close> then
        (case args of [] \<Rightarrow> None
         | i # args \<Rightarrow> (case print_number i 8 s of None \<Rightarrow> None | Some s \<Rightarrow> Some (args, s)))
      else if data_type = 104 \<comment> \<open>h\<close> then
        (case args of [] \<Rightarrow> None
         | i # args \<Rightarrow> (case print_number i 16 s of None \<Rightarrow> None | Some s \<Rightarrow> Some (args, s)))
      else if data_type = 115 \<comment> \<open>s\<close> then
        (case args of [] \<Rightarrow> None
         | p # args \<Rightarrow> (case Puts m p s of None \<Rightarrow> None | Some s \<Rightarrow> Some (args, s)))
      else Some (args, s))"

text \<open>
  The inner loop prints up to the next percent sign: \<open>Some (None, s)\<close> is the return at the end
  of the format, \<open>Some (Some p, s)\<close> leaves \<^verbatim>\<open>traverse\<close> at the percent sign \<open>p\<close>.
\<close>

partial_function (option) print_run ::
  "mem \<Rightarrow> u64 \<Rightarrow> printk_state \<Rightarrow> (u64 option \<times> printk_state) option" where
  "print_run m traverse s =
     (if m traverse = 0 then Some (None, s)
      else if m (traverse + 1) \<noteq> 37 then print_run m (traverse + 1) (PutChar (m traverse) s)
      else Some (Some (traverse + 1), PutChar (m traverse) s))"

partial_function (option) print_format ::
  "mem \<Rightarrow> u64 \<Rightarrow> u64 list \<Rightarrow> printk_state \<Rightarrow> printk_state option" where
  "print_format m traverse args s =
     (if m traverse = 0 then Some s
      else
        (case print_run m traverse s of
           None \<Rightarrow> None
         | Some (stop, s1) \<Rightarrow>
             (case stop of
                None \<Rightarrow> Some s1
              | Some p \<Rightarrow>
                  (case directive m (m (p + 1)) args s1 of
                     None \<Rightarrow> None
                   | Some (args', s2) \<Rightarrow> print_format m (p + 1 + 1) args' s2))))"

text \<open>Without another processor \<^verbatim>\<open>while(IN_USE)\<close> never ends when the flag is set.\<close>

definition PrintK :: "mem \<Rightarrow> u64 \<Rightarrow> u64 list \<Rightarrow> printk_state \<Rightarrow> printk_state option" where
  "PrintK m str args s =
     (if IN_USE s then None
      else
        (case print_format m str args (s\<lparr>IN_USE := True\<rparr>) of
           None \<Rightarrow> None
         | Some s1 \<Rightarrow> Some (s1\<lparr>IN_USE := False\<rparr>)))"

section \<open>Numerals\<close>

definition num_string :: "nat \<Rightarrow> nat \<Rightarrow> u8 list" where
  "num_string b n = rev (map (\<lambda>d. hex_digits ! d) (digits_rev b n))"

lemma convert_loop_correct:
  assumes "2 \<le> unat base" "unat base \<le> 16" "length (digits_rev (unat base) (unat num)) \<le> ptr"
    and "ptr \<le> length buffer"
  shows "\<exists>buffer'. convert_loop ptr num base buffer
      = Some (buffer', ptr - length (digits_rev (unat base) (unat num))) \<and>
    length buffer' = length buffer \<and>
    drop (ptr - length (digits_rev (unat base) (unat num))) buffer'
      = num_string (unat base) (unat num) @ drop ptr buffer"
  using assms(3,4)
proof (induction ptr arbitrary: num buffer)
  case 0
  then show ?case by (subst (asm) digits_rev.simps) (simp split: if_splits)
next
  case (Suc ptr)
  let ?d = "hex_digits ! unat (num mod base)" and ?n = "num div base"
  let ?buf = "buffer[ptr := ?d]"
  have d: "unat (num mod base) = unat num mod unat base" by (rule unat_mod)
  have ok: "\<not> (base = 0 \<or> length hex_digits \<le> unat (num mod base))"
    using assms(1,2) by (auto simp: d hex_digits_def not_le intro: less_trans [OF mod_less_divisor])
  have n: "unat ?n = unat num div unat base" by (rule unat_div)
  have upd: "drop ptr ?buf = ?d # drop (Suc ptr) buffer"
    using Suc.prems(2) by (simp add: Cons_nth_drop_Suc [symmetric])
  show ?case
  proof (cases "unat num < unat base")
    case True
    then have "?n = 0" using n by (simp add: unat_eq_0)
    moreover have "digits_rev (unat base) (unat num) = [unat num]"
      using True by (subst digits_rev.simps) simp
    ultimately show ?thesis using ok upd True Suc.prems(2) by (simp add: num_string_def d Let_def)
  next
    case False
    then have "0 < unat ?n" using n assms(1) by (simp add: div_greater_zero_iff)
    then have nz: "?n \<noteq> 0" by (simp add: unat_gt_0)
    have ds: "digits_rev (unat base) (unat num) = unat num mod unat base # digits_rev (unat base) (unat ?n)"
      using False n assms(1) by (subst digits_rev.simps) simp
    from Suc.IH [of ?n ?buf] Suc.prems
    obtain buffer' where "convert_loop ptr ?n base ?buf
        = Some (buffer', ptr - length (digits_rev (unat base) (unat ?n)))"
      "length buffer' = length ?buf"
      "drop (ptr - length (digits_rev (unat base) (unat ?n))) buffer'
        = num_string (unat base) (unat ?n) @ drop ptr ?buf"
      unfolding ds by auto
    then show ?thesis using ok nz upd unfolding ds by (simp add: num_string_def d Let_def ds)
  qed
qed

lemma hex_digit_nonzero: "d < 16 \<Longrightarrow> hex_digits ! d \<noteq> 0"
  by (simp add: hex_digits_def less_Suc_eq numeral_eq_Suc) auto

lemma num_string_nonzero: "2 \<le> b \<Longrightarrow> b \<le> 16 \<Longrightarrow> 0 \<notin> set (num_string b n)"
  using hex_digit_nonzero digits_rev_less [of b] by (force simp: num_string_def)

lemma digits_u64: "8 \<le> b \<Longrightarrow> length (digits_rev b (unat (num :: u64))) \<le> 22"
proof (rule digits_rev_length)
  assume "8 \<le> b"
  then have "(8 :: nat) ^ 22 \<le> b ^ 22" by (rule power_mono) simp
  moreover have "(2 :: nat) ^ 64 \<le> 8 ^ 22" by simp
  ultimately show "unat num < b ^ 22" using unat_less64 [of num] by linarith
qed simp_all

lemma Convert_string:
  assumes "length buffer = 32" "8 \<le> sint base" "sint base \<le> 16"
  shows "\<exists>buffer' ptr. Convert buffer num base = Some (buffer', ptr) \<and> length buffer' = 32 \<and>
    takeWhile (\<lambda>c. c \<noteq> 0) (drop ptr buffer') = num_string (nat (sint base)) (unat num)"
proof -
  let ?b = "nat (sint base)" and ?l = "length (digits_rev (nat (sint base)) (unat num))"
  have range: "8 \<le> ?b" "?b \<le> 16" using assms(2,3) by linarith+
  have b: "unat (i32_to_u64 base) = ?b"
  proof -
    have "int ?b = sint base" using assms(2) by simp
    then have "i32_to_u64 base = of_nat ?b" by (metis scast_eq of_int_of_nat_eq)
    moreover have "?b < 2 ^ 64" by (rule le_less_trans [OF range(2)]) simp
    ultimately show ?thesis by (simp only: unat_of_nat64)
  qed
  have len: "?l \<le> 31" using digits_u64 [OF range(1), of num] by linarith
  obtain buffer' where c: "Convert buffer num base = Some (buffer', 31 - ?l)" "length buffer' = 32"
    "drop (31 - ?l) buffer' = num_string ?b (unat num) @ drop 31 (buffer[31 := 0])"
  proof -
    have "2 \<le> unat (i32_to_u64 base)" "unat (i32_to_u64 base) \<le> 16"
      "length (digits_rev (unat (i32_to_u64 base)) (unat num)) \<le> 31" "31 \<le> length (buffer[31 := 0])"
      unfolding b using range len assms(1) by simp_all
    from convert_loop_correct [OF this] obtain buffer' where
      "convert_loop 31 num (i32_to_u64 base) (buffer[31 := 0]) = Some (buffer', 31 - ?l)"
      "length buffer' = length (buffer[31 := 0])"
      "drop (31 - ?l) buffer' = num_string ?b (unat num) @ drop 31 (buffer[31 := 0])"
      unfolding b by blast
    then show ?thesis using that [of buffer'] assms(1) by (simp only: Convert_def length_list_update)
  qed
  have "length (drop 31 buffer) = Suc 0" using assms(1) by simp
  then obtain x where "drop 31 buffer = [x]" by (auto simp only: length_Suc_conv length_0_conv)
  then have "drop 31 (buffer[31 := 0]) = [0]" by (simp add: drop_update_swap)
  then have "takeWhile (\<lambda>c. c \<noteq> 0) (drop (31 - ?l) buffer') = num_string ?b (unat num)"
    unfolding c(3) using num_string_nonzero [of ?b "unat num"] range
    by (subst takeWhile_append2) auto
  then show ?thesis using c(1,2) by blast
qed

text \<open>C38. \<^verbatim>\<open>Convert\<close> returns for every 64-bit number in the bases 8 to 16: its buffer of 32 bytes
  is never left, and the string at the returned pointer is the numeral of the number, whose
  digits denote it.
\<close>

theorem Convert_correct:
  assumes "length buffer = 32" "8 \<le> sint base" "sint base \<le> 16"
  shows "\<exists>buffer' ptr. Convert buffer num base = Some (buffer', ptr) \<and> length buffer' = 32 \<and>
    takeWhile (\<lambda>c. c \<noteq> 0) (drop ptr buffer') = num_string (nat (sint base)) (unat num) \<and>
    digits_value (nat (sint base)) (digits_rev (nat (sint base)) (unat num)) = unat num"
  using Convert_string [OF assms] digits_value_digits_rev by blast

theorem Convert_correct_witness:
  "\<exists>buffer' ptr. Convert (replicate 32 7) 0xBEEF 16 = Some (buffer', ptr) \<and>
    takeWhile (\<lambda>c. c \<noteq> 0) (drop ptr buffer') = [66, 69, 69, 70]"
proof -
  have s: "sint (16 :: i32) = 16" by simp
  have "num_string 16 0xBEEF = [66, 69, 69, 70]"
    by (simp add: num_string_def digits_rev.simps hex_digits_def)
  then show ?thesis
    using Convert_correct [of "replicate 32 7" 16 "0xBEEF"] by (auto simp: s)
qed

section \<open>Formatted output\<close>

lemma print_number_numeral:
  assumes "length (convert_buffer s) = 32" "8 \<le> sint base" "sint base \<le> 16"
  shows "\<exists>s'. print_number i base s = Some s' \<and> length (convert_buffer s') = 32 \<and> IN_USE s' = IN_USE s \<and>
    term_out s' = term_out s @ num_string (nat (sint base)) (unat i)"
proof -
  obtain buffer' ptr where "Convert (convert_buffer s) i base = Some (buffer', ptr)" "length buffer' = 32"
    "takeWhile (\<lambda>c. c \<noteq> 0) (drop ptr buffer') = num_string (nat (sint base)) (unat i)"
    using Convert_string [OF assms] by blast
  then show ?thesis by (simp add: print_number_def Puts_buffer_def)
qed

lemma Puts_cstr:
  "cstr m p bs \<Longrightarrow> Puts m p s = Some (s\<lparr>term_out := term_out s @ bs\<rparr>)"
proof (induction bs arbitrary: p s)
  case Nil
  then show ?case by (subst Puts.simps) simp
next
  case (Cons b bs)
  then show ?case by (subst Puts.simps) (simp add: PutChar_def)
qed

text \<open>A directive of the format with its argument, and what it prints.\<close>

datatype conv = Char u64 | Dec u64 | Oct u64 | Hex u64 | Str u64 "u8 list"

fun conv_letter :: "conv \<Rightarrow> u8" where
  "conv_letter (Char _) = 99"
| "conv_letter (Dec _) = 100"
| "conv_letter (Oct _) = 111"
| "conv_letter (Hex _) = 104"
| "conv_letter (Str _ _) = 115"

fun conv_arg :: "conv \<Rightarrow> u64" where
  "conv_arg (Char i) = i"
| "conv_arg (Dec i) = i"
| "conv_arg (Oct i) = i"
| "conv_arg (Hex i) = i"
| "conv_arg (Str p _) = p"

fun conv_out :: "conv \<Rightarrow> u8 list" where
  "conv_out (Char i) = [ucast i]"
| "conv_out (Dec i) = num_string 10 (unat i)"
| "conv_out (Oct i) = num_string 8 (unat i)"
| "conv_out (Hex i) = num_string 16 (unat i)"
| "conv_out (Str _ bs) = bs"

fun conv_ok :: "mem \<Rightarrow> conv \<Rightarrow> bool" where
  "conv_ok m (Str p bs) = cstr m p bs"
| "conv_ok m _ = True"

lemma directive_correct:
  assumes "length (convert_buffer s) = 32" "conv_ok m c"
  shows "\<exists>s'. directive m (conv_letter c) (conv_arg c # args) s = Some (args, s') \<and>
    length (convert_buffer s') = 32 \<and> IN_USE s' = IN_USE s \<and> term_out s' = term_out s @ conv_out c"
proof -
  have [simp]: "sint (10 :: i32) = 10" "sint (8 :: i32) = 8" "sint (16 :: i32) = 16" by simp_all
  show ?thesis
    using assms print_number_numeral [OF assms(1), of 10 "conv_arg c"]
      print_number_numeral [OF assms(1), of 8 "conv_arg c"] print_number_numeral [OF assms(1), of 16 "conv_arg c"]
    by (cases c) (auto simp: directive_def Puts_cstr PutChar_def)
qed

lemma cstr_append:
  "cstr m a (xs @ ys) \<Longrightarrow> cstr m (a + of_nat (length xs)) ys"
proof (induction xs arbitrary: a)
  case (Cons x xs)
  then have "cstr m (a + 1 + of_nat (length xs)) ys" by simp
  then show ?case by (simp add: add.assoc)
qed simp

text \<open>The inner loop on literal text: a percent sign counts only from the second byte on.\<close>

lemma print_run_literal:
  assumes "cstr m t (lit @ 37 # rest)" "lit \<noteq> []" "37 \<notin> set (tl lit)"
  shows "print_run m t s = Some (Some (t + of_nat (length lit)), s\<lparr>term_out := term_out s @ lit\<rparr>)"
  using assms
proof (induction lit arbitrary: t s)
  case (Cons b lit)
  show ?case
  proof (cases lit)
    case Nil
    then show ?thesis using Cons.prems by (subst print_run.simps) (simp add: PutChar_def)
  next
    case (Cons c lit')
    then have "print_run m (t + 1) (PutChar b s) = Some (Some (t + 1 + of_nat (length lit)),
        (PutChar b s)\<lparr>term_out := term_out (PutChar b s) @ lit\<rparr>)"
      using Cons.prems by (intro Cons.IH) auto
    then show ?thesis using Cons.prems Cons
      by (subst print_run.simps) (simp add: PutChar_def algebra_simps)
  qed
qed simp

lemma print_run_tail:
  assumes "cstr m t lit" "37 \<notin> set (tl lit)"
  shows "print_run m t s = Some (None, s\<lparr>term_out := term_out s @ lit\<rparr>)"
  using assms
proof (induction lit arbitrary: t s)
  case Nil
  then show ?case by (subst print_run.simps) simp
next
  case (Cons b lit)
  have "37 \<notin> set (tl lit)" using Cons.prems by (cases lit) auto
  moreover have "m (t + 1) \<noteq> 37" using Cons.prems by (cases lit) auto
  ultimately show ?case using Cons by (subst print_run.simps) (simp add: PutChar_def)
qed

text \<open>A format as a sequence of literal texts, each followed by a directive, and a last text.\<close>

definition format_bytes :: "(u8 list \<times> conv) list \<Rightarrow> u8 list \<Rightarrow> u8 list" where
  "format_bytes items tail = concat (map (\<lambda>(lit, c). lit @ [37, conv_letter c]) items) @ tail"

definition format_out :: "(u8 list \<times> conv) list \<Rightarrow> u8 list \<Rightarrow> u8 list" where
  "format_out items tail = concat (map (\<lambda>(lit, c). lit @ conv_out c) items) @ tail"

definition format_ok :: "mem \<Rightarrow> (u8 list \<times> conv) list \<Rightarrow> u8 list \<Rightarrow> bool" where
  "format_ok m items tail \<longleftrightarrow> 37 \<notin> set (tl tail) \<and>
     list_all (\<lambda>(lit, c). lit \<noteq> [] \<and> 37 \<notin> set (tl lit) \<and> conv_ok m c) items"

lemma print_format_correct:
  assumes "cstr m t (format_bytes items tail)" "format_ok m items tail" "length (convert_buffer s) = 32"
  shows "\<exists>s'. print_format m t (map (conv_arg \<circ> snd) items @ extra) s = Some s' \<and>
    IN_USE s' = IN_USE s \<and> term_out s' = term_out s @ format_out items tail"
  using assms
proof (induction items arbitrary: t s)
  case Nil
  then show ?case
    using print_run_tail [of m t tail s]
    by (cases tail; subst print_format.simps) (auto simp: format_bytes_def format_out_def format_ok_def)
next
  case (Cons item items)
  obtain lit c where item: "item = (lit, c)" by (cases item)
  let ?s1 = "s\<lparr>term_out := term_out s @ lit\<rparr>" and ?p = "t + of_nat (length lit)"
  let ?rest = "format_bytes items tail" and ?args = "map (conv_arg \<circ> snd) items @ extra"
  have fmt: "cstr m t (lit @ 37 # conv_letter c # ?rest)"
    using Cons.prems(1) by (simp add: item format_bytes_def)
  have ok: "lit \<noteq> []" "37 \<notin> set (tl lit)" "conv_ok m c" "format_ok m items tail"
    using Cons.prems(2) by (auto simp: item format_ok_def)
  have at: "m (?p + 1) = conv_letter c" "cstr m (?p + 1 + 1) ?rest"
    using cstr_append [OF fmt] by (simp_all add: add.assoc)
  have "length (convert_buffer ?s1) = 32" using Cons.prems(3) by simp
  from directive_correct [OF this ok(3), of ?args]
  obtain s2 where s2: "directive m (conv_letter c) (conv_arg c # ?args) ?s1 = Some (?args, s2)"
    "length (convert_buffer s2) = 32" "IN_USE s2 = IN_USE s" "term_out s2 = term_out s @ lit @ conv_out c"
    by auto
  from Cons.IH [OF at(2) ok(4) s2(2)] obtain s3 where s3: "print_format m (?p + 1 + 1) ?args s2 = Some s3"
    "IN_USE s3 = IN_USE s2" "term_out s3 = term_out s2 @ format_out items tail" by blast
  have "m t \<noteq> 0" using fmt ok(1) by (cases lit) auto
  then have "print_format m t (map (conv_arg \<circ> snd) (item # items) @ extra) s = Some s3"
    using print_run_literal [OF fmt ok(1,2), of s] s2(1) s3(1) at(1)
    by (subst print_format.simps) (simp add: item)
  moreover have "term_out s3 = term_out s @ format_out (item # items) tail"
    using s2(4) s3(3) by (simp add: item format_out_def)
  ultimately show ?case using s2(3) s3(2) by blast
qed

text \<open>C36. \<^verbatim>\<open>PrintK\<close> returns, releases \<^verbatim>\<open>IN_USE\<close> and prints the literal texts and the
  arguments in order, for every format in which each directive follows a non-empty text. A
  percent sign that begins a text is printed as it stands: a directive at the start of the format
  or right after another directive is not expanded.
\<close>

theorem PrintK_correct:
  assumes "cstr m str (format_bytes items tail)" "format_ok m items tail"
    and "length (convert_buffer s) = 32" "\<not> IN_USE s"
  shows "\<exists>s'. PrintK m str (map (conv_arg \<circ> snd) items @ extra) s = Some s' \<and> \<not> IN_USE s' \<and>
    term_out s' = term_out s @ format_out items tail"
proof -
  have "length (convert_buffer (s\<lparr>IN_USE := True\<rparr>)) = 32" using assms(3) by simp
  from print_format_correct [OF assms(1,2) this, of extra]
  show ?thesis using assms(4) by (auto simp: PrintK_def)
qed

definition demo_format :: mem where
  "demo_format = (\<lambda>a. if unat a - 1 < 6 then [97, 37, 100, 37, 100, 0] ! (unat a - 1) else 0)"

theorem PrintK_correct_witness:
  "\<exists>s'. PrintK demo_format 1 [42, 43] \<lparr>IN_USE = False, convert_buffer = replicate 32 0, term_out = []\<rparr> = Some s'
    \<and> term_out s' = [97, 52, 50, 37, 100]"
proof -
  have "num_string 10 42 = [52, 50]" by (simp add: num_string_def digits_rev.simps hex_digits_def)
  then show ?thesis
    using PrintK_correct [of demo_format 1 "[([97], Dec 42)]" "[37, 100]"
        "\<lparr>IN_USE = False, convert_buffer = replicate 32 0, term_out = []\<rparr>" "[43]"]
    by (auto simp: format_bytes_def format_ok_def format_out_def demo_format_def)
qed

end
