(* ===== verification/Interrupts.thy ===== *)
theory Interrupts
  imports Gdt Printf
begin

text \<open>
  \<^verbatim>\<open>src/src/kernel/interrupts/idt.c\<close> and \<^verbatim>\<open>syscall.c\<close>: the table of interrupt gates, the
  keyboard and timer handlers and the system calls, with the entry stub of \<^verbatim>\<open>idt_asm.asm\<close> that
  lays the registers out on the stack. Function pointers are values of a datatype with one constructor
  per function that the kernel stores. The table is an array of packed structures in memory; its address
  and those of the stubs are given by \<open>idt_syms\<close>. What a handler cannot survive is a \<open>fault\<close>.
\<close>

unbundle bit_operations_syntax

section \<open>Data\<close>

datatype KeystrokeConsumer = Handle_key_stroke | Print_key

datatype syscall_handler_t = Syscall_1 | Syscall_3c

datatype fault = Null_call | Outside_array | No_return

record IdtEntry =
  handler_low :: u16
  idt_segment :: u16
  ist :: u8
  attributes :: u8
  handler_mid :: u16
  handler_high :: u32
  idt_reserved :: u32

record idt_syms =
  IDT :: u64
  isr1 :: u64
  isr2 :: u64
  isr80_stub :: u64

record int_state = gdt_state +
  KEY_INFO :: KeyInfo
  KEYSTROKE_CONSUMER :: "KeystrokeConsumer option"
  SYSCALLS :: "u8 \<Rightarrow> syscall_handler_t option"
  idtr_bounds :: u16
  idtr_base :: u64
  printk :: printk_state

definition MASTER_PIC_COMMAND :: u16 where "MASTER_PIC_COMMAND = 0x20"

definition MASTER_PIC_DATA :: u16 where "MASTER_PIC_DATA = 0x21"

definition SLAVE_PIC_COMMAND :: u16 where "SLAVE_PIC_COMMAND = 0xa0"

definition SLAVE_PIC_DATA :: u16 where "SLAVE_PIC_DATA = 0xa1"

definition ICW1 :: u8 where "ICW1 = 0x10"

definition ICW1_ICW4 :: u8 where "ICW1_ICW4 = 0x01"

definition ICW4_X86 :: u8 where "ICW4_X86 = 0x01"

definition INTERRUPT_GATE :: u8 where "INTERRUPT_GATE = 0x8E"

definition USER_MODE_INT :: u8 where "USER_MODE_INT = 0x60"

definition LOW_ISR_OFFSET :: "u64 \<Rightarrow> u64" where "LOW_ISR_OFFSET isr = isr AND 0xFFFF"

definition MID_ISR_OFFSET :: "u64 \<Rightarrow> u64" where "MID_ISR_OFFSET isr = drop_bit 16 isr AND 0xFFFF"

definition HIGH_ISR_OFFSET :: "u64 \<Rightarrow> u64" where "HIGH_ISR_OFFSET isr = drop_bit 32 isr AND 0xFFFFFFFF"

section \<open>Gates\<close>

text \<open>\<^verbatim>\<open>&IDT[vector]\<close>, and the seven stores into the packed entry.\<close>

definition idt_entry_ptr :: "idt_syms \<Rightarrow> u8 \<Rightarrow> u64" where
  "idt_entry_ptr y vector = IDT y + 16 * ucast vector"

definition put_gate :: "u64 \<Rightarrow> IdtEntry \<Rightarrow> mem \<Rightarrow> mem" where
  "put_gate a e m =
     store32 ((store16 (store32 (store16 (store16 m a (handler_low e)) (a + 6) (handler_mid e)) (a + 8) (handler_high e))
       (a + 2) (idt_segment e)) (a + 4 := ist e, a + 5 := attributes e)) (a + 12) (idt_reserved e)"

definition get_gate :: "mem \<Rightarrow> u64 \<Rightarrow> IdtEntry" where
  "get_gate m a = \<lparr>handler_low = load16 m a, idt_segment = load16 m (a + 2), ist = m (a + 4), attributes = m (a + 5),
     handler_mid = load16 m (a + 6), handler_high = load32 m (a + 8), idt_reserved = load32 m (a + 12)\<rparr>"

definition gate_of :: "u64 \<Rightarrow> u8 \<Rightarrow> IdtEntry" where
  "gate_of isr flags = \<lparr>handler_low = ucast (LOW_ISR_OFFSET isr), idt_segment = 0x28, ist = 0, attributes = flags,
     handler_mid = ucast (MID_ISR_OFFSET isr), handler_high = ucast (HIGH_ISR_OFFSET isr), idt_reserved = 0\<rparr>"

definition SetIdtEntry :: "idt_syms \<Rightarrow> u8 \<Rightarrow> u64 \<Rightarrow> u8 \<Rightarrow> 'a int_state_scheme \<Rightarrow> 'a int_state_scheme" where
  "SetIdtEntry y vector isr flags s =
     s\<lparr>memory := put_gate (idt_entry_ptr y vector) (gate_of isr flags) (memory s)\<rparr>"

definition LoadIdt :: "u16 \<Rightarrow> u64 \<Rightarrow> 'a int_state_scheme \<Rightarrow> 'a int_state_scheme" where
  "LoadIdt bounds base s = s\<lparr>idtr_bounds := bounds, idtr_base := base, interrupts_enabled := True\<rparr>"

section \<open>System calls\<close>

definition register_syscall ::
  "u64 \<Rightarrow> syscall_handler_t \<Rightarrow> 'a int_state_scheme \<Rightarrow> fault + 'a int_state_scheme" where
  "register_syscall rax handler s =
     (if rax < 256 then Inr (s\<lparr>SYSCALLS := (SYSCALLS s)(ucast rax := Some handler)\<rparr>) else Inl Outside_array)"

record registers_t =
  reg_r15 :: u64
  reg_r14 :: u64
  reg_r13 :: u64
  reg_r12 :: u64
  reg_r11 :: u64
  reg_rsi :: u64
  reg_rbp :: u64
  reg_r10 :: u64
  reg_r9 :: u64
  reg_r8 :: u64
  reg_rdi :: u64
  reg_rdx :: u64
  reg_rcx :: u64
  reg_rbx :: u64
  reg_rax :: u64

text \<open>The fields of a structure at \<open>p\<close>, in the order of its declaration.\<close>

definition read_registers :: "mem \<Rightarrow> u64 \<Rightarrow> registers_t" where
  "read_registers m p =
     \<lparr>reg_r15 = load64 m p, reg_r14 = load64 m (p + 8), reg_r13 = load64 m (p + 16), reg_r12 = load64 m (p + 24),
      reg_r11 = load64 m (p + 32), reg_rsi = load64 m (p + 40), reg_rbp = load64 m (p + 48), reg_r10 = load64 m (p + 56),
      reg_r9 = load64 m (p + 64), reg_r8 = load64 m (p + 72), reg_rdi = load64 m (p + 80), reg_rdx = load64 m (p + 88),
      reg_rcx = load64 m (p + 96), reg_rbx = load64 m (p + 104), reg_rax = load64 m (p + 112)\<rparr>"

definition syscall_1 :: "registers_t \<Rightarrow> 'a int_state_scheme \<Rightarrow> fault + 'a int_state_scheme" where
  "syscall_1 regs s =
     (case PrintK (memory s) (reg_r8 regs) [] (printk s) of
        None \<Rightarrow> Inl No_return
      | Some p \<Rightarrow> Inr (s\<lparr>printk := p\<rparr>))"

definition syscall_3c :: "registers_t \<Rightarrow> 'a int_state_scheme \<Rightarrow> fault + 'a int_state_scheme" where
  "syscall_3c regs s = Inl No_return"

fun call_syscall ::
  "syscall_handler_t option \<Rightarrow> registers_t \<Rightarrow> 'a int_state_scheme \<Rightarrow> fault + 'a int_state_scheme" where
  "call_syscall None regs s = Inl Null_call"
| "call_syscall (Some Syscall_1) regs s = syscall_1 regs s"
| "call_syscall (Some Syscall_3c) regs s = syscall_3c regs s"

definition Isr80Handler :: "u64 \<Rightarrow> 'a int_state_scheme \<Rightarrow> fault + 'a int_state_scheme" where
  "Isr80Handler regs s =
     (let r = read_registers (memory s) regs
      in if reg_rax r < 256 then call_syscall (SYSCALLS s (ucast (reg_rax r))) r s else Inl Outside_array)"

text \<open>
  \<^verbatim>\<open>PUSHALL\<close> and the call in \<^verbatim>\<open>isr80\<close>: the registers of the interrupted program are pushed
  in this order on the stack that ends at \<open>rsp\<close>, and the handler gets a pointer to the last one.
\<close>

record cpu_regs =
  rax :: u64
  rbx :: u64
  rcx :: u64
  rdx :: u64
  rdi :: u64
  rsi :: u64
  rbp :: u64
  r8 :: u64
  r9 :: u64
  r10 :: u64
  r11 :: u64
  r12 :: u64
  r13 :: u64
  r14 :: u64
  r15 :: u64

primrec push_list :: "u64 list \<Rightarrow> u64 \<Rightarrow> mem \<Rightarrow> u64 \<times> mem" where
  "push_list [] sp m = (sp, m)"
| "push_list (v # vs) sp m = push_list vs (sp - 8) (store64 m (sp - 8) v)"

definition PUSHALL :: "cpu_regs \<Rightarrow> u64 \<Rightarrow> mem \<Rightarrow> u64 \<times> mem" where
  "PUSHALL c sp m = push_list [rax c, rbx c, rcx c, rdx c, rdi c, rsi c, rbp c, r8 c, r9 c, r10 c, r11 c,
     r12 c, r13 c, r14 c, r15 c] sp m"

definition isr80 :: "cpu_regs \<Rightarrow> u64 \<Rightarrow> 'a int_state_scheme \<Rightarrow> fault + 'a int_state_scheme" where
  "isr80 c rsp s =
     (let (sp, m) = PUSHALL c rsp (memory s)
      in Isr80Handler sp (s\<lparr>memory := m, ds_selector := 0x30\<rparr>))"

section \<open>Initialisation\<close>

definition InitializeIdt :: "idt_syms \<Rightarrow> 'a int_state_scheme \<Rightarrow> fault + 'a int_state_scheme" where
  "InitializeIdt y s =
     (let s = SetIdtEntry y 0x21 (isr1 y) INTERRUPT_GATE s;
          s = SetIdtEntry y 0x22 (isr2 y) INTERRUPT_GATE s;
          s = SetIdtEntry y 0x80 (isr80_stub y) (INTERRUPT_GATE OR USER_MODE_INT) s
      in case register_syscall 0x01 Syscall_1 s of
           Inl e \<Rightarrow> Inl e
         | Inr s \<Rightarrow>
             (case register_syscall 0x3c Syscall_3c s of
                Inl e \<Rightarrow> Inl e
              | Inr s \<Rightarrow>
                  (let s = outportb SLAVE_PIC_DATA 0xFF s;
                       s = outportb MASTER_PIC_DATA 0xFF s
                   in Inr (LoadIdt (256 * 16 - 1) (IDT y) s))))"

text \<open>The two masks read first are what the controllers hold.\<close>

definition RemapPic :: "u8 \<Rightarrow> u8 \<Rightarrow> i32 \<Rightarrow> i32 \<Rightarrow> 'a int_state_scheme \<Rightarrow> 'a int_state_scheme" where
  "RemapPic master_int_mask slave_int_mask master_offset slave_offset s =
     (let s = outportb MASTER_PIC_COMMAND (ICW1 OR ICW1_ICW4) s;
          s = outportb SLAVE_PIC_COMMAND (ICW1 OR ICW1_ICW4) s;
          s = outportb MASTER_PIC_DATA (ucast master_offset) s;
          s = outportb SLAVE_PIC_DATA (ucast slave_offset) s;
          s = outportb MASTER_PIC_DATA 4 s;
          s = outportb SLAVE_PIC_DATA 2 s;
          s = outportb MASTER_PIC_DATA ICW4_X86 s;
          s = outportb SLAVE_PIC_DATA ICW4_X86 s;
          s = outportb MASTER_PIC_DATA master_int_mask s
      in outportb SLAVE_PIC_DATA slave_int_mask s)"

section \<open>Handlers\<close>

definition GetKeystrokeConsumer :: "'a int_state_scheme \<Rightarrow> KeystrokeConsumer option" where
  "GetKeystrokeConsumer s = KEYSTROKE_CONSUMER s"

definition SetKeystrokeConsumer :: "KeystrokeConsumer option \<Rightarrow> 'a int_state_scheme \<Rightarrow> 'a int_state_scheme" where
  "SetKeystrokeConsumer ksc s = s\<lparr>KEYSTROKE_CONSUMER := ksc\<rparr>"

text \<open>\<^verbatim>\<open>print_key\<close> of \<^verbatim>\<open>kernel.c\<close>; \<open>c\<close> is the address of its local array.\<close>

definition print_key :: "u64 \<Rightarrow> KeyInfo \<Rightarrow> 'a int_state_scheme \<Rightarrow> 'a int_state_scheme option" where
  "print_key c key_info s = do {
     ch \<leftarrow> CharFromScancode key_info;
     let s = s\<lparr>memory := (memory s)(c := ch, c + 1 := 0)\<rparr>;
     p \<leftarrow> PrintK (memory s) c [] (printk s);
     Some (s\<lparr>printk := p\<rparr>)
   }"

fun call_consumer ::
  "u64 \<Rightarrow> KeystrokeConsumer option \<Rightarrow> KeyInfo \<Rightarrow> 'a int_state_scheme \<Rightarrow> fault + 'a int_state_scheme" where
  "call_consumer c None k s = Inl Null_call"
| "call_consumer c (Some Handle_key_stroke) k s =
     (case HandleKeyStroke c k s of None \<Rightarrow> Inl No_return | Some s \<Rightarrow> Inr s)"
| "call_consumer c (Some Print_key) k s =
     (case print_key c k s of None \<Rightarrow> Inl No_return | Some s \<Rightarrow> Inr s)"

text \<open>The \<^verbatim>\<open>switch\<close> on the scan code just stored in \<^verbatim>\<open>KEY_INFO\<close>.\<close>

definition key_switch :: "KeyInfo \<Rightarrow> KeyInfo" where
  "key_switch k =
     (let code = scancode k
      in if code = BACKSPACE_PRESSED then k\<lparr>backspace := True\<rparr>
         else if code = BACKSPACE_RELEASED then k\<lparr>backspace := False\<rparr>
         else if code = ENTER_PRESSED then k\<lparr>enter := True\<rparr>
         else if code = ENTER_RELEASED then k\<lparr>enter := False\<rparr>
         else if code = LEFT_SHIFT_PRESSED \<or> code = RIGHT_SHIFT_PRESSED then k\<lparr>shift := True\<rparr>
         else if code = LEFT_SHIFT_RELEASED \<or> code = RIGHT_SHIFT_RELEASED then k\<lparr>shift := False, scancode := 0\<rparr>
         else if code = CTRL_PRESSED then k\<lparr>ctrl := True\<rparr>
         else if code = CTRL_RELEASED then k\<lparr>ctrl := False\<rparr>
         else k)"

text \<open>\<open>byte\<close> is what the keyboard controller returns at port \<^verbatim>\<open>0x60\<close>.\<close>

definition Isr1Handler :: "u64 \<Rightarrow> u8 \<Rightarrow> 'a int_state_scheme \<Rightarrow> fault + 'a int_state_scheme" where
  "Isr1Handler c byte s =
     (let s = s\<lparr>KEY_INFO := (KEY_INFO s)\<lparr>scancode := byte\<rparr>\<rparr>;
          s = s\<lparr>KEY_INFO := key_switch (KEY_INFO s)\<rparr>
      in case (if scancode (KEY_INFO s) < 0x80 then call_consumer c (GetKeystrokeConsumer s) (KEY_INFO s) s else Inr s) of
           Inl e \<Rightarrow> Inl e
         | Inr s \<Rightarrow> Inr (end_of_interrupt False 0x21 s))"

fun call_timer :: "timer_handler option \<Rightarrow> 'a int_state_scheme \<Rightarrow> 'a int_state_scheme" where
  "call_timer None s = s"
| "call_timer (Some Pit_increment) s = pit_increment s"

definition Isr2Handler :: "'a int_state_scheme \<Rightarrow> 'a int_state_scheme" where
  "Isr2Handler s = end_of_interrupt False 0x22 (call_timer (get_timer_handler s) s)"

section \<open>The gates the processor finds\<close>

text \<open>The address the processor jumps to and the ring allowed to raise the interrupt.\<close>

definition gate_handler :: "IdtEntry \<Rightarrow> u64" where
  "gate_handler e = ucast (handler_low e) OR push_bit 16 (ucast (handler_mid e)) OR push_bit 32 (ucast (handler_high e))"

definition gate_ring :: "IdtEntry \<Rightarrow> u8" where "gate_ring e = drop_bit 5 (attributes e) AND 3"

lemma gate_handler_of: "gate_handler (gate_of isr flags) = isr"
proof (rule bit_word_eqI)
  fix n assume n: "n < LENGTH(64)"
  have m: "bit (0xFFFF :: u64) k \<longleftrightarrow> k < 16" "bit (0xFFFFFFFF :: u64) k \<longleftrightarrow> k < 32" for k
    using bit_mask_iff [of 16 k, where 'a = u64] bit_mask_iff [of 32 k, where 'a = u64]
    by (auto simp: mask_eq_exp_minus_1)
  have "bit (gate_handler (gate_of isr flags)) n \<longleftrightarrow> n < 16 \<and> bit isr n \<or> 16 \<le> n \<and> n < 32 \<and> bit isr (16 + (n - 16)) \<or>
      32 \<le> n \<and> bit isr (32 + (n - 32))"
    using n unfolding gate_handler_def gate_of_def LOW_ISR_OFFSET_def MID_ISR_OFFSET_def HIGH_ISR_OFFSET_def
      IdtEntry.simps bit_or_iff bit_and_iff bit_push_bit_iff bit_drop_bit_eq bit_unsigned_iff o_def m possible_bit_word
    by simp linarith
  then show "bit (gate_handler (gate_of isr flags)) n = bit isr n" using n by auto
qed

interpretation gate: packed_struct 16 get_gate put_gate
proof unfold_locales
  fix a e m
  show "get_gate (put_gate a e m) a = e" by (simp add: get_gate_def put_gate_def packed_simps)
next
  fix a and m m' :: mem
  assume eq: "\<And>x. in_range x a 16 \<Longrightarrow> m x = m' x"
  have "load16 m a = load16 m' a" by (rule c16.load_cong, rule eq, erule in_range_mono) simp
  moreover have "load16 m (a + 2) = load16 m' (a + 2)" "load16 m (a + 6) = load16 m' (a + 6)"
    by (rule c16.load_cong, rule eq, auto intro: field_range)+
  moreover have "load32 m (a + 8) = load32 m' (a + 8)" "load32 m (a + 12) = load32 m' (a + 12)"
    by (rule c32.load_cong, rule eq, auto intro: field_range)+
  ultimately show "get_gate m a = get_gate m' a" by (simp add: get_gate_def eq byte_field_range)
next
  fix x a e m
  assume x: "\<not> in_range x a 16"
  have "\<not> in_range x a 2" using x by (auto dest: in_range_mono [of _ _ 2 16])
  moreover have "\<not> in_range x (a + 2) 2" "\<not> in_range x (a + 6) 2" "\<not> in_range x (a + 8) 4" "\<not> in_range x (a + 12) 4"
    using x field_range [of x a 2 2 16] field_range [of x a 6 2 16] field_range [of x a 8 4 16] field_range [of x a 12 4 16]
    by auto
  moreover have "x \<noteq> a + 4" "x \<noteq> a + 5" using x byte_field_range [of _ 16 a] by force+
  ultimately show "put_gate a e m x = m x" by (simp add: put_gate_def c16.store_other c32.store_other)
qed simp

definition gate_at :: "'a int_state_scheme \<Rightarrow> u8 \<Rightarrow> IdtEntry" where
  "gate_at s vector = get_gate (memory s) (idtr_base s + 16 * ucast vector)"

lemma get_gate_SetIdtEntry:
  "get_gate (memory (SetIdtEntry y v isr flags s)) (idt_entry_ptr y w)
    = (if w = v then gate_of isr flags else get_gate (memory s) (idt_entry_ptr y w))"
proof -
  have ptr: "idt_entry_ptr y u = IDT y + of_nat (16 * unat u)" for u by (simp add: idt_entry_ptr_def)
  have "16 * Suc (unat u) \<le> 2 ^ 64" for u :: u8 using unat_less8 [of u] by simp
  then show ?thesis unfolding SetIdtEntry_def ptr by (simp add: gate.get_put_element word_unat_eq_iff del: of_nat_mult)
qed

text \<open>C7. The interrupt table after \<^verbatim>\<open>InitializeIdt\<close>: it always succeeds, the loaded table has 256 entries,
  the three parts of the gates 0x21, 0x22 and 0x80 put together are the addresses of the keyboard, timer and system
  call stubs, only the system call may be raised from ring 3, all three enter the kernel's code segment, no other
  gate changes, both legacy controllers are masked and exactly the system calls 1 and 0x3c are added.\<close>

theorem InitializeIdt_gates:
  "\<exists>s'. InitializeIdt y s = Inr s' \<and> idtr_base s' = IDT y \<and> unat (idtr_bounds s') = 256 * 16 - 1 \<and> interrupts_enabled s' \<and>
    gate_at s' 0x21 = gate_of (isr1 y) 0x8E \<and> gate_handler (gate_at s' 0x21) = isr1 y \<and>
    gate_at s' 0x22 = gate_of (isr2 y) 0x8E \<and> gate_handler (gate_at s' 0x22) = isr2 y \<and>
    gate_at s' 0x80 = gate_of (isr80_stub y) 0xEE \<and> gate_handler (gate_at s' 0x80) = isr80_stub y \<and>
    gate_ring (gate_at s' 0x21) = 0 \<and> gate_ring (gate_at s' 0x22) = 0 \<and> gate_ring (gate_at s' 0x80) = 3 \<and>
    idt_segment (gate_at s' 0x80) = KERN_CS_SEGSEL \<and>
    gate_at s' v = (if v = 0x21 then gate_of (isr1 y) 0x8E else if v = 0x22 then gate_of (isr2 y) 0x8E
      else if v = 0x80 then gate_of (isr80_stub y) 0xEE else get_gate (memory s) (idt_entry_ptr y v)) \<and>
    ports_out s' = ports_out s @ [(SLAVE_PIC_DATA, 0xFF), (MASTER_PIC_DATA, 0xFF)] \<and>
    SYSCALLS s' = (SYSCALLS s)(1 := Some Syscall_1, 0x3c := Some Syscall_3c)"
proof -
  let ?s1 = "SetIdtEntry y 0x22 (isr2 y) 0x8E (SetIdtEntry y 0x21 (isr1 y) 0x8E s)"
  let ?s2 = "SetIdtEntry y 0x80 (isr80_stub y) 0xEE ?s1"
  obtain s' where s': "InitializeIdt y s = Inr s'" "memory s' = memory ?s2" "idtr_base s' = IDT y"
    "idtr_bounds s' = 256 * 16 - 1" "interrupts_enabled s'"
    "ports_out s' = ports_out s @ [(SLAVE_PIC_DATA, 0xFF), (MASTER_PIC_DATA, 0xFF)]"
    "SYSCALLS s' = (SYSCALLS s)(1 := Some Syscall_1, 0x3c := Some Syscall_3c)"
    by (simp add: InitializeIdt_def INTERRUPT_GATE_def USER_MODE_INT_def register_syscall_def outportb_def LoadIdt_def Let_def
        SetIdtEntry_def)
  have at: "gate_at s' w = (if w = 0x21 then gate_of (isr1 y) 0x8E else if w = 0x22 then gate_of (isr2 y) 0x8E
      else if w = 0x80 then gate_of (isr80_stub y) 0xEE else get_gate (memory s) (idt_entry_ptr y w))" for w
    using get_gate_SetIdtEntry [of y "0x80" "isr80_stub y" "0xEE" ?s1 w]
      get_gate_SetIdtEntry [of y "0x22" "isr2 y" "0x8E" "SetIdtEntry y 0x21 (isr1 y) 0x8E s" w]
      get_gate_SetIdtEntry [of y "0x21" "isr1 y" "0x8E" s w]
    by (auto simp: gate_at_def s'(2,3) idt_entry_ptr_def)
  have "gate_ring (gate_of isr 0x8E) = 0" "gate_ring (gate_of isr 0xEE) = 3" "idt_segment (gate_of isr f) = KERN_CS_SEGSEL"
    for isr f by (simp_all add: gate_ring_def gate_of_def KERN_CS_SEGSEL_def)
  then show ?thesis using s' at by (intro exI [of _ s']) (simp add: gate_handler_of)
qed

section \<open>System calls\<close>

lemma read_registers_PUSHALL:
  "PUSHALL c (p + 120) m = (q, m') \<Longrightarrow> q = p \<and>
     read_registers m' p = \<lparr>reg_r15 = r15 c, reg_r14 = r14 c, reg_r13 = r13 c, reg_r12 = r12 c, reg_r11 = r11 c,
       reg_rsi = r10 c, reg_rbp = r9 c, reg_r10 = r8 c, reg_r9 = rbp c, reg_r8 = rsi c, reg_rdi = rdi c,
       reg_rdx = rdx c, reg_rcx = rcx c, reg_rbx = rbx c, reg_rax = rax c\<rparr>"
  by (auto simp: PUSHALL_def read_registers_def add_diff_eq [symmetric] packed_simps)

text \<open>C28. What a system call does, from the registers of the interrupted program: a number of 256 or more reads
  beyond the table, one without a handler calls a null pointer, 0x3c never returns, and 1 prints the string whose
  address is in \<^verbatim>\<open>rsi\<close>. The handler reads the field named \<^verbatim>\<open>r8\<close>, but the fields of \<^verbatim>\<open>registers_t\<close> are
  not in the order the stub pushes the registers, and that field holds \<^verbatim>\<open>rsi\<close>.\<close>

theorem isr80_dispatch:
  "isr80 c (p + 120) s =
    (let s' = s\<lparr>memory := snd (PUSHALL c (p + 120) (memory s)), ds_selector := 0x30\<rparr>
     in if rax c \<ge> 256 then Inl Outside_array
        else case SYSCALLS s (ucast (rax c)) of
          None \<Rightarrow> Inl Null_call
        | Some Syscall_3c \<Rightarrow> Inl No_return
        | Some Syscall_1 \<Rightarrow>
            (case PrintK (memory s') (rsi c) [] (printk s) of None \<Rightarrow> Inl No_return | Some k \<Rightarrow> Inr (s'\<lparr>printk := k\<rparr>)))"
proof -
  obtain m' where m': "PUSHALL c (p + 120) (memory s) = (p, m')"
    using read_registers_PUSHALL [of c p "memory s"] by (cases "PUSHALL c (p + 120) (memory s)") auto
  then show ?thesis using read_registers_PUSHALL [OF m']
    by (simp add: isr80_def Isr80Handler_def syscall_1_def syscall_3c_def Let_def not_le
        split: option.splits syscall_handler_t.splits)
qed

section \<open>The keyboard\<close>

lemmas key_codes = BACKSPACE_PRESSED_def BACKSPACE_RELEASED_def ENTER_PRESSED_def ENTER_RELEASED_def
  LEFT_SHIFT_PRESSED_def RIGHT_SHIFT_PRESSED_def LEFT_SHIFT_RELEASED_def RIGHT_SHIFT_RELEASED_def
  CTRL_PRESSED_def CTRL_RELEASED_def

lemma Isr1Handler_no_consumer: "KEYSTROKE_CONSUMER s = None \<Longrightarrow> byte < 0x80 \<Longrightarrow> Isr1Handler c byte s = Inl Null_call"
  by (auto simp: Isr1Handler_def key_switch_def GetKeystrokeConsumer_def Let_def)

lemma Isr1Handler_release:
  assumes "byte \<ge> 0x80" "byte \<noteq> LEFT_SHIFT_RELEASED" "byte \<noteq> RIGHT_SHIFT_RELEASED"
  shows "\<exists>k. Isr1Handler c byte s = Inr (end_of_interrupt False 0x21 (s\<lparr>KEY_INFO := k\<rparr>))"
  using assms
  by (auto simp: Isr1Handler_def key_switch_def Let_def key_codes)

text \<open>Letting a shift key go is reported to the consumer, as scan code 0.\<close>

lemma Isr1Handler_shift_release:
  "Isr1Handler c LEFT_SHIFT_RELEASED s =
    (let k = (KEY_INFO s)\<lparr>shift := False, scancode := 0\<rparr>
     in case call_consumer c (KEYSTROKE_CONSUMER s) k (s\<lparr>KEY_INFO := k\<rparr>) of
          Inl e \<Rightarrow> Inl e | Inr s' \<Rightarrow> Inr (end_of_interrupt False 0x21 s'))"
  by (simp add: Isr1Handler_def key_switch_def Let_def key_codes GetKeystrokeConsumer_def)

text \<open>The code taken for the control key is that of the letter a.\<close>

lemma key_a_is_ctrl:
  "ctrl (key_switch (k\<lparr>scancode := 0x1E\<rparr>))" "LOWERCASE_CHARS_BY_SCANCODE ! 0x1E = 97"
  by (simp_all add: key_switch_def Let_def key_codes LOWERCASE_CHARS_BY_SCANCODE_def)

end
