(* ===== verification/Proc.thy ===== *)
theory Proc
  imports Interrupts
begin

text \<open>
  \<^verbatim>\<open>src/src/kernel/proc/elf.c\<close> and \<^verbatim>\<open>proc.c\<close>: loading an executable into a new page map and
  entering it. The executable is read from memory; \<open>ELF_MAGIC\<close> is the address of the four bytes it is
  compared with. A process control block is a value, since its address is never shared. The inline
  assembly of \<^verbatim>\<open>run_proc\<close> is modelled by its pushes and pops on the stack in memory, its operands
  being the values they name.
\<close>

unbundle bit_operations_syntax

section \<open>Data\<close>

record elf_hdr_t =
  elf_bits :: u8
  elf_endianness :: u8
  elf_version :: u8
  elf_abi :: u8
  elf_file_type :: u16
  elf_arch :: u16
  elf_version_con :: u32
  elf_entry_pt :: u64
  elf_phdr_offset :: u64
  elf_shdr_offset :: u64
  elf_flags :: u32
  elf_hdr_size :: u16
  phdr_entry_size :: u16
  phdr_num_entries :: u16
  shdr_entry_size :: u16
  shdr_num_entries :: u16
  shdr_index :: u16

definition read_elf_hdr :: "mem \<Rightarrow> u64 \<Rightarrow> elf_hdr_t" where
  "read_elf_hdr m p =
     \<lparr>elf_bits = m (p + 4), elf_endianness = m (p + 5), elf_version = m (p + 6), elf_abi = m (p + 7),
      elf_file_type = load16 m (p + 16), elf_arch = load16 m (p + 18), elf_version_con = load32 m (p + 20),
      elf_entry_pt = load64 m (p + 24), elf_phdr_offset = load64 m (p + 32), elf_shdr_offset = load64 m (p + 40),
      elf_flags = load32 m (p + 48), elf_hdr_size = load16 m (p + 52), phdr_entry_size = load16 m (p + 54),
      phdr_num_entries = load16 m (p + 56), shdr_entry_size = load16 m (p + 58), shdr_num_entries = load16 m (p + 60),
      shdr_index = load16 m (p + 62)\<rparr>"

record elf_phdr_t =
  phdr_type :: u32
  phdr_flags :: u32
  phdr_offset :: u64
  phdr_vaddr :: u64
  phdr_paddr :: u64
  phdr_file_size :: u64
  phdr_mem_size :: u64
  phdr_alignment :: u64

definition read_phdr :: "mem \<Rightarrow> u64 \<Rightarrow> elf_phdr_t" where
  "read_phdr m p =
     \<lparr>phdr_type = load32 m p, phdr_flags = load32 m (p + 4), phdr_offset = load64 m (p + 8), phdr_vaddr = load64 m (p + 16),
      phdr_paddr = load64 m (p + 24), phdr_file_size = load64 m (p + 32), phdr_mem_size = load64 m (p + 40),
      phdr_alignment = load64 m (p + 48)\<rparr>"

datatype elf_phdr_seg_t =
  ELF_PHDR_NULL | ELF_PHDR_LOAD | ELF_PHDR_DYNAMIC | ELF_PHDR_INTERP | ELF_PHDR_NOTE | ELF_PHDR_SHLIB | ELF_PHDR_PHDR |
  ELF_PHDR_TLS | ELF_PHDR_LOOS | ELF_PHDR_HIO | ELF_PHDR_LOPROC | ELF_PHDR_HIPRO

fun elf_phdr_seg :: "elf_phdr_seg_t \<Rightarrow> u32" where
  "elf_phdr_seg ELF_PHDR_NULL = 0"
| "elf_phdr_seg ELF_PHDR_LOAD = 1"
| "elf_phdr_seg ELF_PHDR_DYNAMIC = 2"
| "elf_phdr_seg ELF_PHDR_INTERP = 3"
| "elf_phdr_seg ELF_PHDR_NOTE = 4"
| "elf_phdr_seg ELF_PHDR_SHLIB = 5"
| "elf_phdr_seg ELF_PHDR_PHDR = 6"
| "elf_phdr_seg ELF_PHDR_TLS = 7"
| "elf_phdr_seg ELF_PHDR_LOOS = 0x60000000"
| "elf_phdr_seg ELF_PHDR_HIO = 0x6FFFFFFF"
| "elf_phdr_seg ELF_PHDR_LOPROC = 0x70000000"
| "elf_phdr_seg ELF_PHDR_HIPRO = 0x7FFFFFFF"

record elf_shdr_t =
  shdr_name_offset :: u32
  shdr_type :: u32
  shdr_flags :: u64
  shdr_vaddr :: u64
  shdr_offset :: u64
  shdr_size :: u64
  shdr_link :: u32
  shdr_info :: u32
  shdr_alignment :: u64
  shdr_ent_size :: u64

definition read_shdr :: "mem \<Rightarrow> u64 \<Rightarrow> elf_shdr_t" where
  "read_shdr m p =
     \<lparr>shdr_name_offset = load32 m p, shdr_type = load32 m (p + 4), shdr_flags = load64 m (p + 8), shdr_vaddr = load64 m (p + 16),
      shdr_offset = load64 m (p + 24), shdr_size = load64 m (p + 32), shdr_link = load32 m (p + 40),
      shdr_info = load32 m (p + 44), shdr_alignment = load64 m (p + 48), shdr_ent_size = load64 m (p + 56)\<rparr>"

definition ELF_SHDR_STRTAB :: u32 where "ELF_SHDR_STRTAB = 3"

record pcb_registers =
  pcb_rax :: u64
  pcb_rbx :: u64
  pcb_rcx :: u64
  pcb_rdx :: u64
  pcb_rdi :: u64
  pcb_rsi :: u64
  pcb_rsp :: u64
  pcb_rbp :: u64
  pcb_r8 :: u64
  pcb_r9 :: u64
  pcb_r10 :: u64
  pcb_r11 :: u64
  pcb_r12 :: u64
  pcb_r13 :: u64
  pcb_r14 :: u64
  pcb_r15 :: u64
  pcb_rip :: u64

record pcb_t =
  pagemap :: u64
  pid :: u32
  ppid :: u32
  registers :: pcb_registers

definition DEFAULT_STACK_BASE :: u64 where "DEFAULT_STACK_BASE = 0xFFFFFFFF"

definition USER_PROC_PAGE :: u16 where "USER_PROC_PAGE = ucast (PRESENT OR READ_WRITABLE OR USER_ACCESSIBLE)"

section \<open>Loading an executable\<close>

primrec find_shdr_loop :: "nat \<Rightarrow> nat \<Rightarrow> mem \<Rightarrow> u64 \<Rightarrow> u64 \<Rightarrow> u64" where
  "find_shdr_loop 0 i m raw_elf shdrs = 0"
| "find_shdr_loop (Suc n) i m raw_elf shdrs =
     (let h = read_shdr m (shdrs + 64 * of_nat i)
      in if shdr_type h = ELF_SHDR_STRTAB then raw_elf + shdr_offset h else find_shdr_loop n (Suc i) m raw_elf shdrs)"

definition find_shdr_strtab :: "mem \<Rightarrow> u64 \<Rightarrow> u16 \<Rightarrow> u64 \<Rightarrow> u64" where
  "find_shdr_strtab m raw_elf num_shdrs shdrs = find_shdr_loop (unat num_shdrs) 0 m raw_elf shdrs"

text \<open>The pages of one segment; a failed allocation gives the frame 0, and a failed mapping is ignored.\<close>

partial_function (option) load_pages ::
  "u64 \<Rightarrow> u64 \<Rightarrow> u64 \<Rightarrow> u64 \<Rightarrow> u64 \<Rightarrow> 'a pmm_state_scheme \<Rightarrow> 'a pmm_state_scheme option" where
  "load_pages root segment seg_base seg_bound off s =
     (if off < seg_bound then
        (case AllocFirstFrame s of
           None \<Rightarrow> None
         | Some (frame, s) \<Rightarrow>
             (let s = s\<lparr>memory := memmove (memory s) frame (segment + off) 0x1000\<rparr>
              in case MapPage root (seg_base + off) frame USER_PROC_PAGE s of
                   None \<Rightarrow> None
                 | Some (_, s) \<Rightarrow> load_pages root segment seg_base seg_bound (off + 0x1000) s))
      else Some s)"

definition segment_bound :: "elf_phdr_t \<Rightarrow> u64" where
  "segment_bound h = push_bit 12 (drop_bit 12 (phdr_vaddr h + phdr_mem_size h + push_bit 12 1 - 1))"

definition load_segment :: "u64 \<Rightarrow> u64 \<Rightarrow> elf_phdr_t \<Rightarrow> 'a pmm_state_scheme \<Rightarrow> 'a pmm_state_scheme option" where
  "load_segment root raw_elf h s =
     (if phdr_type h = elf_phdr_seg ELF_PHDR_LOAD
      then load_pages root (raw_elf + phdr_offset h) (phdr_vaddr h) (segment_bound h) 0 s else Some s)"

text \<open>The headers are read again in each round; the count too, which is why it is not fixed at the start.\<close>

partial_function (option) load_segments ::
  "u64 \<Rightarrow> u64 \<Rightarrow> u64 \<Rightarrow> u64 \<Rightarrow> 'a pmm_state_scheme \<Rightarrow> 'a pmm_state_scheme option" where
  "load_segments root raw_elf phdrs i s =
     (if i < ucast (phdr_num_entries (read_elf_hdr (memory s) raw_elf)) then
        (case load_segment root raw_elf (read_phdr (memory s) (phdrs + 56 * i)) s of
           None \<Rightarrow> None
         | Some s \<Rightarrow> load_segments root raw_elf phdrs (i + 1) s)
      else Some s)"

definition parse_elf ::
  "u64 \<Rightarrow> u64 \<Rightarrow> pcb_t \<Rightarrow> 'a heap_state_scheme \<Rightarrow> (i32 \<times> pcb_t \<times> 'a heap_state_scheme) option" where
  "parse_elf ELF_MAGIC raw_elf pcb s = do {
     (root, s) \<leftarrow> AllocFirstFrame s;
     let pcb = pcb\<lparr>pagemap := root\<rparr>;
     if strncmp (memory s) raw_elf ELF_MAGIC 4 \<noteq> 0
     then Some (- 1, pcb, PrintK_log (''ELF magic not detected.'' @ [CHR 0x0A]) [] s)
     else do {
       let header = read_elf_hdr (memory s) raw_elf;
       let pcb = pcb\<lparr>registers := (registers pcb)\<lparr>pcb_rip := elf_entry_pt header\<rparr>\<rparr>;
       s \<leftarrow> load_segments root raw_elf (raw_elf + elf_phdr_offset header) 0 s;
       (stack, s) \<leftarrow> AllocFirstFrame s;
       (_, s) \<leftarrow> MapPage root DEFAULT_STACK_BASE stack USER_PROC_PAGE s;
       (_, s) \<leftarrow> MapKernelPmrs root s;
       s \<leftarrow> map_heap root s;
       Some (0, pcb\<lparr>registers := (registers pcb)\<lparr>pcb_rbp := DEFAULT_STACK_BASE, pcb_rsp := DEFAULT_STACK_BASE\<rparr>\<rparr>, s)
     }
   }"

section \<open>Entering a process\<close>

text \<open>The context the processor continues with after \<^verbatim>\<open>iretq\<close>.\<close>

record user_context =
  user_regs :: cpu_regs
  user_rip :: u64
  user_cs :: u64
  user_rflags :: u64
  user_rsp :: u64
  user_ss :: u64

text \<open>
  \<open>sp\<close> is the kernel's stack pointer and \<open>flags\<close> what \<^verbatim>\<open>pushfq\<close> pushes. The fourteen pops
  follow the fourteen pushes in the same order of registers; \<^verbatim>\<open>iretq\<close> takes the rest.
\<close>

definition run_proc :: "u64 \<Rightarrow> u64 \<Rightarrow> pcb_t \<Rightarrow> 'a heap_state_scheme \<Rightarrow> user_context \<times> 'a heap_state_scheme" where
  "run_proc sp flags pcb s =
     (let r = registers pcb;
          s = s\<lparr>cr3 := KernelVAddrToPAddr (pagemap pcb) s\<rparr>;
          (sp, m) = push_list [ucast USER_DS_SEGSEL, pcb_rsp r, flags, ucast USER_CS_SEGSEL, pcb_rip r, pcb_rax r, pcb_rbx r,
            pcb_rcx r, pcb_rdx r, pcb_rdi r, pcb_rsi r, pcb_r8 r, pcb_r9 r, pcb_r10 r, pcb_r11 r, pcb_r12 r, pcb_r13 r,
            pcb_r14 r, pcb_r15 r] sp (memory s);
          pop = (\<lambda>k. load64 m (sp + 8 * k))
      in (\<lparr>user_regs = \<lparr>rax = pop 0, rbx = pop 1, rcx = pop 2, rdx = pop 3, rdi = pop 4, rsi = pop 5, rbp = pcb_rbp r,
             r8 = pop 6, r9 = pop 7, r10 = pop 8, r11 = pop 9, r12 = pop 10, r13 = pop 11, r14 = pop 12, r15 = pop 13\<rparr>,
           user_rip = pop 14, user_cs = pop 15, user_rflags = pop 16, user_rsp = pop 17, user_ss = pop 18\<rparr>,
          s\<lparr>memory := m\<rparr>))"

section \<open>The registers a process starts with\<close>

text \<open>C40. The pops of \<^verbatim>\<open>run_proc\<close> are in the order of the pushes, so the general registers arrive in reverse: the
  process finds its \<^verbatim>\<open>r15\<close> in \<^verbatim>\<open>rax\<close>, and so on. The frame of \<^verbatim>\<open>iretq\<close> is right: it enters
  the entry point at ring 3 with the user's segments and stack.\<close>

theorem run_proc_context:
  "fst (run_proc (p + 152) flags pcb s) =
    (let r = registers pcb
     in \<lparr>user_regs = \<lparr>rax = pcb_r15 r, rbx = pcb_r14 r, rcx = pcb_r13 r, rdx = pcb_r12 r, rdi = pcb_r11 r, rsi = pcb_r10 r,
           rbp = pcb_rbp r, r8 = pcb_r9 r, r9 = pcb_r8 r, r10 = pcb_rsi r, r11 = pcb_rdi r, r12 = pcb_rdx r, r13 = pcb_rcx r,
           r14 = pcb_rbx r, r15 = pcb_rax r\<rparr>,
         user_rip = pcb_rip r, user_cs = 0x3B, user_rflags = flags, user_rsp = pcb_rsp r, user_ss = 0x43\<rparr>)"
  by (simp add: run_proc_def Let_def add_diff_eq [symmetric] packed_simps USER_CS_SEGSEL_def USER_DS_SEGSEL_def)

text \<open>
  The bound of a segment is an address, not a size: a segment of one page at \<open>0x400000\<close> makes the loop run
  until the offset reaches \<open>0x401000\<close>.
\<close>

lemma segment_bound_demo:
  "phdr_vaddr h = 0x400000 \<Longrightarrow> phdr_mem_size h = 0x1000 \<Longrightarrow> segment_bound h = 0x401000"
  by (simp add: segment_bound_def)

end
