(* ===== verification/Ustar.thy ===== *)
theory Ustar
  imports Acpi
begin

text \<open>
  \<^verbatim>\<open>src/src/kernel/vfs/ustar.c\<close>: looking files up in an archive in memory. The archive, the boot
  loader's list of modules and the strings are read from memory; \<open>ustar_lit\<close> is the address of the
  literal \<^verbatim>\<open>"ustar"\<close>. \<open>None\<close> stands for a search that does not end.
\<close>

unbundle bit_operations_syntax

section \<open>Data\<close>

abbreviation BLOCK_SIZE :: u64 where "BLOCK_SIZE \<equiv> 512"

text \<open>The fields of an entry that are used, by their offset in the packed structure.\<close>

definition ustar_size :: "u64 \<Rightarrow> u64" where "ustar_size p = p + (100 + 8 + 8 + 8)"

definition ustar_filetype :: "u64 \<Rightarrow> u64" where "ustar_filetype p = p + (100 + 8 + 8 + 8 + 12 + 12 + 8)"

definition ustar_signature :: "u64 \<Rightarrow> u64" where
  "ustar_signature p = p + (100 + 8 + 8 + 8 + 12 + 12 + 8 + 1 + 100)"

datatype ustar_filetype_t =
  USTAR_REGULAR | USTAR_HARDLINK | USTAR_SYMLINK | USTAR_CHAR_DEV | USTAR_BLOCK_DEV | USTAR_DIR | USTAR_PIPE

fun ustar_filetype_val :: "ustar_filetype_t \<Rightarrow> u8" where
  "ustar_filetype_val USTAR_REGULAR = 0x30"
| "ustar_filetype_val USTAR_HARDLINK = 0x31"
| "ustar_filetype_val USTAR_SYMLINK = 0x32"
| "ustar_filetype_val USTAR_CHAR_DEV = 0x33"
| "ustar_filetype_val USTAR_BLOCK_DEV = 0x34"
| "ustar_filetype_val USTAR_DIR = 0x35"
| "ustar_filetype_val USTAR_PIPE = 0x36"

section \<open>Operations\<close>

primrec oct2bin_loop :: "nat \<Rightarrow> mem \<Rightarrow> u64 \<Rightarrow> i32 \<Rightarrow> i32" where
  "oct2bin_loop 0 m c n = n"
| "oct2bin_loop (Suc sz) m c n = oct2bin_loop sz m (c + 1) (n * 8 + (scast (m c) - 48))"

definition oct2bin :: "mem \<Rightarrow> u64 \<Rightarrow> i32 \<Rightarrow> i32" where
  "oct2bin m str sz = oct2bin_loop (nat (sint sz)) m str 0"

text \<open>The modules start 24 bytes into the tag, each with two addresses and a string of 128 bytes.\<close>

definition module_ptr :: "u64 \<Rightarrow> nat \<Rightarrow> u64" where "module_ptr mods i = mods + 24 + (8 + 8 + 128) * of_nat i"

primrec from_module_loop :: "nat \<Rightarrow> nat \<Rightarrow> mem \<Rightarrow> u64 \<Rightarrow> u64 \<Rightarrow> u64 option" where
  "from_module_loop 0 i m mods ustar_name = Some 0"
| "from_module_loop (Suc n) i m mods ustar_name =
     (case strcmp m (module_ptr mods i + 16) ustar_name of
        None \<Rightarrow> None
      | Some r \<Rightarrow> if r = 0 then Some (load64 m (module_ptr mods i)) else from_module_loop n (Suc i) m mods ustar_name)"

definition ustar_from_module :: "mem \<Rightarrow> u64 \<Rightarrow> u64 \<Rightarrow> u64 option" where
  "ustar_from_module m mods ustar_name = from_module_loop (unat (load64 m (mods + 16))) 0 m mods ustar_name"

definition ustar_next :: "u64 \<Rightarrow> u64 \<Rightarrow> u64" where
  "ustar_next ustar_ptr len =
     (let num_blocks = (if len mod BLOCK_SIZE = 0 then len div BLOCK_SIZE else len div BLOCK_SIZE + 1)
      in ustar_ptr + BLOCK_SIZE * (if num_blocks > 0 then num_blocks else 1))"

definition ustar_len :: "mem \<Rightarrow> u64 \<Rightarrow> u64" where
  "ustar_len m ustar_ptr = i32_to_u64 (oct2bin m (ustar_size ustar_ptr) 11)"

partial_function (option) ustar_read_loop ::
  "u64 \<Rightarrow> u64 \<Rightarrow> u64 \<Rightarrow> 'a heap_state_scheme \<Rightarrow> (u64 \<times> 'a heap_state_scheme) option" where
  "ustar_read_loop ustar_lit filename ustar_ptr s =
     (if strncmp (memory s) (ustar_signature ustar_ptr) ustar_lit 5 = 0 then
        (let len = ustar_len (memory s) ustar_ptr
         in case strlen (memory s) ustar_ptr of
              None \<Rightarrow> None
            | Some l \<Rightarrow>
                if strncmp (memory s) ustar_ptr filename (ucast (l + 1)) = 0 then
                  (case kalloc len s of
                     None \<Rightarrow> None
                   | Some (p, s) \<Rightarrow>
                       (let res = p + 1
                        in Some (res, s\<lparr>memory := memmove (memory s) res (ustar_ptr + 512) len\<rparr>)))
                else ustar_read_loop ustar_lit filename (ustar_next ustar_ptr len) s)
      else Some (0, s))"

definition ustar_read ::
  "u64 \<Rightarrow> u64 \<Rightarrow> u64 \<Rightarrow> 'a heap_state_scheme \<Rightarrow> (u64 \<times> 'a heap_state_scheme) option" where
  "ustar_read ustar_lit ustar filename s = ustar_read_loop ustar_lit filename ustar s"

text \<open>
  One entry of the listing: \<^verbatim>\<open>num_results++ > arr_size\<close> compares the old count; the new one is the
  index that is written.
\<close>

definition readdir_add ::
  "u64 \<Rightarrow> u64 \<times> u64 \<times> u64 \<Rightarrow> 'a heap_state_scheme \<Rightarrow> ((u64 \<times> u64 \<times> u64) \<times> 'a heap_state_scheme) option" where
  "readdir_add ustar_ptr t s =
     (let (results, num_results, arr_size) = t
      in do {
        (results, arr_size, s) \<leftarrow>
          (if num_results > arr_size then do {
             (results, s) \<leftarrow> krealloc results (arr_size * 2 * 8) s;
             Some (results, arr_size * 2, s)
           } else Some (results, arr_size, s));
        let num_results = num_results + 1;
        (p, s) \<leftarrow> kalloc 512 s;
        let s = s\<lparr>memory := store64 (memory s) (results + 8 * num_results) p\<rparr>;
        let s = s\<lparr>memory := memmove (memory s) (load64 (memory s) (results + 8 * num_results)) ustar_ptr 512\<rparr>;
        Some ((results, num_results, arr_size), s)
      })"

partial_function (option) readdir_loop ::
  "u64 \<Rightarrow> u64 \<Rightarrow> u64 \<Rightarrow> bool \<Rightarrow> u64 \<times> u64 \<times> u64 \<Rightarrow> 'a heap_state_scheme
    \<Rightarrow> (bool \<times> u64 \<times> 'a heap_state_scheme) option" where
  "readdir_loop ustar_lit dirname ustar_ptr found_dir t s =
     (if strncmp (memory s) (ustar_signature ustar_ptr) ustar_lit 5 = 0 then
        (let len = ustar_len (memory s) ustar_ptr
         in case strlen (memory s) dirname of
              None \<Rightarrow> None
            | Some l \<Rightarrow>
                if strncmp (memory s) ustar_ptr dirname (ucast (l + 1)) = 0 then
                  (if memory s (ustar_filetype ustar_ptr) = ustar_filetype_val USTAR_DIR
                   then readdir_loop ustar_lit dirname (ustar_next ustar_ptr len) True t s
                   else (case readdir_add ustar_ptr t s of
                           None \<Rightarrow> None
                         | Some (t, s) \<Rightarrow> readdir_loop ustar_lit dirname (ustar_next ustar_ptr len) found_dir t s))
                else readdir_loop ustar_lit dirname (ustar_next ustar_ptr len) found_dir t s)
      else Some (found_dir, fst t, s))"

definition ustar_readdir ::
  "u64 \<Rightarrow> u64 \<Rightarrow> u64 \<Rightarrow> 'a heap_state_scheme \<Rightarrow> (u64 \<times> 'a heap_state_scheme) option" where
  "ustar_readdir ustar_lit ustar dirname s = do {
     (results, s) \<leftarrow> kalloc 8 s;
     (found_dir, results, s) \<leftarrow> readdir_loop ustar_lit dirname ustar False (results, 0, 1) s;
     Some (if found_dir then results else 0, s)
   }"

section \<open>The size of a file\<close>

text \<open>The digits of a number in base eight, most significant first, in a field of a fixed width.\<close>

primrec oct_digits :: "nat \<Rightarrow> nat \<Rightarrow> u8 list" where
  "oct_digits 0 n = []"
| "oct_digits (Suc k) n = of_nat (48 + n div 8 ^ k mod 8) # oct_digits k n"

lemma oct_digit: "d < 8 \<Longrightarrow> scast (of_nat (48 + d) :: u8) - 48 = (of_nat d :: i32)"
proof -
  assume "d < 8"
  then have "d \<in> {0, 1, 2, 3, 4, 5, 6, 7}" by auto
  then show ?thesis by auto
qed

lemma oct2bin_loop_digits:
  "bytes_at m c (oct_digits k n) \<Longrightarrow> oct2bin_loop k m c a = a * 8 ^ k + of_nat (n mod 8 ^ k)"
proof (induction k arbitrary: c a)
  case (Suc k)
  have "m c = of_nat (48 + n div 8 ^ k mod 8)" "bytes_at m (c + 1) (oct_digits k n)" using Suc.prems by auto
  then have "oct2bin_loop (Suc k) m c a = (a * 8 + of_nat (n div 8 ^ k mod 8)) * 8 ^ k + of_nat (n mod 8 ^ k)"
    using Suc.IH oct_digit [of "n div 8 ^ k mod 8"] by simp
  also have "n mod 8 ^ Suc k = 8 ^ k * (n div 8 ^ k mod 8) + n mod 8 ^ k"
    using mod_mult2_eq [of n "8 ^ k" 8] by (simp add: mult.commute)
  ultimately show ?case by (simp add: algebra_simps)
qed simp

lemma ustar_len_digits:
  assumes "bytes_at m (ustar_size p) (oct_digits 11 n)" "n < 2 ^ 31"
  shows "ustar_len m p = of_nat n"
proof -
  have "oct2bin m (ustar_size p) 11 = of_nat (n mod 8 ^ 11)"
    using oct2bin_loop_digits [OF assms(1), of 0] by (simp add: oct2bin_def)
  also have "n mod 8 ^ 11 = n" using assms(2) by simp
  finally have "oct2bin m (ustar_size p) 11 = of_nat n" .
  moreover have "nonneg (of_nat n)" using assms(2) by (simp add: nonneg_def)
  ultimately show ?thesis using assms(2) by (simp add: ustar_len_def i32_to_u64_nonneg)
qed

section \<open>Finding a file\<close>

text \<open>An entry of the archive: its signature, its name and the size of its contents.\<close>

definition ustar_header :: "mem \<Rightarrow> u64 \<Rightarrow> u64 \<Rightarrow> u8 list \<Rightarrow> nat \<Rightarrow> bool" where
  "ustar_header m ustar_lit p name n \<longleftrightarrow> strncmp m (ustar_signature p) ustar_lit 5 = 0 \<and> cstr m p name \<and> length name < 100 \<and>
     bytes_at m (ustar_size p) (oct_digits 11 n) \<and> n < 2 ^ 31"

text \<open>The entries \<open>es\<close> lead from \<open>p\<close> to \<open>q\<close> in the steps the code takes.\<close>

fun ustar_steps :: "mem \<Rightarrow> u64 \<Rightarrow> u64 \<Rightarrow> (u8 list \<times> nat) list \<Rightarrow> u64 \<Rightarrow> bool" where
  "ustar_steps m ustar_lit p [] q \<longleftrightarrow> q = p"
| "ustar_steps m ustar_lit p ((name, n) # es) q \<longleftrightarrow>
     ustar_header m ustar_lit p name n \<and> ustar_steps m ustar_lit (ustar_next p (of_nat n)) es q"

lemma take_Suc_length_eq: "take (Suc (length xs)) ys = xs \<longleftrightarrow> ys = xs"
proof
  assume *: "take (Suc (length xs)) ys = xs"
  then have "length (take (Suc (length xs)) ys) = length xs" by simp
  then have "length ys \<le> length xs" by simp
  with * show "ys = xs" by simp
qed simp

lemma header_name_eq:
  assumes "ustar_header m ustar_lit p name n" "cstr m f fname"
  shows "\<exists>l. strlen m p = Some l \<and> (strncmp m p f (ucast (l + 1)) = 0 \<longleftrightarrow> name = fname)"
proof -
  have l: "strlen m p = Some (of_nat (length name))" and len: "length name < 100" and name: "cstr m p name"
    using assms(1) by (simp_all add: ustar_header_def strlen_cstr)
  have "unat (ucast (of_nat (length name) + 1 :: u32) :: u64) = Suc (length name)"
    using len by (simp add: unsigned_ucast_eq take_bit_nat_eq_self unat_word_ariths)
  then have "strncmp m p f (ucast (of_nat (length name) + 1 :: u32)) = 0 \<longleftrightarrow> take (Suc (length name)) name = take (Suc (length name)) fname"
    using strncmp_loop_cstr [OF name assms(2), of "Suc (length name)"] by (simp add: strncmp_def)
  then show ?thesis using l take_Suc_length_eq [of name fname] by auto
qed

lemma ustar_read_loop_skip:
  assumes "cstr (memory s) f fname"
  shows "ustar_steps (memory s) ustar_lit p es q \<Longrightarrow> fname \<notin> fst ` set es
    \<Longrightarrow> ustar_read_loop ustar_lit f p s = ustar_read_loop ustar_lit f q s"
proof (induction es arbitrary: p)
  case (Cons e es)
  obtain name n where e: "e = (name, n)" by (cases e)
  have h: "ustar_header (memory s) ustar_lit p name n" using Cons.prems(1) e by simp
  obtain l where l: "strlen (memory s) p = Some l" "strncmp (memory s) p f (ucast (l + 1)) \<noteq> 0"
    using header_name_eq [OF h assms] Cons.prems(2) e by auto
  have "ustar_len (memory s) p = of_nat n" using h by (simp add: ustar_header_def ustar_len_digits)
  then have "ustar_read_loop ustar_lit f p s = ustar_read_loop ustar_lit f (ustar_next p (of_nat n)) s"
    using h l by (subst ustar_read_loop.simps) (simp add: ustar_header_def Let_def)
  then show ?case using Cons e by simp
qed simp

lemma ustar_read_loop_found:
  assumes "cstr (memory s) f fname" "ustar_header (memory s) ustar_lit q fname n" "kalloc (of_nat n) s = Some (k, s')"
  shows "ustar_read_loop ustar_lit f q s
    = Some (k + 1, s'\<lparr>memory := memmove (memory s') (k + 1) (q + 512) (of_nat n)\<rparr>)"
proof -
  obtain l where l: "strlen (memory s) q = Some l" "strncmp (memory s) q f (ucast (l + 1)) = 0"
    using header_name_eq [OF assms(2,1)] by auto
  have "ustar_len (memory s) q = of_nat n" using assms(2) by (simp add: ustar_header_def ustar_len_digits)
  then show ?thesis using assms(2,3) l by (subst ustar_read_loop.simps) (simp add: ustar_header_def Let_def)
qed

text \<open>
  The step of the search is one block short: after a file with contents it lands on the last block of the
  contents, not on the next header.
\<close>

lemma round_up_512: "(n + 511) div 512 = (if n mod 512 = 0 then n div 512 else n div (512 :: nat) + 1)"
proof -
  define q r where "q = n div 512" and "r = n mod 512"
  have e: "n = 512 * q + r" "r < 512" by (simp_all add: q_def r_def)
  have "(n + 511) div 512 = q" if "r = 0" using e that by (intro div_nat_eqI) auto
  moreover have "(n + 511) div 512 = q + 1" if "r \<noteq> 0" using e that by (intro div_nat_eqI) auto
  ultimately show ?thesis by (simp flip: q_def r_def)
qed

lemma ustar_next_short:
  assumes "0 < unat len" "unat len < 2 ^ 31"
  shows "unat (ustar_next p len - p) = 512 * ((unat len + 511) div 512)"
proof -
  have u: "unat (len mod 512) = unat len mod 512" "unat (len div 512) = unat len div 512"
    by (simp_all only: unat_mod unat_div) simp_all
  have small: "unat len div 512 < 2 ^ 31" using assms(2) by (rule le_less_trans [OF div_le_dividend])
  have d: "unat (512 * w) = 512 * unat w" if "unat w \<le> 2 ^ 31" for w :: u64
    using that by (simp add: unat_word_ariths)
  show ?thesis
  proof (cases "unat len mod 512 = 0")
    case True
    then have "len mod 512 = 0" unfolding word_unat_eq_iff u by simp
    moreover have "0 < unat len div 512" using True assms(1) by (auto simp: div_greater_zero_iff elim!: dvdE)
    then have "0 < len div 512" unfolding word_less_nat_alt u by simp
    moreover have "unat (512 * (len div 512)) = 512 * (unat len div 512)" using d [of "len div 512"] small unfolding u by simp
    ultimately show ?thesis unfolding round_up_512 using True by (simp add: ustar_next_def Let_def)
  next
    case False
    then have "len mod 512 \<noteq> 0" unfolding word_unat_eq_iff u by simp
    moreover have u1: "unat (len div 512 + 1) = unat len div 512 + 1"
      using small unfolding unat_plus_if' u by simp
    then have "0 < len div 512 + 1" unfolding word_less_nat_alt u1 by simp
    moreover have "unat (512 * (len div 512 + 1)) = 512 * (unat len div 512 + 1)"
      using d [of "len div 512 + 1"] small unfolding u1 by simp
    ultimately show ?thesis unfolding round_up_512 using False by (simp add: ustar_next_def Let_def)
  qed
qed

lemma ustar_read_missing:
  assumes "cstr (memory s) f fname" "ustar_steps (memory s) ustar_lit p es q" "fname \<notin> fst ` set es"
    and "strncmp (memory s) (ustar_signature q) ustar_lit 5 \<noteq> 0"
  shows "ustar_read ustar_lit p f s = Some (0, s)"
  using ustar_read_loop_skip [OF assms(1-3)] assms(4) by (simp add: ustar_read_def ustar_read_loop.simps)


text \<open>An archive of an empty directory d and a file a of three bytes, above a heap of 64 bytes.\<close>

definition demo_ustar_mem :: mem where
  "demo_ustar_mem x = (case map_of
     [(0x1000, 9), (0x100C, 9), (0x1010, 40), (0x103C, 40), (0x3000, 100), (0x3200, 97), (0x6000, 97),
      (0x307C, 48), (0x307D, 48), (0x307E, 48), (0x307F, 48), (0x3080, 48), (0x3081, 48), (0x3082, 48), (0x3083, 48),
      (0x3084, 48), (0x3085, 48), (0x3086, 48), (0x3101, 117), (0x3102, 115), (0x3103, 116), (0x3104, 97), (0x3105, 114),
      (0x327C, 48), (0x327D, 48), (0x327E, 48), (0x327F, 48), (0x3280, 48), (0x3281, 48), (0x3282, 48), (0x3283, 48),
      (0x3284, 48), (0x3285, 48), (0x3286, 51), (0x3301, 117), (0x3302, 115), (0x3303, 116), (0x3304, 97), (0x3305, 114),
      (0x3400, 1), (0x3401, 2), (0x3402, 3), (0x5000, 117), (0x5001, 115), (0x5002, 116), (0x5003, 97), (0x5004, 114)] x of
       Some b \<Rightarrow> b | None \<Rightarrow> 0)"

definition demo_ustar :: heap_state where
  "demo_ustar = demo_heap\<lparr>memory := demo_ustar_mem\<rparr>"

lemma oct_digits_numeral:
  "oct_digits (numeral k) n = of_nat (48 + n div 8 ^ pred_numeral k mod 8) # oct_digits (pred_numeral k) n"
  by (simp only: numeral_eq_Suc [of k] oct_digits.simps)

lemma demo_ustar_headers:
  "ustar_header demo_ustar_mem 0x5000 0x3000 [100] 0" "ustar_header demo_ustar_mem 0x5000 0x3200 [97] 3"
  by (simp_all add: ustar_header_def demo_ustar_mem_def ustar_signature_def ustar_size_def strncmp_def
      strncmp_loop_numeral oct_digits_numeral)

lemma demo_ustar_inv: "heap_inv demo_ustar [(8, True), (40, False)]"
  by (simp add: heap_inv_def demo_ustar_def demo_heap_def tagw_def load32_def load_le_numeral demo_ustar_mem_def)


end
