(* ===== verification/Boot.thy ===== *)
theory Boot
  imports Proc Ustar
begin

text \<open>
  \<^verbatim>\<open>src/src/kernel/kernel.c\<close> and the structures of \<^verbatim>\<open>stivale2.h\<close> it uses: the tags the kernel asks
  the boot loader for, the search of the tags it gets back, and the start of the kernel, which composes
  the components of the other theories. Addresses of static objects and literals, the contents of
  uninitialised variables and what the hardware answers are the fields of \<open>boot_env\<close>. \<open>None\<close>
  stands for a start that does not get to its end.
\<close>

unbundle bit_operations_syntax

section \<open>Tags\<close>

record stivale2_tag =
  tag_identifier :: u64
  tag_next :: u64

definition read_tag :: "mem \<Rightarrow> u64 \<Rightarrow> stivale2_tag" where
  "read_tag m p = \<lparr>tag_identifier = load64 m p, tag_next = load64 m (p + 8)\<rparr>"

definition STIVALE2_HEADER_TAG_FRAMEBUFFER_ID :: u64 where "STIVALE2_HEADER_TAG_FRAMEBUFFER_ID = 0x3ecc1bc43d0f7971"

definition STIVALE2_HEADER_TAG_TERMINAL_ID :: u64 where "STIVALE2_HEADER_TAG_TERMINAL_ID = 0xa85d499b1823be72"

definition STIVALE2_HEADER_TAG_SMP_ID :: u64 where "STIVALE2_HEADER_TAG_SMP_ID = 0x1ab015085f3273df"

definition STIVALE2_STRUCT_TAG_PMRS_ID :: u64 where "STIVALE2_STRUCT_TAG_PMRS_ID = 0x5df266a64047b6bd"

definition STIVALE2_STRUCT_TAG_KERNEL_BASE_ADDRESS_ID :: u64 where
  "STIVALE2_STRUCT_TAG_KERNEL_BASE_ADDRESS_ID = 0x060d78874a2a8af0"

definition STIVALE2_STRUCT_TAG_MEMMAP_ID :: u64 where "STIVALE2_STRUCT_TAG_MEMMAP_ID = 0x2187f79e8612de07"

definition STIVALE2_STRUCT_TAG_FRAMEBUFFER_ID :: u64 where "STIVALE2_STRUCT_TAG_FRAMEBUFFER_ID = 0x506461d2950408fa"

definition STIVALE2_STRUCT_TAG_MODULES_ID :: u64 where "STIVALE2_STRUCT_TAG_MODULES_ID = 0x4b6fe466aade04ce"

definition STIVALE2_STRUCT_TAG_RSDP_ID :: u64 where "STIVALE2_STRUCT_TAG_RSDP_ID = 0x9e1786930a375e78"

definition STIVALE2_STRUCT_TAG_SMP_ID :: u64 where "STIVALE2_STRUCT_TAG_SMP_ID = 0x34d1d96339647025"

text \<open>The list of tags in the structure of the boot loader starts after two strings of 64 bytes.\<close>

partial_function (option) get_tag_loop :: "mem \<Rightarrow> u64 \<Rightarrow> u64 \<Rightarrow> u64 option" where
  "get_tag_loop m current_tag tag_id =
     (if current_tag = 0 then Some 0
      else if tag_identifier (read_tag m current_tag) = tag_id then Some current_tag
      else get_tag_loop m (tag_next (read_tag m current_tag)) tag_id)"

definition stivale2_get_tag :: "mem \<Rightarrow> u64 \<Rightarrow> u64 \<Rightarrow> u64 option" where
  "stivale2_get_tag m stivale2_struct tag_id = get_tag_loop m (load64 m (stivale2_struct + 128)) tag_id"

section \<open>The header\<close>

record hdr_syms =
  terminal_hdr_addr :: u64
  smp_hdr_addr :: u64
  framebuffer_hdr_addr :: u64
  framebuffer_tag_addr :: u64
  base_addr_addr :: u64
  pmr_addr :: u64
  modules_addr :: u64
  rsdp_addr :: u64
  stack_addr :: u64

definition terminal_hdr_tag :: "hdr_syms \<Rightarrow> stivale2_tag" where
  "terminal_hdr_tag y = \<lparr>tag_identifier = STIVALE2_HEADER_TAG_TERMINAL_ID, tag_next = 0\<rparr>"

definition smp_hdr_tag :: "hdr_syms \<Rightarrow> stivale2_tag" where
  "smp_hdr_tag y = \<lparr>tag_identifier = STIVALE2_HEADER_TAG_SMP_ID, tag_next = terminal_hdr_addr y\<rparr>"

record stivale2_header_tag_framebuffer =
  fb_hdr_tag :: stivale2_tag
  fb_hdr_width :: u16
  fb_hdr_height :: u16
  fb_hdr_bpp :: u16

definition framebuffer_hdr_tag :: "hdr_syms \<Rightarrow> stivale2_header_tag_framebuffer" where
  "framebuffer_hdr_tag y =
     \<lparr>fb_hdr_tag = \<lparr>tag_identifier = STIVALE2_HEADER_TAG_FRAMEBUFFER_ID, tag_next = smp_hdr_addr y\<rparr>,
      fb_hdr_width = 1920, fb_hdr_height = 1080, fb_hdr_bpp = 16\<rparr>"

definition framebuffer_tag :: "hdr_syms \<Rightarrow> stivale2_tag" where
  "framebuffer_tag y = \<lparr>tag_identifier = STIVALE2_STRUCT_TAG_FRAMEBUFFER_ID, tag_next = framebuffer_hdr_addr y\<rparr>"

definition base_addr_tag :: "hdr_syms \<Rightarrow> stivale2_tag" where
  "base_addr_tag y = \<lparr>tag_identifier = STIVALE2_STRUCT_TAG_KERNEL_BASE_ADDRESS_ID, tag_next = framebuffer_tag_addr y\<rparr>"

definition pmr_tag :: "hdr_syms \<Rightarrow> stivale2_tag" where
  "pmr_tag y = \<lparr>tag_identifier = STIVALE2_STRUCT_TAG_PMRS_ID, tag_next = base_addr_addr y\<rparr>"

definition modules_tag :: "hdr_syms \<Rightarrow> stivale2_tag" where
  "modules_tag y = \<lparr>tag_identifier = STIVALE2_STRUCT_TAG_MODULES_ID, tag_next = pmr_addr y\<rparr>"

definition rsdp_tag :: "hdr_syms \<Rightarrow> stivale2_tag" where
  "rsdp_tag y = \<lparr>tag_identifier = STIVALE2_STRUCT_TAG_RSDP_ID, tag_next = modules_addr y\<rparr>"

record stivale2_header =
  hdr_entry_point :: u64
  hdr_stack :: u64
  hdr_flags :: u64
  hdr_tags :: u64

definition stivale_hdr :: "hdr_syms \<Rightarrow> stivale2_header" where
  "stivale_hdr y = \<lparr>hdr_entry_point = 0, hdr_stack = stack_addr y + 8192,
     hdr_flags = push_bit 1 1 OR push_bit 2 1 OR push_bit 3 1 OR push_bit 4 1, hdr_tags = rsdp_addr y\<rparr>"

section \<open>The structures the boot loader fills in\<close>

definition read_framebuffer :: "mem \<Rightarrow> u64 \<Rightarrow> stivale2_struct_tag_framebuffer" where
  "read_framebuffer m p =
     \<lparr>framebuffer_addr = load64 m (p + 16), framebuffer_width = load16 m (p + 24), framebuffer_height = load16 m (p + 26),
      framebuffer_pitch = load16 m (p + 28), framebuffer_bpp = load16 m (p + 30), memory_model = m (p + 32),
      red_mask_size = m (p + 33), red_mask_shift = m (p + 34), green_mask_size = m (p + 35), green_mask_shift = m (p + 36),
      blue_mask_size = m (p + 37), blue_mask_shift = m (p + 38)\<rparr>"

definition read_mmap_entry :: "mem \<Rightarrow> u64 \<Rightarrow> stivale2_mmap_entry" where
  "read_mmap_entry m p = \<lparr>me_base = load64 m p, me_length = load64 m (p + 8), me_type = load32 m (p + 16)\<rparr>"

definition read_memmap :: "mem \<Rightarrow> u64 \<Rightarrow> memmap_tag" where
  "read_memmap m p = map (\<lambda>i. read_mmap_entry m (p + 24 + 24 * of_nat i)) [0..<unat (load64 m (p + 16))]"

definition read_pmr :: "mem \<Rightarrow> u64 \<Rightarrow> stivale2_pmr" where
  "read_pmr m p = \<lparr>pmr_base = load64 m p, pmr_length = load64 m (p + 8), pmr_permissions = load64 m (p + 16)\<rparr>"

definition read_pmrs :: "mem \<Rightarrow> u64 \<Rightarrow> pmrs_tag" where
  "read_pmrs m p = map (\<lambda>i. read_pmr m (p + 24 + 24 * of_nat i)) [0..<unat (load64 m (p + 16))]"

definition read_base_address :: "mem \<Rightarrow> u64 \<Rightarrow> stivale2_struct_tag_kernel_base_address" where
  "read_base_address m p = \<lparr>physical_base_address = load64 m (p + 16), virtual_base_address = load64 m (p + 24)\<rparr>"

definition read_smp_info :: "mem \<Rightarrow> u64 \<Rightarrow> stivale2_smp_info" where
  "read_smp_info m p = \<lparr>smp_processor_id = load32 m p, smp_lapic_id = load32 m (p + 4), target_stack = load64 m (p + 8),
     goto_address = load64 m (p + 16), extra_argument = load64 m (p + 24)\<rparr>"

definition read_smp :: "mem \<Rightarrow> u64 \<Rightarrow> stivale2_smp_info list" where
  "read_smp m p = map (\<lambda>i. read_smp_info m (p + 40 + 32 * of_nat i)) [0..<unat (load64 m (p + 32))]"

text \<open>Starting the processors writes the stack and the address to jump to into their records.\<close>

primrec write_smp :: "stivale2_smp_info list \<Rightarrow> u64 \<Rightarrow> mem \<Rightarrow> mem" where
  "write_smp [] p m = m"
| "write_smp (c # cs) p m = write_smp cs (p + 32) (store64 (store64 m (p + 8) (target_stack c)) (p + 16) (goto_address c))"

section \<open>The start of the kernel\<close>

record boot_env =
  env_gdt :: gdt_syms
  env_idt :: idt_syms
  env_stack :: u64
  env_back_buffer :: u64
  env_beyond_font :: "int \<Rightarrow> u8"
  env_redirection :: "i32 \<Rightarrow> ioredtbl_t"
  env_lvt :: lvt_entry_t
  env_counts :: "u32 \<times> u32 \<times> u32"
  env_ap_entry :: u64
  env_apic_str :: u64
  env_initrd_str :: u64
  env_fetch_str :: u64
  env_ustar_str :: u64
  env_elf_magic :: u64
  env_prompt :: u64
  env_fetch :: u64
  env_pcb :: pcb_t

definition from_sum :: "fault + 'b \<Rightarrow> 'b option" where
  "from_sum r = (case r of Inl e \<Rightarrow> None | Inr x \<Rightarrow> Some x)"

text \<open>Lines 184 to 229: the tables of the processor, memory, and the other processors.\<close>

definition start_machine :: "boot_env \<Rightarrow> u64 \<Rightarrow> 'a int_state_scheme \<Rightarrow> (u64 \<times> 'a int_state_scheme) option" where
  "start_machine e stivale2_struct s = do {
     let s = s\<lparr>interrupts_enabled := False\<rparr>;
     mods \<leftarrow> stivale2_get_tag (memory s) stivale2_struct STIVALE2_STRUCT_TAG_MODULES_ID;
     fb \<leftarrow> stivale2_get_tag (memory s) stivale2_struct STIVALE2_STRUCT_TAG_FRAMEBUFFER_ID;
     memmap \<leftarrow> stivale2_get_tag (memory s) stivale2_struct STIVALE2_STRUCT_TAG_MEMMAP_ID;
     kern_base_addr \<leftarrow> stivale2_get_tag (memory s) stivale2_struct STIVALE2_STRUCT_TAG_KERNEL_BASE_ADDRESS_ID;
     pmrs \<leftarrow> stivale2_get_tag (memory s) stivale2_struct STIVALE2_STRUCT_TAG_PMRS_ID;
     rsdp \<leftarrow> stivale2_get_tag (memory s) stivale2_struct STIVALE2_STRUCT_TAG_RSDP_ID;
     smp_info \<leftarrow> stivale2_get_tag (memory s) stivale2_struct STIVALE2_STRUCT_TAG_SMP_ID;
     let s = InitGraphicsCtx (env_back_buffer e) (read_framebuffer (memory s) fb) s;
     (_, s) \<leftarrow> InitPmm (read_memmap (memory s) memmap) s;
     let (_, s) = InitAcpi (load64 (memory s) (rsdp + 16)) s;
     s \<leftarrow> ParseMadt (env_redirection e) (env_apic_str e) s;
     (_, s) \<leftarrow> InitPageTable (read_memmap (memory s) memmap) (read_base_address (memory s) kern_base_addr)
                 (read_pmrs (memory s) pmrs) s;
     s \<leftarrow> from_sum (InitializeIdt (env_idt e) s);
     s \<leftarrow> init_heap 0x20000 s;
     s \<leftarrow> enable_lapic (env_lvt e) s;
     s \<leftarrow> initialize_gdt (env_gdt e) (env_stack e + 8192) s;
     let s = unmask_irq 2 s;
     (cpus, s) \<leftarrow> startup_aps (env_ap_entry e) (env_lvt e) (env_counts e) (load32 (memory s) (smp_info + 24))
                    (read_smp (memory s) smp_info) s;
     let s = s\<lparr>memory := write_smp cpus (smp_info + 40) (memory s)\<rparr>;
     Some (mods, mask_irq 2 s)
   }"

text \<open>Lines 231 to 240: the first program. Without the archive the pointer to it is not initialised.\<close>

definition start_program :: "boot_env \<Rightarrow> u64 \<Rightarrow> 'a int_state_scheme \<Rightarrow> (pcb_t \<times> 'a int_state_scheme) option" where
  "start_program e mods s = do {
     initrd \<leftarrow> ustar_from_module (memory s) mods (env_initrd_str e);
     (fetch, s) \<leftarrow> (if initrd \<noteq> 0 then ustar_read (env_ustar_str e) initrd (env_fetch_str e) s else Some (env_fetch e, s));
     let s = s\<lparr>interrupts_enabled := True\<rparr>;
     (_, pcb, s) \<leftarrow> parse_elf (env_elf_magic e) fetch (env_pcb e) s;
     Some (pcb, s)
   }"

text \<open>Lines 250 to 277: the terminal. The keyboard is unmasked before its consumer is set.\<close>

definition start_terminal :: "boot_env \<Rightarrow> 'a int_state_scheme \<Rightarrow> 'a int_state_scheme option" where
  "start_terminal e s = do {
     let fb = fb (GLOBAL_CTX s);
     let font_obj = (InitGnuFont (env_beyond_font e) \<lparr>red = 255, green = 255, blue = 255\<rparr> \<lparr>dim_width = 9, dim_height = 16\<rparr>)
           \<lparr>font_rgb := \<lparr>red = 255, green = 0, blue = 0\<rparr>\<rparr>;
     let s = ClearScreen \<lparr>red = 0, green = 0, blue = 0\<rparr> s;
     (t, s) \<leftarrow> InitTerminal \<lparr>dim_width = framebuffer_width fb, dim_height = framebuffer_height fb div 2\<rparr>
                 \<lparr>coord_x = 0, coord_y = 0\<rparr> font_obj \<lparr>red = 15, green = 90, blue = 94\<rparr> \<lparr>red = 255, green = 255, blue = 255\<rparr> 3
                 (env_prompt e) s;
     let s = s\<lparr>terminals := (terminals s)(Kernel_term := t)\<rparr>;
     let s = WriteBack s;
     let s = unmask_irq 1 s;
     let s = SetKeystrokeConsumer (Some Handle_key_stroke) s;
     Some (s\<lparr>interrupts_enabled := True\<rparr>)
   }"

definition start_kernel :: "boot_env \<Rightarrow> u64 \<Rightarrow> 'a int_state_scheme \<Rightarrow> 'a int_state_scheme option" where
  "start_kernel e stivale2_struct s = do {
     (mods, s) \<leftarrow> start_machine e stivale2_struct s;
     (fetch_pcb, s) \<leftarrow> start_program e mods s;
     start_terminal e s
   }"

section \<open>The search of a tag\<close>

text \<open>The tags \<open>ts\<close>, as pairs of address and identifier, are linked from \<open>p\<close> on and end with a null pointer.\<close>

fun tag_list :: "mem \<Rightarrow> u64 \<Rightarrow> (u64 \<times> u64) list \<Rightarrow> bool" where
  "tag_list m p [] \<longleftrightarrow> p = 0"
| "tag_list m p ((a, i) # ts) \<longleftrightarrow> p = a \<and> a \<noteq> 0 \<and> tag_identifier (read_tag m a) = i \<and> tag_list m (tag_next (read_tag m a)) ts"

lemma get_tag_loop_list:
  "tag_list m p ts \<Longrightarrow> get_tag_loop m p tag_id = Some (case find (\<lambda>(a, i). i = tag_id) ts of None \<Rightarrow> 0 | Some (a, _) \<Rightarrow> a)"
proof (induction ts arbitrary: p)
  case Nil
  then show ?case by (subst get_tag_loop.simps) simp
next
  case (Cons t ts)
  then show ?case by (subst get_tag_loop.simps, cases t) auto
qed

text \<open>The search does not end on a list that is closed to a ring and holds no tag of the identifier.\<close>

lemma get_tag_loop_ring:
  assumes "p \<noteq> 0" "tag_next (read_tag m p) = p" "tag_identifier (read_tag m p) \<noteq> tag_id"
  shows "get_tag_loop m p tag_id = None"
proof -
  have False if "get_tag_loop m q tag_id = Some r" "q = p" for q r
  proof -
    let ?P = "\<lambda>(n :: mem) (q :: u64) (j :: u64) (r :: u64). n = m \<and> j = tag_id \<longrightarrow> q \<noteq> p"
    have "?P m q tag_id r"
    proof (rule get_tag_loop.raw_induct [OF _ that(1), where P = ?P], goal_cases)
      case (1 search n q j r)
      show ?case
      proof (intro impI notI)
        assume e: "n = m \<and> j = tag_id" "q = p"
        with 1(2) assms have "search n p j = Some r" by simp
        with 1(1) e show False by blast
      qed
    qed
    with that(2) show False by simp
  qed
  then show ?thesis by (cases "get_tag_loop m p tag_id") auto
qed

lemma tag_list_nonzero: "tag_list m p ts \<Longrightarrow> 0 \<notin> fst ` set ts"
  by (induction m p ts rule: tag_list.induct) auto

lemma find_first:
  "case find (\<lambda>(a, i). i = tag_id) ts of
     None \<Rightarrow> tag_id \<notin> snd ` set ts
   | Some (a, i) \<Rightarrow> i = tag_id \<and> (\<exists>as bs. ts = as @ (a, tag_id) # bs \<and> tag_id \<notin> snd ` set as)"
proof (induction ts)
  case (Cons t ts)
  obtain a i where t: "t = (a, i)" by (cases t)
  show ?case
  proof (cases "i = tag_id")
    case True
    then have "\<exists>as bs. t # ts = as @ (a, tag_id) # bs \<and> tag_id \<notin> snd ` set as"
      using t by (intro exI [of _ "[]"] exI [of _ ts]) simp
    then show ?thesis using True t by simp
  next
    case False
    have "\<exists>as' bs. t # ts = as' @ (b, tag_id) # bs \<and> tag_id \<notin> snd ` set as'"
      if "ts = as @ (b, tag_id) # bs" "tag_id \<notin> snd ` set as" for as b bs
      using that False t by (intro exI [of _ "t # as"] exI [of _ bs]) auto
    then show ?thesis using Cons.IH False t by (cases "find (\<lambda>(a, i). i = tag_id) ts") (simp, fastforce)
  qed
qed simp

text \<open>C19. \<^verbatim>\<open>stivale2_get_tag\<close> on a list of tags that ends with a null pointer: it returns, with the first tag of the
  identifier asked for, and NULL exactly when there is none.\<close>

theorem stivale2_get_tag_correct:
  assumes "tag_list m (load64 m (stivale2_struct + 128)) ts"
  shows "\<exists>p. stivale2_get_tag m stivale2_struct tag_id = Some p \<and> (p = 0 \<longleftrightarrow> tag_id \<notin> snd ` set ts) \<and>
    (p \<noteq> 0 \<longrightarrow> (\<exists>as bs. ts = as @ (p, tag_id) # bs \<and> tag_id \<notin> snd ` set as))"
proof (cases "find (\<lambda>(a, i). i = tag_id) ts")
  case None
  then show ?thesis using get_tag_loop_list [OF assms, of tag_id] find_first [of tag_id ts] by (simp add: stivale2_get_tag_def)
next
  case (Some r)
  obtain a i where r: "r = (a, i)" by (cases r)
  then obtain as bs where ts: "ts = as @ (a, tag_id) # bs" "tag_id \<notin> snd ` set as"
    using find_first [of tag_id ts] Some by auto
  moreover have "a \<noteq> 0" using tag_list_nonzero [OF assms] ts(1) by auto
  moreover have "stivale2_get_tag m stivale2_struct tag_id = Some a"
    using get_tag_loop_list [OF assms, of tag_id] Some r by (simp add: stivale2_get_tag_def)
  ultimately show ?thesis by auto
qed

text \<open>The list the header of the kernel starts: it ends, and the boot loader finds the three requests in it.\<close>

definition kernel_tags :: "hdr_syms \<Rightarrow> (u64 \<times> stivale2_tag) list" where
  "kernel_tags y = [(rsdp_addr y, rsdp_tag y), (modules_addr y, modules_tag y), (pmr_addr y, pmr_tag y),
     (base_addr_addr y, base_addr_tag y), (framebuffer_tag_addr y, framebuffer_tag y),
     (framebuffer_hdr_addr y, fb_hdr_tag (framebuffer_hdr_tag y)), (smp_hdr_addr y, smp_hdr_tag y),
     (terminal_hdr_addr y, terminal_hdr_tag y)]"

lemma kernel_header_list:
  assumes "\<forall>(a, t) \<in> set (kernel_tags y). read_tag m a = t \<and> a \<noteq> 0"
  shows "tag_list m (hdr_tags (stivale_hdr y)) (map (\<lambda>(a, t). (a, tag_identifier t)) (kernel_tags y))"
  using assms
  by (simp add: kernel_tags_def stivale_hdr_def rsdp_tag_def modules_tag_def pmr_tag_def base_addr_tag_def framebuffer_tag_def
      framebuffer_hdr_tag_def smp_hdr_tag_def terminal_hdr_tag_def)

definition demo_boot_mem :: mem where
  "demo_boot_mem = store64 (store64 (store64 (store64 (store64 (\<lambda>_. 0) 0x1080 0x2000) 0x2000 STIVALE2_STRUCT_TAG_RSDP_ID)
     0x2008 0x3000) 0x3000 STIVALE2_STRUCT_TAG_MEMMAP_ID) 0x3008 0"

lemma demo_boot_list:
  "tag_list demo_boot_mem (load64 demo_boot_mem (0x1000 + 128))
     [(0x2000, STIVALE2_STRUCT_TAG_RSDP_ID), (0x3000, STIVALE2_STRUCT_TAG_MEMMAP_ID)]"
proof -
  have d: "disjoint a 8 b 8" if "unat a + 8 \<le> unat b \<or> unat b + 8 \<le> unat a" "unat a < 0x10000" "unat b < 0x10000" for a b :: u64
    using that by (intro disjoint_nowrap) simp_all
  show ?thesis
    by (simp add: demo_boot_mem_def read_tag_def c64.load_store c64.load_store_disjoint d)
qed

theorem stivale2_get_tag_correct_witness:
  "\<exists>p. stivale2_get_tag demo_boot_mem 0x1000 STIVALE2_STRUCT_TAG_MEMMAP_ID = Some p \<and> p \<noteq> 0 \<and>
     stivale2_get_tag demo_boot_mem 0x1000 STIVALE2_STRUCT_TAG_SMP_ID = Some 0"
  using stivale2_get_tag_correct [OF demo_boot_list, of STIVALE2_STRUCT_TAG_MEMMAP_ID]
    stivale2_get_tag_correct [OF demo_boot_list, of STIVALE2_STRUCT_TAG_SMP_ID]
  by (auto simp: STIVALE2_STRUCT_TAG_MEMMAP_ID_def STIVALE2_STRUCT_TAG_SMP_ID_def STIVALE2_STRUCT_TAG_RSDP_ID_def)

section \<open>The state the kernel runs in\<close>

lemma terminals_unmask_irq [simp]:
  fixes s :: "'a term_state_scheme"
  shows "terminals (unmask_irq i s) = terminals s"
  by (simp add: unmask_irq_def ioapic_set_gsi_mask_def ioapic_read_entry_def ioapic_write_entry_def ioapic_read_def ioapic_write_def
     write_ioregsel_def write_iowin_def Let_def split: option.splits)

lemma start_terminal_inv:
  assumes ret: "start_terminal e s = Some s'"
    and w: "9 \<le> unat (framebuffer_width (fb (GLOBAL_CTX s)))" "unat (framebuffer_width (fb (GLOBAL_CTX s))) + 9 < 2 ^ 16"
    and h: "44 \<le> unat (framebuffer_height (fb (GLOBAL_CTX s)))"
  shows "term_inv (main_term s') \<and> KEYSTROKE_CONSUMER s' = Some Handle_key_stroke \<and> interrupts_enabled s'"
proof -
  let ?f = "fb (GLOBAL_CTX s)" 
  let ?font = "(InitGnuFont (env_beyond_font e) \<lparr>red = 255, green = 255, blue = 255\<rparr> \<lparr>dim_width = 9, dim_height = 16\<rparr>)
           \<lparr>font_rgb := \<lparr>red = 255, green = 0, blue = 0\<rparr>\<rparr>"
  from ret obtain t s1 where i: "InitTerminal \<lparr>dim_width = framebuffer_width ?f, dim_height = framebuffer_height ?f div 2\<rparr>
      \<lparr>coord_x = 0, coord_y = 0\<rparr> ?font \<lparr>red = 15, green = 90, blue = 94\<rparr> \<lparr>red = 255, green = 255, blue = 255\<rparr> 3
      (env_prompt e) (ClearScreen \<lparr>red = 0, green = 0, blue = 0\<rparr> s) = Some (t, s1)"
    and s': "s' = (SetKeystrokeConsumer (Some Handle_key_stroke) (unmask_irq 1 (WriteBack
      (s1\<lparr>terminals := (terminals s1)(Kernel_term := t)\<rparr>))))\<lparr>interrupts_enabled := True\<rparr>"
    by (auto simp: start_terminal_def bind_eq_Some_conv Let_def)
  have "22 \<le> unat (framebuffer_height ?f div 2)" using h by (simp add: unat_div_distrib)
  then have "term_inv (main_term s1)"
    by (intro InitTerminal_inv(2) [OF _ _ _ _ _ _ i]) (use w in \<open>simp_all add: InitGnuFont_def InitFont_def\<close>)
  then show ?thesis unfolding s' by (simp add: SetKeystrokeConsumer_def)
qed

end
