(* ===== verification/Page_Map.thy ===== *)
theory Page_Map
  imports Vmm
begin

text \<open>
  The page map of \<open>Vmm\<close> as a whole. Memory that is not part of a map can be written without changing it; a map with a
  fresh root is empty; ranges of pages that are mapped one after the other act as overlays, of which the last one counts. With
  these the start of the page tables, \<^verbatim>\<open>InitPageTable\<close> and \<^verbatim>\<open>MapKernelPmrs\<close>, is a list of ranges.
\<close>

unbundle bit_operations_syntax

section \<open>Writes outside the page map\<close>

text \<open>Two states with the same page map: they differ only in memory that is not part of it.\<close>

definition same_managed :: "u64 \<Rightarrow> 'a pmm_state_scheme \<Rightarrow> 'a pmm_state_scheme \<Rightarrow> bool" where
  "same_managed root s s' \<longleftrightarrow> PHYS_MEMORY_MAP s' = PHYS_MEMORY_MAP s
     \<and> (\<forall>x. managed s root x \<longrightarrow> memory s' x = memory s x)"

lemma table_byte_managed:
  assumes ok: "tables_ok s root" and "path_ok p" "table_at s root p = Some t" "i < 512" "in_range x (entry_ptr t i) 8"
  shows "managed s root x"
proof -
  obtain k where k: "t = frame_addr k" "k < 2 ^ 31"
    using is_table_addr [OF tables_okD(1) [OF ok] tables_okD(2) [OF ok assms(2,3)]] by blast
  then have "in_range x t 4096" using entry_in_frame [OF k(2) assms(4)] assms(5) by simp
  then show ?thesis using assms(2,3) by (auto simp: managed_def)
qed

lemma same_managed_tables:
  assumes ok: "tables_ok s root" and same: "same_managed root s s'"
  shows "avail s' = avail s" and "path_ok p \<Longrightarrow> table_at s root p = Some t \<Longrightarrow> i < 512 \<Longrightarrow> table_entry s' t i = table_entry s t i"
    and "path_ok p \<Longrightarrow> table_at s' root p = table_at s root p" and "tables_ok s' root"
proof -
  have mm: "PHYS_MEMORY_MAP s' = PHYS_MEMORY_MAP s" and mem: "managed s root x \<Longrightarrow> memory s' x = memory s x" for x
    using same by (simp_all add: same_managed_def)
  have sizes: "bitmap_frames s' = bitmap_frames s" "clear_of_bitmap s' = clear_of_bitmap s" "freeable s' = freeable s"
    by (simp_all add: fun_eq_iff bitmap_frames_def clear_of_bitmap_def freeable_def mm)
  have used: "frame_used s' k = frame_used s k" if "k < bitmap_frames s" for k
    using mem [OF bitmap_byte_managed [OF that]] by (simp add: frame_used_def mm)
  show "avail s' = avail s" using used by (auto simp: avail_def sizes)
  show entry: "table_entry s' t i = table_entry s t i" if "path_ok p" "table_at s root p = Some t" "i < 512" for p t i
    by (intro c64.load_cong mem table_byte_managed [OF ok that])
  show at: "table_at s' root p = table_at s root p" if "path_ok p" for p
  proof (rule table_at_cong)
    fix q i r t assume *: "p = q @ i # r" "table_at s root q = Some t"
    then show "table_entry s' t i = table_entry s t i" using path_ok_split that entry by blast
  qed
  have inv: "pmm_inv s'" using tables_okD(1) [OF ok] used unfolding pmm_inv_def Let_def sizes mm by simp
  have "is_table s' t" if t: "is_table s t" for t
  proof -
    obtain k where k: "t = frame_addr k" "freeable s k" "frame_used s k" using t by (auto simp: is_table_def)
    moreover have "k < bitmap_frames s" using k(2) pmm_invD(3) [OF tables_okD(1) [OF ok]] by (simp add: freeable_def)
    ultimately show ?thesis using used by (auto simp: is_table_def sizes)
  qed
  then show "tables_ok s' root"
    using ok inv unfolding tables_ok_def by (metis (no_types, lifting) at)
qed

lemma same_managed_map:
  assumes ok: "tables_ok s root" and same: "same_managed root s s'"
  shows "mapping s' root v = mapping s root v" and "pool s' = pool s" and "managed s' root x = managed s root x"
    and "links_ok s root \<Longrightarrow> links_ok s' root"
proof -
  note t = same_managed_tables [OF ok same]
  have mm: "PHYS_MEMORY_MAP s' = PHYS_MEMORY_MAP s" using same by (simp add: same_managed_def)
  show "pool s' = pool s" by (simp add: pool_def t(1) mm)
  show "managed s' root x = managed s root x" using t(3) unfolding managed_def t(1) mm by auto
  show "mapping s' root v = mapping s root v"
    using t(2) [OF path_ok_vpath _ V_ADDR_INDEX_less] t(3) [OF path_ok_vpath]
    by (simp add: mapping_def leaf_def split: option.splits)
  show "links_ok s' root" if "links_ok s root"
    unfolding links_ok_def
  proof (intro allI impI)
    fix p i c assume p: "path_ok (p @ [i])" "table_at s' root p = Some c" "GetPageFlag (table_entry s' c i) PRESENT"
    note pi = path_ok_snoc [OF p(1)]
    have c: "table_at s root p = Some c" using p(2) t(3) pi by simp
    then have "table_entry s' c i = table_entry s c i" using t(2) pi by blast
    then show "table_entry s' c i AND NOT 511 \<noteq> 0" using that c p unfolding links_ok_def by metis
  qed
qed

lemma frame_taken_map:
  assumes ok: "tables_ok s root" and taken: "frame_taken k s s1" "k < bitmap_frames s"
  shows "mapping s1 root v = mapping s root v" and "links_ok s root \<Longrightarrow> links_ok s1 root"
proof -
  note at = frame_taken_table_at [OF ok taken] and new = frame_taken_tables(1) [OF tables_okD(1) [OF ok] taken]
  show "mapping s1 root v = mapping s root v"
    using at [OF path_ok_vpath] new [OF tables_okD(2) [OF ok path_ok_vpath] V_ADDR_INDEX_less]
    by (simp add: mapping_def leaf_def split: option.splits)
  show "links_ok s1 root" if "links_ok s root"
    unfolding links_ok_def
  proof (intro allI impI)
    fix p i c assume p: "path_ok (p @ [i])" "table_at s1 root p = Some c" "GetPageFlag (table_entry s1 c i) PRESENT"
    note pi = path_ok_snoc [OF p(1)]
    have c: "table_at s root p = Some c" using p(2) at pi by simp
    then have "table_entry s1 c i = table_entry s c i" using new tables_okD(2) [OF ok _ c] pi by blast
    then show "table_entry s1 c i AND NOT 511 \<noteq> 0" using that c p unfolding links_ok_def by metis
  qed
qed

text \<open>A range of memory that is not part of the page map.\<close>

definition outside :: "u64 \<Rightarrow> u64 \<Rightarrow> nat \<Rightarrow> 'a pmm_state_scheme \<Rightarrow> bool" where
  "outside root a n s \<longleftrightarrow> unat a + n \<le> 2 ^ 64 \<and> (\<forall>j < n. \<not> managed s root (a + of_nat j))"

lemma outside_keeps:
  "keeps root s s' \<Longrightarrow> outside root a n s \<Longrightarrow> outside root a n s' \<and> (\<forall>j < n. memory s' (a + of_nat j) = memory s (a + of_nat j))"
  by (simp add: keeps_def outside_def)

lemma outside_split:
  assumes "outside root a (m + n) s"
  shows "outside root a m s" "outside root (a + of_nat m) n s"
proof -
  have a: "unat a + (m + n) \<le> 2 ^ 64" and x: "\<And>j. j < m + n \<Longrightarrow> \<not> managed s root (a + of_nat j)"
    using assms by (auto simp: outside_def)
  show "outside root a m s" using a x by (simp add: outside_def)
  have "\<not> managed s root (a + of_nat m + of_nat j)" if "j < n" for j
    using x [of "m + j"] that by (simp add: add.assoc)
  moreover have "unat (a + of_nat m) + n \<le> 2 ^ 64"
  proof (cases "n = 0")
    case True
    then show ?thesis using unat_less64 [of "a + of_nat m"] by simp
  next
    case False
    then have "unat (a + of_nat m) = unat a + m" using a by (intro unat_add_of_nat) simp
    then show ?thesis using a by simp
  qed
  ultimately show "outside root (a + of_nat m) n s" by (simp add: outside_def)
qed

lemma outside_sub:
  assumes "outside root a n s" "unat off + k \<le> n"
  shows "outside root (a + off) k s"
proof -
  have "n = unat off + (k + (n - unat off - k))" using assms(2) by simp
  then have "outside root (a + of_nat (unat off)) k s"
    using assms(1) outside_split [of root a "unat off" "k + (n - unat off - k)" s] outside_split(1) by metis
  then show ?thesis by simp
qed

section \<open>A new page map\<close>

lemma empty_root:
  assumes inv: "pmm_inv s" and t: "is_table s r" and zero: "\<And>i. i < 512 \<Longrightarrow> table_entry s r i = 0"
  shows "path_ok p \<Longrightarrow> table_at s r p = (if p = [] then Some r else None)"
    and "tables_ok s r" and "links_ok s r" and "mapping s r w = 0"
proof -
  show at: "table_at s r p = (if p = [] then Some r else None)" if "path_ok p" for p
  proof (cases p)
    case (Cons i q)
    then have "i < 512" using that by (simp add: path_ok_def)
    then show ?thesis using Cons zero by (simp add: GetPageTable_def GetPageFlag_def)
  qed simp
  show "tables_ok s r" unfolding tables_ok_def using inv t by (auto simp: at split: if_splits)
  show "links_ok s r"
    unfolding links_ok_def
  proof (intro allI impI)
    fix p i c assume *: "path_ok (p @ [i])" "table_at s r p = Some c" "GetPageFlag (table_entry s c i) PRESENT"
    then have "c = r" "i < 512" using path_ok_snoc [OF *(1)] by (auto simp: at split: if_splits)
    then show "table_entry s c i AND NOT 511 \<noteq> 0" using *(3) zero by (simp add: GetPageFlag_def)
  qed
  have "vpath w \<noteq> []" by (simp add: vpath_def)
  then show "mapping s r w = 0" using at [OF path_ok_vpath] by (simp add: mapping_def leaf_def)
qed

lemma fresh_root:
  assumes inv: "pmm_inv s" and taken: "frame_taken k s s1" "k < bitmap_frames s"
  shows "path_ok p \<Longrightarrow> table_at s1 (frame_addr k) p = (if p = [] then Some (frame_addr k) else None)"
    and "tables_ok s1 (frame_addr k)" and "links_ok s1 (frame_addr k)" and "mapping s1 (frame_addr k) w = 0"
  using empty_root [OF frame_taken_inv [OF inv taken] frame_taken_tables(3) [OF inv taken]] frame_taken_tables(4) [OF inv taken] by blast+

text \<open>Memory the allocator may hand out or uses itself.\<close>

definition allocator_owns :: "'a pmm_state_scheme \<Rightarrow> u64 \<Rightarrow> bool" where
  "allocator_owns s x \<longleftrightarrow> in_range x (bitmap (PHYS_MEMORY_MAP s)) (unat (bitmap_size (PHYS_MEMORY_MAP s)))
     \<or> (\<exists>k \<in> avail s. in_range x (frame_addr k) 4096)"

lemma fresh_root_managed:
  assumes inv: "pmm_inv s" and taken: "frame_taken k s s1" "k < bitmap_frames s" and x: "\<not> allocator_owns s x"
  shows "\<not> managed s1 (frame_addr k) x" "memory s1 x = memory s x"
proof -
  note av = frame_taken_avail [OF taken]
  have mm: "bitmap (PHYS_MEMORY_MAP s1) = bitmap (PHYS_MEMORY_MAP s)" "bitmap_size (PHYS_MEMORY_MAP s1) = bitmap_size (PHYS_MEMORY_MAP s)"
    using taken(1) by (simp_all add: frame_taken_def)
  have k: "\<not> in_range x (frame_addr k) 4096" using x av(1) by (auto simp: allocator_owns_def)
  then show "\<not> managed s1 (frame_addr k) x"
    using x fresh_root(1) [OF inv taken] unfolding managed_def mm av(2) allocator_owns_def by (auto split: if_splits)
  have "x \<noteq> bitmap (PHYS_MEMORY_MAP s) + of_nat (k div 8)"
    using x bitmap_byte_in_range [OF taken(2)] by (auto simp: allocator_owns_def)
  then show "memory s1 x = memory s x" using k taken(1) by (simp add: frame_taken_def)
qed

section \<open>Ranges of pages\<close>

lemma mod_distance:
  assumes "P < M" "i < (M :: nat)"
  shows "((P + i) mod M + M - P) mod M = i"
proof (cases "P + i < M")
  case False
  then have "(P + i) mod M = P + i - M" using assms by (simp add: mod_if)
  then show ?thesis using False assms by simp
qed (use assms in simp)

lemma mod_distance_inv:
  assumes "P < M" "q < (M :: nat)"
  shows "(P + (q + M - P) mod M) mod M = q"
proof -
  have "(P + (q + M - P) mod M) mod M = (P + (q + M - P)) mod M" by (simp add: mod_add_right_eq)
  then show ?thesis using assms by simp
qed

lemma page_number_less: "unat (page_number v) < 2 ^ 36"
  by (simp only: unat_page_number) simp

lemma page_number_add': "unat (page_number (a + of_nat (4096 * i))) = (unat (page_number a) + i) mod 2 ^ 36"
  unfolding page_number_add unat_page_number [of a] by (simp only: mod_add_left_eq)

text \<open>The distance of a page from the page of \<open>base\<close>, in the address space of \<open>2 ^ 36\<close> pages.\<close>

definition page_index :: "u64 \<Rightarrow> u64 \<Rightarrow> nat" where
  "page_index base pn = (unat pn + 2 ^ 36 - unat (page_number base)) mod 2 ^ 36"

lemma page_index_at: "i < 2 ^ 36 \<Longrightarrow> page_index base (page_number (base + of_nat (4096 * i))) = i"
  unfolding page_index_def page_number_add' by (rule mod_distance [OF page_number_less])

lemma page_index_inv: "page_number w = page_number (base + of_nat (4096 * page_index base (page_number w)))"
proof -
  have "unat (page_number w) = unat (page_number (base + of_nat (4096 * page_index base (page_number w))))"
    unfolding page_number_add' page_index_def by (rule mod_distance_inv [OF page_number_less page_number_less, symmetric])
  then show ?thesis by (simp only: word_unat_eq_iff)
qed

record map_range =
  range_base :: u64
  range_bound :: u64
  range_offset :: u64
  range_flags :: u16

abbreviation range_pages :: "map_range \<Rightarrow> nat" where
  "range_pages r \<equiv> pages_between (range_base r) (range_bound r)"

definition range_page :: "map_range \<Rightarrow> u64 \<Rightarrow> u64 option" where
  "range_page r pn =
     (let i = page_index (range_base r + range_offset r) pn
      in if i < range_pages r then Some ((range_base r + of_nat (4096 * i)) OR ucast (range_flags r)) else None)"

primrec overlay :: "map_range list \<Rightarrow> u64 \<Rightarrow> u64 option" where
  "overlay [] pn = None"
| "overlay (r # rs) pn = (case overlay rs pn of Some e \<Rightarrow> Some e | None \<Rightarrow> range_page r pn)"

definition range_ok :: "map_range \<Rightarrow> bool" where
  "range_ok r \<longleftrightarrow> unat (range_bound r) + 4096 \<le> 2 ^ 64 \<and> range_pages r \<le> 2 ^ 36 \<and> flags_ok (range_flags r)"

text \<open>Frames that are enough for the tables of the ranges.\<close>

definition ranges_cost :: "map_range list \<Rightarrow> nat" where
  "ranges_cost rs = (\<Sum>r\<leftarrow>rs. 3 * blocks (range_base r + range_offset r) (range_pages r))"

lemma ranges_cost_simps [simp]:
  "ranges_cost [] = 0"
  "ranges_cost (r # rs) = 3 * blocks (range_base r + range_offset r) (range_pages r) + ranges_cost rs"
  "ranges_cost (rs @ rs') = ranges_cost rs + ranges_cost rs'"
  by (simp_all add: ranges_cost_def)

lemma overlay_append:
  "overlay (rs @ rs') pn = (case overlay rs' pn of Some e \<Rightarrow> Some e | None \<Rightarrow> overlay rs pn)"
  by (induction rs) (auto split: option.splits)

lemma range_mapped_page:
  assumes "range_mapped root (range_base r) (range_bound r) (range_offset r) (range_flags r) s s'" "range_pages r \<le> 2 ^ 36"
  shows "mapping s' root w = (case range_page r (page_number w) of None \<Rightarrow> mapping s root w | Some e \<Rightarrow> e)"
proof -
  let ?v = "range_base r + range_offset r"
  have v: "range_base r + of_nat (4096 * i) + range_offset r = ?v + of_nat (4096 * i)" for i by simp
  note m = assms(1) [unfolded range_mapped_def v]
  show ?thesis
  proof (cases "page_index ?v (page_number w) < range_pages r")
    case True
    have "mapping s' root w = (range_base r + of_nat (4096 * page_index ?v (page_number w))) OR ucast (range_flags r)"
      by (rule m [THEN conjunct1, rule_format, OF True]) (rule page_index_inv)
    then show ?thesis using True by (simp add: range_page_def Let_def)
  next
    case False
    have "page_number w \<noteq> page_number (?v + of_nat (4096 * i))" if "i < range_pages r" for i
    proof
      assume "page_number w = page_number (?v + of_nat (4096 * i))"
      moreover have "i < 2 ^ 36" using that assms(2) by simp
      ultimately have "page_index ?v (page_number w) = i" using page_index_at [of i ?v] by simp
      then show False using that False by simp
    qed
    then have "mapping s' root w = mapping s root w" by (intro m [THEN conjunct2, rule_format])
    then show ?thesis using False by (simp add: range_page_def Let_def)
  qed
qed

text \<open>A step that lays \<open>f\<close> over the page map at the cost of at most \<open>c\<close> frames.\<close>

definition lays :: "u64 \<Rightarrow> (u64 \<Rightarrow> u64 option) \<Rightarrow> nat \<Rightarrow> 'a pmm_state_scheme \<Rightarrow> 'a pmm_state_scheme \<Rightarrow> bool" where
  "lays root f c s s' \<longleftrightarrow> tables_ok s' root \<and> links_ok s' root \<and> keeps root s s' \<and> pool s \<le> pool s' + c
     \<and> (\<forall>w. mapping s' root w = (case f (page_number w) of None \<Rightarrow> mapping s root w | Some e \<Rightarrow> e))"

lemma lays_trans:
  "lays root f c s s1 \<Longrightarrow> lays root g d s1 s' \<Longrightarrow> lays root (\<lambda>pn. case g pn of Some e \<Rightarrow> Some e | None \<Rightarrow> f pn) (c + d) s s'"
  unfolding lays_def by (auto intro: keeps_trans split: option.splits)

lemma lays_same:
  assumes "tables_ok s root" "links_ok s root" "memory s' = memory s" "PHYS_MEMORY_MAP s' = PHYS_MEMORY_MAP s"
  shows "lays root (\<lambda>_. None) 0 s s'"
proof -
  have same: "same_managed root s s'" using assms(3,4) by (simp add: same_managed_def)
  note t = same_managed_tables [OF assms(1) same] and m = same_managed_map [OF assms(1) same]
  show ?thesis using assms(2,3) t(1,4) m by (simp add: lays_def keeps_def)
qed

text \<open>What the operations on page tables leave alone of the state.\<close>

definition vmm_tags :: "'a vmm_state_scheme \<Rightarrow>
  u64 \<times> stivale2_struct_tag_kernel_base_address \<times> pmrs_tag \<times> memmap_tag \<times> u64 \<times> 'a" where
  "vmm_tags s = (KERNEL_PAGE_TABLE_ROOT s, BASE_ADDR s, PMRs s, MMAP s, cr3 s, vmm_state.more s)"

lemma vmm_tags_more: "pmm_state.more s' = pmm_state.more s \<Longrightarrow> vmm_tags s' = vmm_tags s"
  by (cases s; cases s') (simp add: vmm_tags_def)

lemma MapMultiple_lays:
  assumes "tables_ok s root" "links_ok s root" "range_ok r" "ranges_cost [r] + 1 \<le> pool s"
  shows "\<exists>s'. MapMultiple root (range_base r) (range_bound r) (range_offset r) (range_flags r) s = Some (True, s')
    \<and> lays root (range_page r) (ranges_cost [r]) s s' \<and> vmm_tags s' = vmm_tags s"
proof -
  have r: "unat (range_bound r) + 4096 \<le> 2 ^ 64" "range_pages r \<le> 2 ^ 36" "flags_ok (range_flags r)"
    using assms(3) by (simp_all add: range_ok_def)
  let ?c = "range_cost root (range_base r + range_offset r) (range_pages r) s"
  have c: "?c \<le> ranges_cost [r]" using range_cost_le [of root "range_base r + range_offset r" "range_pages r" s] by simp
  then have "?c + 1 \<le> pool s" using assms(4) by linarith
  from map_multiple_loop_live [OF assms(1,2) r(3,1) refl r(2) this] obtain s' where
    s': "map_multiple_loop root (range_base r) (range_bound r) (range_offset r) (range_flags r) s = Some (True, s')"
    "tables_ok s' root" "links_ok s' root" "range_mapped root (range_base r) (range_bound r) (range_offset r) (range_flags r) s s'"
    "pmm_state.more s' = pmm_state.more s" "keeps root s s'" "pool s \<le> pool s' + ?c" by blast
  then have "lays root (range_page r) (ranges_cost [r]) s s'"
    using range_mapped_page [OF s'(4) r(2)] c unfolding lays_def by (intro conjI allI) (assumption | linarith)+
  then show ?thesis using s'(1,5) vmm_tags_more unfolding MapMultiple_def by blast
qed

section \<open>The page tables of the kernel\<close>

text \<open>The ranges one after the other.\<close>

fun map_ranges :: "u64 \<Rightarrow> map_range list \<Rightarrow> 'a vmm_state_scheme \<Rightarrow> (bool \<times> 'a vmm_state_scheme) option" where
  "map_ranges root [] s = Some (True, s)"
| "map_ranges root (r # rs) s = do {
     (ok, s) \<leftarrow> MapMultiple root (range_base r) (range_bound r) (range_offset r) (range_flags r) s;
     (oks, s) \<leftarrow> map_ranges root rs s;
     Some (ok \<and> oks, s) }"

lemma map_ranges_lays:
  assumes "tables_ok s root" "links_ok s root" "list_all range_ok rs" "ranges_cost rs + 1 \<le> pool s"
  shows "\<exists>s'. map_ranges root rs s = Some (True, s') \<and> lays root (\<lambda>pn. overlay rs pn) (ranges_cost rs) s s' \<and> vmm_tags s' = vmm_tags s"
  using assms
proof (induction rs arbitrary: s)
  case Nil
  then show ?case using lays_same [of s root s] by simp
next
  case (Cons r rs)
  have "ranges_cost [r] + 1 \<le> pool s" using Cons.prems(4) by simp
  then obtain s1 where s1: "MapMultiple root (range_base r) (range_bound r) (range_offset r) (range_flags r) s = Some (True, s1)"
    "lays root (range_page r) (ranges_cost [r]) s s1" "vmm_tags s1 = vmm_tags s"
    using MapMultiple_lays [OF Cons.prems(1,2), of r] Cons.prems(3) by auto
  have "\<exists>s'. map_ranges root rs s1 = Some (True, s') \<and> lays root (\<lambda>pn. overlay rs pn) (ranges_cost rs) s1 s' \<and> vmm_tags s' = vmm_tags s1"
    using s1(2) Cons.prems(3,4) by (intro Cons.IH) (auto simp: lays_def)
  then obtain s' where s': "map_ranges root rs s1 = Some (True, s')" "lays root (\<lambda>pn. overlay rs pn) (ranges_cost rs) s1 s'"
    "vmm_tags s' = vmm_tags s1" by blast
  then show ?case using s1 lays_trans [OF s1(2) s'(2)] by auto
qed

lemma map_ranges_append:
  "map_ranges root (rs @ rs') s =
     do { (a, s) \<leftarrow> map_ranges root rs s; (b, s) \<leftarrow> map_ranges root rs' s; Some (a \<and> b, s) }"
  by (induction rs arbitrary: s) (auto split: bind_splits prod.splits)

text \<open>The ranges of \<^verbatim>\<open>MapKernelPmrs\<close>: the first 4 GiB in the upper half, the segments of the kernel, and the ranges of the
  memory map that hold the frame buffer or the boot loader's data or that end above 4 GiB.\<close>

definition pmr_range :: "stivale2_struct_tag_kernel_base_address \<Rightarrow> stivale2_pmr \<Rightarrow> map_range" where
  "pmr_range kb p =
     (let phys = physical_base_address kb + (pmr_base p - virtual_base_address kb)
      in \<lparr>range_base = phys, range_bound = phys + pmr_length p, range_offset = pmr_base p - phys, range_flags = ucast KERNEL_PAGE\<rparr>)"

definition mmap_ranges :: "stivale2_mmap_entry \<Rightarrow> map_range list" where
  "mmap_ranges e =
     (let r = (\<lambda>off f. \<lparr>range_base = me_base e, range_bound = me_base e + me_length e, range_offset = off, range_flags = ucast f\<rparr>);
          fb = (me_type e = STIVALE2_MMAP_FRAMEBUFFER)
      in (if fb \<or> me_type e = STIVALE2_MMAP_BOOTLOADER_RECLAIMABLE then [r 0 (KERNEL_PAGE AND EXECUTABLE)] else [])
       @ (if fb then [r KERNEL_DATA (KERNEL_PAGE AND EXECUTABLE)] else [])
       @ (if me_base e + me_length e \<le> 0x100000000 then [] else [r 0 KERNEL_PAGE, r KERNEL_DATA KERNEL_PAGE]))"

definition four_gb_range :: "u64 \<Rightarrow> map_range" where
  "four_gb_range off = \<lparr>range_base = 0x1000, range_bound = 0x100000000, range_offset = off, range_flags = ucast KERNEL_PAGE\<rparr>"

definition kernel_ranges :: "stivale2_struct_tag_kernel_base_address \<Rightarrow> pmrs_tag \<Rightarrow> memmap_tag \<Rightarrow> map_range list" where
  "kernel_ranges kb pmrs mmap = four_gb_range KERNEL_DATA # map (pmr_range kb) pmrs @ concat (map mmap_ranges mmap)"

lemma TestKernelMapping_same:
  "memory (TestKernelMapping p v s) = memory s" "PHYS_MEMORY_MAP (TestKernelMapping p v s) = PHYS_MEMORY_MAP s"
  "vmm_tags (TestKernelMapping p v s) = vmm_tags s"
  by (simp_all add: TestKernelMapping_def PrintK_log_def vmm_tags_def)

lemma map_pmrs_loop_lays:
  assumes "tables_ok s root" "links_ok s root" "list_all range_ok (map (pmr_range kb) ps)" "ranges_cost (map (pmr_range kb) ps) + 1 \<le> pool s"
  shows "\<exists>s'. map_pmrs_loop root (physical_base_address kb) (virtual_base_address kb) ps b s = Some (b, s')
    \<and> lays root (\<lambda>pn. overlay (map (pmr_range kb) ps) pn) (ranges_cost (map (pmr_range kb) ps)) s s' \<and> vmm_tags s' = vmm_tags s"
  using assms
proof (induction ps arbitrary: s)
  case Nil
  then show ?case using lays_same [of s root s] by simp
next
  case (Cons p ps)
  let ?r = "pmr_range kb p" and ?rs = "map (pmr_range kb) ps"
  have "ranges_cost [?r] + 1 \<le> pool s" using Cons.prems(4) by simp
  then obtain s1 where s1: "MapMultiple root (range_base ?r) (range_bound ?r) (range_offset ?r) (range_flags ?r) s = Some (True, s1)"
    "lays root (range_page ?r) (ranges_cost [?r]) s s1" "vmm_tags s1 = vmm_tags s"
    using MapMultiple_lays [OF Cons.prems(1,2), of ?r] Cons.prems(3) by auto
  define s2 where "s2 = TestKernelMapping (range_base ?r) (range_base ?r + range_offset ?r) s1"
  have "lays root (\<lambda>_. None) 0 s1 s2"
    using s1(2) TestKernelMapping_same(1,2) unfolding s2_def by (intro lays_same) (simp_all add: lays_def)
  note l2 = lays_trans [OF s1(2) this, simplified]
  have "\<exists>s'. map_pmrs_loop root (physical_base_address kb) (virtual_base_address kb) ps b s2 = Some (b, s')
    \<and> lays root (\<lambda>pn. overlay ?rs pn) (ranges_cost ?rs) s2 s' \<and> vmm_tags s' = vmm_tags s2"
    using l2 Cons.prems(3,4) by (intro Cons.IH) (auto simp: lays_def)
  then obtain s' where s': "map_pmrs_loop root (physical_base_address kb) (virtual_base_address kb) ps b s2 = Some (b, s')"
    "lays root (\<lambda>pn. overlay ?rs pn) (ranges_cost ?rs) s2 s'" "vmm_tags s' = vmm_tags s2" by blast
  have "map_pmrs_loop root (physical_base_address kb) (virtual_base_address kb) (p # ps) b s = Some (b, s')"
    using s1(1) s'(1) by (simp add: s2_def pmr_range_def Let_def)
  moreover have "vmm_tags s' = vmm_tags s" by (simp only: s'(3) s2_def TestKernelMapping_same(3) s1(3))
  ultimately show ?case using lays_trans [OF l2 s'(2)] by (intro exI [of _ s'] conjI) simp_all
qed

lemma map_mmap_loop_ranges:
  "map_ranges root (concat (map mmap_ranges es)) s = Some (True, s') \<Longrightarrow> map_mmap_loop root es b s = Some (b, s')"
proof (induction es arbitrary: s)
  case (Cons e es)
  obtain s1 where s1: "map_ranges root (mmap_ranges e) s = Some (True, s1)" "map_ranges root (concat (map mmap_ranges es)) s1 = Some (True, s')"
    using Cons.prems by (auto simp: map_ranges_append bind_eq_Some_conv)
  note IH = Cons.IH [OF s1(2)]
  show ?case
    using s1(1) IH by (auto simp: mmap_ranges_def Let_def bind_eq_Some_conv ex_bool_eq split: if_splits)
qed simp

lemma MapKernelPmrs_lays:
  assumes ok: "tables_ok s root" "links_ok s root" and rs: "rs = kernel_ranges (BASE_ADDR s) (PMRs s) (MMAP s)"
    and "list_all range_ok rs" "ranges_cost rs + 1 \<le> pool s"
  shows "\<exists>s'. MapKernelPmrs root s = Some (True, s') \<and> lays root (\<lambda>pn. overlay rs pn) (ranges_cost rs) s s' \<and> vmm_tags s' = vmm_tags s"
proof -
  let ?p = "map (pmr_range (BASE_ADDR s)) (PMRs s)" and ?m = "concat (map mmap_ranges (MMAP s))"
  have oks: "range_ok (four_gb_range KERNEL_DATA)" "list_all range_ok ?p" "list_all range_ok ?m"
    and cost: "ranges_cost rs = ranges_cost [four_gb_range KERNEL_DATA] + ranges_cost ?p + ranges_cost ?m"
    using assms(4) by (simp_all add: rs kernel_ranges_def)
  have "ranges_cost [four_gb_range KERNEL_DATA] + 1 \<le> pool s" using assms(5) cost by linarith
  from MapMultiple_lays [OF ok oks(1) this] obtain s1 where
    s1: "MapMultiple root 0x1000 0x100000000 KERNEL_DATA (ucast KERNEL_PAGE) s = Some (True, s1)"
    "lays root (range_page (four_gb_range KERNEL_DATA)) (ranges_cost [four_gb_range KERNEL_DATA]) s s1" "vmm_tags s1 = vmm_tags s"
    by (auto simp: four_gb_range_def)
  have p1: "pool s \<le> pool s1 + ranges_cost [four_gb_range KERNEL_DATA]" "tables_ok s1 root" "links_ok s1 root"
    using s1(2) by (simp_all add: lays_def)
  have "ranges_cost ?p + 1 \<le> pool s1" using assms(5) cost p1(1) by linarith
  from map_pmrs_loop_lays [OF p1(2,3) oks(2) this] obtain s2 where
    s2: "map_pmrs_loop root (physical_base_address (BASE_ADDR s)) (virtual_base_address (BASE_ADDR s)) (PMRs s) True s1 = Some (True, s2)"
    "lays root (\<lambda>pn. overlay ?p pn) (ranges_cost ?p) s1 s2" "vmm_tags s2 = vmm_tags s1" by blast
  have p2: "pool s1 \<le> pool s2 + ranges_cost ?p" "tables_ok s2 root" "links_ok s2 root" using s2(2) by (simp_all add: lays_def)
  have "ranges_cost ?m + 1 \<le> pool s2" using assms(5) cost p1(1) p2(1) by linarith
  from map_ranges_lays [OF p2(2,3) oks(3) this] obtain s' where
    s': "map_ranges root ?m s2 = Some (True, s')" "lays root (\<lambda>pn. overlay ?m pn) (ranges_cost ?m) s2 s'" "vmm_tags s' = vmm_tags s2" by blast
  have t: "PMRs s1 = PMRs s" "MMAP s2 = MMAP s" using s1(3) s2(3) by (simp_all add: vmm_tags_def)
  have "MapKernelPmrs root s = Some (True, s')"
    using s1(1) s2(1) map_mmap_loop_ranges [OF s'(1)] by (simp add: MapKernelPmrs_def t)
  moreover have "lays root (\<lambda>pn. overlay rs pn) (ranges_cost rs) s s'"
    using lays_trans [OF lays_trans [OF s1(2) s2(2)] s'(2)] unfolding cost
    by (simp add: rs kernel_ranges_def overlay_append option.case_distrib cong: option.case_cong)
  ultimately show ?thesis using s1(3) s2(3) s'(3) by auto
qed

section \<open>Properties\<close>

definition boot_ranges :: "stivale2_struct_tag_kernel_base_address \<Rightarrow> pmrs_tag \<Rightarrow> memmap_tag \<Rightarrow> map_range list" where
  "boot_ranges kb pmrs mmap = kernel_ranges kb pmrs mmap @ [four_gb_range 0, four_gb_range KERNEL_DATA]"

lemma kernel_page_flags: "(ucast KERNEL_PAGE :: u16) = 3" "(ucast KERNEL_PAGE :: u64) = 3"
  by (simp_all add: KERNEL_PAGE_def PRESENT_def READ_WRITABLE_def push_bit_eq_mult)

lemma four_gb_pages: "range_pages (four_gb_range off) = 2 ^ 20 - 1"
  by (simp add: four_gb_range_def pages_between_def)

lemma frame_addr_from_0x1000: "0 < k \<Longrightarrow> frame_addr k = 0x1000 + of_nat (4096 * (k - 1))"
  by (cases k) (simp_all add: frame_addr_def)

lemma four_gb_page:
  assumes "0 < k" "k < 2 ^ 20"
  shows "range_page (four_gb_range off) (page_number (off + frame_addr k)) = Some (frame_addr k OR 3)"
proof -
  have "off + frame_addr k = 0x1000 + off + of_nat (4096 * (k - 1))"
    using frame_addr_from_0x1000 [OF assms(1)] by simp
  moreover have "page_index (0x1000 + off) (page_number (0x1000 + off + of_nat (4096 * (k - 1)))) = k - 1"
    using assms by (intro page_index_at) simp
  ultimately have "page_index (0x1000 + off) (page_number (off + frame_addr k)) = k - 1" by (simp only:)
  moreover have "k - 1 < range_pages (four_gb_range off)" using assms four_gb_pages by simp
  ultimately show ?thesis
    using frame_addr_from_0x1000 [OF assms(1)] by (simp add: range_page_def four_gb_range_def kernel_page_flags)
qed

lemma four_gb_page_low:
  assumes "k < 2 ^ 20"
  shows "range_page (four_gb_range KERNEL_DATA) (page_number (frame_addr k)) = None"
proof -
  have "unat (frame_addr k) = 4096 * k" using assms by (intro unat_frame_addr) simp
  then have "unat (page_number (frame_addr k)) = k" using assms by (simp only: unat_page_number) simp
  moreover have "unat (page_number (0x1000 + KERNEL_DATA)) = 0x800000001" by (simp add: KERNEL_DATA_def page_number_def)
  ultimately have "page_index (0x1000 + KERNEL_DATA) (page_number (frame_addr k)) = k + 2 ^ 36 - 0x800000001"
    using assms by (simp add: page_index_def)
  then show ?thesis
    using four_gb_pages [of KERNEL_DATA] by (simp add: range_page_def four_gb_range_def Let_def)
qed

lemma direct_map:
  assumes "0 < k" "k < 2 ^ 20"
  shows "overlay (boot_ranges kb pmrs mmap) (page_number (KERNEL_DATA + frame_addr k)) = Some (frame_addr k OR 3)"
    and "overlay (boot_ranges kb pmrs mmap) (page_number (frame_addr k)) = Some (frame_addr k OR 3)"
  using four_gb_page [OF assms, of KERNEL_DATA] four_gb_page [OF assms, of 0] four_gb_page_low [OF assms(2)]
  by (simp_all add: boot_ranges_def overlay_append)

lemma MapMultipleKernel_lays:
  assumes "tables_ok s root" "links_ok s root" "KERNEL_PAGE_TABLE_ROOT s = root" "range_ok (four_gb_range off)"
    "ranges_cost [four_gb_range off] + 1 \<le> pool s"
  shows "\<exists>s'. MapMultipleKernel 0x1000 0x100000000 off (ucast KERNEL_PAGE) s = Some (True, s')
    \<and> lays root (range_page (four_gb_range off)) (ranges_cost [four_gb_range off]) s s' \<and> vmm_tags s' = vmm_tags s"
  using MapMultiple_lays [OF assms(1,2,4,5)] assms(3) by (simp add: MapMultipleKernel_def four_gb_range_def)

lemma InitPageTable_root:
  assumes "pmm_inv s" "2 \<le> pool s"
  shows "\<exists>k s2. tables_ok s2 (frame_addr k) \<and> links_ok s2 (frame_addr k) \<and> pool s \<le> pool s2 + 1
    \<and> (\<forall>w. mapping s2 (frame_addr k) w = 0) \<and> KERNEL_PAGE_TABLE_ROOT s2 = frame_addr k
    \<and> BASE_ADDR s2 = kb \<and> PMRs s2 = pmrs \<and> MMAP s2 = mmap
    \<and> InitPageTable mmap kb pmrs s = do {
          (ok1, s) \<leftarrow> MapKernelPmrs (frame_addr k) s2;
          (ok2, s) \<leftarrow> MapMultipleKernel 0x1000 0x100000000 0 (ucast KERNEL_PAGE) s;
          (ok3, s) \<leftarrow> MapMultipleKernel 0x1000 0x100000000 KERNEL_DATA (ucast KERNEL_PAGE) s;
          Some (ok1 \<and> ok2 \<and> ok3, s\<lparr>cr3 := KERNEL_PAGE_TABLE_ROOT s\<rparr>) }"
proof -
  define s0 where "s0 = s\<lparr>MMAP := mmap, BASE_ADDR := kb, PMRs := pmrs\<rparr>"
  have same: "memory s0 = memory s" "PHYS_MEMORY_MAP s0 = PHYS_MEMORY_MAP s" by (simp_all add: s0_def)
  have inv: "pmm_inv s0" and "pool s0 = pool s" using assms(1) pmm_cong [OF same] by (simp_all add: pool_def same)
  then obtain k s1 where k: "AllocFirstFrame s0 = Some (frame_addr k, s1)" "frame_taken k s0 s1" "k < bitmap_frames s0" "pool s \<le> pool s1 + 1"
    using AllocFirstFrame_pool [OF inv] assms(2) by auto
  note new = fresh_root [OF inv k(2,3)] and nz = frame_taken_tables(6) [OF inv k(2,3)]
  have "pmm_state.more s1 = pmm_state.more s0" using AllocFirstFrame_sound [OF inv k(1)] nz by auto
  then have t1: "BASE_ADDR s1 = kb" "PMRs s1 = pmrs" "MMAP s1 = mmap" using vmm_tags_more [of s1 s0] by (simp_all add: vmm_tags_def s0_def)
  define s2 where "s2 = s1\<lparr>KERNEL_PAGE_TABLE_ROOT := frame_addr k\<rparr>"
  have "lays (frame_addr k) (\<lambda>_. None) 0 s1 s2" by (rule lays_same [OF new(2,3)]) (simp_all add: s2_def)
  then have "tables_ok s2 (frame_addr k)" "links_ok s2 (frame_addr k)" "pool s \<le> pool s2 + 1" "\<forall>w. mapping s2 (frame_addr k) w = 0"
    using new(4) k(4) by (simp_all add: lays_def)
  moreover have "KERNEL_PAGE_TABLE_ROOT s2 = frame_addr k" "BASE_ADDR s2 = kb" "PMRs s2 = pmrs" "MMAP s2 = mmap"
    using t1 by (simp_all add: s2_def)
  moreover have "InitPageTable mmap kb pmrs s = do {
      (ok1, s) \<leftarrow> MapKernelPmrs (frame_addr k) s2;
      (ok2, s) \<leftarrow> MapMultipleKernel 0x1000 0x100000000 0 (ucast KERNEL_PAGE) s;
      (ok3, s) \<leftarrow> MapMultipleKernel 0x1000 0x100000000 KERNEL_DATA (ucast KERNEL_PAGE) s;
      Some (ok1 \<and> ok2 \<and> ok3, s\<lparr>cr3 := KERNEL_PAGE_TABLE_ROOT s\<rparr>) }"
    using k(1) nz by (simp add: InitPageTable_def s0_def [symmetric] s2_def)
  ultimately show ?thesis by blast
qed

lemma InitPageTable_lays:
  assumes "pmm_inv s" and "list_all range_ok (boot_ranges kb pmrs mmap)" and "ranges_cost (boot_ranges kb pmrs mmap) + 2 \<le> pool s"
  shows "\<exists>k s1 s4. InitPageTable mmap kb pmrs s = Some (True, s4\<lparr>cr3 := frame_addr k\<rparr>) \<and> KERNEL_PAGE_TABLE_ROOT s4 = frame_addr k
    \<and> (\<forall>w. mapping s1 (frame_addr k) w = 0)
    \<and> lays (frame_addr k) (\<lambda>pn. overlay (boot_ranges kb pmrs mmap) pn) (ranges_cost (boot_ranges kb pmrs mmap)) s1 s4"
proof -
  let ?rs = "kernel_ranges kb pmrs mmap" and ?a = "four_gb_range 0" and ?b = "four_gb_range KERNEL_DATA"
  have cost: "ranges_cost (boot_ranges kb pmrs mmap) = ranges_cost ?rs + ranges_cost [?a] + ranges_cost [?b]"
    by (simp add: boot_ranges_def)
  have oks: "list_all range_ok ?rs" "range_ok ?a" "range_ok ?b" using assms(2) by (simp_all add: boot_ranges_def)
  obtain k s1 where s1: "tables_ok s1 (frame_addr k)" "links_ok s1 (frame_addr k)" "pool s \<le> pool s1 + 1"
    "\<forall>w. mapping s1 (frame_addr k) w = 0" "KERNEL_PAGE_TABLE_ROOT s1 = frame_addr k" "BASE_ADDR s1 = kb" "PMRs s1 = pmrs" "MMAP s1 = mmap"
    and init: "InitPageTable mmap kb pmrs s = do {
      (ok1, s) \<leftarrow> MapKernelPmrs (frame_addr k) s1;
      (ok2, s) \<leftarrow> MapMultipleKernel 0x1000 0x100000000 0 (ucast KERNEL_PAGE) s;
      (ok3, s) \<leftarrow> MapMultipleKernel 0x1000 0x100000000 KERNEL_DATA (ucast KERNEL_PAGE) s;
      Some (ok1 \<and> ok2 \<and> ok3, s\<lparr>cr3 := KERNEL_PAGE_TABLE_ROOT s\<rparr>) }"
    using InitPageTable_root [OF assms(1), of kb pmrs mmap] assms(3) by force
  let ?r = "frame_addr k"
  have "ranges_cost ?rs + 1 \<le> pool s1" using assms(3) cost s1(3) by linarith
  from MapKernelPmrs_lays [OF s1(1,2) _ oks(1) this] obtain s2 where
    s2: "MapKernelPmrs ?r s1 = Some (True, s2)" "lays ?r (\<lambda>pn. overlay ?rs pn) (ranges_cost ?rs) s1 s2" "vmm_tags s2 = vmm_tags s1"
    using s1(6-8) by auto
  have p2: "tables_ok s2 ?r" "links_ok s2 ?r" "pool s1 \<le> pool s2 + ranges_cost ?rs" "KERNEL_PAGE_TABLE_ROOT s2 = ?r"
    using s2(2,3) s1(5) by (simp_all add: lays_def vmm_tags_def)
  have "ranges_cost [?a] + 1 \<le> pool s2" using assms(3) cost s1(3) p2(3) by linarith
  from MapMultipleKernel_lays [OF p2(1,2,4) oks(2) this] obtain s3 where
    s3: "MapMultipleKernel 0x1000 0x100000000 0 (ucast KERNEL_PAGE) s2 = Some (True, s3)" "lays ?r (range_page ?a) (ranges_cost [?a]) s2 s3"
    "vmm_tags s3 = vmm_tags s2" by blast
  have p3: "tables_ok s3 ?r" "links_ok s3 ?r" "pool s2 \<le> pool s3 + ranges_cost [?a]" "KERNEL_PAGE_TABLE_ROOT s3 = ?r"
    using s3(2,3) p2(4) by (simp_all add: lays_def vmm_tags_def)
  have "ranges_cost [?b] + 1 \<le> pool s3" using assms(3) cost s1(3) p2(3) p3(3) by linarith
  from MapMultipleKernel_lays [OF p3(1,2,4) oks(3) this] obtain s4 where
    s4: "MapMultipleKernel 0x1000 0x100000000 KERNEL_DATA (ucast KERNEL_PAGE) s3 = Some (True, s4)" "lays ?r (range_page ?b) (ranges_cost [?b]) s3 s4"
    "vmm_tags s4 = vmm_tags s3" by blast
  have root: "KERNEL_PAGE_TABLE_ROOT s4 = ?r" using s4(3) p3(4) by (simp add: vmm_tags_def)
  have "InitPageTable mmap kb pmrs s = Some (True, s4\<lparr>cr3 := ?r\<rparr>)" using init s2(1) s3(1) s4(1) root by simp
  moreover have "lays ?r (\<lambda>pn. overlay (boot_ranges kb pmrs mmap) pn) (ranges_cost (boot_ranges kb pmrs mmap)) s1 s4"
    using lays_trans [OF lays_trans [OF s2(2) s3(2)] s4(2)] unfolding cost
    by (simp add: boot_ranges_def overlay_append option.case_distrib cong: option.case_cong)
  ultimately show ?thesis using s1(4) root by blast
qed

text \<open>C5. \<^verbatim>\<open>InitPageTable\<close> builds the address space of the kernel. With enough free frames, three for each block of 2 MiB of
  the ranges and two more, it returns true and loads a root whose tables map every page as the last range that covers it says and no
  other page; in particular each frame below 4 GiB except frame 0 is found at its own address and in the upper half.\<close>

theorem InitPageTable_correct:
  assumes "pmm_inv s" and "list_all range_ok (boot_ranges kb pmrs mmap)" and "ranges_cost (boot_ranges kb pmrs mmap) + 2 \<le> pool s"
  shows "\<exists>s'. InitPageTable mmap kb pmrs s = Some (True, s') \<and> cr3 s' = KERNEL_PAGE_TABLE_ROOT s' \<and> tables_ok s' (cr3 s')
    \<and> (\<forall>w. mapping s' (cr3 s') w = (case overlay (boot_ranges kb pmrs mmap) (page_number w) of None \<Rightarrow> 0 | Some e \<Rightarrow> e))
    \<and> (\<forall>k. 0 < k \<longrightarrow> k < 2 ^ 20 \<longrightarrow>
         KernelVAddrToPAddr (frame_addr k) s' = frame_addr k \<and> KernelVAddrToPAddr (KERNEL_DATA + frame_addr k) s' = frame_addr k)"
proof -
  let ?f = "\<lambda>pn. overlay (boot_ranges kb pmrs mmap) pn"
  obtain k s1 s4 where ret: "InitPageTable mmap kb pmrs s = Some (True, s4\<lparr>cr3 := frame_addr k\<rparr>)"
    and root: "KERNEL_PAGE_TABLE_ROOT s4 = frame_addr k" and s1: "\<forall>w. mapping s1 (frame_addr k) w = 0"
    and l: "lays (frame_addr k) ?f (ranges_cost (boot_ranges kb pmrs mmap)) s1 s4"
    using InitPageTable_lays [OF assms] by blast
  let ?r = "frame_addr k"
  define s' where "s' = s4\<lparr>cr3 := ?r\<rparr>"
  have ok: "tables_ok s' ?r" using l tables_ok_cong [of s' s4 ?r] by (simp add: s'_def lays_def)
  have "mapping s4 ?r w = (case ?f (page_number w) of None \<Rightarrow> 0 | Some e \<Rightarrow> e)" for w
    using l s1 unfolding lays_def by metis
  moreover have "mapping s' ?r w = mapping s4 ?r w" for w by (rule mapping_cong) (simp add: s'_def)
  ultimately have map: "mapping s' ?r w = (case ?f (page_number w) of None \<Rightarrow> 0 | Some e \<Rightarrow> e)" for w by simp
  have "(frame_addr j OR 3) AND NOT 511 = frame_addr j" for j
    using new_entry(2) [OF flags_ok_3, of "frame_addr j"] frame_addr_high by simp
  then have "KernelVAddrToPAddr (frame_addr j) s' = frame_addr j \<and> KernelVAddrToPAddr (KERNEL_DATA + frame_addr j) s' = frame_addr j"
    if "0 < j" "j < 2 ^ 20" for j
    using that root map direct_map [of j kb pmrs mmap] by (simp add: KernelVAddrToPAddr_def VAddrToPAddr_mapping s'_def)
  then show ?thesis using ret ok map root by (intro exI [of _ s']) (simp add: s'_def)
qed

text \<open>A bitmap for a machine with 80 MiB of free memory: frame 0 and the last two frames are in use.\<close>

definition demo_map :: MemMap where
  "demo_map = \<lparr>num_entries = 20006, last_used = 0, bitmap_size = 2501, bitmap = 0x8000000,
     mem_size = 0, max_blocks = 0, uppermost_addr = 0, used_blocks = 0\<rparr>"

definition demo_bitmap :: "'a pmm_state_scheme \<Rightarrow> bool" where
  "demo_bitmap s \<longleftrightarrow> PHYS_MEMORY_MAP s = demo_map
     \<and> (\<forall>q < 2501. memory s (0x8000000 + of_nat q) = (if q = 0 then 1 else if q = 2500 then 0xC0 else 0))"

lemma demo_bitmap_fields:
  assumes "demo_bitmap s"
  shows "frames s = 20006" "last_frame s = 0" "bitmap_frames s = 20008"
  using assms by (simp_all add: demo_bitmap_def demo_map_def bitmap_frames_def)

lemma demo_bitmap_used:
  assumes "demo_bitmap s" "k < 20008"
  shows "frame_used s k \<longleftrightarrow> k = 0 \<or> 20006 \<le> k"
proof -
  define q where "q = k div 8"
  define r where "r = k mod 8"
  have k: "k = 8 * q + r" "r < 8" "q < 2501" using assms(2) by (simp_all add: q_def r_def)
  have "memory s (0x8000000 + of_nat q) = (if q = 0 then 1 else if q = 2500 then 0xC0 else 0)"
    using assms(1) k(3) by (simp add: demo_bitmap_def)
  then have "frame_used s k \<longleftrightarrow> bit (if q = 0 then 1 else if q = 2500 then 0xC0 else 0 :: u8) r"
    using assms(1) by (simp add: frame_used_def demo_bitmap_def demo_map_def q_def [symmetric] r_def [symmetric])
  also have "\<dots> \<longleftrightarrow> q = 2500 \<and> 6 \<le> r \<or> q = 0 \<and> r = 0"
  proof -
    have "\<forall>r < 8. bit (0xC0 :: u8) r \<longleftrightarrow> 6 \<le> r" "\<forall>r < 8. bit (1 :: u8) r \<longleftrightarrow> r = 0" unfolding all_less_8 by simp_all
    then show ?thesis using k(2) by auto
  qed
  also have "\<dots> \<longleftrightarrow> k = 0 \<or> 20006 \<le> k" using k by presburger
  finally show ?thesis .
qed

lemma demo_bitmap_inv:
  assumes "demo_bitmap s"
  shows "pmm_inv s" "pool s = 20005" "avail s = {1..<20006}"
proof -
  note f = demo_bitmap_fields [OF assms] and used = demo_bitmap_used [OF assms]
  have mm: "PHYS_MEMORY_MAP s = demo_map" using assms by (simp add: demo_bitmap_def)
  have "0 < k \<and> k \<le> 20006 \<and> clear_of_bitmap s k" if "k < 20008" "\<not> frame_used s k" for k
    using that used [OF that(1)] by (auto simp: clear_of_bitmap_def mm demo_map_def)
  moreover have "unat (bitmap (PHYS_MEMORY_MAP s)) + unat (bitmap_size (PHYS_MEMORY_MAP s)) \<le> 2 ^ 64"
    by (simp add: mm demo_map_def)
  ultimately show "pmm_inv s" unfolding pmm_inv_def Let_def f by simp
  show av: "avail s = {1..<20006}" using used by (auto simp: avail_def f)
  have "{1..<20006} \<inter> {..<20006} = {1..<20006 :: nat}" by auto
  then show "pool s = 20005" by (simp add: pool_def f av)
qed

definition demo_boot :: vmm_state where
  "demo_boot = \<lparr>memory = (\<lambda>x. 0)(0x8000000 := 1, 0x80009C4 := 0xC0), PHYS_MEMORY_MAP = demo_map,
     KERNEL_PAGE_TABLE_ROOT = 0, BASE_ADDR = \<lparr>physical_base_address = 0, virtual_base_address = 0\<rparr>,
     PMRs = [], MMAP = [], cr3 = 0, invlpg = [], klog = []\<rparr>"

lemma bitmap_byte_eq:
  assumes "q < 2501"
  shows "0x8000000 + of_nat q = (0x8000000 :: u64) \<longleftrightarrow> q = 0" "0x8000000 + of_nat q = (0x80009C4 :: u64) \<longleftrightarrow> q = 2500"
  using assms by (simp_all add: word_unat_eq_iff unat_add_of_nat unat_of_nat64)

lemma demo_boot_bitmap: "demo_bitmap demo_boot"
  using bitmap_byte_eq by (simp add: demo_bitmap_def demo_boot_def)

definition demo_base :: stivale2_struct_tag_kernel_base_address where
  "demo_base = \<lparr>physical_base_address = 0x200000, virtual_base_address = 0xffffffff80000000\<rparr>"

definition demo_pmr :: stivale2_pmr where
  "demo_pmr = \<lparr>pmr_base = 0xffffffff80000000, pmr_length = 0x1000, pmr_permissions = 5\<rparr>"

theorem InitPageTable_correct_witness:
  "\<exists>s'. InitPageTable [] demo_base [demo_pmr] demo_boot = Some (True, s') \<and> KernelVAddrToPAddr 0xffff800000005000 s' = 0x5000
    \<and> mapping s' (cr3 s') 0xffffffff80000000 = 0x200003 \<and> mapping s' (cr3 s') 0 = 0"
proof -
  let ?rs = "boot_ranges demo_base [demo_pmr] []"
  have rs: "?rs = [four_gb_range KERNEL_DATA,
      \<lparr>range_base = 0x200000, range_bound = 0x201000, range_offset = 0xffffffff7fe00000, range_flags = ucast KERNEL_PAGE\<rparr>,
      four_gb_range 0, four_gb_range KERNEL_DATA]"
    by (simp add: boot_ranges_def kernel_ranges_def pmr_range_def demo_base_def demo_pmr_def)
  have "list_all range_ok ?rs" "ranges_cost ?rs = 18435"
    unfolding rs by (simp_all add: range_ok_def four_gb_range_def pages_between_def kernel_page_flags flags_ok_3 blocks_def KERNEL_DATA_def)
  then obtain s' where s': "InitPageTable [] demo_base [demo_pmr] demo_boot = Some (True, s')"
    and m: "\<And>w. mapping s' (cr3 s') w = (case overlay ?rs (page_number w) of None \<Rightarrow> 0 | Some e \<Rightarrow> e)"
    and k: "\<And>k. 0 < k \<Longrightarrow> k < 2 ^ 20 \<Longrightarrow> KernelVAddrToPAddr (KERNEL_DATA + frame_addr k) s' = frame_addr k"
    using InitPageTable_correct [OF demo_bitmap_inv(1) [OF demo_boot_bitmap], of demo_base "[demo_pmr]" "[]"]
      demo_bitmap_inv(2) [OF demo_boot_bitmap] by auto
  have "overlay ?rs (page_number 0xffffffff80000000) = Some 0x200003" "overlay ?rs (page_number 0) = None"
    unfolding rs by (simp_all add: range_page_def page_index_def page_number_def four_gb_range_def pages_between_def KERNEL_DATA_def kernel_page_flags)
  then have "mapping s' (cr3 s') 0xffffffff80000000 = 0x200003" "mapping s' (cr3 s') 0 = 0" using m by simp_all
  moreover have "KernelVAddrToPAddr 0xffff800000005000 s' = 0x5000" using k [of 5] by (simp add: KERNEL_DATA_def frame_addr_def)
  ultimately show ?thesis using s' by blast
qed

end
