(* ===== verification/Elf_Load.thy ===== *)
theory Elf_Load
  imports Proc Page_Map
begin

text \<open>
  What the loader of \<open>Proc\<close> does to a page map: a page of a segment is copied into a fresh frame and mapped,
  a segment is loaded page by page, and the segments of a file one after the other. The lemmas rest on \<open>managed\<close>, the
  bytes that belong to a page map: the file and the loaded frames stay outside of them.
\<close>

unbundle bit_operations_syntax

section \<open>One page\<close>

definition load_page :: "u64 \<Rightarrow> u64 \<Rightarrow> u64 \<Rightarrow> 'a pmm_state_scheme \<Rightarrow> 'a pmm_state_scheme option" where
  "load_page root src v s = do {
     (frame, s) \<leftarrow> AllocFirstFrame s;
     (_, s) \<leftarrow> MapPage root v frame USER_PROC_PAGE (s\<lparr>memory := memmove (memory s) frame src 0x1000\<rparr>);
     Some s }"

lemma load_pages_step:
  "load_pages root segment base bound off s =
     (if off < bound then Option.bind (load_page root (segment + off) (base + off) s) (load_pages root segment base bound (off + 0x1000))
      else Some s)"
  by (subst load_pages.simps) (simp add: load_page_def Let_def split: option.splits bind_splits)

lemma flags_ok_user: "flags_ok USER_PROC_PAGE"
  by (simp add: flags_ok_def USER_PROC_PAGE_def PRESENT_def READ_WRITABLE_def USER_ACCESSIBLE_def push_bit_eq_mult)

definition page_loaded :: "u64 \<Rightarrow> u64 \<Rightarrow> u64 \<Rightarrow> nat \<Rightarrow> 'a pmm_state_scheme \<Rightarrow> 'a pmm_state_scheme \<Rightarrow> bool" where
  "page_loaded root src v k s s' \<longleftrightarrow>
     (\<forall>w. page_number w = page_number v \<longrightarrow> mapping s' root w = frame_addr k OR ucast USER_PROC_PAGE)
   \<and> (\<forall>j < 4096. memory s' (frame_addr k + of_nat j) = memory s (src + of_nat j))
   \<and> outside root (frame_addr k) 4096 s'"

lemma frame_byte: "k < 2 ^ 52 \<Longrightarrow> j < 4096 \<Longrightarrow> in_range (frame_addr k + of_nat j) (frame_addr k) 4096"
  by (simp add: in_range_def unat_of_nat)

lemma copied_frame:
  assumes "k < 2 ^ 52" "unat src + 4096 \<le> 2 ^ 64"
  shows "j < 4096 \<Longrightarrow> memmove m (frame_addr k) src 0x1000 (frame_addr k + of_nat j) = m (src + of_nat j)"
    and "\<not> in_range x (frame_addr k) 4096 \<Longrightarrow> memmove m (frame_addr k) src 0x1000 x = m x"
proof -
  have "4096 * k + 4096 \<le> 2 ^ 64" using assms(1) by simp
  then have "unat (frame_addr k) + unat (0x1000 :: u64) \<le> 2 ^ 64" using unat_frame_addr [OF assms(1)] by simp
  note m = memmove_apply [OF this, of src m] assms(2)
  show "j < 4096 \<Longrightarrow> memmove m (frame_addr k) src 0x1000 (frame_addr k + of_nat j) = m (src + of_nat j)"
    using m frame_byte [OF assms(1)] by simp
  show "\<not> in_range x (frame_addr k) 4096 \<Longrightarrow> memmove m (frame_addr k) src 0x1000 x = m x"
    using m by simp
qed

lemma load_page_live:
  assumes ok: "tables_ok s root" and links: "links_ok s root" and free: "5 \<le> pool s"
    and out: "outside root src 4096 s"
  shows "\<exists>k s'. load_page root src v s = Some s' \<and> tables_ok s' root \<and> links_ok s' root \<and> keeps root s s'
    \<and> pmm_state.more s' = pmm_state.more s \<and> pool s \<le> pool s' + 4 \<and> k \<in> avail s - avail s' \<and> page_loaded root src v k s s'
    \<and> (\<forall>w. page_number w \<noteq> page_number v \<longrightarrow> mapping s' root w = mapping s root w)"
proof -
  note inv = tables_okD(1) [OF ok]
  have src: "unat src + 4096 \<le> 2 ^ 64" using out by (simp add: outside_def)
  obtain k s1 where k: "AllocFirstFrame s = Some (frame_addr k, s1)" "frame_taken k s s1" "k < bitmap_frames s"
    "pool s \<le> pool s1 + 1" using AllocFirstFrame_pool [OF inv] free by force
  note av = frame_taken_avail [OF k(2,3)] and ok1 = frame_taken_tables_ok [OF ok k(2,3)]
    and kp = frame_taken_keeps [OF ok k(2,3)] and mp = frame_taken_map [OF ok k(2,3)]
  have more: "pmm_state.more s1 = pmm_state.more s" using AllocFirstFrame_sound [OF inv k(1)] by auto
  have k52: "k < 2 ^ 52" using availD(5) [OF inv av(1)] .
  define s2 where "s2 = s1\<lparr>memory := memmove (memory s1) (frame_addr k) src 0x1000\<rparr>"
  note cp = copied_frame [OF k52 src, of _ "memory s1"]
  have other: "memory s2 x = memory s1 x" if "\<not> in_range x (frame_addr k) 4096" for x
    using cp(2) [OF that] by (simp add: s2_def)
  have same: "same_managed root s1 s2"
    using other kp(2) unfolding same_managed_def by (auto simp: s2_def)
  note sm = same_managed_tables [OF ok1 same] and sp = same_managed_map [OF ok1 same]
  have "4 \<le> pool s2" using k(4) free sp(2) by simp
  then obtain s' where s': "MapPage root v (frame_addr k) USER_PROC_PAGE s2 = Some (True, s')" "links_ok s' root" "pool s2 \<le> pool s' + 3"
    using MapPage_live [OF sm(4) sp(4) [OF mp(2) [OF links]] flags_ok_user] by blast
  note e = MapPage_effect [OF sm(4) flags_ok_user s'(1)]
  have "load_page root src v s = Some s'" using k(1) s'(1) by (simp add: load_page_def s2_def)
  moreover have "keeps root s s2"
    using kp(1) other av(1) sp(3) unfolding keeps_def sm(1) managed_def [of s] by metis
  then have "keeps root s s'" using e(4) by (rule keeps_trans)
  moreover have "pmm_state.more s' = pmm_state.more s" using e(2) more by (simp add: s2_def)
  moreover have "k \<in> avail s - avail s'" using av(1,2) sm(1) e(4) by (auto simp: keeps_def)
  moreover have "4096 * k + 4096 \<le> 2 ^ 64" using k52 by simp
  then have "outside root (frame_addr k) 4096 s2"
    using kp(2) [OF frame_byte [OF k52]] sp(3) unat_frame_addr [OF k52] by (simp add: outside_def)
  note frame = outside_keeps [OF e(4) this]
  have "memory s' (frame_addr k + of_nat j) = memory s (src + of_nat j)" if "j < 4096" for j
  proof -
    have "memory s' (frame_addr k + of_nat j) = memory s2 (frame_addr k + of_nat j)" using frame that by simp
    also have "\<dots> = memory s1 (src + of_nat j)" using cp(1) [OF that] by (simp add: s2_def)
    also have "\<dots> = memory s (src + of_nat j)" using outside_keeps [OF kp(1) out] that by simp
    finally show ?thesis .
  qed
  then have "page_loaded root src v k s s'" using e(3) frame by (simp add: page_loaded_def)
  moreover have "mapping s' root w = mapping s root w" if "page_number w \<noteq> page_number v" for w
    using e(3) that sp(1) mp(1) by simp
  moreover have "pool s \<le> pool s' + 4" using k(4) s'(3) sp(2) by simp
  ultimately show ?thesis using e(1) s'(2) by blast
qed

section \<open>A segment\<close>

text \<open>The frames \<open>ks\<close> hold consecutive pages of the file and are mapped at consecutive pages; the other pages
  are mapped as before.\<close>

definition segment_loaded ::
  "u64 \<Rightarrow> u64 \<Rightarrow> u64 \<Rightarrow> nat list \<Rightarrow> 'a pmm_state_scheme \<Rightarrow> 'a pmm_state_scheme \<Rightarrow> bool" where
  "segment_loaded root src base ks s s' \<longleftrightarrow>
     (\<forall>i < length ks. page_loaded root (src + of_nat (4096 * i)) (base + of_nat (4096 * i)) (ks ! i) s s')
   \<and> (\<forall>w. (\<forall>i < length ks. page_number w \<noteq> page_number (base + of_nat (4096 * i))) \<longrightarrow> mapping s' root w = mapping s root w)"

lemma segment_loaded_Cons:
  assumes first: "page_loaded root src base k s s1" "\<And>w. page_number w \<noteq> page_number base \<Longrightarrow> mapping s1 root w = mapping s root w"
    and rest: "segment_loaded root (src + 4096) (base + 4096) ks s1 s'"
    and kept: "keeps root s s1" "keeps root s1 s'" and src: "outside root src (4096 + 4096 * length ks) s"
    and n: "length ks < 2 ^ 36"
  shows "segment_loaded root src base (k # ks) s s'"
  unfolding segment_loaded_def
proof (intro conjI allI impI)
  note rest' = rest [unfolded segment_loaded_def]
  have shift: "a + of_nat (4096 * Suc i) = a + 4096 + of_nat (4096 * i)" for a :: u64 and i by (simp add: algebra_simps)
  have other: "page_number (base + 4096 + of_nat (4096 * i)) \<noteq> page_number base" if "i < length ks" for i
    unfolding shift [symmetric] using that n by (intro page_number_distinct) simp_all
  fix i assume i: "i < length (k # ks)"
  show "page_loaded root (src + of_nat (4096 * i)) (base + of_nat (4096 * i)) ((k # ks) ! i) s s'"
  proof (cases i)
    case 0
    have "mapping s' root w = mapping s1 root w" if "page_number w = page_number base" for w
      using rest' other that by (metis (no_types, lifting))
    moreover have "outside root (frame_addr k) 4096 s1" using first(1) by (simp add: page_loaded_def)
    note outside_keeps [OF kept(2) this]
    ultimately show ?thesis using first(1) 0 by (simp add: page_loaded_def)
  next
    case (Suc j)
    then have j: "j < length ks" using i by simp
    have "4096 + 4096 * length ks = 4096 * Suc j + (4096 + 4096 * (length ks - Suc j))" using j by (simp add: algebra_simps)
    then have "outside root (src + of_nat (4096 * Suc j)) 4096 s"
      using src outside_split by metis
    then have "memory s1 (src + of_nat (4096 * Suc j) + of_nat l) = memory s (src + of_nat (4096 * Suc j) + of_nat l)" if "l < 4096" for l
      using outside_keeps [OF kept(1)] that by blast
    then show ?thesis using rest' j unfolding Suc page_loaded_def shift by simp
  qed
next
  fix w assume w: "\<forall>i < length (k # ks). page_number w \<noteq> page_number (base + of_nat (4096 * i))"
  have "page_number w \<noteq> page_number base" using w [rule_format, of 0] by simp
  moreover have "page_number w \<noteq> page_number (base + 4096 + of_nat (4096 * i))" if "i < length ks" for i
    using w [rule_format, of "Suc i"] that by (simp add: algebra_simps)
  then have "mapping s' root w = mapping s1 root w" using rest by (simp add: segment_loaded_def)
  ultimately show "mapping s' root w = mapping s root w" using first(2) by simp
qed

lemma load_pages_live:
  assumes "tables_ok s root" "links_ok s root" and b: "unat bound + 4096 \<le> 2 ^ 64"
    and "n = pages_between off bound" "n \<le> 2 ^ 36" "4 * n + 1 \<le> pool s" "outside root (segment + off) (4096 * n) s"
  shows "\<exists>ks s'. load_pages root segment base bound off s = Some s' \<and> tables_ok s' root \<and> links_ok s' root \<and> keeps root s s'
    \<and> pmm_state.more s' = pmm_state.more s \<and> pool s \<le> pool s' + 4 * n \<and> length ks = n \<and> distinct ks
    \<and> set ks \<subseteq> avail s - avail s' \<and> segment_loaded root (segment + off) (base + off) ks s s'"
  using assms(1,2,4-)
proof (induction n arbitrary: off s)
  case 0
  then have "\<not> off < bound" using pages_between_step [OF _ b] by force
  then show ?case using 0 by (intro exI [of _ "[]"] exI [of _ s]) (simp add: load_pages_step segment_loaded_def)
next
  case (Suc n)
  have lt: "off < bound" using Suc.prems(3) pages_between_0 by force
  have n: "n = pages_between (off + 4096) bound" using pages_between_step [OF lt b] Suc.prems(3) by simp
  have out: "outside root (segment + off) (4096 + 4096 * n) s" using Suc.prems(6) by (simp add: algebra_simps)
  note o2 = outside_split [OF out]
  have "5 \<le> pool s" using Suc.prems(5) by simp
  from load_page_live [OF Suc.prems(1,2) this, of "segment + off" "base + off"] o2(1) obtain k s1 where
    s1: "load_page root (segment + off) (base + off) s = Some s1" "tables_ok s1 root" "links_ok s1 root" "keeps root s s1"
    "pmm_state.more s1 = pmm_state.more s" "pool s \<le> pool s1 + 4" "k \<in> avail s - avail s1" "page_loaded root (segment + off) (base + off) k s s1"
    "\<forall>w. page_number w \<noteq> page_number (base + off) \<longrightarrow> mapping s1 root w = mapping s root w"
    by blast
  have "outside root (segment + (off + 4096)) (4096 * n) s1"
    using outside_keeps [OF s1(4) o2(2)] by (simp add: add.assoc)
  then have "\<exists>ks s'. load_pages root segment base bound (off + 4096) s1 = Some s' \<and> tables_ok s' root \<and> links_ok s' root \<and> keeps root s1 s'
    \<and> pmm_state.more s' = pmm_state.more s1 \<and> pool s1 \<le> pool s' + 4 * n \<and> length ks = n \<and> distinct ks
    \<and> set ks \<subseteq> avail s1 - avail s' \<and> segment_loaded root (segment + (off + 4096)) (base + (off + 4096)) ks s1 s'"
    using Suc.prems(4,5) s1(6) n by (intro Suc.IH [OF s1(2,3)]) auto
  then obtain ks s' where IH: "load_pages root segment base bound (off + 4096) s1 = Some s'" "tables_ok s' root" "links_ok s' root"
    "keeps root s1 s'" "pmm_state.more s' = pmm_state.more s1" "pool s1 \<le> pool s' + 4 * n" "length ks = n" "distinct ks"
    "set ks \<subseteq> avail s1 - avail s'" "segment_loaded root (segment + (off + 4096)) (base + (off + 4096)) ks s1 s'" by blast
  have av: "avail s1 \<subseteq> avail s" "avail s' \<subseteq> avail s1" using s1(4) IH(4) by (simp_all add: keeps_def)
  have "load_pages root segment base bound off s = Some s'"
    using lt s1(1) IH(1) by (subst load_pages_step) simp
  moreover have "segment_loaded root (segment + off) (base + off) (k # ks) s s'"
    using s1 IH out Suc.prems(4) by (intro segment_loaded_Cons [of _ _ _ _ _ s1]) (auto simp: add.assoc)
  moreover have "distinct (k # ks)" "set (k # ks) \<subseteq> avail s - avail s'" using IH(8,9) s1(7) av by auto
  moreover have "keeps root s s'" using s1(4) IH(4) by (rule keeps_trans)
  ultimately show ?case using IH(2,3,5,6,7) s1(5,6) by (intro exI [of _ "k # ks"] exI [of _ s']) auto
qed

section \<open>The segments of a file\<close>

lemma read_phdr_cong:
  assumes "\<And>x. in_range x p 56 \<Longrightarrow> m' x = m x"
  shows "read_phdr m' p = read_phdr m p"
proof -
  have "load32 m' (p + j) = load32 m (p + j)" if "unat j + 4 \<le> 56" for j
    using field_range [OF _ that] by (intro c32.load_cong assms) simp
  moreover have "load64 m' (p + j) = load64 m (p + j)" if "unat j + 8 \<le> 56" for j
    using field_range [OF _ that] by (intro c64.load_cong assms) simp
  moreover have "load32 m' p = load32 m p" using calculation(1) [of 0] by simp
  ultimately show ?thesis by (simp add: read_phdr_def)
qed

lemma read_elf_hdr_cong:
  assumes "\<And>x. in_range x p 64 \<Longrightarrow> m' x = m x"
  shows "read_elf_hdr m' p = read_elf_hdr m p"
proof -
  have "load16 m' (p + j) = load16 m (p + j)" if "unat j + 2 \<le> 64" for j
    using field_range [OF _ that] by (intro c16.load_cong assms) simp
  moreover have "load32 m' (p + j) = load32 m (p + j)" if "unat j + 4 \<le> 64" for j
    using field_range [OF _ that] by (intro c32.load_cong assms) simp
  moreover have "load64 m' (p + j) = load64 m (p + j)" if "unat j + 8 \<le> 64" for j
    using field_range [OF _ that] by (intro c64.load_cong assms) simp
  moreover have "m' (p + j) = m (p + j)" if "unat j < 64" for j
    using byte_field_range [OF that] by (rule assms)
  ultimately show ?thesis by (simp add: read_elf_hdr_def)
qed

lemma in_range_ex: "in_range x a n \<Longrightarrow> \<exists>j < n. x = a + of_nat j"
  by (intro exI [of _ "unat (x - a)"]) (simp add: in_range_def)

text \<open>The number of pages the loop of \<^verbatim>\<open>parse_elf\<close> loads for a segment.\<close>

definition segment_pages :: "elf_phdr_t \<Rightarrow> nat" where
  "segment_pages h = (if phdr_type h = elf_phdr_seg ELF_PHDR_LOAD
     then (unat (phdr_vaddr h) + unat (phdr_mem_size h) + 4095) div 4096 else 0)"

lemma segment_bound_pages:
  assumes "unat (phdr_vaddr h) + unat (phdr_mem_size h) + 8192 \<le> 2 ^ 64"
  shows "unat (segment_bound h) = 4096 * ((unat (phdr_vaddr h) + unat (phdr_mem_size h) + 4095) div 4096)"
proof -
  have "phdr_vaddr h + phdr_mem_size h + push_bit 12 1 - 1 = phdr_vaddr h + phdr_mem_size h + 4095"
    by (simp add: push_bit_eq_mult)
  moreover have u: "unat (phdr_vaddr h + phdr_mem_size h + 4095) = unat (phdr_vaddr h) + unat (phdr_mem_size h) + 4095"
    using assms by (subst unat_add_no_wrap; simp add: unat_add_no_wrap)
  ultimately have "unat (segment_bound h) = unat (phdr_vaddr h + phdr_mem_size h + 4095) div 2 ^ 12 * 2 ^ 12"
    unfolding segment_bound_def by (simp only: unat_clear_low_bits mult.commute)
  then show ?thesis unfolding u by simp
qed

lemma load_segment_live:
  assumes ok: "tables_ok s root" "links_ok s root" and h: "phdr_type h = elf_phdr_seg ELF_PHDR_LOAD \<Longrightarrow> unat (phdr_vaddr h) + unat (phdr_mem_size h) + 8192 \<le> 2 ^ 64"
    and n: "segment_pages h \<le> 2 ^ 36" "4 * segment_pages h + 1 \<le> pool s"
    and src: "outside root (raw + phdr_offset h) (4096 * segment_pages h) s"
  shows "\<exists>ks s'. load_segment root raw h s = Some s' \<and> tables_ok s' root \<and> links_ok s' root \<and> keeps root s s'
    \<and> pmm_state.more s' = pmm_state.more s \<and> pool s \<le> pool s' + 4 * segment_pages h \<and> length ks = segment_pages h \<and> distinct ks
    \<and> set ks \<subseteq> avail s - avail s' \<and> segment_loaded root (raw + phdr_offset h) (phdr_vaddr h) ks s s'"
proof (cases "phdr_type h = elf_phdr_seg ELF_PHDR_LOAD")
  case True
  have b: "unat (segment_bound h) = 4096 * segment_pages h"
    using True segment_bound_pages [OF h [OF True]] by (simp add: segment_pages_def)
  have "4096 * segment_pages h + 4096 \<le> unat (phdr_vaddr h) + unat (phdr_mem_size h) + 8191"
    unfolding segment_pages_def using times_div_less_eq_dividend [of 4096] by auto
  then have "unat (segment_bound h) + 4096 \<le> 2 ^ 64" using h [OF True] b by linarith
  moreover have "segment_pages h = pages_between 0 (segment_bound h)" by (simp add: pages_between_def b)
  ultimately have "\<exists>ks s'. load_pages root (raw + phdr_offset h) (phdr_vaddr h) (segment_bound h) 0 s = Some s' \<and> tables_ok s' root \<and> links_ok s' root \<and> keeps root s s'
    \<and> pmm_state.more s' = pmm_state.more s \<and> pool s \<le> pool s' + 4 * segment_pages h \<and> length ks = segment_pages h \<and> distinct ks
    \<and> set ks \<subseteq> avail s - avail s' \<and> segment_loaded root (raw + phdr_offset h + 0) (phdr_vaddr h + 0) ks s s'"
    using src n by (intro load_pages_live [OF ok]) simp_all
  then show ?thesis using True by (simp add: load_segment_def)
next
  case False
  then show ?thesis
    using ok by (intro exI [of _ "[]"] exI [of _ s]) (simp add: load_segment_def segment_pages_def segment_loaded_def)
qed

text \<open>
  The specification: which page of the file a virtual page shows. A page of a segment is found by its distance from
  the first page, modulo the size of the address space; of the segments that cover a page the last one counts.
\<close>

definition segment_page :: "u64 \<Rightarrow> elf_phdr_t \<Rightarrow> u64 \<Rightarrow> u64 option" where
  "segment_page raw h pn =
     (let i = page_index (phdr_vaddr h) pn
      in if i < segment_pages h then Some (raw + phdr_offset h + of_nat (4096 * i)) else None)"

primrec image_page :: "u64 \<Rightarrow> elf_phdr_t list \<Rightarrow> u64 \<Rightarrow> u64 option" where
  "image_page raw [] pn = None"
| "image_page raw (h # hs) pn = (case image_page raw hs pn of Some a \<Rightarrow> Some a | None \<Rightarrow> segment_page raw h pn)"

lemma segment_page_at:
  assumes "i < segment_pages h" "segment_pages h \<le> 2 ^ 36"
  shows "segment_page raw h (page_number (phdr_vaddr h + of_nat (4096 * i))) = Some (raw + phdr_offset h + of_nat (4096 * i))"
  using page_index_at [of i "phdr_vaddr h"] assms by (simp add: segment_page_def Let_def)

lemma segment_page_SomeD:
  assumes "segment_page raw h (page_number w) = Some a"
  obtains i where "i < segment_pages h" "page_number w = page_number (phdr_vaddr h + of_nat (4096 * i))"
    "a = raw + phdr_offset h + of_nat (4096 * i)"
proof -
  let ?i = "page_index (phdr_vaddr h) (page_number w)"
  have "page_number w = page_number (phdr_vaddr h + of_nat (4096 * ?i))" by (rule page_index_inv)
  moreover have "?i < segment_pages h" "a = raw + phdr_offset h + of_nat (4096 * ?i)"
    using assms by (simp_all add: segment_page_def Let_def split: if_splits)
  ultimately show thesis using that by blast
qed

lemma segment_page_NoneD:
  assumes "segment_page raw h (page_number w) = None" "i < segment_pages h" "segment_pages h \<le> 2 ^ 36"
  shows "page_number w \<noteq> page_number (phdr_vaddr h + of_nat (4096 * i))"
proof
  assume "page_number w = page_number (phdr_vaddr h + of_nat (4096 * i))"
  then have "segment_page raw h (page_number w) = Some (raw + phdr_offset h + of_nat (4096 * i))"
    using segment_page_at [OF assms(2,3)] by (simp only:)
  then show False using assms(1) by simp
qed

text \<open>A state in which the pages of the file are loaded as specified.\<close>

definition image_loaded :: "u64 \<Rightarrow> (u64 \<Rightarrow> u64 option) \<Rightarrow> 'a pmm_state_scheme \<Rightarrow> 'a pmm_state_scheme \<Rightarrow> bool" where
  "image_loaded root img s s' \<longleftrightarrow> (\<forall>w. case img (page_number w) of
     None \<Rightarrow> mapping s' root w = mapping s root w
   | Some a \<Rightarrow> \<exists>k \<in> avail s. page_loaded root a w k s s')"

lemma image_loadedD:
  assumes "image_loaded root img s s'"
  shows "img (page_number w) = None \<Longrightarrow> mapping s' root w = mapping s root w"
    and "img (page_number w) = Some a \<Longrightarrow> \<exists>k \<in> avail s. page_loaded root a w k s s'"
  using assms [unfolded image_loaded_def, THEN spec, of w] by simp_all

lemma segment_image:
  assumes "segment_loaded root (raw + phdr_offset h) (phdr_vaddr h) ks s s'" "length ks = segment_pages h"
    "set ks \<subseteq> avail s" "segment_pages h \<le> 2 ^ 36"
  shows "image_loaded root (segment_page raw h) s s'"
  unfolding image_loaded_def
proof
  note sl = assms(1) [unfolded segment_loaded_def assms(2)]
  fix w
  show "case segment_page raw h (page_number w) of None \<Rightarrow> mapping s' root w = mapping s root w
    | Some a \<Rightarrow> \<exists>k \<in> avail s. page_loaded root a w k s s'"
  proof (cases "segment_page raw h (page_number w)")
    case None
    have "mapping s' root w = mapping s root w"
      by (rule sl [THEN conjunct2, rule_format]) (rule segment_page_NoneD [OF None _ assms(4)])
    then show ?thesis using None by simp
  next
    case (Some a)
    then obtain i where i: "i < segment_pages h" "page_number w = page_number (phdr_vaddr h + of_nat (4096 * i))"
      "a = raw + phdr_offset h + of_nat (4096 * i)" by (rule segment_page_SomeD)
    have "page_loaded root a (phdr_vaddr h + of_nat (4096 * i)) (ks ! i) s s'"
      unfolding i(3) by (rule sl [THEN conjunct1, rule_format, OF i(1)])
    then have "page_loaded root a w (ks ! i) s s'" unfolding page_loaded_def i(2) .
    moreover have "ks ! i \<in> avail s" using nth_mem [of i ks] assms(2,3) i(1) by auto
    ultimately show ?thesis unfolding Some option.case by (rule bexI)
  qed
qed

lemma image_loaded_trans:
  assumes first: "image_loaded root img s s1" and rest: "image_loaded root img' s1 s'"
    and kept: "keeps root s s1" "keeps root s1 s'"
    and src: "\<And>pn a. img' pn = Some a \<Longrightarrow> outside root a 4096 s"
  shows "image_loaded root (\<lambda>pn. case img' pn of Some a \<Rightarrow> Some a | None \<Rightarrow> img pn) s s'"
  unfolding image_loaded_def
proof
  fix w
  show "case (case img' (page_number w) of Some a \<Rightarrow> Some a | None \<Rightarrow> img (page_number w)) of
      None \<Rightarrow> mapping s' root w = mapping s root w | Some a \<Rightarrow> \<exists>k \<in> avail s. page_loaded root a w k s s'"
  proof (cases "img' (page_number w)")
    case (Some a)
    then obtain k where "k \<in> avail s1" "page_loaded root a w k s1 s'" using image_loadedD(2) [OF rest] by blast
    moreover have "avail s1 \<subseteq> avail s" using kept(1) by (simp add: keeps_def)
    ultimately show ?thesis using Some outside_keeps [OF kept(1) src [OF Some]] by (auto simp: page_loaded_def)
  next
    case None
    then have m: "mapping s' root v = mapping s1 root v" if "page_number v = page_number w" for v
      using image_loadedD(1) [OF rest] that by simp
    show ?thesis
    proof (cases "img (page_number w)")
      case (Some a)
      then obtain k where k: "k \<in> avail s" "page_loaded root a w k s s1" using image_loadedD(2) [OF first] by blast
      then have "outside root (frame_addr k) 4096 s1" by (simp add: page_loaded_def)
      then have "page_loaded root a w k s s'" using k(2) outside_keeps [OF kept(2)] m by (simp add: page_loaded_def)
      then show ?thesis using None Some k(1) by auto
    next
      case none: None
      then have "mapping s1 root w = mapping s root w" by (rule image_loadedD(1) [OF first])
      then show ?thesis using None none m by simp
    qed
  qed
qed

section \<open>Loading the file\<close>

definition elf_phdrs :: "mem \<Rightarrow> u64 \<Rightarrow> elf_phdr_t list" where
  "elf_phdrs m raw =
     (let hdr = read_elf_hdr m raw
      in map (\<lambda>i. read_phdr m (raw + elf_phdr_offset hdr + 56 * of_nat i)) [0..<unat (phdr_num_entries hdr)])"

text \<open>
  A file of \<open>n\<close> bytes that is well-formed for the loader: its headers and all bytes the loader copies are in it. The
  loader copies whole pages, as many as lie below the end of the segment in virtual memory.
\<close>

definition phdr_ok :: "nat \<Rightarrow> elf_phdr_t \<Rightarrow> bool" where
  "phdr_ok n h \<longleftrightarrow> (phdr_type h = elf_phdr_seg ELF_PHDR_LOAD \<longrightarrow>
     unat (phdr_vaddr h) + unat (phdr_mem_size h) + 8192 \<le> 2 ^ 64 \<and> segment_pages h \<le> 2 ^ 36
   \<and> unat (phdr_offset h) + 4096 * segment_pages h \<le> n)"

definition elf_ok :: "u64 \<Rightarrow> nat \<Rightarrow> mem \<Rightarrow> bool" where
  "elf_ok raw n m \<longleftrightarrow> (let hdr = read_elf_hdr m raw
     in 64 \<le> n \<and> unat (elf_phdr_offset hdr) + 56 * unat (phdr_num_entries hdr) \<le> n \<and> list_all (phdr_ok n) (elf_phdrs m raw))"

lemma phdr_ok_pages: "phdr_ok n h \<Longrightarrow> segment_pages h \<le> 2 ^ 36"
  by (auto simp: phdr_ok_def segment_pages_def)

lemma segment_page_in_file:
  assumes "phdr_ok n h" "segment_page raw h pn = Some a"
  shows "\<exists>off. off + 4096 \<le> n \<and> a = raw + of_nat off"
proof -
  obtain i where i: "i < segment_pages h" "a = raw + phdr_offset h + of_nat (4096 * i)"
    using assms(2) by (auto simp: segment_page_def Let_def split: if_splits)
  then have "phdr_type h = elf_phdr_seg ELF_PHDR_LOAD" by (auto simp: segment_pages_def split: if_splits)
  then have "unat (phdr_offset h) + 4096 * segment_pages h \<le> n" using assms(1) by (simp add: phdr_ok_def)
  moreover have "4096 * i + 4096 \<le> 4096 * segment_pages h" using i(1) by simp
  ultimately have "unat (phdr_offset h) + 4096 * i + 4096 \<le> n" by linarith
  moreover have "a = raw + of_nat (unat (phdr_offset h) + 4096 * i)" unfolding i(2) of_nat_add by (simp add: add.assoc)
  ultimately show ?thesis by blast
qed

lemma image_page_in_file:
  "list_all (phdr_ok n) hs \<Longrightarrow> image_page raw hs pn = Some a \<Longrightarrow> \<exists>off. off + 4096 \<le> n \<and> a = raw + of_nat off"
  by (induction hs) (auto split: option.splits intro: segment_page_in_file)

lemma image_page_outside:
  assumes "list_all (phdr_ok n) hs" "outside root raw n s" "image_page raw hs pn = Some a"
  shows "outside root a 4096 s"
proof -
  obtain off where off: "off + 4096 \<le> n" "a = raw + of_nat off" using image_page_in_file [OF assms(1,3)] by blast
  then have "n = off + (4096 + (n - off - 4096))" by simp
  then show ?thesis unfolding off(2) using assms(2) outside_split by metis
qed

lemma load_segment_file:
  assumes "tables_ok s root" "links_ok s root" "phdr_ok n h" "outside root raw n s" "4 * segment_pages h + 1 \<le> pool s"
  shows "\<exists>s'. load_segment root raw h s = Some s' \<and> tables_ok s' root \<and> links_ok s' root \<and> keeps root s s'
    \<and> pmm_state.more s' = pmm_state.more s \<and> pool s \<le> pool s' + 4 * segment_pages h \<and> image_loaded root (segment_page raw h) s s'"
proof -
  note n = phdr_ok_pages [OF assms(3)]
  have "outside root (raw + phdr_offset h) (4096 * segment_pages h) s"
  proof (cases "phdr_type h = elf_phdr_seg ELF_PHDR_LOAD")
    case True
    then show ?thesis using assms(3) by (intro outside_sub [OF assms(4)]) (simp add: phdr_ok_def)
  qed (use unat_less64 [of "raw + phdr_offset h"] in \<open>simp add: outside_def segment_pages_def\<close>)
  then obtain ks s' where "load_segment root raw h s = Some s'" "tables_ok s' root" "links_ok s' root" "keeps root s s'"
    "pmm_state.more s' = pmm_state.more s" "pool s \<le> pool s' + 4 * segment_pages h" "length ks = segment_pages h"
    "set ks \<subseteq> avail s - avail s'" "segment_loaded root (raw + phdr_offset h) (phdr_vaddr h) ks s s'"
    using load_segment_live [OF assms(1,2) _ n assms(5), of raw] assms(3) unfolding phdr_ok_def by blast
  then show ?thesis using segment_image [of root raw h ks s s'] n by (intro exI [of _ s']) auto
qed

text \<open>The headers are the same in every state that keeps the file.\<close>

lemma file_headers:
  assumes "elf_ok raw n m" "n \<le> 2 ^ 64" "\<forall>j < n. m' (raw + of_nat j) = m (raw + of_nat j)"
  shows "read_elf_hdr m' raw = read_elf_hdr m raw"
    and "i < unat (phdr_num_entries (read_elf_hdr m raw)) \<Longrightarrow>
      read_phdr m' (raw + elf_phdr_offset (read_elf_hdr m raw) + 56 * of_nat i) = elf_phdrs m raw ! i"
proof -
  let ?o = "elf_phdr_offset (read_elf_hdr m raw)" and ?c = "unat (phdr_num_entries (read_elf_hdr m raw))"
  have n: "64 \<le> n" "unat ?o + 56 * ?c \<le> n" using assms(1) by (simp_all add: elf_ok_def Let_def)
  have eq: "m' x = m x" if "in_range x raw n" for x using in_range_ex [OF that] assms(3) by auto
  show "read_elf_hdr m' raw = read_elf_hdr m raw"
    by (rule read_elf_hdr_cong) (rule eq, erule in_range_mono [OF _ n(1)])
  show "read_phdr m' (raw + ?o + 56 * of_nat i) = elf_phdrs m raw ! i" if i: "i < ?c"
  proof -
    have "unat ?o + 56 * i + 56 \<le> n" using i n(2) by simp
    moreover from this have "unat (?o + of_nat (56 * i)) = unat ?o + 56 * i" using assms(2) by (intro unat_add_of_nat) simp
    ultimately have "unat (?o + of_nat (56 * i)) + 56 \<le> n" by simp
    note r = field_range [OF _ this assms(2)]
    have "read_phdr m' (raw + (?o + of_nat (56 * i))) = read_phdr m (raw + (?o + of_nat (56 * i)))"
      by (rule read_phdr_cong) (rule eq, erule r)
    then show ?thesis using i by (simp add: elf_phdrs_def Let_def add.assoc)
  qed
qed

definition file_pages :: "elf_phdr_t list \<Rightarrow> nat" where
  "file_pages hs = sum_list (map segment_pages hs)"

lemma phdr_index:
  assumes "i \<le> unat (c :: u16)"
  shows "of_nat i < (ucast c :: u64) \<longleftrightarrow> i < unat c"
proof -
  have "unat c < 2 ^ 16" using unsigned_less [of c] by simp
  then have "i < 2 ^ 64" "take_bit 64 (unat c) = unat c" using assms by (simp_all add: take_bit_nat_eq_self)
  then show ?thesis by (simp add: word_less_nat_alt unat_of_nat64 unsigned_ucast_eq)
qed

lemma load_segments_live:
  assumes elf: "elf_ok raw n m" and "tables_ok s root" "links_ok s root" "outside root raw n s"
    "\<forall>j < n. memory s (raw + of_nat j) = m (raw + of_nat j)"
    "hs = drop i (elf_phdrs m raw)" "i \<le> length (elf_phdrs m raw)" "4 * file_pages hs + 1 \<le> pool s"
  shows "\<exists>s'. load_segments root raw (raw + elf_phdr_offset (read_elf_hdr m raw)) (of_nat i) s = Some s'
    \<and> tables_ok s' root \<and> links_ok s' root \<and> keeps root s s' \<and> pmm_state.more s' = pmm_state.more s
    \<and> pool s \<le> pool s' + 4 * file_pages hs \<and> image_loaded root (image_page raw hs) s s'"
  using assms(2-)
proof (induction hs arbitrary: i s)
  let ?c = "phdr_num_entries (read_elf_hdr m raw)" and ?p = "raw + elf_phdr_offset (read_elf_hdr m raw)"
  have len: "length (elf_phdrs m raw) = unat ?c" by (simp add: elf_phdrs_def Let_def)
  case Nil
  then have "\<not> of_nat i < (ucast ?c :: u64)" using phdr_index [of i ?c] len by simp
  moreover have n: "n \<le> 2 ^ 64" using Nil.prems(3) by (simp add: outside_def)
  ultimately show ?case
    using Nil.prems file_headers(1) [OF elf n Nil.prems(4)]
    by (intro exI [of _ s]) (subst load_segments.simps, simp add: image_loaded_def)
next
  case (Cons h hs)
  let ?c = "phdr_num_entries (read_elf_hdr m raw)" and ?p = "raw + elf_phdr_offset (read_elf_hdr m raw)"
  have len: "length (elf_phdrs m raw) = unat ?c" by (simp add: elf_phdrs_def Let_def)
  have "drop i (elf_phdrs m raw) \<noteq> []" using Cons.prems(5) by auto
  then have i: "i < unat ?c" by (simp add: len)
  then have lt: "of_nat i < (ucast ?c :: u64)" using phdr_index [of i ?c] by simp
  have n: "n \<le> 2 ^ 64" using Cons.prems(3) by (simp add: outside_def)
  note hd = file_headers [OF elf n Cons.prems(4)]
  have h: "elf_phdrs m raw ! i = h" "hs = drop (Suc i) (elf_phdrs m raw)"
    using Cons.prems(5) i len by (metis Cons_nth_drop_Suc list.inject)+
  have oks: "list_all (phdr_ok n) (elf_phdrs m raw)" using elf by (simp add: elf_ok_def Let_def)
  then have "phdr_ok n h" using h(1) i len by (auto simp: list_all_length)
  then obtain s1 where s1: "load_segment root raw h s = Some s1" "tables_ok s1 root" "links_ok s1 root" "keeps root s s1"
    "pmm_state.more s1 = pmm_state.more s" "pool s \<le> pool s1 + 4 * segment_pages h" "image_loaded root (segment_page raw h) s s1"
    using load_segment_file [OF Cons.prems(1,2) _ Cons.prems(3), of h] Cons.prems(7) by (auto simp: file_pages_def)
  note out = outside_keeps [OF s1(4) Cons.prems(3)]
  have "\<exists>s'. load_segments root raw ?p (of_nat (Suc i)) s1 = Some s' \<and> tables_ok s' root \<and> links_ok s' root \<and> keeps root s1 s'
    \<and> pmm_state.more s' = pmm_state.more s1 \<and> pool s1 \<le> pool s' + 4 * file_pages hs \<and> image_loaded root (image_page raw hs) s1 s'"
    using s1 out Cons.prems(4,7) h(2) i len by (intro Cons.IH) (auto simp: file_pages_def)
  then obtain s' where IH: "load_segments root raw ?p (of_nat (Suc i)) s1 = Some s'" "tables_ok s' root" "links_ok s' root"
    "keeps root s1 s'" "pmm_state.more s' = pmm_state.more s1" "pool s1 \<le> pool s' + 4 * file_pages hs"
    "image_loaded root (image_page raw hs) s1 s'" by blast
  have "load_segments root raw ?p (of_nat i) s = Some s'"
    using lt hd(1) hd(2) [OF i] h(1) s1(1) IH(1) by (subst load_segments.simps) (simp add: add.commute)
  moreover have "list_all (phdr_ok n) hs" using oks h(2) by (auto simp: list_all_iff dest: in_set_dropD)
  then have "image_loaded root (\<lambda>pn. image_page raw (h # hs) pn) s s'"
    unfolding image_page.simps by (intro image_loaded_trans [OF s1(7) IH(7) s1(4) IH(4)]) (rule image_page_outside [OF _ Cons.prems(3)])
  ultimately show ?case
    using IH s1 keeps_trans [OF s1(4) IH(4)] by (intro exI [of _ s']) (simp add: file_pages_def)
qed

section \<open>Ascending segments\<close>

text \<open>
  In a file whose segments ascend, every page of a segment is shown at its address: a later segment starts above it, so
  the pages the loop adds after the end of a segment do no harm to it.
\<close>

definition last_page :: "elf_phdr_t \<Rightarrow> nat" where
  "last_page h = (unat (phdr_vaddr h) + unat (phdr_mem_size h) + 4095) div 4096"

definition ascending :: "elf_phdr_t list \<Rightarrow> bool" where
  "ascending hs \<longleftrightarrow> sorted_wrt (\<lambda>h h'. last_page h \<le> unat (phdr_vaddr h') div 4096) hs
     \<and> list_all (\<lambda>h. phdr_type h = elf_phdr_seg ELF_PHDR_LOAD \<and> last_page h \<le> 2 ^ 35) hs"

lemma segment_page_below:
  assumes "P < unat (phdr_vaddr h) div 4096" "last_page h \<le> 2 ^ 35" "unat pn = P"
  shows "segment_page raw h pn = None"
proof -
  let ?Q = "unat (phdr_vaddr h) div 4096"
  have q: "?Q \<le> 2 ^ 35" using assms(2) by (auto simp: last_page_def intro: order_trans [OF div_le_mono])
  then have "unat (page_number (phdr_vaddr h)) = ?Q" by (simp only: unat_page_number) simp
  moreover have "(P + 2 ^ 36 - ?Q) mod 2 ^ 36 = P + 2 ^ 36 - ?Q" using assms(1) q by (intro mod_less) simp
  ultimately have "page_index (phdr_vaddr h) pn = P + 2 ^ 36 - ?Q" by (simp only: page_index_def assms(3))
  moreover have "segment_pages h \<le> 2 ^ 35" using assms(2) by (simp add: segment_pages_def last_page_def)
  ultimately show ?thesis using q by (simp add: segment_page_def Let_def)
qed

lemma image_page_below:
  assumes "\<And>h. h \<in> set hs \<Longrightarrow> unat pn < unat (phdr_vaddr h) div 4096 \<and> last_page h \<le> 2 ^ 35"
  shows "image_page raw hs pn = None"
  using assms by (induction hs) (auto intro!: segment_page_below)

lemma image_page_append:
  "image_page raw (xs @ ys) pn = (case image_page raw ys pn of Some a \<Rightarrow> Some a | None \<Rightarrow> image_page raw xs pn)"
  by (induction xs) (auto split: option.splits)

lemma image_page_ascending:
  assumes asc: "ascending (xs @ h # ys)" and i: "unat (phdr_vaddr h) div 4096 + i < last_page h"
  shows "image_page raw (xs @ h # ys) (page_number (phdr_vaddr h + of_nat (4096 * i))) = Some (raw + phdr_offset h + of_nat (4096 * i))"
proof -
  let ?P = "unat (phdr_vaddr h) div 4096 + i" and ?pn = "page_number (phdr_vaddr h + of_nat (4096 * i))"
  have h: "phdr_type h = elf_phdr_seg ELF_PHDR_LOAD" "last_page h \<le> 2 ^ 35"
    and ys: "\<And>h'. h' \<in> set ys \<Longrightarrow> last_page h \<le> unat (phdr_vaddr h') div 4096 \<and> last_page h' \<le> 2 ^ 35"
    using asc by (auto simp: ascending_def sorted_wrt_append list_all_iff)
  have "?P < 2 ^ 36" using i h(2) by simp
  then have "unat ?pn = ?P" by (simp only: page_number_add mod_less)
  then have "image_page raw ys ?pn = None"
    using ys i by (intro image_page_below) (metis (no_types, lifting) order_less_le_trans)
  moreover have "i < segment_pages h" "segment_pages h \<le> 2 ^ 36" using i h by (auto simp: segment_pages_def last_page_def)
  note segment_page_at [OF this, of raw]
  ultimately show ?thesis by (simp add: image_page_append)
qed

lemma user_page_flags: "(ucast USER_PROC_PAGE :: u64) = 7"
  by (simp add: USER_PROC_PAGE_def PRESENT_def READ_WRITABLE_def USER_ACCESSIBLE_def push_bit_eq_mult)

text \<open>A user page that shows the bytes at \<open>a\<close> of an earlier state, in a frame that was free then.\<close>

definition user_page :: "u64 \<Rightarrow> u64 \<Rightarrow> u64 \<Rightarrow> 'a pmm_state_scheme \<Rightarrow> 'a pmm_state_scheme \<Rightarrow> bool" where
  "user_page root a w s s' \<longleftrightarrow> (\<exists>k \<in> avail s. mapping s' root w = frame_addr k OR 7 \<and> outside root (frame_addr k) 4096 s'
     \<and> (\<forall>j < 4096. memory s' (frame_addr k + of_nat j) = memory s (a + of_nat j)))"

lemma load_segments_fresh:
  assumes "pmm_inv s" and "elf_ok raw n (memory s)" and "unat raw + n \<le> 2 ^ 64" and "\<forall>j < n. \<not> allocator_owns s (raw + of_nat j)"
    and "4 * file_pages (elf_phdrs (memory s) raw) + 2 \<le> pool s"
  shows "\<exists>k s1 s'. AllocFirstFrame s = Some (frame_addr k, s1)
    \<and> load_segments (frame_addr k) raw (raw + elf_phdr_offset (read_elf_hdr (memory s) raw)) 0 s1 = Some s'
    \<and> tables_ok s' (frame_addr k) \<and> links_ok s' (frame_addr k) \<and> pool s \<le> pool s' + (4 * file_pages (elf_phdrs (memory s) raw) + 1)
    \<and> pmm_state.more s' = pmm_state.more s \<and> avail s' \<subseteq> avail s
    \<and> (\<forall>x. \<not> allocator_owns s x \<longrightarrow> memory s1 x = memory s x \<and> memory s' x = memory s x \<and> \<not> managed s' (frame_addr k) x)
    \<and> (\<forall>w. case image_page raw (elf_phdrs (memory s) raw) (page_number w) of
         None \<Rightarrow> mapping s' (frame_addr k) w = 0 | Some a \<Rightarrow> user_page (frame_addr k) a w s s')"
proof -
  obtain k s1 where k: "AllocFirstFrame s = Some (frame_addr k, s1)" "frame_taken k s s1" "k < bitmap_frames s"
    "pool s \<le> pool s1 + 1" using AllocFirstFrame_pool [OF assms(1)] assms(5) by force
  let ?r = "frame_addr k" and ?hs = "elf_phdrs (memory s) raw"
  note new = fresh_root [OF assms(1) k(2,3)] and own = fresh_root_managed [OF assms(1) k(2,3)]
  have out: "outside ?r raw n s1" using assms(3,4) own(1) by (simp add: outside_def)
  have same: "\<forall>j < n. memory s1 (raw + of_nat j) = memory s (raw + of_nat j)" using assms(4) own(2) by simp
  have "4 * file_pages ?hs + 1 \<le> pool s1" using k(4) assms(5) by simp
  then obtain s' where s': "load_segments ?r raw (raw + elf_phdr_offset (read_elf_hdr (memory s) raw)) 0 s1 = Some s'"
    "tables_ok s' ?r" "links_ok s' ?r" "keeps ?r s1 s'" "pmm_state.more s' = pmm_state.more s1"
    "pool s1 \<le> pool s' + 4 * file_pages ?hs" "image_loaded ?r (image_page raw ?hs) s1 s'"
    using load_segments_live [OF assms(2) new(2,3) out same, of ?hs 0] by auto
  have av: "avail s1 \<subseteq> avail s" using frame_taken_avail(2) [OF k(2,3)] by blast
  have "list_all (phdr_ok n) ?hs" using assms(2) by (simp add: elf_ok_def Let_def)
  note src = image_page_in_file [OF this]
  have "case image_page raw ?hs (page_number w) of None \<Rightarrow> mapping s' ?r w = 0 | Some a \<Rightarrow> user_page ?r a w s s'" for w
  proof (cases "image_page raw ?hs (page_number w)")
    case None
    then show ?thesis using image_loadedD(1) [OF s'(7) None] new(4) by simp
  next
    case (Some a)
    then obtain k' where k': "k' \<in> avail s1" "page_loaded ?r a w k' s1 s'" using image_loadedD(2) [OF s'(7)] by blast
    obtain off where off: "off + 4096 \<le> n" "a = raw + of_nat off" using src [OF Some] by blast
    then have "memory s1 (a + of_nat j) = memory s (a + of_nat j)" if "j < 4096" for j
      using same [rule_format, of "off + j"] that by (simp add: add.assoc)
    then have "user_page ?r a w s s'"
      using k' av user_page_flags unfolding user_page_def page_loaded_def by (intro bexI [of _ k']) auto
    then show ?thesis using Some by simp
  qed
  moreover have "pmm_state.more s' = pmm_state.more s"
    using s'(5) AllocFirstFrame_sound [OF assms(1) k(1)] frame_taken_tables(6) [OF assms(1) k(2,3)] by auto
  moreover have "memory s1 x = memory s x \<and> memory s' x = memory s x \<and> \<not> managed s' ?r x" if "\<not> allocator_owns s x" for x
    using own [OF that] s'(4) by (simp add: keeps_def)
  moreover have "avail s' \<subseteq> avail s" using av s'(4) by (auto simp: keeps_def)
  moreover have "pool s \<le> pool s' + (4 * file_pages ?hs + 1)" using k(4) s'(6) by linarith
  ultimately show ?thesis using k(1) s'(1,2,3) by (intro exI [of _ k] exI [of _ s1] exI [of _ s']) blast
qed

text \<open>A page with a fresh frame, the stack.\<close>

lemma stack_lays:
  assumes ok: "tables_ok s root" and links: "links_ok s root" and free: "5 \<le> pool s"
  shows "\<exists>k s1 s'. AllocFirstFrame s = Some (frame_addr k, s1) \<and> MapPage root v (frame_addr k) USER_PROC_PAGE s1 = Some (True, s')
    \<and> k \<in> avail s \<and> pmm_state.more s' = pmm_state.more s
    \<and> lays root (\<lambda>pn. if pn = page_number v then Some (frame_addr k OR 7) else None) 4 s s'"
proof -
  note inv = tables_okD(1) [OF ok]
  obtain k s1 where k: "AllocFirstFrame s = Some (frame_addr k, s1)" "frame_taken k s s1" "k < bitmap_frames s"
    "pool s \<le> pool s1 + 1" using AllocFirstFrame_pool [OF inv] free by force
  note ok1 = frame_taken_tables_ok [OF ok k(2,3)] and m1 = frame_taken_map [OF ok k(2,3)] and k1 = frame_taken_keeps(1) [OF ok k(2,3)]
  have "4 \<le> pool s1" using k(4) free by simp
  then obtain s' where s': "MapPage root v (frame_addr k) USER_PROC_PAGE s1 = Some (True, s')" "links_ok s' root" "pool s1 \<le> pool s' + 3"
    using MapPage_live [OF ok1 m1(2) [OF links] flags_ok_user] by blast
  note e = MapPage_effect [OF ok1 flags_ok_user s'(1)]
  have "pmm_state.more s' = pmm_state.more s"
    using e(2) AllocFirstFrame_sound [OF inv k(1)] frame_taken_tables(6) [OF inv k(2,3)] by auto
  moreover have "lays root (\<lambda>pn. if pn = page_number v then Some (frame_addr k OR 7) else None) 4 s s'"
    using e(1,3) s'(2,3) k(4) keeps_trans [OF k1 e(4)] m1(1) by (simp add: lays_def user_page_flags)
  moreover have "k \<in> avail s" using frame_taken_avail(1) [OF k(2,3)] .
  ultimately show ?thesis using k(1) s'(1) by blast
qed

text \<open>The tables of another page map stay as they are while the allocator's memory is all that changes.\<close>

lemma other_map_kept:
  assumes ok: "tables_ok s root" and mem: "\<And>x. \<not> allocator_owns s x \<Longrightarrow> memory s' x = memory s x"
  shows "mapping s' root v = mapping s root v"
proof -
  note inv = tables_okD(1) [OF ok]
  have entry: "table_entry s' t i = table_entry s t i" if p: "path_ok p" "table_at s root p = Some t" and i: "i < 512" for p t i
  proof -
    obtain k where k: "t = frame_addr k" "freeable s k" "frame_used s k" "k < 2 ^ 31" "k < 2 ^ 52"
      using is_table_addr [OF inv tables_okD(2) [OF ok p]] by blast
    have "\<not> allocator_owns s x" if "in_range x (entry_ptr t i) 8" for x
    proof -
      have x: "in_range x (frame_addr k) 4096" using entry_in_frame [OF k(4) i] that k(1) by simp
      have "clear_of_bitmap s k" using k(2) by (simp add: freeable_def)
      then have "\<not> in_range x (bitmap (PHYS_MEMORY_MAP s)) (unat (bitmap_size (PHYS_MEMORY_MAP s)))"
        using x k(5) pmm_invD(4) [OF inv] by (auto simp: clear_of_bitmap_def frame_range in_range_nowrap)
      moreover have "\<not> in_range x (frame_addr j) 4096" if "j \<in> avail s" for j
        using frames_disjoint [OF k(5) availD(5) [OF inv that] _ x] availD(2) [OF inv that] k(3) by auto
      ultimately show ?thesis by (auto simp: allocator_owns_def)
    qed
    then show ?thesis by (intro c64.load_cong mem)
  qed
  have "table_at s' root (vpath v) = table_at s root (vpath v)"
  proof (rule table_at_cong)
    fix q i r t assume *: "vpath v = q @ i # r" "table_at s root q = Some t"
    then show "table_entry s' t i = table_entry s t i" using path_ok_split path_ok_vpath [of v] entry by metis
  qed
  then show ?thesis using entry [OF path_ok_vpath _ V_ADDR_INDEX_less] by (simp add: mapping_def leaf_def split: option.splits)
qed

lemma strncmp_cong:
  assumes "\<And>j. j < unat n \<Longrightarrow> m' (a + of_nat j) = m (a + of_nat j)" "\<And>j. j < unat n \<Longrightarrow> m' (b + of_nat j) = m (b + of_nat j)"
  shows "strncmp m' a b n = strncmp m a b n"
proof -
  have "strncmp_loop l m' a b = strncmp_loop l m a b"
    if "\<And>j. j < l \<Longrightarrow> m' (a + of_nat j) = m (a + of_nat j)" "\<And>j. j < l \<Longrightarrow> m' (b + of_nat j) = m (b + of_nat j)" for l a b
    using that
  proof (induction l arbitrary: a b)
    case (Suc l)
    have "strncmp_loop l m' (a + 1) (b + 1) = strncmp_loop l m (a + 1) (b + 1)"
      using Suc.prems(1) [of "Suc _"] Suc.prems(2) [of "Suc _"] by (intro Suc.IH) (simp_all add: ac_simps)
    then show ?case using Suc.prems(1) [of 0] Suc.prems(2) [of 0] by simp
  qed simp
  then show ?thesis using assms by (simp add: strncmp_def)
qed

section \<open>The whole of parse_elf\<close>

definition heap_range :: "'a heap_state_scheme \<Rightarrow> map_range" where
  "heap_range s =
     (let p = KernelVAddrToPAddr (HEAP_START s) s
      in \<lparr>range_base = p, range_bound = p + push_bit 12 (drop_bit 12 (HEAP_SIZE s + push_bit 12 1 - 1)),
          range_offset = KERNEL_DATA, range_flags = ucast KERNEL_PAGE\<rparr>)"

text \<open>The ranges that a process shares with the kernel.\<close>

definition proc_ranges :: "'a heap_state_scheme \<Rightarrow> map_range list" where
  "proc_ranges s = kernel_ranges (BASE_ADDR s) (PMRs s) (MMAP s) @ [heap_range s]"

lemma map_heap_lays:
  assumes "tables_ok s root" "links_ok s root" "range_ok (heap_range s)" "ranges_cost [heap_range s] + 1 \<le> pool s"
  shows "\<exists>s'. map_heap root s = Some s' \<and> lays root (range_page (heap_range s)) (ranges_cost [heap_range s]) s s'"
proof -
  obtain s' where "MapMultiple root (range_base (heap_range s)) (range_bound (heap_range s)) (range_offset (heap_range s))
      (range_flags (heap_range s)) s = Some (True, s')"
    "lays root (range_page (heap_range s)) (ranges_cost [heap_range s]) s s'"
    using MapMultiple_lays [OF assms] by blast
  then show ?thesis by (simp add: map_heap_def heap_range_def Let_def)
qed

lemma heap_range_kept:
  assumes "tables_ok s (KERNEL_PAGE_TABLE_ROOT s)" "\<And>x. \<not> allocator_owns s x \<Longrightarrow> memory s' x = memory s x" "vmm_tags s' = vmm_tags s"
  shows "heap_range s' = heap_range s"
proof -
  have t: "KERNEL_PAGE_TABLE_ROOT s' = KERNEL_PAGE_TABLE_ROOT s" "vmm_state.more s' = vmm_state.more s"
    using assms(3) by (simp_all add: vmm_tags_def)
  have "HEAP_START s' = HEAP_START s" "HEAP_SIZE s' = HEAP_SIZE s" using t(2) by (cases s; cases s'; simp)+
  moreover have "KernelVAddrToPAddr v s' = KernelVAddrToPAddr v s" for v
    using other_map_kept [OF assms(1,2), of v] by (simp add: KernelVAddrToPAddr_def VAddrToPAddr_mapping t(1))
  ultimately show ?thesis by (simp add: heap_range_def)
qed

text \<open>The mapping of the stack, of the kernel and of the heap, after the segments.\<close>

lemma proc_tail_lays:
  assumes s0: "tables_ok s0 (KERNEL_PAGE_TABLE_ROOT s0)" and ok: "tables_ok s root" "links_ok s root"
    and kept: "\<And>x. \<not> allocator_owns s0 x \<Longrightarrow> memory s x = memory s0 x \<and> \<not> managed s root x" "vmm_tags s = vmm_tags s0"
    and rs: "list_all range_ok (proc_ranges s0)" "ranges_cost (proc_ranges s0) + 5 \<le> pool s"
  shows "\<exists>k s1 s2 s3 s'. AllocFirstFrame s = Some (frame_addr k, s1) \<and> k \<in> avail s
    \<and> MapPage root DEFAULT_STACK_BASE (frame_addr k) USER_PROC_PAGE s1 = Some (True, s2)
    \<and> MapKernelPmrs root s2 = Some (True, s3) \<and> map_heap root s3 = Some s'
    \<and> lays root (\<lambda>pn. case overlay (proc_ranges s0) pn of Some e \<Rightarrow> Some e | None \<Rightarrow>
         if pn = page_number DEFAULT_STACK_BASE then Some (frame_addr k OR 7) else None) (4 + ranges_cost (proc_ranges s0)) s s'"
proof -
  let ?f = "\<lambda>k pn. if pn = page_number DEFAULT_STACK_BASE then Some (frame_addr k OR 7) else None"
  let ?ks = "kernel_ranges (BASE_ADDR s0) (PMRs s0) (MMAP s0)" and ?h = "heap_range s0"
  have oks: "list_all range_ok ?ks" "range_ok ?h" and cost: "ranges_cost (proc_ranges s0) = ranges_cost ?ks + ranges_cost [?h]"
    using rs(1) by (simp_all add: proc_ranges_def)
  have "5 \<le> pool s" using rs(2) by linarith
  from stack_lays [OF ok this, of DEFAULT_STACK_BASE] obtain k s1 s2 where
    s2: "AllocFirstFrame s = Some (frame_addr k, s1)" "MapPage root DEFAULT_STACK_BASE (frame_addr k) USER_PROC_PAGE s1 = Some (True, s2)"
    "k \<in> avail s" "pmm_state.more s2 = pmm_state.more s" "lays root (?f k) 4 s s2" by blast
  have t2: "vmm_tags s2 = vmm_tags s0" using vmm_tags_more [OF s2(4)] kept(2) by simp
  have p2: "tables_ok s2 root" "links_ok s2 root" "pool s \<le> pool s2 + 4" using s2(5) by (simp_all add: lays_def)
  have "ranges_cost ?ks + 1 \<le> pool s2" using rs(2) cost p2(3) by linarith
  then obtain s3 where s3: "MapKernelPmrs root s2 = Some (True, s3)" "lays root (\<lambda>pn. overlay ?ks pn) (ranges_cost ?ks) s2 s3"
    "vmm_tags s3 = vmm_tags s2"
    using MapKernelPmrs_lays [OF p2(1,2) _ oks(1)] t2 by (auto simp: vmm_tags_def)
  have l3: "lays root (\<lambda>pn. case overlay ?ks pn of Some e \<Rightarrow> Some e | None \<Rightarrow> ?f k pn) (4 + ranges_cost ?ks) s s3"
    by (rule lays_trans [OF s2(5) s3(2)])
  have p3: "tables_ok s3 root" "links_ok s3 root" "pool s2 \<le> pool s3 + ranges_cost ?ks" "keeps root s s3"
    using s3(2) l3 by (simp_all add: lays_def)
  have h: "heap_range s3 = ?h"
    using kept(1) p3(4) s3(3) t2 by (intro heap_range_kept [OF s0]) (simp_all add: keeps_def)
  have "ranges_cost [?h] + 1 \<le> pool s3" using rs(2) cost p2(3) p3(3) by linarith
  then obtain s' where s': "map_heap root s3 = Some s'" "lays root (range_page ?h) (ranges_cost [?h]) s3 s'"
    using map_heap_lays [OF p3(1,2)] oks(2) unfolding h by blast
  have "lays root (\<lambda>pn. case overlay (proc_ranges s0) pn of Some e \<Rightarrow> Some e | None \<Rightarrow> ?f k pn) (4 + ranges_cost (proc_ranges s0)) s s'"
    using lays_trans [OF l3 s'(2)] unfolding cost proc_ranges_def
    by (simp add: overlay_append option.case_distrib add.assoc cong: option.case_cong)
  then show ?thesis using s2(1,2,3) s3(1) s'(1) by blast
qed

lemma user_page_kept:
  assumes "user_page root a w s s1" "keeps root s1 s'" "mapping s' root w = mapping s1 root w"
  shows "user_page root a w s s'"
proof -
  obtain k where k: "k \<in> avail s" "mapping s1 root w = frame_addr k OR 7" "outside root (frame_addr k) 4096 s1"
    "\<forall>j < 4096. memory s1 (frame_addr k + of_nat j) = memory s (a + of_nat j)"
    using assms(1) by (auto simp: user_page_def)
  then show ?thesis using outside_keeps [OF assms(2) k(3)] assms(3) by (auto simp: user_page_def)
qed

lemma proc_pages:
  assumes l: "lays root (\<lambda>pn. case ov pn of Some e \<Rightarrow> Some e | None \<Rightarrow> if pn = q then Some f else None) c s1 s'"
    and img: "case im (page_number w) of None \<Rightarrow> mapping s1 root w = 0 | Some a \<Rightarrow> user_page root a w s s1"
  shows "case ov (page_number w) of Some e \<Rightarrow> mapping s' root w = e
    | None \<Rightarrow> if page_number w = q then mapping s' root w = f
      else (case im (page_number w) of None \<Rightarrow> mapping s' root w = 0 | Some a \<Rightarrow> user_page root a w s s')"
proof -
  have kept: "keeps root s1 s'" and map: "mapping s' root w = (case (case ov (page_number w) of Some e \<Rightarrow> Some e
      | None \<Rightarrow> if page_number w = q then Some f else None) of None \<Rightarrow> mapping s1 root w | Some e \<Rightarrow> e)"
    using l by (simp_all add: lays_def)
  show ?thesis
  proof (cases "ov (page_number w)")
    case None
    show ?thesis
    proof (cases "page_number w = q")
      case False
      then have "mapping s' root w = mapping s1 root w" using map None by simp
      then show ?thesis using img None False user_page_kept [OF _ kept] by (simp split: option.splits)
    qed (use map None in simp)
  qed (use map in simp)
qed


text \<open>Without the magic nothing is loaded, but the frame for the root stays allocated: no one frees it.\<close>

lemma parse_elf_bad_magic:
  assumes "pmm_inv s" and "2 \<le> pool s" and "strncmp (memory s) raw_elf ELF_MAGIC 4 \<noteq> 0"
    and "\<forall>j < 4. \<not> allocator_owns s (raw_elf + of_nat j) \<and> \<not> allocator_owns s (ELF_MAGIC + of_nat j)"
  shows "\<exists>k s'. parse_elf ELF_MAGIC raw_elf pcb s = Some (- 1, pcb\<lparr>pagemap := frame_addr k\<rparr>, s') \<and> k \<in> avail s \<and> avail s' = avail s - {k}"
proof -
  obtain k s1 where k: "AllocFirstFrame s = Some (frame_addr k, s1)" "frame_taken k s s1" "k < bitmap_frames s"
    using AllocFirstFrame_pool [OF assms(1,2)] by blast
  note own = fresh_root_managed(2) [OF assms(1) k(2,3)] and av = frame_taken_avail(1,2) [OF k(2,3)]
  have "strncmp (memory s1) raw_elf ELF_MAGIC 4 = strncmp (memory s) raw_elf ELF_MAGIC 4"
    using assms(4) by (intro strncmp_cong own) simp_all
  moreover have "avail (PrintK_log f as s1) = avail s1" for f as by (rule pmm_cong(4)) (simp_all add: PrintK_log_def)
  ultimately show ?thesis using k(1) av assms(3) by (auto simp: parse_elf_def)
qed

text \<open>An executable with one segment of one page at address 0, on a machine with an empty kernel page map.\<close>

definition demo_proc :: heap_state where
  "demo_proc = \<lparr>memory = (\<lambda>x. 0)(0x8000000 := 1, 0x80009C4 := 0xC0,
       0x9000000 := 0x7F, 0x9000001 := 0x45, 0x9000002 := 0x4C, 0x9000003 := 0x46, 0x9000018 := 0x40,
       0x9000020 := 64, 0x9000038 := 1, 0x9000040 := 1, 0x9000069 := 0x10,
       0x9100000 := 0x7F, 0x9100001 := 0x45, 0x9100002 := 0x4C, 0x9100003 := 0x46),
     PHYS_MEMORY_MAP = demo_map, KERNEL_PAGE_TABLE_ROOT = frame_addr 20006, BASE_ADDR = demo_base,
     PMRs = [], MMAP = [], cr3 = frame_addr 20006, invlpg = [], klog = [], HEAP_START = KERNEL_DATA, HEAP_SIZE = 0x1000\<rparr>"

lemma demo_proc_low: "0 < unat x \<Longrightarrow> unat x < 0x8000000 \<Longrightarrow> memory demo_proc x = 0"
  by (auto simp: demo_proc_def)

lemma demo_proc_bitmap: "demo_bitmap demo_proc"
proof -
  have "unat (0x8000000 + of_nat q :: u64) = 0x8000000 + q" if "q < 2501" for q
    using that by (subst unat_add_of_nat) simp_all
  then have "0x8000000 + of_nat q \<noteq> (x :: u64)" if "q < 2501" "0x80009C4 < unat x" for q x
    using that by (auto simp: word_unat_eq_iff)
  then show ?thesis using bitmap_byte_eq by (simp add: demo_bitmap_def demo_proc_def)
qed

lemma demo_proc_root:
  "tables_ok demo_proc (frame_addr 20006)" "mapping demo_proc (frame_addr 20006) w = 0"
proof -
  have "clear_of_bitmap demo_proc 20006" by (simp add: clear_of_bitmap_def demo_proc_def demo_map_def)
  then have "freeable demo_proc 20006" by (simp add: freeable_def demo_bitmap_fields [OF demo_proc_bitmap])
  moreover have "frame_used demo_proc 20006" using demo_bitmap_used [OF demo_proc_bitmap, of 20006] by simp
  ultimately have "is_table demo_proc (frame_addr 20006)" unfolding is_table_def by blast
  moreover have "table_entry demo_proc (frame_addr 20006) i = 0" if "i < 512" for i
  proof (rule c64.load_zero)
    fix x assume "in_range x (entry_ptr (frame_addr 20006) i) 8"
    then have "in_range x (frame_addr 20006) 4096" using entry_in_frame [OF _ that] by simp
    then show "memory demo_proc x = 0" by (subst (asm) frame_range) (auto intro!: demo_proc_low)
  qed
  ultimately show "tables_ok demo_proc (frame_addr 20006)" "mapping demo_proc (frame_addr 20006) w = 0"
    using empty_root [OF demo_bitmap_inv(1) [OF demo_proc_bitmap]] by blast+
qed

lemma demo_proc_owns: "0x9000000 \<le> unat x \<Longrightarrow> \<not> allocator_owns demo_proc x"
proof -
  assume x: "0x9000000 \<le> unat x"
  have "\<not> in_range x (frame_addr k) 4096" if "k < 20006" for k
    using that x by (subst frame_range) simp_all
  moreover have "\<not> in_range x 0x8000000 2501" using x by (subst in_range_nowrap) simp_all
  ultimately show ?thesis
    using demo_bitmap_inv(3) [OF demo_proc_bitmap] by (auto simp: allocator_owns_def) (simp add: demo_proc_def demo_map_def)
qed

lemma demo_proc_hdr:
  "read_elf_hdr (memory demo_proc) 0x9000000 =
     \<lparr>elf_bits = 0, elf_endianness = 0, elf_version = 0, elf_abi = 0, elf_file_type = 0, elf_arch = 0, elf_version_con = 0,
      elf_entry_pt = 64, elf_phdr_offset = 64, elf_shdr_offset = 0, elf_flags = 0, elf_hdr_size = 0, phdr_entry_size = 0,
      phdr_num_entries = 1, shdr_entry_size = 0, shdr_num_entries = 0, shdr_index = 0\<rparr>"
  by (simp add: read_elf_hdr_def demo_proc_def load16_def load32_def load64_def load_le_numeral)

lemma demo_proc_phdrs:
  "elf_phdrs (memory demo_proc) 0x9000000 = [\<lparr>phdr_type = 1, phdr_flags = 0, phdr_offset = 0, phdr_vaddr = 0, phdr_paddr = 0,
     phdr_file_size = 0, phdr_mem_size = 0x1000, phdr_alignment = 0\<rparr>]"
  by (simp add: elf_phdrs_def demo_proc_hdr Let_def) (simp add: read_phdr_def demo_proc_def load32_def load64_def load_le_numeral)

lemma demo_proc_ranges:
  "proc_ranges demo_proc = [four_gb_range KERNEL_DATA,
     \<lparr>range_base = 0, range_bound = 0x1000, range_offset = KERNEL_DATA, range_flags = ucast KERNEL_PAGE\<rparr>]"
proof -
  have "KERNEL_PAGE_TABLE_ROOT demo_proc = frame_addr 20006" by (simp add: demo_proc_def)
  then have "KernelVAddrToPAddr v demo_proc = 0" for v
    using demo_proc_root(2) [of v] by (simp add: KernelVAddrToPAddr_def VAddrToPAddr_mapping)
  then have "heap_range demo_proc = \<lparr>range_base = 0, range_bound = 0x1000, range_offset = KERNEL_DATA, range_flags = ucast KERNEL_PAGE\<rparr>"
    by (simp add: heap_range_def) (simp add: demo_proc_def)
  then show ?thesis by (simp add: proc_ranges_def kernel_ranges_def) (simp add: demo_proc_def)
qed

lemma demo_proc_file:
  "strncmp (memory demo_proc) 0x9000000 0x9100000 4 = 0" "elf_ok 0x9000000 4096 (memory demo_proc)"
  "file_pages (elf_phdrs (memory demo_proc) 0x9000000) = 1"
  "\<forall>j < 4096. \<not> allocator_owns demo_proc (0x9000000 + of_nat j)" "\<forall>j < 4. \<not> allocator_owns demo_proc (0x9100000 + of_nat j)"
  "list_all range_ok (proc_ranges demo_proc)" "ranges_cost (proc_ranges demo_proc) = 6147"
proof -
  have "unat (4 :: u64) = Suc (Suc (Suc (Suc 0)))" by simp
  then show "strncmp (memory demo_proc) 0x9000000 0x9100000 4 = 0" by (simp only: strncmp_def) (simp add: demo_proc_def)
  show "elf_ok 0x9000000 4096 (memory demo_proc)" "file_pages (elf_phdrs (memory demo_proc) 0x9000000) = 1"
    by (simp_all add: elf_ok_def Let_def demo_proc_hdr demo_proc_phdrs phdr_ok_def segment_pages_def file_pages_def)
  show "\<forall>j < 4096. \<not> allocator_owns demo_proc (0x9000000 + of_nat j)" "\<forall>j < 4. \<not> allocator_owns demo_proc (0x9100000 + of_nat j)"
    by (intro allI impI demo_proc_owns; subst unat_add_of_nat; simp)+
  show "list_all range_ok (proc_ranges demo_proc)" "ranges_cost (proc_ranges demo_proc) = 6147"
    unfolding demo_proc_ranges
    by (simp_all add: range_ok_def four_gb_range_def pages_between_def kernel_page_flags flags_ok_3 blocks_def KERNEL_DATA_def)
qed


end
