(* ===== verification/Screen.thy ===== *)
theory Screen
  imports Graphics
begin

text \<open>
  What the drawing functions of \<open>Graphics\<close> show: the pixels of the back buffer that a rectangle changes, the
  bands it marks as dirty, and the pixels of the frame buffer after the dirty bands are written back. Rows
  of pixels are ranges of bytes of the buffer; the lemmas reduce a pixel to its offset in them.
\<close>

unbundle bit_operations_syntax

section \<open>Rows of pixels\<close>

lemma load_le_shift:
  "(\<And>k. k < n \<Longrightarrow> m (a + of_nat k) = m' (b + of_nat k)) \<Longrightarrow> load_le n m a = load_le n m' b"
proof (induction n arbitrary: a b)
  case (Suc n)
  have "load_le n m (a + 1) = load_le n m' (b + 1)"
    using Suc.prems [of "Suc _"] by (intro Suc.IH) (simp add: ac_simps)
  moreover have "m a = m' b" using Suc.prems [of 0] by simp
  ultimately show ?case by simp
qed simp

lemma load32_shift:
  "(\<And>k. k < 4 \<Longrightarrow> m (a + of_nat k) = m' (b + of_nat k)) \<Longrightarrow> load32 m a = load32 m' b"
  unfolding load32_def by (subst load_le_shift) auto

lemma fill_pixels_other:
  "4 * n \<le> 2 ^ 64 \<Longrightarrow> \<not> in_range x dest (4 * n) \<Longrightarrow> fill_pixels n m dest v x = m x"
proof (induction n arbitrary: m dest)
  case (Suc n)
  have "\<not> in_range x (dest + 4) (4 * n)"
    using field_range [of x dest 4 "4 * n" "4 * Suc n"] Suc.prems by auto
  moreover have "\<not> in_range x dest 4"
    using in_range_mono [of x dest 4 "4 * Suc n"] Suc.prems by auto
  ultimately show ?case using Suc by (simp add: c32.store_other)
qed simp

lemma fill_pixels_load:
  "4 * n \<le> 2 ^ 64 \<Longrightarrow> i < n \<Longrightarrow> load32 (fill_pixels n m dest v) (dest + 4 * of_nat i) = v"
proof (induction n arbitrary: m dest i)
  case (Suc n)
  show ?case
  proof (cases i)
    case 0
    have "load32 (fill_pixels n (store32 m dest v) (dest + 4) v) dest = load32 (store32 m dest v) dest"
      using Suc.prems disjoint_offset_base(1) [of 4 4 "4 * n" dest]
      by (intro c32.load_frame [OF fill_pixels_other]) auto
    then show ?thesis using 0 by (simp add: c32.load_store)
  next
    case (Suc j)
    then show ?thesis using Suc.IH [of j "store32 m dest v" "dest + 4"] Suc.prems
      by (simp add: algebra_simps)
  qed
qed simp

lemma unat_offset_nowrap:
  assumes "unat (D :: u64) + n \<le> 2 ^ 64" "j < n"
  shows "unat (D + of_nat j) = unat D + j"
  using assms by (simp add: unat_word_ariths unat_of_nat)

lemma in_range_row:
  assumes "0 < N" "N \<le> S" "r * S + N \<le> 2 ^ 64"
  shows "in_range y (D + of_nat (r * S)) N \<longleftrightarrow> unat (y - D) div S = r \<and> unat (y - D) mod S < N"
proof -
  define u where "u = unat (y - D)"
  have "unat (of_nat (r * S) :: u64) = r * S"
    using assms by (simp add: unat_of_nat del: of_nat_mult)
  then have "in_range y (D + of_nat (r * S)) N \<longleftrightarrow> r * S \<le> u \<and> u < r * S + N"
    unfolding in_range_diff [of y D] u_def using assms by (subst in_range_nowrap) auto
  also have "\<dots> \<longleftrightarrow> u div S = r \<and> u mod S < N"
  proof
    assume u: "r * S \<le> u \<and> u < r * S + N"
    then obtain c where "u = r * S + c" "c < N" by (metis le_Suc_ex nat_add_left_cancel_less)
    then show "u div S = r \<and> u mod S < N" using assms by (simp add: div_mult_self3)
  next
    assume "u div S = r \<and> u mod S < N"
    then show "r * S \<le> u \<and> u < r * S + N" using div_mult_mod_eq [of u S] by auto
  qed
  finally show ?thesis unfolding u_def .
qed

lemma copy_rows_apply:
  assumes "0 < S" "0 < N" "N \<le> S" "unat D + ((i + k) * S + N) \<le> 2 ^ 64"
  shows "copy_rows k m (D + of_nat (i * S)) D (of_nat S) (of_nat N) x =
    (let q = unat (x - D)
     in if i < q div S \<and> q div S \<le> i + k \<and> q mod S < N then m (D + of_nat (q mod S)) else m x)"
  using assms
proof (induction k arbitrary: i m)
  case 0
  then show ?case by (simp add: Let_def)
next
  case (Suc k)
  let ?q = "unat (x - D)" and ?d = "D + of_nat (Suc i * S) :: u64"
  let ?m = "memmove m ?d D (of_nat N)"
  have bound: "Suc i * S + N \<le> (i + Suc k) * S + N" by (simp add: algebra_simps)
  have N: "unat (of_nat N :: u64) = N"
    using Suc.prems by (simp add: unat_of_nat)
  have d: "unat ?d = unat D + Suc i * S"
    using Suc.prems bound unat_offset_nowrap [of D "(i + Suc k) * S + N" "Suc i * S"] by linarith
  have move: "?m y = (if in_range y ?d N then m (D + (y - ?d)) else m y)" for y
  proof -
    have "unat ?d + unat (of_nat N :: u64) \<le> 2 ^ 64" "unat D + unat (of_nat N :: u64) \<le> 2 ^ 64"
      unfolding d N using Suc.prems(4) bound by linarith+
    from memmove_apply [OF this, of m y] show ?thesis unfolding N .
  qed
  have "Suc i * S + N \<le> 2 ^ 64" using Suc.prems(4) bound by linarith
  note row = in_range_row [OF Suc.prems(2,3) this, where D = D]
  have IH: "copy_rows (Suc k) m (D + of_nat (i * S)) D (of_nat S) (of_nat N) x =
    (if Suc i < ?q div S \<and> ?q div S \<le> Suc i + k \<and> ?q mod S < N then ?m (D + of_nat (?q mod S)) else ?m x)"
    using Suc.IH [of "Suc i" ?m] Suc.prems by (simp add: Let_def algebra_simps)
  have "?q mod S < 2 ^ 64" using mod_less_eq_dividend [of ?q S] unat_less64 [of "x - D"] by linarith
  then have "unat (D + of_nat (?q mod S) - D) = ?q mod S"
    by (simp add: unat_of_nat)
  then have "\<not> in_range (D + of_nat (?q mod S)) ?d N"
    unfolding row using Suc.prems(1) by (simp only: mod_div_trivial) simp
  then have src: "?m (D + of_nat (?q mod S)) = m (D + of_nat (?q mod S))"
    by (simp only: move if_False)
  have dst: "?m x = (if ?q div S = Suc i \<and> ?q mod S < N then m (D + of_nat (?q mod S)) else m x)"
  proof (cases "in_range x ?d N")
    case True
    then have "?q = Suc i * S + ?q mod S" using row [of x] div_mult_mod_eq [of ?q S] by metis
    then have "of_nat ?q = (of_nat (Suc i * S) + of_nat (?q mod S) :: u64)" by (metis of_nat_add)
    then have "x - D = of_nat (Suc i * S) + of_nat (?q mod S)"
      by (simp del: of_nat_Suc of_nat_mult)
    then have "x - ?d = of_nat (?q mod S)" by (simp add: algebra_simps del: of_nat_Suc of_nat_mult)
    then show ?thesis using True by (simp only: move row if_True)
  qed (use move row in auto)
  show ?case unfolding IH src dst Let_def by auto
qed

section \<open>A rectangle of the buffer\<close>

text \<open>The pixel in column \<open>px\<close> of row \<open>py\<close> of a buffer of rows of \<open>W\<close> pixels.\<close>

definition pixel_at :: "mem \<Rightarrow> u64 \<Rightarrow> nat \<Rightarrow> nat \<Rightarrow> nat \<Rightarrow> u32" where
  "pixel_at m B W px py = load32 m (B + of_nat (4 * (px + py * W)))"

definition rect_memory :: "mem \<Rightarrow> u64 \<Rightarrow> nat \<Rightarrow> nat \<Rightarrow> nat \<Rightarrow> u32 \<Rightarrow> mem" where
  "rect_memory m D W w h v =
     copy_rows (h - 1) (fill_pixels w m D v) D D (of_nat (4 * W)) (of_nat (4 * w))"

lemma rect_memory_apply:
  assumes "0 < w" "w \<le> W" "unat D + ((h - 1) * (4 * W) + 4 * w) \<le> 2 ^ 64" "unat (a - D) = q"
  shows "rect_memory m D W w h v a =
    (if 0 < q div (4 * W) \<and> q div (4 * W) \<le> h - 1 \<and> q mod (4 * W) < 4 * w
     then fill_pixels w m D v (D + of_nat (q mod (4 * W))) else fill_pixels w m D v a)"
  using copy_rows_apply [of "4 * W" "4 * w" D 0 "h - 1" "fill_pixels w m D v" a] assms
  unfolding rect_memory_def Let_def by simp

lemma rect_memory_other:
  assumes "0 < w" "w \<le> W" "0 < h" "unat D + ((h - 1) * (4 * W) + 4 * w) \<le> 2 ^ 64"
    and out: "\<And>r. r < h \<Longrightarrow> \<not> in_range a (D + of_nat (r * (4 * W))) (4 * w)"
  shows "rect_memory m D W w h v a = m a"
proof -
  let ?q = "unat (a - D)" and ?S = "4 * W" and ?f = "fill_pixels w m D v"
  have "\<not> (0 < ?q div ?S \<and> ?q div ?S \<le> 0 + (h - 1) \<and> ?q mod ?S < 4 * w)"
  proof
    assume q: "0 < ?q div ?S \<and> ?q div ?S \<le> 0 + (h - 1) \<and> ?q mod ?S < 4 * w"
    have "?q div ?S * ?S \<le> (h - 1) * ?S" using q by (intro mult_le_mono1) simp
    then have "?q div ?S * ?S + 4 * w \<le> 2 ^ 64" using assms(4) by linarith
    then have "in_range a (D + of_nat (?q div ?S * ?S)) (4 * w)"
      using in_range_row [of "4 * w" ?S "?q div ?S" a D] assms(1,2) q by simp
    moreover have "?q div ?S < h" using q assms(3) by linarith
    ultimately show False using out by blast
  qed
  then have "rect_memory m D W w h v a = ?f a"
    using rect_memory_apply [OF assms(1,2,4) refl, where a = a and m = m and v = v] by (simp only: add_0 if_False)
  also have "\<dots> = m a"
    using out [of 0] assms by (intro fill_pixels_other) auto
  finally show ?thesis .
qed

lemma rect_memory_inside:
  assumes "w \<le> W" "r < h" "c < w" "unat D + ((h - 1) * (4 * W) + 4 * w) \<le> 2 ^ 64"
  shows "load32 (rect_memory m D W w h v) (D + of_nat (4 * (c + r * W))) = v"
proof -
  let ?S = "4 * W" and ?f = "fill_pixels w m D v"
  have "load32 (rect_memory m D W w h v) (D + of_nat (4 * (c + r * W))) = load32 ?f (D + of_nat (4 * c))"
  proof (rule load32_shift)
    fix k :: nat assume "k < 4"
    let ?o = "4 * c + k" and ?a = "D + of_nat (4 * (c + r * W)) + of_nat k"
    have o: "?o < 4 * w" "?o < ?S" using \<open>k < 4\<close> assms(1,3) by linarith+
    have "r * ?S \<le> (h - 1) * ?S" using assms(2) by (intro mult_le_mono1) simp
    then have "r * ?S + ?o < 2 ^ 64" using o assms(4) by linarith
    moreover have a: "?a = D + of_nat (r * ?S + ?o)" by (simp add: algebra_simps)
    ultimately have q: "unat (?a - D) = r * ?S + ?o" by (simp only: a add_diff_cancel_left' unat_of_nat) simp
    have d: "(r * ?S + ?o) div ?S = r" "(r * ?S + ?o) mod ?S = ?o"
      using o by (simp_all only: div_mult_self3 mod_mult_self3 div_less mod_less)
    have "rect_memory m D W w h v ?a = ?f (D + of_nat ?o)"
      using rect_memory_apply [OF _ assms(1,4) q, of m v] o assms(2) unfolding d
      by (cases "r = 0") (auto simp: a add.assoc)
    then show "rect_memory m D W w h v ?a = ?f (D + of_nat (4 * c) + of_nat k)" by (simp add: add.assoc)
  qed
  also have "\<dots> = v" using fill_pixels_load [of w c m D v] assms by simp
  finally show ?thesis .
qed

lemma row_index_less:
  fixes c p :: nat
  assumes "c < S" "b \<le> S" "a + R * S \<le> c + p * S" "c + p * S < b + R * S"
  shows "p = R"
proof (rule ccontr)
  assume "p \<noteq> R"
  then consider "Suc p \<le> R" | "Suc R \<le> p" by linarith
  then show False
  proof cases
    case 1
    then have "Suc p * S \<le> R * S" by (rule mult_le_mono1)
    then show False using assms by simp
  next
    case 2
    then have "Suc R * S \<le> p * S" by (rule mult_le_mono1)
    then show False using assms by simp
  qed
qed

lemma rect_bounds:
  assumes "0 < w" "x + w \<le> W" "y + h \<le> (H :: nat)" "r < h"
  shows "4 * x + 4 * w + (y + r) * (4 * W) \<le> 4 * (W * H)"
proof -
  have "(y + Suc r) * (4 * W) \<le> H * (4 * W)" using assms by (intro mult_le_mono1) linarith
  then show ?thesis using assms(2) by (simp add: algebra_simps)
qed

text \<open>Row \<open>r\<close> of the rectangle with the upper left corner \<open>x\<close>, \<open>y\<close>, by byte offset in the buffer.\<close>

lemma in_rect_row:
  assumes "0 < w" "x + w \<le> W" "y + h \<le> H" "4 * (W * H) \<le> 2 ^ 64" "r < h"
  shows "in_range a (B + of_nat (4 * (x + y * W)) + of_nat (r * (4 * W))) (4 * w) \<longleftrightarrow>
    4 * x + (y + r) * (4 * W) \<le> unat (a - B) \<and> unat (a - B) < 4 * x + 4 * w + (y + r) * (4 * W)"
proof -
  let ?o = "4 * x + (y + r) * (4 * W)"
  have o: "?o + 4 * w \<le> 2 ^ 64" using rect_bounds [OF assms(1-3,5)] assms(4) by linarith
  then have u: "unat (of_nat ?o :: u64) = ?o"
    using assms(1) by (simp only: unat_of_nat) simp
  have "B + of_nat (4 * (x + y * W)) + of_nat (r * (4 * W)) = B + of_nat ?o"
    by (simp add: algebra_simps)
  then have "in_range a (B + of_nat (4 * (x + y * W)) + of_nat (r * (4 * W))) (4 * w) \<longleftrightarrow>
      in_range (a - B) (of_nat ?o) (4 * w)" by (simp only: in_range_diff)
  also have "\<dots> \<longleftrightarrow> ?o \<le> unat (a - B) \<and> unat (a - B) < ?o + 4 * w"
    using o u in_range_nowrap [of "of_nat ?o" "4 * w" "a - B"] by simp
  finally show ?thesis by (simp add: ac_simps)
qed

lemma pixel_in_rect_row:
  assumes rect: "0 < w" "x + w \<le> W" "y + h \<le> H" "4 * (W * H) \<le> 2 ^ 64" "r < h"
    and px: "px < W" and py: "py < H"
    and b: "in_range b (B + of_nat (4 * (px + py * W))) 4"
      "in_range b (B + of_nat (4 * (x + y * W)) + of_nat (r * (4 * W))) (4 * w)"
  shows "py = y + r \<and> x \<le> px \<and> px < x + w"
proof -
  have "4 * px + py * (4 * W) \<le> unat (b - B) \<and> unat (b - B) < 4 * px + 4 + py * (4 * W)"
    using in_rect_row [of 1 px W py 1 H 0 b B] b px py rect(4) by simp
  then obtain k where k: "k < 4" "unat (b - B) = 4 * px + k + py * (4 * W)"
    by (intro that [of "unat (b - B) - (4 * px + py * (4 * W))"]) auto
  moreover have "4 * x + (y + r) * (4 * W) \<le> unat (b - B)" "unat (b - B) < 4 * x + 4 * w + (y + r) * (4 * W)"
    using in_rect_row [OF rect] b by auto
  moreover from this have "py = y + r"
    using row_index_less [of "4 * px + k" "4 * W" "4 * x + 4 * w" "4 * x" "y + r" py] px rect(2) k by auto
  ultimately show ?thesis by auto
qed

lemma rect_memory_pixels:
  assumes w: "0 < w" and h: "0 < h" and x: "x + w \<le> W" and y: "y + h \<le> H"
    and B: "unat B + 4 * (W * H) \<le> 2 ^ 64" and D: "D = B + of_nat (4 * (x + y * W))"
  shows "px < W \<Longrightarrow> py < H \<Longrightarrow> pixel_at (rect_memory m D W w h v) B W px py =
      (if x \<le> px \<and> px < x + w \<and> y \<le> py \<and> py < y + h then v else pixel_at m B W px py)"
    and "\<not> in_range a B (4 * (W * H)) \<Longrightarrow> rect_memory m D W w h v a = m a"
proof -
  have e: "4 * (x + y * W) + ((h - 1) * (4 * W) + 4 * w) \<le> 4 * (W * H)"
    using rect_bounds [OF w x y, of "h - 1"] h unfolding add_mult_distrib by (simp only: mult.left_commute) simp
  have "unat D = unat B + 4 * (x + y * W)"
    unfolding D using B e w by (intro unat_offset_nowrap [where n = "4 * (W * H)"]) auto
  then have fits: "unat D + ((h - 1) * (4 * W) + 4 * w) \<le> 2 ^ 64" using B e by linarith
  have W: "w \<le> W" "4 * (W * H) \<le> 2 ^ 64" using x B by linarith+
  note row = in_rect_row [OF w x y W(2), where B = B, folded D]
  note other = rect_memory_other [OF w W(1) h fits, of _ m v]
  show "rect_memory m D W w h v a = m a" if a: "\<not> in_range a B (4 * (W * H))"
  proof (rule other)
    fix r assume r: "r < h"
    then show "\<not> in_range a (D + of_nat (r * (4 * W))) (4 * w)"
      using a rect_bounds [OF w x y r] unfolding row [OF r] in_range_def [of a B] by linarith
  qed
  assume px: "px < W" and py: "py < H"
  show "pixel_at (rect_memory m D W w h v) B W px py =
      (if x \<le> px \<and> px < x + w \<and> y \<le> py \<and> py < y + h then v else pixel_at m B W px py)"
  proof (cases "x \<le> px \<and> px < x + w \<and> y \<le> py \<and> py < y + h")
    case True
    then obtain c r where c: "px = x + c" "py = y + r" "c < w" "r < h"
      by (metis le_Suc_ex nat_add_left_cancel_less)
    have "B + of_nat (4 * (px + py * W)) = D + of_nat (4 * (c + r * W))"
      by (simp add: D c algebra_simps)
    then show ?thesis using True rect_memory_inside [OF W(1) c(4,3) fits, of m v]
      by (simp only: pixel_at_def) simp
  next
    case False
    have "\<not> in_range b (D + of_nat (r * (4 * W))) (4 * w)"
      if b: "in_range b (B + of_nat (4 * (px + py * W))) 4" and r: "r < h" for b r
      using pixel_in_rect_row [OF w x y W(2) r px py b] False r unfolding D by auto
    then have "pixel_at (rect_memory m D W w h v) B W px py = pixel_at m B W px py"
      unfolding pixel_at_def by (intro c32.load_cong other) 
    then show ?thesis using False by (simp only: if_False)
  qed
qed

section \<open>Drawing a rectangle\<close>

abbreviation screen_width :: "'a graphics_state_scheme \<Rightarrow> nat" where
  "screen_width s \<equiv> unat (framebuffer_width (fb (GLOBAL_CTX s)))"

abbreviation screen_height :: "'a graphics_state_scheme \<Rightarrow> nat" where
  "screen_height s \<equiv> unat (framebuffer_height (fb (GLOBAL_CTX s)))"

abbreviation band_height :: "'a graphics_state_scheme \<Rightarrow> nat" where
  "band_height s \<equiv> unat (row_height (GLOBAL_CTX s))"

text \<open>
  The context of a screen of 32-bit pixels of at least 64 rows, set up by \<^verbatim>\<open>InitGraphicsCtx\<close> without
  truncation: the buffer does not wrap around, and an \<^verbatim>\<open>int\<close> indexes its pixels.
\<close>

definition screen_ok :: "'a graphics_state_scheme \<Rightarrow> bool" where
  "screen_ok s \<longleftrightarrow> framebuffer_bpp (fb (GLOBAL_CTX s)) = 32 \<and> num_rows (GLOBAL_CTX s) = 64 \<and>
     64 \<le> screen_height s \<and> unat (row_height (GLOBAL_CTX s)) = screen_height s div 64 \<and>
     screen_width s * screen_height s \<le> 2 ^ 31 \<and>
     unat (buffer (GLOBAL_CTX s)) + 4 * (screen_width s * screen_height s) \<le> 2 ^ 64"

lemma screen_okD:
  assumes "screen_ok s"
  shows "framebuffer_bpp (fb (GLOBAL_CTX s)) = 32" "0 < unat (row_height (GLOBAL_CTX s))"
    "screen_width s * screen_height s \<le> 2 ^ 31"
    "unat (buffer (GLOBAL_CTX s)) + 4 * (screen_width s * screen_height s) \<le> 2 ^ 64"
    "num_rows (GLOBAL_CTX s) = 64" "screen_height s < 2 ^ 14"
    "64 * unat (row_height (GLOBAL_CTX s)) \<le> screen_height s"
proof -
  have "unat (row_height (GLOBAL_CTX s)) < 256" by (rule unat_less8)
  then show "screen_height s < 2 ^ 14" using assms by (simp add: screen_ok_def)
qed (use assms in \<open>auto simp: screen_ok_def\<close>)

lemma pixel_index_ptr:
  assumes "unat (coord_x c) + unat (coord_y c) * screen_width s < 2 ^ 31"
  shows "pixel_ptr s (PixelIndex c s) =
    buffer (GLOBAL_CTX s) + of_nat (4 * (unat (coord_x c) + unat (coord_y c) * screen_width s))"
proof -
  have "PixelIndex c s = of_nat (unat (coord_x c) + unat (coord_y c) * screen_width s)"
    by (simp add: PixelIndex_def fb_width_def)
  then show ?thesis using i32_to_u64_of_nat [OF assms] by (simp add: pixel_ptr_def)
qed

lemma row_bytes_32:
  assumes "framebuffer_bpp (fb (GLOBAL_CTX s)) = 32"
  shows "row_bytes w s = of_nat (4 * unat w)"
proof -
  let ?i = "of_nat (unat w * 32) :: i32"
  have w: "unat w < 65536" using unsigned_less [of w] by simp
  then have i: "unat ?i = unat w * 32" by (simp only: unat_of_nat) simp
  have n: "nonneg ?i" "nonneg 8" using w by (simp_all only: nonneg_def i) simp_all
  have "unat (div_i32 ?i 8) = 4 * unat w" by (simp only: unat_div_i32 [OF n] i) simp
  moreover have "ucast w * ucast (framebuffer_bpp (fb (GLOBAL_CTX s))) = ?i" using assms by simp
  ultimately show ?thesis
    by (simp only: row_bytes_def i32_to_u64_nonneg [OF nonneg_div_i32 [OF n]])
qed

text \<open>The bits of the dirty string that marking band \<open>k\<close> sets: the band itself only below 32.\<close>

definition marks_bit :: "int \<Rightarrow> nat \<Rightarrow> bool" where
  "marks_bit k j \<longleftrightarrow> (if k mod 32 = 31 then 31 \<le> j else int j = k mod 32)"

lemma set_dirty_bits:
  assumes "0 \<le> i" "b \<le> 2 ^ 16" "j < 64"
  shows "bit (set_dirty i b d) j \<longleftrightarrow> bit d j \<or>
    (\<exists>k. i \<le> k \<and> k < b \<and> marks_bit k j)"
  using assms
proof (induction i b d rule: set_dirty.induct)
  case (1 i b d)
  show ?case
  proof (cases "i < b")
    case True
    obtain n where n: "i = int n" using 1(2) by (metis nonneg_int_cases)
    have "unat (of_nat n :: u16) = n" using True 1(3) n by (simp only: unat_of_nat) simp
    moreover have m: "i mod 32 = int (n mod 32)" by (simp add: n zmod_int)
    ultimately have *: "bit (SetNthBit d (word_of_int i)) j \<longleftrightarrow>
        bit d j \<or> marks_bit i j"
      using SetNthBit_bits [of j d "of_nat n"] 1(4) by (simp add: n m marks_bit_def)
    have "bit (set_dirty i b d) j \<longleftrightarrow> bit (SetNthBit d (word_of_int i)) j \<or>
        (\<exists>k. i + 1 \<le> k \<and> k < b \<and> marks_bit k j)"
      using 1(1) [OF True] 1(2-4) True by (simp only: set_dirty.simps [of i b]) simp
    moreover have "i \<le> k \<longleftrightarrow> k = i \<or> i + 1 \<le> k" for k by linarith
    ultimately show ?thesis using * True by auto
  qed (auto simp: set_dirty.simps [of i b])
qed

text \<open>The bands that \<^verbatim>\<open>DrawRect\<close> marks, for a rectangle of \<open>h\<close> rows from row \<open>y\<close> on.\<close>

definition last_band :: "nat \<Rightarrow> nat \<Rightarrow> nat \<Rightarrow> nat" where
  "last_band y h rh = (y + h) div rh + (if y mod rh = 0 then 1 else 0)"

lemma DrawRect_eq:
  fixes s :: "'a graphics_state_scheme"
  assumes ok: "screen_ok s" and w: "0 < unat (dim_width dims)" and h: "0 < unat (dim_height dims)"
    and x: "unat (coord_x coords) + unat (dim_width dims) \<le> screen_width s"
    and y: "unat (coord_y coords) + unat (dim_height dims) \<le> screen_height s"
  shows "DrawRect coords dims rgb s =
    (let rh = unat (row_height (GLOBAL_CTX s)); y = unat (coord_y coords)
     in Some (mark_dirty (int (y div rh)) (int (last_band y (unat (dim_height dims)) rh) + 1)
      (s\<lparr>memory := rect_memory (memory s)
        (buffer (GLOBAL_CTX s) + of_nat (4 * (unat (coord_x coords) + y * screen_width s)))
        (screen_width s) (unat (dim_width dims)) (unat (dim_height dims)) (PackRgb rgb (fb (GLOBAL_CTX s)))\<rparr>)))"
proof -
  let ?W = "screen_width s" and ?H = "screen_height s" and ?rh = "unat (row_height (GLOBAL_CTX s))"
  let ?i = "unat (coord_x coords) + unat (coord_y coords) * ?W"
  have "4 * ?i < 4 * (?W * ?H)"
    using rect_bounds [OF w x y, of 0] h w by (simp add: algebra_simps)
  then have "?i < ?W * ?H" by (simp only: mult_less_cancel1)
  then have "?i < 2 ^ 31" by (rule less_le_trans [OF _ screen_okD(3) [OF ok]])
  then have ptr: "pixel_ptr s (PixelIndex coords s) =
    buffer (GLOBAL_CTX s) + of_nat (4 * ?i)" by (rule pixel_index_ptr)
  have bytes: "row_bytes (dim_width dims) s = of_nat (4 * unat (dim_width dims))"
    by (rule row_bytes_32 [OF screen_okD(1) [OF ok]])
  have rh: "0 < ?rh" by (rule screen_okD(2) [OF ok])
  show ?thesis
    unfolding DrawRect_def Let_def ptr bytes rect_memory_def last_band_def uint_nat
      of_nat_add [symmetric] sdiv_of_nat smod_of_nat
    using rh by (simp add: uint_0_iff unat_gt_0)
qed

lemma marks_bit_low: "j < 32 \<Longrightarrow> marks_bit (int j) j"
  by (auto simp: marks_bit_def)

text \<open>What \<^verbatim>\<open>DrawRect\<close> does to the dirty string.\<close>

lemma DrawRect_marks:
  assumes "y + h < 2 ^ 14" "j < 64"
  shows "bit (set_dirty (int (y div rh)) (int (last_band y h rh) + 1) d) j \<longleftrightarrow>
    bit d j \<or> (\<exists>k. y div rh \<le> k \<and> k \<le> last_band y h rh \<and> marks_bit (int k) j)"
proof -
  have "(y + h) div rh < 2 ^ 14" using div_le_dividend [of "y + h" rh] assms(1) by linarith
  then have b: "int (last_band y h rh) + 1 \<le> 2 ^ 16" by (simp add: last_band_def)
  have "(\<exists>k. int i \<le> k \<and> k < int b + 1 \<and> marks_bit k j) \<longleftrightarrow>
      (\<exists>k. i \<le> k \<and> k \<le> b \<and> marks_bit (int k) j)" (is "?l \<longleftrightarrow> ?r") for i b
  proof
    assume ?l
    then obtain k where k: "int i \<le> k" "k < int b + 1" "marks_bit k j" by blast
    then obtain n where "k = int n" by (metis nonneg_int_cases of_nat_0_le_iff order_trans)
    then show ?r using k by auto
  next
    assume ?r
    then obtain k where "i \<le> k" "k \<le> b" "marks_bit (int k) j" by blast
    then show ?l by (intro exI [of _ "int k"]) simp
  qed
  then show ?thesis using set_dirty_bits [OF _ b assms(2)] by simp
qed

text \<open>The rectangle at \<open>coords\<close> of size \<open>dims\<close> is not empty and lies on the screen.\<close>

definition on_screen :: "Coordinate \<Rightarrow> Dimensions \<Rightarrow> 'a graphics_state_scheme \<Rightarrow> bool" where
  "on_screen coords dims s \<longleftrightarrow> 0 < unat (dim_width dims) \<and> 0 < unat (dim_height dims) \<and>
     unat (coord_x coords) + unat (dim_width dims) \<le> screen_width s \<and>
     unat (coord_y coords) + unat (dim_height dims) \<le> screen_height s"

definition in_rect :: "Coordinate \<Rightarrow> Dimensions \<Rightarrow> nat \<Rightarrow> nat \<Rightarrow> bool" where
  "in_rect coords dims px py \<longleftrightarrow>
     unat (coord_x coords) \<le> px \<and> px < unat (coord_x coords) + unat (dim_width dims) \<and>
     unat (coord_y coords) \<le> py \<and> py < unat (coord_y coords) + unat (dim_height dims)"

abbreviation back_pixel :: "'a graphics_state_scheme \<Rightarrow> nat \<Rightarrow> nat \<Rightarrow> u32" where
  "back_pixel s px py \<equiv> pixel_at (memory s) (buffer (GLOBAL_CTX s)) (screen_width s) px py"

text \<open>
  What \<^verbatim>\<open>DrawRect\<close> does from \<open>s\<close> to \<open>s'\<close>: the pixels of the rectangle, every other byte of the
  memory, the dirty bands, and the rest of the context.
\<close>

definition rect_drawn ::
  "Coordinate \<Rightarrow> Dimensions \<Rightarrow> RGB \<Rightarrow> 'a graphics_state_scheme \<Rightarrow> 'a graphics_state_scheme \<Rightarrow> bool" where
  "rect_drawn coords dims rgb s s' \<longleftrightarrow>
     (\<forall>px py. px < screen_width s \<longrightarrow> py < screen_height s \<longrightarrow> back_pixel s' px py =
       (if in_rect coords dims px py then PackRgb rgb (fb (GLOBAL_CTX s)) else back_pixel s px py)) \<and>
     (\<forall>a. \<not> in_range a (buffer (GLOBAL_CTX s)) (4 * (screen_width s * screen_height s)) \<longrightarrow>
       memory s' a = memory s a) \<and>
     (\<forall>j < 64. bit (dirty_block_str (GLOBAL_CTX s')) j \<longleftrightarrow> bit (dirty_block_str (GLOBAL_CTX s)) j \<or>
       (\<exists>k. unat (coord_y coords) div band_height s \<le> k \<and>
         k \<le> last_band (unat (coord_y coords)) (unat (dim_height dims)) (band_height s) \<and> marks_bit (int k) j)) \<and>
     GLOBAL_CTX s' = (GLOBAL_CTX s)\<lparr>dirty_block_str := dirty_block_str (GLOBAL_CTX s')\<rparr>"

lemma rect_drawnD:
  assumes "rect_drawn coords dims rgb s s'"
  shows "px < screen_width s \<Longrightarrow> py < screen_height s \<Longrightarrow> back_pixel s' px py =
      (if in_rect coords dims px py then PackRgb rgb (fb (GLOBAL_CTX s)) else back_pixel s px py)"
    and "\<not> in_range a (buffer (GLOBAL_CTX s)) (4 * (screen_width s * screen_height s)) \<Longrightarrow> memory s' a = memory s a"
    and "j < 64 \<Longrightarrow> bit (dirty_block_str (GLOBAL_CTX s')) j \<longleftrightarrow> bit (dirty_block_str (GLOBAL_CTX s)) j \<or>
      (\<exists>k. unat (coord_y coords) div band_height s \<le> k \<and>
        k \<le> last_band (unat (coord_y coords)) (unat (dim_height dims)) (band_height s) \<and> marks_bit (int k) j)"
    and "GLOBAL_CTX s' = (GLOBAL_CTX s)\<lparr>dirty_block_str := dirty_block_str (GLOBAL_CTX s')\<rparr>"
  using assms unfolding rect_drawn_def by blast+

lemma DrawRect_effect:
  fixes s :: "'a graphics_state_scheme"
  assumes ok: "screen_ok s" and rect: "on_screen coords dims s"
  obtains s' where "DrawRect coords dims rgb s = Some s'" "rect_drawn coords dims rgb s s'"
proof -
  have d: "0 < unat (dim_width dims)" "0 < unat (dim_height dims)"
    "unat (coord_x coords) + unat (dim_width dims) \<le> screen_width s"
    "unat (coord_y coords) + unat (dim_height dims) \<le> screen_height s"
    using rect unfolding on_screen_def by blast+
  define D where "D = buffer (GLOBAL_CTX s) + of_nat (4 * (unat (coord_x coords) + unat (coord_y coords) * screen_width s))"
  have y: "unat (coord_y coords) + unat (dim_height dims) < 2 ^ 14"
    using d(4) screen_okD(6) [OF ok] by linarith
  note mem = rect_memory_pixels [OF d screen_okD(4) [OF ok] D_def]
  show thesis
    by (rule that [OF DrawRect_eq [OF ok d, of rgb, unfolded Let_def, folded D_def]])
      (simp add: rect_drawn_def mark_dirty_def in_rect_def mem DrawRect_marks [OF y])
qed

section \<open>Writing the dirty bands back\<close>

text \<open>
  The memory after the rows \<open>R\<close> of the buffer at \<open>B\<close> are copied to the frame buffer at \<open>F\<close>, whose rows
  are \<open>P\<close> bytes apart.
\<close>

definition show_rows :: "u64 \<Rightarrow> u64 \<Rightarrow> nat \<Rightarrow> nat \<Rightarrow> (nat \<Rightarrow> bool) \<Rightarrow> mem \<Rightarrow> mem" where
  "show_rows B F W P R m =
     (\<lambda>a. let q = unat (a - F)
          in if R (q div P) \<and> q mod P < 4 * W then m (B + of_nat (q div P * (4 * W) + q mod P)) else m a)"

lemma show_rows_none: "(\<And>r. \<not> R r) \<Longrightarrow> show_rows B F W P R m = m"
  by (simp add: show_rows_def Let_def)

lemma show_rows_cong: "(\<And>r. R r \<longleftrightarrow> R' r) \<Longrightarrow> show_rows B F W P R m = show_rows B F W P R' m"
  by (simp add: show_rows_def)

lemma row_offset_less:
  assumes "r < H" "k < (S :: nat)"
  shows "r * S + k < S * H"
proof -
  have "Suc r * S \<le> H * S" using assms(1) by (intro mult_le_mono1) simp
  then have "r * S + S \<le> S * H" by (simp add: mult.commute)
  then show ?thesis using assms(2) by linarith
qed

lemma show_rows_other:
  assumes "\<And>r. R r \<Longrightarrow> r < H" "4 * W \<le> P" "\<not> in_range a F (P * H)"
  shows "show_rows B F W P R m a = m a"
proof -
  define q where "q = unat (a - F)"
  have "\<not> (R (q div P) \<and> q mod P < 4 * W)"
  proof
    assume q: "R (q div P) \<and> q mod P < 4 * W"
    then have "q div P * P + q mod P < P * H" using assms(1,2) by (intro row_offset_less) auto
    then show False using assms(3) by (simp add: in_range_def q_def)
  qed
  then show ?thesis unfolding show_rows_def Let_def q_def by auto
qed

text \<open>A row of the frame buffer is not part of the buffer at \<open>B\<close>.\<close>

lemma show_rows_source:
  assumes "\<And>r. R r \<Longrightarrow> r < H" "4 * W \<le> P" "disjoint B (4 * (W * H)) F (P * H)" "in_range a B (4 * (W * H))"
  shows "show_rows B F W P R m a = m a"
  using show_rows_other [OF assms(1,2) disjointD [OF assms(3,4)]] .

lemma row_in_buffer:
  assumes "r < H" "k < 4 * W" "4 * (W * H) \<le> 2 ^ 64"
  shows "in_range (B + of_nat (r * (4 * W) + k)) B (4 * (W * H))"
proof -
  have "r * (4 * W) + k < 4 * (W * H)" using row_offset_less [OF assms(1,2)] by (simp only: mult.assoc)
  then show ?thesis using assms(3) by (simp only: in_range_def add_diff_cancel_left' unat_of_nat) simp
qed

lemma show_rows_show_rows:
  assumes R: "\<And>r. R r \<Longrightarrow> r < H" "\<And>r. R' r \<Longrightarrow> r < H"
    and "4 * W \<le> P" "disjoint B (4 * (W * H)) F (P * H)" "4 * (W * H) \<le> 2 ^ 64"
  shows "show_rows B F W P R' (show_rows B F W P R m) = show_rows B F W P (\<lambda>r. R r \<or> R' r) m"
proof
  fix a
  define q where "q = unat (a - F)"
  have "show_rows B F W P R m (B + of_nat (q div P * (4 * W) + q mod P)) = m (B + of_nat (q div P * (4 * W) + q mod P))"
    if "R' (q div P)" "q mod P < 4 * W"
    using that assms by (intro show_rows_source [where H = H] row_in_buffer) auto
  then show "show_rows B F W P R' (show_rows B F W P R m) a = show_rows B F W P (\<lambda>r. R r \<or> R' r) m a"
    unfolding show_rows_def [of B F W P R'] show_rows_def [of B F W P "\<lambda>r. R r \<or> R' r"] Let_def q_def [symmetric]
    by (auto simp: show_rows_def Let_def q_def)
qed

lemma memmove_row:
  assumes "0 < W" "4 * W \<le> P" "r < H" "unat B + 4 * (W * H) \<le> 2 ^ 64" "unat F + P * H \<le> 2 ^ 64"
    and "W < 2 ^ 16"
  shows "memmove m (F + of_nat (r * P)) (B + of_nat (r * (4 * W))) (of_nat (4 * W)) =
    show_rows B F W P (\<lambda>k. k = r) m"
proof
  fix a
  define q where "q = unat (a - F)"
  have P: "r * P + (4 * W - 1) < P * H" and W: "r * (4 * W) + (4 * W - 1) < 4 * (W * H)"
    using row_offset_less [OF assms(3), of "4 * W - 1" P] row_offset_less [OF assms(3), of "4 * W - 1" "4 * W"] assms(1,2)
    by (simp_all add: mult.assoc)
  then have P: "r * P + 4 * W \<le> P * H" and W: "r * (4 * W) + 4 * W \<le> 4 * (W * H)" using assms(1) by linarith+
  have u: "unat (F + of_nat (r * P)) = unat F + r * P" "unat (B + of_nat (r * (4 * W))) = unat B + r * (4 * W)"
    using P W assms(1,4,5) unat_offset_nowrap [of F "P * H" "r * P"] unat_offset_nowrap [of B "4 * (W * H)" "r * (4 * W)"]
    by linarith+
  have w: "unat (of_nat (4 * W) :: u64) = 4 * W"
    using assms(6) by (simp only: unat_of_nat) simp
  have "memmove m (F + of_nat (r * P)) (B + of_nat (r * (4 * W))) (of_nat (4 * W)) a =
    (if in_range a (F + of_nat (r * P)) (4 * W) then m (B + of_nat (r * (4 * W)) + (a - (F + of_nat (r * P)))) else m a)"
    using memmove_apply [of "F + of_nat (r * P)" "of_nat (4 * W)" "B + of_nat (r * (4 * W))" m a]
    unfolding u w using P W assms(4,5) by linarith
  moreover have "in_range a (F + of_nat (r * P)) (4 * W) \<longleftrightarrow> q div P = r \<and> q mod P < 4 * W"
    unfolding q_def using assms P by (intro in_range_row) auto
  moreover have "a - (F + of_nat (r * P)) = of_nat (q mod P)" if "q div P = r"
  proof -
    have "a - F = of_nat q" by (simp add: q_def)
    also have "q = r * P + q mod P" using that by auto
    finally show ?thesis by (simp add: algebra_simps)
  qed
  ultimately show "memmove m (F + of_nat (r * P)) (B + of_nat (r * (4 * W))) (of_nat (4 * W)) a =
    show_rows B F W P (\<lambda>k. k = r) m a"
    by (auto simp: show_rows_def Let_def q_def [symmetric] add.assoc)
qed

abbreviation screen_pitch :: "'a graphics_state_scheme \<Rightarrow> nat" where
  "screen_pitch s \<equiv> unat (framebuffer_pitch (fb (GLOBAL_CTX s)))"

abbreviation frame_buffer :: "'a graphics_state_scheme \<Rightarrow> u64" where
  "frame_buffer s \<equiv> framebuffer_addr (fb (GLOBAL_CTX s))"

text \<open>The frame buffer holds the rows of the screen and shares no byte with the back buffer.\<close>

definition shown_ok :: "'a graphics_state_scheme \<Rightarrow> bool" where
  "shown_ok s \<longleftrightarrow> screen_ok s \<and> 0 < screen_width s \<and> 4 * screen_width s \<le> screen_pitch s \<and>
     screen_pitch s * screen_height s \<le> 2 ^ 31 \<and>
     unat (frame_buffer s) + screen_pitch s * screen_height s \<le> 2 ^ 64 \<and>
     disjoint (buffer (GLOBAL_CTX s)) (4 * (screen_width s * screen_height s))
       (frame_buffer s) (screen_pitch s * screen_height s)"

abbreviation shown :: "(nat \<Rightarrow> bool) \<Rightarrow> 'a graphics_state_scheme \<Rightarrow> 'a graphics_state_scheme" where
  "shown R s \<equiv> s\<lparr>memory := show_rows (buffer (GLOBAL_CTX s)) (frame_buffer s) (screen_width s) (screen_pitch s) R (memory s)\<rparr>"

lemma shown_okD:
  assumes "shown_ok s"
  shows "screen_ok s" "0 < screen_width s" "4 * screen_width s \<le> screen_pitch s"
    "screen_pitch s * screen_height s \<le> 2 ^ 31"
    "unat (frame_buffer s) + screen_pitch s * screen_height s \<le> 2 ^ 64"
    "disjoint (buffer (GLOBAL_CTX s)) (4 * (screen_width s * screen_height s))
       (frame_buffer s) (screen_pitch s * screen_height s)"
  using assms unfolding shown_ok_def by blast+

lemma shown_ok_update [simp]: "shown_ok (s\<lparr>memory := m\<rparr>) = shown_ok s"
  "shown_ok (s\<lparr>GLOBAL_CTX := (GLOBAL_CTX s)\<lparr>dirty_block_str := d\<rparr>\<rparr>) = shown_ok s"
  by (simp_all add: shown_ok_def screen_ok_def)

lemma shown_shown:
  assumes ok: "shown_ok s" and R: "\<And>r. R r \<Longrightarrow> r < screen_height s" "\<And>r. R' r \<Longrightarrow> r < screen_height s"
  shows "shown R' (shown R s) = shown (\<lambda>r. R r \<or> R' r) s"
proof -
  have "4 * (screen_width s * screen_height s) \<le> 2 ^ 64"
    using screen_okD(4) [OF shown_okD(1) [OF ok]] by linarith
  from show_rows_show_rows [OF R shown_okD(3,6) [OF ok] this] show ?thesis by simp
qed

lemma write_back_row:
  assumes ok: "shown_ok s" and r: "r < screen_height s"
  shows "memmove (memory s) (frame_buffer s + i32_to_u64 (of_nat (r * screen_pitch s)))
      (pixel_ptr s (of_nat (r * screen_width s))) (row_bytes (framebuffer_width (fb (GLOBAL_CTX s))) s) =
    memory (shown (\<lambda>k. k = r) s)"
proof -
  note d = shown_okD [OF ok]
  note so = screen_okD [OF d(1)]
  have "r * screen_width s + 0 < screen_width s * screen_height s" using d(2) r by (intro row_offset_less)
  then have "r * screen_width s < 2 ^ 31" using so(3) by linarith
  then have src: "pixel_ptr s (of_nat (r * screen_width s)) = buffer (GLOBAL_CTX s) + of_nat (r * (4 * screen_width s))"
    by (simp only: pixel_ptr_def i32_to_u64_of_nat) (simp add: algebra_simps)
  have "r * screen_pitch s + 0 < screen_pitch s * screen_height s" using d(2,3) r by (intro row_offset_less) auto
  then have "r * screen_pitch s < 2 ^ 31" using d(4) by linarith
  then have dest: "i32_to_u64 (of_nat (r * screen_pitch s)) = of_nat (r * screen_pitch s)" by (rule i32_to_u64_of_nat)
  have "screen_width s < 2 ^ 16" using unsigned_less [of "framebuffer_width (fb (GLOBAL_CTX s))"] by simp
  from memmove_row [OF d(2,3) r so(4) d(5) this] show ?thesis
    unfolding src dest row_bytes_32 [OF so(1)] by simp
qed

lemma write_back_rows_eq:
  assumes "shown_ok s" "r + n \<le> screen_height s"
  shows "write_back_rows n (of_nat (r * screen_width s)) (of_nat (r * screen_pitch s)) s =
    shown (\<lambda>k. r \<le> k \<and> k < r + n) s"
  using assms
proof (induction n arbitrary: r s)
  case 0
  then show ?case by (simp add: show_rows_none)
next
  case (Suc n)
  let ?s = "shown (\<lambda>k. k = r) s"
  have "write_back_rows (Suc n) (of_nat (r * screen_width s)) (of_nat (r * screen_pitch s)) s =
    write_back_rows n (of_nat (Suc r * screen_width s)) (of_nat (Suc r * screen_pitch s)) ?s"
    using write_back_row [OF Suc.prems(1), of r] Suc.prems(2)
    by (simp add: Let_def fb_width_def algebra_simps)
  also have "\<dots> = shown (\<lambda>k. Suc r \<le> k \<and> k < Suc r + n) ?s"
    using Suc.IH [of ?s "Suc r"] Suc.prems by simp
  also have "\<dots> = shown (\<lambda>k. k = r \<or> Suc r \<le> k \<and> k < Suc r + n) s"
    using Suc.prems by (intro shown_shown) auto
  also have "(\<lambda>k. k = r \<or> Suc r \<le> k \<and> k < Suc r + n) = (\<lambda>k. r \<le> k \<and> k < r + Suc n)" by auto
  finally show ?case .
qed

lemma band_rows: "0 < h \<Longrightarrow> c * h \<le> k \<and> k < c * h + h \<longleftrightarrow> k div h = (c :: nat)"
  using div_nat_eqI [of h c k] div_times_less_eq_dividend [of k h] dividend_less_div_times [of h k]
  by (auto simp: ac_simps)

lemma WriteBackCell_eq:
  assumes ok: "shown_ok s" and c: "c < 64"
  shows "WriteBackCell (of_nat c) s =
    (let s = shown (\<lambda>r. r div band_height s = c) s
     in s\<lparr>GLOBAL_CTX := (GLOBAL_CTX s)\<lparr>dirty_block_str := unset_bit c (dirty_block_str (GLOBAL_CTX s))\<rparr>\<rparr>)"
proof -
  let ?h = "band_height s"
  note so = screen_okD [OF shown_okD(1) [OF ok]]
  have u: "unat (of_nat c :: u8) = c" "unat (of_nat c :: u16) = c" using c by (simp_all add: unat_of_nat)
  have "Suc c * ?h \<le> 64 * ?h" using c by (intro mult_le_mono1) simp
  then have "c * ?h + ?h \<le> screen_height s" using so(7) unfolding mult_Suc by linarith
  then have rows: "write_back_rows ?h (of_nat (c * ?h * screen_width s)) (of_nat (c * ?h * screen_pitch s)) s =
      shown (\<lambda>k. c * ?h \<le> k \<and> k < c * ?h + ?h) s"
    by (rule write_back_rows_eq [OF ok])
  have band: "(\<lambda>k. c * ?h \<le> k \<and> k < c * ?h + ?h) = (\<lambda>k. k div ?h = c)"
    using band_rows [OF so(2)] by blast
  have cc: "ucast (of_nat c :: u8) = (of_nat c :: i32)" "ucast (of_nat c :: u8) = (of_nat c :: u16)"
    using arg_cong [OF u(1), of "of_nat :: nat \<Rightarrow> i32"] arg_cong [OF u(1), of "of_nat :: nat \<Rightarrow> u16"] by simp_all
  have ind: "ucast (of_nat c :: u8) * ucast (row_height (GLOBAL_CTX s)) * fb_width s = (of_nat (c * ?h * screen_width s) :: i32)"
    "ucast (of_nat c :: u8) * ucast (row_height (GLOBAL_CTX s)) * ucast (framebuffer_pitch (fb (GLOBAL_CTX s))) =
      (of_nat (c * ?h * screen_pitch s) :: i32)"
    unfolding cc by (simp_all add: fb_width_def)
  have "ClearNthBit d (ucast (of_nat c :: u8)) = unset_bit c d" for d
    using SetNthBit_bits [of 0 d "of_nat c"] c unfolding u(2) cc(2) by blast
  then show ?thesis
    unfolding WriteBackCell_def Let_def ind rows [unfolded band] by simp
qed

abbreviation with_dirty :: "u64 \<Rightarrow> 'a graphics_state_scheme \<Rightarrow> 'a graphics_state_scheme" where
  "with_dirty d s \<equiv> s\<lparr>GLOBAL_CTX := (GLOBAL_CTX s)\<lparr>dirty_block_str := d\<rparr>\<rparr>"

lemma with_dirty_same: "with_dirty (dirty_block_str (GLOBAL_CTX s)) s = s"
  by simp

definition clear_bands :: "nat \<Rightarrow> nat \<Rightarrow> u64 \<Rightarrow> u64" where
  "clear_bands x n d = d AND NOT (push_bit x (mask n))"

lemma bit_clear_bands: "bit (clear_bands x n d) j \<longleftrightarrow> bit d j \<and> \<not> (x \<le> j \<and> j < x + n)"
  using bit_imp_le_length [of d j] by (auto simp: clear_bands_def bit_simps)

lemma clear_bands_Suc: "clear_bands x (Suc n) d = clear_bands (Suc x) n (unset_bit x d)"
  by (rule bit_word_eqI) (auto simp: bit_clear_bands bit_unset_bit_iff)

lemma clear_bands_all: "clear_bands 0 64 d = 0"
  by (rule bit_word_eqI) (auto simp: bit_clear_bands)

lemma band_on_screen:
  assumes "screen_ok s" "r div band_height s < 64"
  shows "r < screen_height s"
proof -
  have "r < 64 * band_height s" using assms(2) screen_okD(2) [OF assms(1)] by (simp add: div_less_iff_less_mult)
  then show ?thesis using screen_okD(7) [OF assms(1)] by linarith
qed

lemma unset_bit_clear: "\<not> bit d x \<Longrightarrow> unset_bit x (d :: u64) = d"
  by (rule bit_word_eqI) (auto simp: bit_simps)

lemma write_back_loop_eq:
  assumes "shown_ok s" "x + n \<le> 64"
  shows "write_back_loop n x s =
    with_dirty (clear_bands x n (dirty_block_str (GLOBAL_CTX s)))
      (shown (\<lambda>r. x \<le> r div band_height s \<and> r div band_height s < x + n \<and>
        bit (dirty_block_str (GLOBAL_CTX s)) (r div band_height s)) s)"
  using assms
proof (induction n arbitrary: x s)
  case 0
  then show ?case by (simp add: show_rows_none clear_bands_def)
next
  case (Suc n)
  let ?h = "band_height s" and ?d = "dirty_block_str (GLOBAL_CTX s)"
  let ?s = "with_dirty (unset_bit x ?d) (shown (\<lambda>r. r div ?h = x \<and> bit ?d x) s)"
  have x: "x < 64" using Suc.prems by simp
  have get: "GetNthBit ?d (of_nat x) \<noteq> 0 \<longleftrightarrow> bit ?d x"
    using SetNthBit_bits [of 0 ?d "of_nat x"] x by (simp add: unat_of_nat)
  have step: "(if GetNthBit ?d (of_nat x) \<noteq> 0 then WriteBackCell (of_nat x) s else s) = ?s"
    unfolding get using WriteBackCell_eq [OF Suc.prems(1) x] by (simp add: show_rows_none unset_bit_clear Let_def)
  let ?R = "\<lambda>r. Suc x \<le> r div ?h \<and> r div ?h < Suc x + n \<and> bit (unset_bit x ?d) (r div ?h)"
  have ok: "shown_ok ?s" using Suc.prems(1) by (simp add: shown_ok_def screen_ok_def)
  have "write_back_loop (Suc n) x s = write_back_loop n (Suc x) ?s"
    unfolding write_back_loop.simps step ..
  also have "\<dots> = with_dirty (clear_bands (Suc x) n (unset_bit x ?d)) (shown ?R ?s)"
    using Suc.IH [OF ok, of "Suc x"] Suc.prems(2) by simp
  also have "\<dots> = with_dirty (clear_bands x (Suc n) ?d) (shown ?R (shown (\<lambda>r. r div ?h = x \<and> bit ?d x) s))"
    by (simp add: clear_bands_Suc)
  also have "shown ?R (shown (\<lambda>r. r div ?h = x \<and> bit ?d x) s) = shown (\<lambda>r. r div ?h = x \<and> bit ?d x \<or> ?R r) s"
    using Suc.prems x by (intro shown_shown) (auto intro!: band_on_screen dest: shown_okD(1))
  also have "(\<lambda>r. r div ?h = x \<and> bit ?d x \<or> ?R r) =
      (\<lambda>r. x \<le> r div ?h \<and> r div ?h < x + Suc n \<and> bit ?d (r div ?h))"
    by (auto simp: fun_eq_iff bit_unset_bit_iff le_less Suc_le_eq)
  finally show ?case .
qed

lemma WriteBack_eq:
  assumes "shown_ok s"
  shows "WriteBack s = with_dirty 0 (shown (\<lambda>r. r div band_height s < 64 \<and>
    bit (dirty_block_str (GLOBAL_CTX s)) (r div band_height s)) s)"
  using write_back_loop_eq [OF assms, of 0 64] screen_okD(5) [OF shown_okD(1) [OF assms]]
  by (simp add: WriteBack_def clear_bands_all)

text \<open>The pixel of the frame buffer in column \<open>px\<close> of row \<open>py\<close>.\<close>

definition screen_pixel :: "'a graphics_state_scheme \<Rightarrow> nat \<Rightarrow> nat \<Rightarrow> u32" where
  "screen_pixel s px py = load32 (memory s) (frame_buffer s + of_nat (py * screen_pitch s + 4 * px))"

lemma show_rows_pixel:
  assumes "px < W" "py < H" "4 * W \<le> P" "P * H \<le> 2 ^ 64"
  shows "load32 (show_rows B F W P R m) (F + of_nat (py * P + 4 * px)) =
    (if R py then load32 m (B + of_nat (4 * (px + py * W))) else load32 m (F + of_nat (py * P + 4 * px)))"
proof -
  have byte: "show_rows B F W P R m (F + of_nat (py * P + 4 * px) + of_nat k) =
    (if R py then m (B + of_nat (4 * (px + py * W)) + of_nat k) else m (F + of_nat (py * P + 4 * px) + of_nat k))"
    if "k < 4" for k
  proof -
    have o: "4 * px + k < 4 * W" using that assms(1) by linarith
    have "py * P + (4 * px + k) < P * H" using o assms by (intro row_offset_less) auto
    then have q: "unat (F + of_nat (py * P + 4 * px) + of_nat k - F) = py * P + (4 * px + k)"
      using assms(4) unat_of_nat [of "py * P + (4 * px + k)", where 'a = 64] by (simp add: add.assoc)
    have d: "(py * P + (4 * px + k)) div P = py" "(py * P + (4 * px + k)) mod P = 4 * px + k"
      using o assms(3) by auto
    have "of_nat (py * (4 * W) + (4 * px + k)) = (of_nat (4 * (px + py * W)) + of_nat k :: u64)"
      by (simp add: algebra_simps)
    then show ?thesis unfolding show_rows_def Let_def q d using o by (simp only: add.assoc) simp
  qed
  show ?thesis
    using load32_shift [of "show_rows B F W P R m" "F + of_nat (py * P + 4 * px)" m "B + of_nat (4 * (px + py * W))"]
      load32_shift [of "show_rows B F W P R m" "F + of_nat (py * P + 4 * px)" m "F + of_nat (py * P + 4 * px)"]
      byte by auto
qed


definition dirty_row :: "'a graphics_state_scheme \<Rightarrow> nat \<Rightarrow> bool" where
  "dirty_row s py \<longleftrightarrow> py div band_height s < 64 \<and> bit (dirty_block_str (GLOBAL_CTX s)) (py div band_height s)"

lemma pixel_range:
  assumes "px < W" "py < H" "4 * (W * H) \<le> 2 ^ 64" "in_range a (B + of_nat (4 * (px + py * W))) 4"
  shows "in_range a B (4 * (W * H))"
  using in_rect_row [of 1 px W py 1 H 0 a B] rect_bounds [of 1 px W py 1 H 0] assms by (simp add: in_range_def)

lemma WriteBack_effect:
  fixes s :: "'a graphics_state_scheme"
  assumes ok: "shown_ok s"
  shows "GLOBAL_CTX (WriteBack s) = (GLOBAL_CTX s)\<lparr>dirty_block_str := 0\<rparr>"
    and "px < screen_width s \<Longrightarrow> py < screen_height s \<Longrightarrow> screen_pixel (WriteBack s) px py =
      (if dirty_row s py then back_pixel s px py else screen_pixel s px py)"
    and "px < screen_width s \<Longrightarrow> py < screen_height s \<Longrightarrow> back_pixel (WriteBack s) px py = back_pixel s px py"
    and "\<not> in_range a (frame_buffer s) (screen_pitch s * screen_height s) \<Longrightarrow> memory (WriteBack s) a = memory s a"
proof -
  note d = shown_okD [OF ok]
  let ?R = "\<lambda>r. r div band_height s < 64 \<and> bit (dirty_block_str (GLOBAL_CTX s)) (r div band_height s)"
  note eq = WriteBack_eq [OF ok]
  have R: "\<And>r. ?R r \<Longrightarrow> r < screen_height s" using band_on_screen [OF d(1)] by blast
  have b: "4 * (screen_width s * screen_height s) \<le> 2 ^ 64" using screen_okD(4) [OF d(1)] by linarith
  show "GLOBAL_CTX (WriteBack s) = (GLOBAL_CTX s)\<lparr>dirty_block_str := 0\<rparr>" by (simp add: eq)
  show "memory (WriteBack s) a = memory s a" if "\<not> in_range a (frame_buffer s) (screen_pitch s * screen_height s)"
    using show_rows_other [OF R d(3) that] by (simp add: eq)
  show "back_pixel (WriteBack s) px py = back_pixel s px py" if p: "px < screen_width s" "py < screen_height s"
    unfolding pixel_at_def eq
    using show_rows_source [OF R d(3,6) pixel_range [OF p b]] by (auto intro!: c32.load_cong)
  have "screen_pitch s * screen_height s \<le> 2 ^ 64" by (rule order_trans [OF d(4)]) simp
  from show_rows_pixel [OF _ _ d(3) this]
  show "screen_pixel (WriteBack s) px py = (if dirty_row s py then back_pixel s px py else screen_pixel s px py)"
    if p: "px < screen_width s" "py < screen_height s"
    using p by (simp add: screen_pixel_def dirty_row_def pixel_at_def eq)
qed


section \<open>Drawing and showing\<close>

text \<open>Outside the dirty bands, the first \<open>n\<close> bands of the screen show the back buffer.\<close>

definition in_sync :: "nat \<Rightarrow> 'a graphics_state_scheme \<Rightarrow> bool" where
  "in_sync n s \<longleftrightarrow> (\<forall>px < screen_width s. \<forall>py < n * band_height s.
     dirty_row s py \<or> screen_pixel s px py = back_pixel s px py)"

lemma last_band_bound: "0 < rh \<Longrightarrow> py < y + h \<Longrightarrow> py div rh \<le> last_band y h rh"
  using div_le_mono [of py "y + h" rh] by (simp add: last_band_def)

lemma screen_pixel_frame:
  assumes ok: "shown_ok s" and p: "px < screen_width s" "py < screen_height s"
    and same: "GLOBAL_CTX s' = (GLOBAL_CTX s)\<lparr>dirty_block_str := d\<rparr>"
    and mem: "\<And>a. \<not> in_range a (buffer (GLOBAL_CTX s)) (4 * (screen_width s * screen_height s)) \<Longrightarrow> memory s' a = memory s a"
  shows "screen_pixel s' px py = screen_pixel s px py"
proof -
  note o = shown_okD [OF ok]
  let ?o = "py * screen_pitch s + 4 * px"
  have "py * screen_pitch s + (4 * px + 3) < screen_pitch s * screen_height s"
    using p o(3) by (intro row_offset_less) auto
  moreover have P: "screen_pitch s * screen_height s \<le> 2 ^ 64" by (rule order_trans [OF o(4)]) simp
  ultimately have u: "unat (of_nat ?o :: u64) = ?o" "?o + 4 \<le> screen_pitch s * screen_height s"
    by (simp_all only: unat_of_nat) auto
  have "in_range a (frame_buffer s) (screen_pitch s * screen_height s)" if "in_range a (frame_buffer s + of_nat ?o) 4" for a
    using field_range [OF that _ P] u by simp
  then have "\<not> in_range a (buffer (GLOBAL_CTX s)) (4 * (screen_width s * screen_height s))"
    if "in_range a (frame_buffer s + of_nat ?o) 4" for a
    using that disjointD [OF o(6)] by blast
  then show ?thesis unfolding screen_pixel_def using same mem by (auto intro!: c32.load_cong)
qed

lemma shown_ok_ctx: "GLOBAL_CTX s' = (GLOBAL_CTX s)\<lparr>dirty_block_str := d\<rparr> \<Longrightarrow> shown_ok s' \<longleftrightarrow> shown_ok s"
  by (simp add: shown_ok_def screen_ok_def)

text \<open>A change of the back buffer that marks the rows it touches: in the first 32 bands, writing back shows it.\<close>

lemma drawing_shown:
  fixes s :: "'a graphics_state_scheme"
  assumes ok: "shown_ok s" and sync: "in_sync 32 s" and ctx: "GLOBAL_CTX s' = (GLOBAL_CTX s)\<lparr>dirty_block_str := d\<rparr>"
    and mem: "\<And>a. \<not> in_range a (buffer (GLOBAL_CTX s)) (4 * (screen_width s * screen_height s)) \<Longrightarrow> memory s' a = memory s a"
    and marks: "\<And>px py. px < screen_width s \<Longrightarrow> py < 32 * band_height s \<Longrightarrow>
      dirty_row s' py \<or> \<not> dirty_row s py \<and> back_pixel s' px py = back_pixel s px py"
  shows "in_sync 32 s'" "in_sync 32 (WriteBack s')"
    and "px < screen_width s \<Longrightarrow> py < 32 * band_height s \<Longrightarrow> screen_pixel (WriteBack s') px py = back_pixel s' px py"
proof -
  have c: "screen_width s' = screen_width s" "screen_height s' = screen_height s" "band_height s' = band_height s"
    by (simp_all add: ctx)
  have h: "y < screen_height s" if "y < 32 * band_height s" for y
    using that screen_okD(7) [OF shown_okD(1) [OF ok]] by linarith
  note w = WriteBack_effect [OF shown_ok_ctx [OF ctx, THEN iffD2, OF ok], unfolded c]
  have px: "dirty_row s' y \<or> screen_pixel s' x y = back_pixel s' x y" if "x < screen_width s" "y < 32 * band_height s" for x y
  proof -
    have "dirty_row s y \<or> screen_pixel s x y = back_pixel s x y" using sync that unfolding in_sync_def by blast
    then show ?thesis using marks [OF that] screen_pixel_frame [OF ok that(1) h [OF that(2)] ctx mem] by auto
  qed
  have *: "screen_pixel (WriteBack s') x y = back_pixel s' x y \<and> back_pixel (WriteBack s') x y = back_pixel s' x y"
    if "x < screen_width s" "y < 32 * band_height s" for x y
    using px [OF that] w(2,3) [OF that(1) h [OF that(2)]] by (auto simp: c)
  show "in_sync 32 s'" using px unfolding in_sync_def c by blast
  show "in_sync 32 (WriteBack s')" using * unfolding in_sync_def w(1) by (simp add: c)
  show "screen_pixel (WriteBack s') px py = back_pixel s' px py" if "px < screen_width s" "py < 32 * band_height s"
    using * [OF that] by blast
qed

text \<open>A pixel of the first 32 bands: the rectangle marks its band, or the pixel stays.\<close>

lemma rect_drawn_marks:
  assumes ok: "shown_ok s" and drawn: "rect_drawn coords dims rgb s s'" and p: "px < screen_width s" "py < 32 * band_height s"
  shows "dirty_row s' py \<or> \<not> dirty_row s py \<and> back_pixel s' px py = back_pixel s px py"
proof -
  note so = screen_okD [OF shown_okD(1) [OF ok]] and d = rect_drawnD [OF drawn]
  have h: "py < screen_height s" using p(2) so(7) by linarith
  have j: "py div band_height s < 32" using p(2) so(2) by (simp add: div_less_iff_less_mult)
  have rh: "band_height s' = band_height s" by (subst d(4)) simp
  have "dirty_row s' py" if "in_rect coords dims px py"
    using that j d(3) [of "py div band_height s"] marks_bit_low [OF j] last_band_bound [OF so(2)]
    by (auto simp: dirty_row_def rh in_rect_def intro: div_le_mono)
  moreover have "dirty_row s' py" if "dirty_row s py" using that d(3) by (auto simp: dirty_row_def rh)
  ultimately show ?thesis using d(1) [OF p(1) h] by auto
qed

lemma lower_band_unmarked:
  assumes "32 \<le> j" "j < 64" "32 \<le> k" "k \<le> 62"
  shows "\<not> marks_bit (int k) j"
proof -
  have "k mod 32 = k - 32" using assms by (simp add: mod_if)
  then have "int k mod 32 = int (k - 32)" by (metis of_nat_mod of_nat_numeral)
  then show ?thesis using assms by (simp add: marks_bit_def)
qed

text \<open>A screen of one column and 64 rows for the examples.\<close>

definition screen_fb :: stivale2_struct_tag_framebuffer where
  "screen_fb = \<lparr>framebuffer_addr = 0x10000, framebuffer_width = 1, framebuffer_height = 64, framebuffer_pitch = 4,
     framebuffer_bpp = 32, memory_model = 1, red_mask_size = 8, red_mask_shift = 16, green_mask_size = 8,
     green_mask_shift = 8, blue_mask_size = 8, blue_mask_shift = 0\<rparr>"

lemma screen_fb_simps [simp]:
  "framebuffer_addr screen_fb = 0x10000" "framebuffer_width screen_fb = 1" "framebuffer_height screen_fb = 64"
  "framebuffer_pitch screen_fb = 4" "framebuffer_bpp screen_fb = 32"
  by (simp_all add: screen_fb_def)

definition demo_screen :: graphics_state where
  "demo_screen = lapic_state.extend (demo_lapic\<lparr>memory := \<lambda>_. 0\<rparr>) (graphics_state.fields
     \<lparr>fb = screen_fb, dirty_block_str = 0, buffer = 0x1000, num_rows = 64, row_height = 1\<rparr>)"

lemma demo_screen_simps [simp]:
  "GLOBAL_CTX demo_screen = \<lparr>fb = screen_fb, dirty_block_str = 0, buffer = 0x1000, num_rows = 64, row_height = 1\<rparr>"
  "memory demo_screen = (\<lambda>_. 0)"
  by (simp_all add: demo_screen_def graphics_state.defs lapic_state.defs)

lemma demo_screen_ok: "shown_ok demo_screen"
  using disjoint_nowrap [of "0x1000" 256 "0x10000" 256] by (simp add: shown_ok_def screen_ok_def screen_fb_def)

lemma demo_screen_sync: "in_sync 32 demo_screen"
  by (simp add: in_sync_def screen_pixel_def pixel_at_def load32_def load_le_zero)

lemma demo_on_screen:
  "unat y < 64 \<Longrightarrow> on_screen \<lparr>coord_x = 0, coord_y = y\<rparr> \<lparr>dim_width = 1, dim_height = 1\<rparr> demo_screen"
  by (simp add: on_screen_def screen_fb_def)

lemma demo_in_rect:
  "in_rect \<lparr>coord_x = 0, coord_y = y\<rparr> \<lparr>dim_width = 1, dim_height = 1\<rparr> px py \<longleftrightarrow> px = 0 \<and> py = unat y"
  by (auto simp: in_rect_def)

lemma demo_pack: "PackRgb \<lparr>red = 1, green = 2, blue = 3\<rparr> screen_fb = 0x010203"
  by (simp add: PackRgb_def screen_fb_def pack_component_def ABS_RIGHT_SHIFT_def shl32_def sar32_def Let_def)

lemma demo_pixel: "pixel_at (\<lambda>_. 0) B W px py = 0"
  by (simp add: pixel_at_def load32_def load_le_zero)

text \<open>\<^verbatim>\<open>DrawRect\<close> returns for every non-empty rectangle on a screen that \<^verbatim>\<open>InitGraphicsCtx\<close> set up. In
  the back buffer every pixel of the rectangle then has the packed colour, every other pixel its old
  value, and no byte outside the back buffer changes.\<close>

theorem DrawRect_correct:
  assumes "screen_ok s" and "on_screen coords dims s"
  shows "\<exists>s'. DrawRect coords dims rgb s = Some s' \<and>
    (\<forall>px py. px < screen_width s \<longrightarrow> py < screen_height s \<longrightarrow> back_pixel s' px py =
      (if in_rect coords dims px py then PackRgb rgb (fb (GLOBAL_CTX s)) else back_pixel s px py)) \<and>
    (\<forall>a. \<not> in_range a (buffer (GLOBAL_CTX s)) (4 * (screen_width s * screen_height s)) \<longrightarrow>
      memory s' a = memory s a)"
  by (rule DrawRect_effect [OF assms, of rgb]) (auto simp: rect_drawn_def)

theorem DrawRect_correct_witness:
  "\<exists>s'. DrawRect \<lparr>coord_x = 0, coord_y = 5\<rparr> \<lparr>dim_width = 1, dim_height = 1\<rparr> \<lparr>red = 1, green = 2, blue = 3\<rparr> demo_screen = Some s'
    \<and> back_pixel s' 0 5 = 0x010203 \<and> back_pixel s' 0 6 = 0 \<and> memory s' 0x5000 = 0"
proof -
  let ?rgb = "\<lparr>red = 1, green = 2, blue = 3\<rparr>"
  obtain s' where s': "DrawRect \<lparr>coord_x = 0, coord_y = 5\<rparr> \<lparr>dim_width = 1, dim_height = 1\<rparr> ?rgb demo_screen = Some s'"
    and px: "\<And>px py. px < screen_width demo_screen \<Longrightarrow> py < screen_height demo_screen \<Longrightarrow> back_pixel s' px py =
      (if in_rect \<lparr>coord_x = 0, coord_y = 5\<rparr> \<lparr>dim_width = 1, dim_height = 1\<rparr> px py then PackRgb ?rgb (fb (GLOBAL_CTX demo_screen))
       else back_pixel demo_screen px py)"
    and a: "\<And>a. \<not> in_range a (buffer (GLOBAL_CTX demo_screen)) (4 * (screen_width demo_screen * screen_height demo_screen)) \<Longrightarrow>
      memory s' a = memory demo_screen a"
    using DrawRect_correct [OF shown_okD(1) [OF demo_screen_ok] demo_on_screen [of 5], of ?rgb] by auto
  show ?thesis
    using s' px [of 0 5] px [of 0 6] a [of "0x5000"]
    by (simp add: demo_in_rect demo_pack demo_pixel in_range_def)
qed

text \<open>\<^verbatim>\<open>WriteBack\<close> copies exactly the rows of the dirty bands to the frame buffer, whatever the pitch, leaves the
  back buffer and every byte outside the frame buffer as they were, and marks all bands clean.\<close>

theorem WriteBack_correct:
  assumes "shown_ok s"
  shows "dirty_block_str (GLOBAL_CTX (WriteBack s)) = 0 \<and>
    (\<forall>px py. px < screen_width s \<longrightarrow> py < screen_height s \<longrightarrow>
      screen_pixel (WriteBack s) px py = (if dirty_row s py then back_pixel s px py else screen_pixel s px py) \<and>
      back_pixel (WriteBack s) px py = back_pixel s px py) \<and>
    (\<forall>a. \<not> in_range a (frame_buffer s) (screen_pitch s * screen_height s) \<longrightarrow> memory (WriteBack s) a = memory s a)"
  using WriteBack_effect [OF assms] by simp

theorem WriteBack_correct_witness:
  "\<exists>s :: graphics_state. screen_pixel s 0 3 \<noteq> back_pixel s 0 3 \<and> screen_pixel (WriteBack s) 0 3 = back_pixel s 0 3"
proof -
  let ?m = "store32 (\<lambda>_. 0) 0x100C 7"
  let ?s = "with_dirty 8 (demo_screen\<lparr>memory := ?m\<rparr>)"
  have "back_pixel ?s 0 3 = 7" by (simp add: pixel_at_def c32.load_store)
  moreover have "screen_pixel ?s 0 3 = 0"
    using c32.load_store_disjoint [OF disjoint_nowrap, of "0x1000C" "0x100C" "\<lambda>_. 0" 7]
    by (simp add: screen_pixel_def load32_def load_le_zero)
  moreover have "dirty_row ?s 3" by (simp add: dirty_row_def)
  moreover have "shown_ok ?s" using demo_screen_ok by (simp add: shown_ok_def screen_ok_def)
  from WriteBack_correct [OF this] have "dirty_row ?s 3 \<Longrightarrow> screen_pixel (WriteBack ?s) 0 3 = back_pixel ?s 0 3"
    by simp
  ultimately show ?thesis by (intro exI [of _ ?s]) simp
qed

text \<open>C14. Drawing a rectangle and writing back, in the upper half of the screen (the first 32 of the 64 bands): that
  the clean bands show the back buffer is an invariant of both, and after them the screen shows the
  rectangle in its colour and everything else as it was drawn before.\<close>

theorem DrawRect_shown:
  assumes "shown_ok s" and "on_screen coords dims s" and "in_sync 32 s"
  shows "\<exists>s'. DrawRect coords dims rgb s = Some s' \<and> in_sync 32 s' \<and> in_sync 32 (WriteBack s') \<and>
    (\<forall>px py. px < screen_width s \<longrightarrow> py < 32 * band_height s \<longrightarrow> screen_pixel (WriteBack s') px py =
      (if in_rect coords dims px py then PackRgb rgb (fb (GLOBAL_CTX s)) else back_pixel s px py))"
proof -
  note so = screen_okD(7) [OF shown_okD(1) [OF assms(1)]]
  obtain s' where s': "DrawRect coords dims rgb s = Some s'" "rect_drawn coords dims rgb s s'"
    by (rule DrawRect_effect [OF shown_okD(1) [OF assms(1)] assms(2)])
  note d = rect_drawnD [OF s'(2)]
  note w = drawing_shown [OF assms(1,3) d(4,2) rect_drawn_marks [OF assms(1) s'(2)]]
  show ?thesis using s'(1) w d(1) so by (intro exI [of _ s']) auto
qed

theorem DrawRect_shown_witness:
  "\<exists>s'. DrawRect \<lparr>coord_x = 0, coord_y = 5\<rparr> \<lparr>dim_width = 1, dim_height = 1\<rparr> \<lparr>red = 1, green = 2, blue = 3\<rparr> demo_screen = Some s'
    \<and> screen_pixel (WriteBack s') 0 5 = 0x010203 \<and> screen_pixel (WriteBack s') 0 6 = 0"
  using DrawRect_shown [OF demo_screen_ok demo_on_screen demo_screen_sync, of 5 "\<lparr>red = 1, green = 2, blue = 3\<rparr>"]
  by (auto simp: demo_in_rect demo_pack demo_pixel)



end
