(* ===== verification/Glyph.thy ===== *)
theory Glyph
  imports Screen
begin

text \<open>
  The pixels of a character: what \<^verbatim>\<open>DrawChar\<close> of \<^verbatim>\<open>src/src/kernel/graphics/graphics_ctx.c\<close> draws into the back buffer and
  what \<^verbatim>\<open>WriteBack\<close> then shows.
\<close>

unbundle bit_operations_syntax

section \<open>Painting pixels\<close>

text \<open>From \<open>s\<close> to \<open>s'\<close> the pixels \<open>P\<close> of the back buffer are painted in the colour \<open>v\<close> and nothing else changes.\<close>

definition paints :: "(nat \<Rightarrow> nat \<Rightarrow> bool) \<Rightarrow> u32 \<Rightarrow> 'a graphics_state_scheme \<Rightarrow> 'a graphics_state_scheme \<Rightarrow> bool" where
  "paints P v s s' \<longleftrightarrow> GLOBAL_CTX s' = GLOBAL_CTX s \<and>
     (\<forall>px < screen_width s. \<forall>py < screen_height s. back_pixel s' px py = (if P px py then v else back_pixel s px py)) \<and>
     (\<forall>a. \<not> in_range a (buffer (GLOBAL_CTX s)) (4 * (screen_width s * screen_height s)) \<longrightarrow> memory s' a = memory s a)"

lemma paints_refl: "(\<And>px py. \<not> P px py) \<Longrightarrow> paints P v s s"
  by (simp add: paints_def)

lemma paints_trans: "paints P v s s1 \<Longrightarrow> paints Q v s1 s2 \<Longrightarrow> paints (\<lambda>px py. P px py \<or> Q px py) v s s2"
  by (auto simp: paints_def)

lemma paints_ctx: "paints P v s s' \<Longrightarrow> GLOBAL_CTX s' = GLOBAL_CTX s"
  by (simp add: paints_def)

lemma paints_cong:
  assumes "paints P v s s'" "\<And>px py. P px py \<longleftrightarrow> Q px py"
  shows "paints Q v s s'"
proof -
  have "P = Q" using assms(2) by blast
  with assms(1) show ?thesis by simp
qed

lemma pixel_position:
  assumes "px < W" "py < H" "qx < W" "qy < (H :: nat)"
  shows "px + py * W = qx + qy * W \<longleftrightarrow> px = qx \<and> py = qy" "px + py * W < W * H"
proof -
  show "px + py * W = qx + qy * W \<longleftrightarrow> px = qx \<and> py = qy"
  proof
    assume e: "px + py * W = qx + qy * W"
    have "(px + py * W) div W = py" "(qx + qy * W) div W = qy" using assms by auto
    then have "py = qy" using e by metis
    then show "px = qx \<and> py = qy" using e by simp
  qed simp
  have "py * W + W \<le> H * W" using assms(2) mult_le_mono1 [of "Suc py" H W] by simp
  then show "px + py * W < W * H" using assms(1) by (simp add: mult.commute)
qed

lemma paints_pixel:
  fixes s :: "'a graphics_state_scheme"
  assumes ok: "screen_ok s" and q: "qx < screen_width s" "qy < screen_height s"
  shows "paints (\<lambda>px py. px = qx \<and> py = qy) v s
    (s\<lparr>memory := store32 (memory s) (buffer (GLOBAL_CTX s) + of_nat (4 * (qx + qy * screen_width s))) v\<rparr>)"
proof -
  let ?W = "screen_width s" and ?H = "screen_height s" and ?B = "buffer (GLOBAL_CTX s)"
  let ?a = "\<lambda>i. ?B + of_nat (4 * i)"
  note b = screen_okD(4) [OF ok]
  have u: "unat (?a i) = unat ?B + 4 * i" if "i < ?W * ?H" for i
    using that b by (intro unat_add_of_nat) linarith
  have sep: "?a i = ?a j \<longleftrightarrow> i = j" "i \<noteq> j \<Longrightarrow> disjoint (?a i) 4 (?a j) 4" if "i < ?W * ?H" "j < ?W * ?H" for i j
    using u [OF that(1)] u [OF that(2)] that b by (auto intro!: disjoint_nowrap simp: word_unat_eq_iff)
  have load: "load32 (store32 (memory s) (?a j) v) (?a i) = (if i = j then v else load32 (memory s) (?a i))"
    if "i < ?W * ?H" "j < ?W * ?H" for i j
    using sep [OF that] by (subst c32.load_store_eq) auto
  have pixel: "pixel_at (store32 (memory s) (?a (qx + qy * ?W)) v) ?B ?W px py = (if px = qx \<and> py = qy then v else back_pixel s px py)"
    if "px < ?W" "py < ?H" for px py
    unfolding pixel_at_def load [OF pixel_position(2) [OF that q] pixel_position(2) [OF q q]] pixel_position(1) [OF that q] ..
  have range: "in_range a ?B (4 * (?W * ?H))" if "in_range a (?a (qx + qy * ?W)) 4" for a
    by (rule pixel_range [OF q _ that]) (use b in linarith)
  have "store32 (memory s) (?a (qx + qy * ?W)) v a = memory s a" if "\<not> in_range a ?B (4 * (?W * ?H))" for a
    using that range by (intro c32.store_other) blast
  then show ?thesis unfolding paints_def using pixel by (simp del: of_nat_add of_nat_mult)
qed

section \<open>A character\<close>

lemma GetNthBit_row:
  assumes "i < 64"
  shows "GetNthBit (ucast (row :: u8)) (of_nat i) \<noteq> 0 \<longleftrightarrow> bit row i"
proof -
  have "unat (of_nat i :: u16) = i" using assms by (simp add: unat_of_nat)
  then show ?thesis using SetNthBit_bits [of 0 "ucast row" "of_nat i"] assms by (simp add: bit_unsigned_iff)
qed

lemma pixel_ptr_at:
  assumes "px + py * screen_width s < 2 ^ 31" "x = of_nat px" "y = of_nat py"
  shows "pixel_ptr s (x + y * fb_width s) = buffer (GLOBAL_CTX s) + of_nat (4 * (px + py * screen_width s))"
proof -
  have "x + y * fb_width s = of_nat (px + py * screen_width s)" by (simp add: assms(2,3) fb_width_def)
  then show ?thesis using i32_to_u64_of_nat [OF assms(1)] by (simp add: pixel_ptr_def)
qed

lemma char_row_paints:
  fixes s :: "'a graphics_state_scheme"
  assumes "screen_ok s" "i + n \<le> 64" "X + i + n \<le> screen_width s" "Y < screen_height s"
  shows "paints (\<lambda>px py. py = Y \<and> X + i \<le> px \<and> px < X + i + n \<and> bit row (px - X)) v s
    (char_row n i row v (of_nat X) (of_nat Y) s)"
  using assms
proof (induction n arbitrary: i s)
  case 0
  show ?case by (auto intro: paints_refl)
next
  case (Suc n)
  let ?s = "if GetNthBit (ucast row) (of_nat i) \<noteq> 0
    then s\<lparr>memory := store32 (memory s) (pixel_ptr s (of_nat X + of_nat i + of_nat Y * fb_width s)) v\<rparr> else s"
  have q: "X + i < screen_width s" using Suc.prems(3) by linarith
  have "X + i + Y * screen_width s < screen_width s * screen_height s" by (rule pixel_position(2) [OF q Suc.prems(4) q Suc.prems(4)])
  then have "X + i + Y * screen_width s < 2 ^ 31" using screen_okD(3) [OF Suc.prems(1)] by linarith
  then have p: "pixel_ptr s (of_nat X + of_nat i + of_nat Y * fb_width s) = buffer (GLOBAL_CTX s) + of_nat (4 * (X + i + Y * screen_width s))"
    by (intro pixel_ptr_at) simp_all
  have bit: "GetNthBit (ucast row) (of_nat i) \<noteq> 0 \<longleftrightarrow> bit row i" using Suc.prems(2) by (intro GetNthBit_row) simp
  have one: "paints (\<lambda>px py. px = X + i \<and> py = Y \<and> bit row i) v s ?s"
    unfolding p bit using paints_cong [OF paints_pixel [OF Suc.prems(1) q Suc.prems(4)]] by (auto intro: paints_refl)
  then have c: "GLOBAL_CTX ?s = GLOBAL_CTX s" by (rule paints_ctx)
  have "screen_ok ?s" using Suc.prems(1) unfolding screen_ok_def c .
  from Suc.IH [OF this, of "Suc i"] Suc.prems have rest: "paints (\<lambda>px py. py = Y \<and> X + Suc i \<le> px \<and> px < X + Suc i + n \<and> bit row (px - X)) v ?s
    (char_row n (Suc i) row v (of_nat X) (of_nat Y) ?s)" by (simp only: c)
  have "X + i \<le> px \<longleftrightarrow> px = X + i \<or> X + Suc i \<le> px" for px by linarith
  then show ?case unfolding char_row.simps by (intro paints_cong [OF paints_trans [OF one rest]]) auto
qed

text \<open>The pixel in column \<open>px\<close> of row \<open>py\<close> belongs to the character \<open>c\<close> of the font at \<open>coords\<close>.\<close>

definition in_glyph :: "Font \<Rightarrow> Coordinate \<Rightarrow> u8 \<Rightarrow> nat \<Rightarrow> nat \<Rightarrow> bool" where
  "in_glyph font coords c px py \<longleftrightarrow>
     unat (coord_x coords) \<le> px \<and> px < unat (coord_x coords) + unat (font_width font) \<and>
     unat (coord_y coords) \<le> py \<and> py < unat (coord_y coords) + unat (font_height font) \<and>
     bit (matrix font (16 * sint c + int (py - unat (coord_y coords)))) (px - unat (coord_x coords))"

lemma char_rows_paints:
  fixes s :: "'a graphics_state_scheme"
  assumes "screen_ok s" "unat (font_width font) \<le> 64" "unat (coord_x coords) + unat (font_width font) \<le> screen_width s"
    "unat (coord_y coords) + j + n \<le> screen_height s"
  shows "paints (\<lambda>px py. unat (coord_y coords) + j \<le> py \<and> py < unat (coord_y coords) + j + n \<and>
      unat (coord_x coords) \<le> px \<and> px < unat (coord_x coords) + unat (font_width font) \<and>
      bit (matrix font (16 * sint c + int (py - unat (coord_y coords)))) (px - unat (coord_x coords))) v s
    (char_rows n j font c v coords s)"
  using assms
proof (induction n arbitrary: j s)
  case 0
  show ?case by (auto intro: paints_refl)
next
  case (Suc n)
  let ?X = "unat (coord_x coords)" and ?Y = "unat (coord_y coords)"
  let ?s = "char_row (unat (font_width font)) 0 (matrix font (16 * sint c + int j)) v (ucast (coord_x coords)) (ucast (coord_y coords) + of_nat j) s"
  have xy: "(ucast (coord_x coords) :: i32) = of_nat ?X" "(ucast (coord_y coords) + of_nat j :: i32) = of_nat (?Y + j)" by simp_all
  have row: "paints (\<lambda>px py. py = ?Y + j \<and> ?X + 0 \<le> px \<and> px < ?X + 0 + unat (font_width font) \<and>
      bit (matrix font (16 * sint c + int j)) (px - ?X)) v s ?s"
    unfolding xy using Suc.prems by (intro char_row_paints) simp_all
  note k = paints_ctx [OF row]
  have "screen_ok ?s" using Suc.prems(1) unfolding screen_ok_def k .
  note rest = Suc.IH [OF this Suc.prems(2), of "Suc j", unfolded k, OF Suc.prems(3)]
  have "?Y + Suc j + n \<le> screen_height s" using Suc.prems(4) by simp
  moreover have "?Y + j \<le> py \<longleftrightarrow> py = ?Y + j \<or> ?Y + Suc j \<le> py" for py by linarith
  ultimately show ?case unfolding char_rows.simps by (intro paints_cong [OF paints_trans [OF row rest]]) auto
qed

text \<open>The bands a character of \<open>h\<close> rows from row \<open>y\<close> on is in end before this one.\<close>

definition glyph_end :: "nat \<Rightarrow> nat \<Rightarrow> nat \<Rightarrow> nat" where
  "glyph_end y h rh = (y + h) div rh + (if 0 < (y + h) mod rh then 1 else 0)"

lemma glyph_end_bound:
  assumes "0 < rh" "py < y + h"
  shows "py div rh < glyph_end y h rh"
proof (cases "(y + h) mod rh = 0")
  case True
  then obtain q where q: "y + h = q * rh" by (metis mod_0_imp_dvd dvd_def mult.commute)
  then show ?thesis using assms by (simp add: glyph_end_def less_mult_imp_div_less)
next
  case False
  have "py div rh \<le> (y + h) div rh" using assms(2) by (intro div_le_mono) simp
  with False show ?thesis by (simp add: glyph_end_def)
qed

text \<open>What \<^verbatim>\<open>DrawChar\<close> does from \<open>s\<close> to \<open>s'\<close>.\<close>

definition char_drawn :: "Font \<Rightarrow> Coordinate \<Rightarrow> u8 \<Rightarrow> 'a graphics_state_scheme \<Rightarrow> 'a graphics_state_scheme \<Rightarrow> bool" where
  "char_drawn font coords c s s' \<longleftrightarrow>
     (\<forall>px < screen_width s. \<forall>py < screen_height s. back_pixel s' px py =
       (if in_glyph font coords c px py then PackRgb (font_rgb font) (fb (GLOBAL_CTX s)) else back_pixel s px py)) \<and>
     (\<forall>a. \<not> in_range a (buffer (GLOBAL_CTX s)) (4 * (screen_width s * screen_height s)) \<longrightarrow> memory s' a = memory s a) \<and>
     (\<forall>j < 64. bit (dirty_block_str (GLOBAL_CTX s')) j \<longleftrightarrow> bit (dirty_block_str (GLOBAL_CTX s)) j \<or>
       (\<exists>k. int (unat (coord_y coords) div band_height s) \<le> k \<and>
         k < int (glyph_end (unat (coord_y coords)) (unat (font_height font)) (band_height s)) \<and> marks_bit k j)) \<and>
     GLOBAL_CTX s' = (GLOBAL_CTX s)\<lparr>dirty_block_str := dirty_block_str (GLOBAL_CTX s')\<rparr>"

text \<open>The character lies on the screen; the bitmap has at most 64 columns.\<close>

definition glyph_on_screen :: "Font \<Rightarrow> Coordinate \<Rightarrow> 'a graphics_state_scheme \<Rightarrow> bool" where
  "glyph_on_screen font coords s \<longleftrightarrow> unat (font_width font) \<le> 64 \<and>
     unat (coord_x coords) + unat (font_width font) \<le> screen_width s \<and>
     unat (coord_y coords) + unat (font_height font) \<le> screen_height s"

lemma DrawChar_effect:
  fixes s :: "'a graphics_state_scheme"
  assumes ok: "screen_ok s" and on: "glyph_on_screen font coords s"
  obtains s' where "DrawChar font coords c s = Some s'" "char_drawn font coords c s s'"
proof -
  let ?y = "unat (coord_y coords)" and ?h = "unat (font_height font)" and ?v = "PackRgb (font_rgb font) (fb (GLOBAL_CTX s))"
  let ?s = "char_rows ?h 0 font c ?v coords s"
  note g = on [unfolded glyph_on_screen_def]
  have p: "paints (in_glyph font coords c) ?v s ?s"
    by (rule paints_cong [OF char_rows_paints [OF ok, of font coords 0 ?h]]) (use g in \<open>auto simp: in_glyph_def\<close>)
  note k = paints_ctx [OF p]
  note rh = screen_okD(2) [OF ok]
  have e: "DrawChar font coords c s = Some (mark_dirty (int (?y div band_height s)) (int (glyph_end ?y ?h (band_height s))) ?s)"
    unfolding DrawChar_def Let_def k glyph_end_def uint_nat of_nat_add [symmetric] sdiv_of_nat smod_of_nat
    using rh by (simp add: uint_0_iff unat_gt_0)
  have "?y + ?h < 2 ^ 14" using g screen_okD(6) [OF ok] by linarith
  then have "(?y + ?h) div band_height s < 2 ^ 14" by (rule le_less_trans [OF div_le_dividend])
  then have b: "int (glyph_end ?y ?h (band_height s)) \<le> 2 ^ 16" by (simp add: glyph_end_def)
  show thesis
    by (rule that [OF e]) (use p k in \<open>auto simp: char_drawn_def paints_def mark_dirty_def set_dirty_bits [OF _ b]\<close>)
qed

section \<open>Showing a character\<close>

lemma char_drawn_marks:
  assumes ok: "shown_ok s" and drawn: "char_drawn font coords c s s'" and p: "px < screen_width s" "py < 32 * band_height s"
  shows "dirty_row s' py \<or> \<not> dirty_row s py \<and> back_pixel s' px py = back_pixel s px py"
proof -
  note so = screen_okD [OF shown_okD(1) [OF ok]] and d = drawn [unfolded char_drawn_def]
  have h: "py < screen_height s" using p(2) so(7) by linarith
  have j: "py div band_height s < 32" using p(2) so(2) by (simp add: div_less_iff_less_mult)
  have "GLOBAL_CTX s' = (GLOBAL_CTX s)\<lparr>dirty_block_str := dirty_block_str (GLOBAL_CTX s')\<rparr>" using d by blast
  then have rh: "band_height s' = band_height s" by (rule ssubst) simp
  have "dirty_row s' py" if g: "in_glyph font coords c px py"
  proof -
    have "int (unat (coord_y coords) div band_height s) \<le> int (py div band_height s)"
      using g by (simp only: of_nat_le_iff in_glyph_def div_le_mono)
    moreover have "int (py div band_height s) < int (glyph_end (unat (coord_y coords)) (unat (font_height font)) (band_height s))"
      using g glyph_end_bound [OF so(2)] by (simp only: of_nat_less_iff in_glyph_def)
    ultimately show ?thesis using d j marks_bit_low [OF j] unfolding dirty_row_def rh by auto
  qed
  moreover have "dirty_row s' py" if "dirty_row s py" using that d by (auto simp: dirty_row_def rh)
  ultimately show ?thesis using d p(1) h by auto
qed



end
