(* ===== verification/Spin_Lock.thy ===== *)
theory Spin_Lock
  imports Main
begin

text \<open>
  \<^verbatim>\<open>src/src/kernel/utils/spin_lock.c\<close>: the lock is a shared flag. \<^verbatim>\<open>wait\<close> reads the flag
  until it is clear and then, in a second memory access, sets it; \<^verbatim>\<open>release\<close> clears it. The
  processors are numbered and interleave at the memory accesses. The same two accesses guard
  \<^verbatim>\<open>PrintK\<close> (\<^verbatim>\<open>IN_USE\<close>).
\<close>

section \<open>The lock as a transition system\<close>

datatype lock_pc = Outside | Waiting | Acquiring | Holding

record spin_state =
  spin_lock :: bool
  pcs :: "nat \<Rightarrow> lock_pc"

inductive wait_step :: "nat \<Rightarrow> spin_state \<Rightarrow> spin_state \<Rightarrow> bool" where
  call: "pcs s i = Outside \<Longrightarrow> wait_step i s (s\<lparr>pcs := (pcs s)(i := Waiting)\<rparr>)"
| spin: "pcs s i = Waiting \<Longrightarrow> spin_lock s \<Longrightarrow> wait_step i s s"
| leave: "pcs s i = Waiting \<Longrightarrow> \<not> spin_lock s \<Longrightarrow> wait_step i s (s\<lparr>pcs := (pcs s)(i := Acquiring)\<rparr>)"
| take: "pcs s i = Acquiring \<Longrightarrow>
    wait_step i s (s\<lparr>spin_lock := True, pcs := (pcs s)(i := Holding)\<rparr>)"

inductive release_step :: "nat \<Rightarrow> spin_state \<Rightarrow> spin_state \<Rightarrow> bool" where
  clear: "pcs s i = Holding \<Longrightarrow>
    release_step i s (s\<lparr>spin_lock := False, pcs := (pcs s)(i := Outside)\<rparr>)"

definition lock_step :: "nat \<Rightarrow> spin_state \<Rightarrow> spin_state \<Rightarrow> bool" where
  "lock_step i s t \<longleftrightarrow> wait_step i s t \<or> release_step i s t"

definition lock_init :: spin_state where
  "lock_init = \<lparr>spin_lock = False, pcs = (\<lambda>_. Outside)\<rparr>"

text \<open>States reached under any interleaving.\<close>

inductive lock_reachable :: "spin_state \<Rightarrow> bool" where
  init: "lock_reachable lock_init"
| step: "lock_reachable s \<Longrightarrow> lock_step i s t \<Longrightarrow> lock_reachable t"

text \<open>
  States reached when nothing runs between the last read and the write of a \<^verbatim>\<open>wait\<close>, as on a
  single processor that is not interrupted there.
\<close>

inductive lock_reachable_atomic :: "spin_state \<Rightarrow> bool" where
  init: "lock_reachable_atomic lock_init"
| step: "lock_reachable_atomic s \<Longrightarrow> lock_step i s t \<Longrightarrow> \<forall>j. pcs s j = Acquiring \<longrightarrow> j = i
    \<Longrightarrow> lock_reachable_atomic t"

section \<open>Mutual exclusion\<close>

definition lock_inv :: "spin_state \<Rightarrow> bool" where
  "lock_inv s \<longleftrightarrow>
     (if spin_lock s then \<exists>h. pcs s h = Holding \<and> (\<forall>j. j \<noteq> h \<longrightarrow> pcs s j \<in> {Outside, Waiting})
      else \<exists>h. pcs s h \<noteq> Holding \<and> (\<forall>j. j \<noteq> h \<longrightarrow> pcs s j \<in> {Outside, Waiting}))"

lemma lock_step_inv:
  assumes "lock_inv s" "lock_step i s t" "\<forall>j. pcs s j = Acquiring \<longrightarrow> j = i"
  shows "lock_inv t"
proof -
  obtain h where h: "\<And>j. j \<noteq> h \<Longrightarrow> pcs s j = Outside \<or> pcs s j = Waiting"
    "spin_lock s \<longleftrightarrow> pcs s h = Holding"
    using assms(1) by (auto simp: lock_inv_def split: if_splits)
  have free: "pcs s h = Outside \<or> pcs s h = Waiting" if "\<not> spin_lock s" "h \<noteq> i"
    using that h(2) assms(3) by (cases "pcs s h") auto
  consider "wait_step i s t" | "release_step i s t" using assms(2) by (auto simp: lock_step_def)
  then show ?thesis
  proof cases
    case 1
    then show ?thesis
    proof (cases rule: wait_step.cases)
      case call
      then have "spin_lock s \<Longrightarrow> h \<noteq> i" using h(2) by auto
      then show ?thesis unfolding call(1) lock_inv_def using h call(2) by (auto intro!: exI [of _ h])
    next
      case leave
      then have "pcs s j = Outside \<or> pcs s j = Waiting" if "j \<noteq> i" for j
        using h(1) [of j] free that by blast
      then show ?thesis unfolding leave(1) lock_inv_def using h leave by (auto intro!: exI [of _ i])
    next
      case take
      then have "h = i" using h(1) [of i] by force
      then show ?thesis unfolding take(1) lock_inv_def using h by (auto intro!: exI [of _ i])
    qed (use assms(1) in simp)
  next
    case 2
    then show ?thesis
    proof (cases rule: release_step.cases)
      case clear
      then have "h = i" using h(1) [of i] by force
      then show ?thesis unfolding clear(1) lock_inv_def using h by (auto intro!: exI [of _ i])
    qed
  qed
qed

lemma lock_reachable_atomic_inv: "lock_reachable_atomic s \<Longrightarrow> lock_inv s"
proof (induction rule: lock_reachable_atomic.induct)
  case init
  then show ?case by (simp add: lock_inv_def lock_init_def)
next
  case (step s i t)
  then show ?case using lock_step_inv by blast
qed

text \<open>C39. When nothing interleaves between the read that finds the lock free and the write that takes
  it, at most one processor holds the lock at any time, the flag is set exactly while one does, and
  a processor that waits for a free lock holds it after its next two steps.
\<close>

theorem spin_lock_mutual_exclusion:
  assumes "lock_reachable_atomic s"
  shows "(pcs s i = Holding \<longrightarrow> pcs s j = Holding \<longrightarrow> i = j) \<and>
    (spin_lock s \<longleftrightarrow> (\<exists>i. pcs s i = Holding)) \<and>
    (pcs s i = Waiting \<longrightarrow> \<not> spin_lock s \<longrightarrow>
      (\<exists>t u. wait_step i s t \<and> wait_step i t u \<and> pcs u i = Holding))"
proof -
  have "\<exists>t u. wait_step i s t \<and> wait_step i t u \<and> pcs u i = Holding"
    if "pcs s i = Waiting" "\<not> spin_lock s"
  proof -
    let ?t = "s\<lparr>pcs := (pcs s)(i := Acquiring)\<rparr>"
    have "wait_step i ?t (?t\<lparr>spin_lock := True, pcs := (pcs ?t)(i := Holding)\<rparr>)"
      by (rule wait_step.take) simp
    with wait_step.leave [OF that] show ?thesis by fastforce
  qed
  moreover obtain h where h: "\<And>j. j \<noteq> h \<Longrightarrow> pcs s j = Outside \<or> pcs s j = Waiting"
    "spin_lock s \<longleftrightarrow> pcs s h = Holding"
    using lock_reachable_atomic_inv [OF assms] by (auto simp: lock_inv_def split: if_splits)
  moreover have "k = h" if "pcs s k = Holding" for k using h(1) [of k] that by force
  ultimately show ?thesis by blast
qed

definition held_by :: "nat \<Rightarrow> spin_state" where
  "held_by i = \<lparr>spin_lock = True, pcs = (\<lambda>_. Outside)(i := Holding)\<rparr>"

lemma lock_init_waiting:
  "lock_step i lock_init \<lparr>spin_lock = False, pcs = (\<lambda>_. Outside)(i := Waiting)\<rparr>"
  using wait_step.call [of lock_init i] by (simp add: lock_step_def lock_init_def)

lemma held_by_reachable: "lock_reachable_atomic (held_by i)"
proof -
  let ?w = "\<lparr>spin_lock = False, pcs = (\<lambda>_. Outside)(i := Waiting)\<rparr>"
  let ?a = "\<lparr>spin_lock = False, pcs = (\<lambda>_. Outside)(i := Acquiring)\<rparr>"
  have "lock_reachable_atomic ?w"
    by (rule lock_reachable_atomic.step [OF lock_reachable_atomic.init lock_init_waiting [of i]])
      (simp add: lock_init_def)
  moreover have "lock_step i ?w ?a" using wait_step.leave [of ?w i] by (simp add: lock_step_def)
  ultimately have "lock_reachable_atomic ?a" by (rule lock_reachable_atomic.step) simp
  moreover have "lock_step i ?a (held_by i)"
    using wait_step.take [of ?a i] by (simp add: lock_step_def held_by_def)
  ultimately show ?thesis by (rule lock_reachable_atomic.step) (simp add: fun_upd_def)
qed

theorem spin_lock_mutual_exclusion_witness:
  "pcs (held_by 3) 3 = Holding \<and> spin_lock (held_by 3)"
  using spin_lock_mutual_exclusion [OF held_by_reachable [of 3]] by (auto simp: held_by_def)

text \<open>Under arbitrary interleaving \<^verbatim>\<open>wait\<close> does not give mutual exclusion: two processors that
  both read the lock while it is free both take it.
\<close>

theorem spin_lock_race:
  "\<exists>s. lock_reachable s \<and> pcs s 0 = Holding \<and> pcs s 1 = Holding"
proof -
  define st where "st l p q = \<lparr>spin_lock = l, pcs = (\<lambda>_. Outside)(0 := p, Suc 0 := q)\<rparr>" for l p q
  have at: "pcs (st l p q) 0 = p" "pcs (st l p q) (Suc 0) = q" "spin_lock (st l p q) = l" for l p q
    by (simp_all add: st_def)
  have upd: "(st l p q)\<lparr>pcs := (pcs (st l p q))(0 := r)\<rparr> = st l r q"
    "(st l p q)\<lparr>pcs := (pcs (st l p q))(Suc 0 := r)\<rparr> = st l p r"
    "(st l p q)\<lparr>spin_lock := l', pcs := (pcs (st l p q))(0 := r)\<rparr> = st l' r q"
    "(st l p q)\<lparr>spin_lock := l', pcs := (pcs (st l p q))(Suc 0 := r)\<rparr> = st l' p r" for l l' p q r
    by (auto simp: st_def fun_eq_iff)
  have call: "lock_step 0 (st l Outside q) (st l Waiting q)" "lock_step (Suc 0) (st l p Outside) (st l p Waiting)" for l p q
    using wait_step.call [of "st l Outside q" 0] wait_step.call [of "st l p Outside" "Suc 0"]
    by (simp_all add: lock_step_def at upd)
  have leave: "lock_step 0 (st False Waiting q) (st False Acquiring q)"
    "lock_step (Suc 0) (st False p Waiting) (st False p Acquiring)" for p q
    using wait_step.leave [of "st False Waiting q" 0] wait_step.leave [of "st False p Waiting" "Suc 0"]
    by (simp_all add: lock_step_def at upd)
  have take: "lock_step 0 (st l Acquiring q) (st True Holding q)"
    "lock_step (Suc 0) (st l p Acquiring) (st True p Holding)" for l p q
    using wait_step.take [of "st l Acquiring q" 0] wait_step.take [of "st l p Acquiring" "Suc 0"]
    by (simp_all add: lock_step_def at upd)
  have "lock_init = st False Outside Outside" by (auto simp: lock_init_def st_def)
  then have "lock_reachable (st False Outside Outside)" using lock_reachable.init by simp
  from lock_reachable.step [OF this call(1)] have "lock_reachable (st False Waiting Outside)" .
  from lock_reachable.step [OF this call(2)] have "lock_reachable (st False Waiting Waiting)" .
  from lock_reachable.step [OF this leave(1)] have "lock_reachable (st False Acquiring Waiting)" .
  from lock_reachable.step [OF this leave(2)] have "lock_reachable (st False Acquiring Acquiring)" .
  from lock_reachable.step [OF this take(1)] have "lock_reachable (st True Holding Acquiring)" .
  from lock_reachable.step [OF this take(2)] have "lock_reachable (st True Holding Holding)" .
  then show ?thesis using at by (metis One_nat_def)
qed

end
