(* ===== verification/Vfs.thy ===== *)
theory Vfs
  imports Memory
begin

text \<open>
  \<^verbatim>\<open>src/src/kernel/vfs/vfs.c\<close>: the calls of a file system node. A node is a structure in memory with
  six function pointers; no file system of the repository fills them in, so what a function at an address
  does is the parameter \<open>drv\<close>.
\<close>

unbundle bit_operations_syntax

datatype fs_filetype_t = FS_REGULAR | FS_HARDLINK | FS_SYMLINK | FS_CHAR_DEV | FS_BLOCK_DEV | FS_DIRECTORY | FS_PIPE

fun fs_filetype :: "fs_filetype_t \<Rightarrow> u32" where
  "fs_filetype FS_REGULAR = 0"
| "fs_filetype FS_HARDLINK = 1"
| "fs_filetype FS_SYMLINK = 2"
| "fs_filetype FS_CHAR_DEV = 3"
| "fs_filetype FS_BLOCK_DEV = 4"
| "fs_filetype FS_DIRECTORY = 5"
| "fs_filetype FS_PIPE = 6"

text \<open>The fields of \<^verbatim>\<open>fs_node_t\<close>: a name of 128 bytes, seven 32-bit numbers, padding and the pointers.\<close>

record fs_node_t =
  node_flags :: u32
  read_ptr :: u64
  write_ptr :: u64
  open_ptr :: u64
  close_ptr :: u64
  readdir_ptr :: u64
  finddir_ptr :: u64

definition read_node :: "mem \<Rightarrow> u64 \<Rightarrow> fs_node_t" where
  "read_node m node =
     \<lparr>node_flags = load32 m (node + (128 + 3 * 4)), read_ptr = load64 m (node + 160), write_ptr = load64 m (node + 168),
      open_ptr = load64 m (node + 176), close_ptr = load64 m (node + 184), readdir_ptr = load64 m (node + 192),
      finddir_ptr = load64 m (node + 200)\<rparr>"

record fs_driver =
  drv_transfer :: "u64 \<Rightarrow> u64 \<Rightarrow> u32 \<Rightarrow> u32 \<Rightarrow> u64 \<Rightarrow> mem \<Rightarrow> u32 \<times> mem"
  drv_notify :: "u64 \<Rightarrow> u64 \<Rightarrow> mem \<Rightarrow> mem"
  drv_readdir :: "u64 \<Rightarrow> u64 \<Rightarrow> u32 \<Rightarrow> mem \<Rightarrow> u64 \<times> mem"
  drv_finddir :: "u64 \<Rightarrow> u64 \<Rightarrow> u64 \<Rightarrow> mem \<Rightarrow> u64 \<times> mem"

definition read_fs :: "fs_driver \<Rightarrow> u64 \<Rightarrow> u32 \<Rightarrow> u32 \<Rightarrow> u64 \<Rightarrow> mem \<Rightarrow> u32 \<times> mem" where
  "read_fs drv node offset sz buf m =
     (let f = read_ptr (read_node m node) in if f \<noteq> 0 then drv_transfer drv f node offset sz buf m else (0, m))"

definition write_fs :: "fs_driver \<Rightarrow> u64 \<Rightarrow> u32 \<Rightarrow> u32 \<Rightarrow> u64 \<Rightarrow> mem \<Rightarrow> u32 \<times> mem" where
  "write_fs drv node offset sz buf m =
     (let f = write_ptr (read_node m node) in if f \<noteq> 0 then drv_transfer drv f node offset sz buf m else (0, m))"

text \<open>The modes asked for are ignored.\<close>

definition open_fs :: "fs_driver \<Rightarrow> u64 \<Rightarrow> u8 \<Rightarrow> u8 \<Rightarrow> mem \<Rightarrow> mem" where
  "open_fs drv node rd wr m = (let f = open_ptr (read_node m node) in if f \<noteq> 0 then drv_notify drv f node m else m)"

definition close_fs :: "fs_driver \<Rightarrow> u64 \<Rightarrow> mem \<Rightarrow> mem" where
  "close_fs drv node m = (let f = close_ptr (read_node m node) in if f \<noteq> 0 then drv_notify drv f node m else m)"

definition readdir_fs :: "fs_driver \<Rightarrow> u64 \<Rightarrow> u32 \<Rightarrow> mem \<Rightarrow> u64 \<times> mem" where
  "readdir_fs drv node index m =
     (let n = read_node m node
      in if node_flags n AND 7 = fs_filetype FS_DIRECTORY \<and> readdir_ptr n \<noteq> 0
         then drv_readdir drv (readdir_ptr n) node index m else (0, m))"

definition finddir_fs :: "fs_driver \<Rightarrow> u64 \<Rightarrow> u64 \<Rightarrow> mem \<Rightarrow> u64 \<times> mem" where
  "finddir_fs drv node name m =
     (let n = read_node m node
      in if node_flags n AND 7 = fs_filetype FS_DIRECTORY \<and> finddir_ptr n \<noteq> 0
         then drv_finddir drv (finddir_ptr n) node name m else (0, m))"

text \<open>A node with no functions, such as a zeroed one, is inert.\<close>

lemma vfs_null_node:
  assumes "\<And>x. in_range x node 208 \<Longrightarrow> m x = 0"
  shows "read_fs drv node off sz buf m = (0, m)" "write_fs drv node off sz buf m = (0, m)" "open_fs drv node r w m = m"
    "close_fs drv node m = m" "readdir_fs drv node i m = (0, m)" "finddir_fs drv node name m = (0, m)"
proof -
  have r: "in_range x node 208" if "in_range x (node + k) 8" "unat k + 8 \<le> 208" for x k
    using that in_range_nowrap [of k 8 "x - node"] by (simp add: in_range_def diff_diff_add)
  have "load64 m (node + k) = 0" if "unat k + 8 \<le> 208" for k
    using that by (intro c64.load_zero) (auto intro!: assms r)
  then have "read_ptr (read_node m node) = 0" "write_ptr (read_node m node) = 0" "open_ptr (read_node m node) = 0"
    "close_ptr (read_node m node) = 0" "readdir_ptr (read_node m node) = 0" "finddir_ptr (read_node m node) = 0"
    by (simp_all add: read_node_def)
  then show "read_fs drv node off sz buf m = (0, m)" "write_fs drv node off sz buf m = (0, m)" "open_fs drv node r w m = m"
    "close_fs drv node m = m" "readdir_fs drv node i m = (0, m)" "finddir_fs drv node name m = (0, m)"
    by (simp_all add: read_fs_def write_fs_def open_fs_def close_fs_def readdir_fs_def finddir_fs_def Let_def)
qed

end
