(* ===== verification/Block_Cache.thy ===== *)
theory Block_Cache
  imports Prelude
begin

text \<open>
  The device layer of the installer \<^verbatim>\<open>src/limine/limine-install.c\<close>, which the build of the kernel's image runs: a file
  seen as blocks of 512, 2048 or 4096 bytes with a write-back cache of one block. The file is a list of
  bytes and a position. Every call of the C library that can fail (\<^verbatim>\<open>realloc\<close>, \<^verbatim>\<open>fseek\<close>, \<^verbatim>\<open>fread\<close>,
  \<^verbatim>\<open>fwrite\<close>) asks the schedule \<open>faults\<close>: \<open>None\<close> lets the \<open>calls\<close>-th call work, \<open>Some k\<close> makes it
  fail after \<open>k\<close> bytes. A short read at the end of the file fails by itself. \<open>sizeof_long\<close> is the size of
  a \<^verbatim>\<open>long\<close> of the host, which \<^verbatim>\<open>set_pos\<close> asks for. New bytes of a reallocated cache are written as 0;
  no result depends on them. Messages to the user are left out.

  The lemmas relate the cached device to a plain list of bytes, \<open>disk_view\<close>.
\<close>

unbundle bit_operations_syntax

section \<open>The file\<close>

datatype cache_status = CACHE_CLEAN | CACHE_DIRTY

record device_state =
  contents :: "u8 list"
  fpos :: nat
  sizeof_long :: nat
  faults :: "nat \<Rightarrow> nat option"
  calls :: nat
  cache_state :: cache_status
  cached_block :: u64
  cache :: "u8 list"
  block_size :: u64

text \<open>The fault of the next call of the C library, if there is one.\<close>

definition next_fault :: "device_state \<Rightarrow> nat option \<times> device_state" where
  "next_fault s = (faults s (calls s), s\<lparr>calls := Suc (calls s)\<rparr>)"

text \<open>\<^verbatim>\<open>fseek\<close> with \<^verbatim>\<open>SEEK_SET\<close> and \<^verbatim>\<open>SEEK_CUR\<close>; a position may lie behind the end, but not before the start.\<close>

definition fseek_to :: "int \<Rightarrow> device_state \<Rightarrow> bool \<times> device_state" where
  "fseek_to pos s =
     (let (f, s) = next_fault s
      in if f \<noteq> None \<or> pos < 0 then (False, s) else (True, s\<lparr>fpos := nat pos\<rparr>))"

definition rewind :: "device_state \<Rightarrow> device_state" where
  "rewind s = s\<lparr>fpos := 0\<rparr>"

text \<open>
  Writing \<open>ys\<close> over \<open>xs\<close> from position \<open>p\<close> on, filling a gap behind the end with zeros; writing nothing
  changes nothing.
\<close>

definition overwrite :: "'a::zero list \<Rightarrow> nat \<Rightarrow> 'a list \<Rightarrow> 'a list" where
  "overwrite xs p ys =
     (if ys = [] then xs else take p xs @ replicate (p - length xs) 0 @ ys @ drop (p + length ys) xs)"

definition fread_cache :: "nat \<Rightarrow> device_state \<Rightarrow> bool \<times> device_state" where
  "fread_cache n s =
     (let (f, s) = next_fault s;
          avail = take n (drop (fpos s) (contents s));
          data = (case f of None \<Rightarrow> avail | Some k \<Rightarrow> take k avail)
      in (f = None \<and> length data = n,
          s\<lparr>cache := data @ drop (length data) (cache s), fpos := fpos s + length data\<rparr>))"

definition fwrite_cache :: "nat \<Rightarrow> device_state \<Rightarrow> bool \<times> device_state" where
  "fwrite_cache n s =
     (let (f, s) = next_fault s;
          data = (case f of None \<Rightarrow> take n (cache s) | Some k \<Rightarrow> take k (take n (cache s)))
      in (f = None, s\<lparr>contents := overwrite (contents s) (fpos s) data, fpos := fpos s + length data\<rparr>))"

primrec seek_jumps :: "nat \<Rightarrow> int \<Rightarrow> device_state \<Rightarrow> bool \<times> device_state" where
  "seek_jumps 0 jump_size s = (True, s)"
| "seek_jumps (Suc n) jump_size s =
     (let (ok, s) = fseek_to (int (fpos s) + jump_size) s
      in if ok then seek_jumps n jump_size s else (False, s))"

definition LONG_MAX :: "device_state \<Rightarrow> int" where
  "LONG_MAX s = 2 ^ (8 * sizeof_long s - 1) - 1"

definition set_pos :: "u64 \<Rightarrow> device_state \<Rightarrow> bool \<times> device_state" where
  "set_pos pos s =
     (if sizeof_long s \<ge> 8 then fseek_to (sint pos) s
      else
        (let jump_size = LONG_MAX s div 2 + 1;
             last_jump = uint pos mod jump_size;
             jumps = uint pos div jump_size;
             s = rewind s;
             (ok, s) = seek_jumps (nat jumps) jump_size s
         in if ok then fseek_to (int (fpos s) + last_jump) s else (False, s)))"

section \<open>The cache\<close>

definition realloc_cache :: "nat \<Rightarrow> device_state \<Rightarrow> bool \<times> device_state" where
  "realloc_cache n s =
     (let (f, s) = next_fault s
      in if f \<noteq> None then (False, s) else (True, s\<lparr>cache := take n (cache s @ replicate n 0)\<rparr>))"

primrec device_init_loop :: "u64 list \<Rightarrow> device_state \<Rightarrow> bool \<times> device_state" where
  "device_init_loop [] s = (False, s)"
| "device_init_loop (guess # guesses) s =
     (let (ok, s) = realloc_cache (unat guess) s
      in if \<not> ok then (False, s)
         else
           (let (ok, s) = fread_cache (unat guess) (rewind s)
            in if \<not> ok then device_init_loop guesses s
               else (True, s\<lparr>block_size := guess, cache_state := CACHE_CLEAN, cached_block := 0\<rparr>)))"

definition device_init :: "device_state \<Rightarrow> bool \<times> device_state" where
  "device_init s = device_init_loop [512, 2048, 4096] s"

definition device_flush_cache :: "device_state \<Rightarrow> bool \<times> device_state" where
  "device_flush_cache s =
     (if cache_state s = CACHE_CLEAN then (True, s)
      else
        (let (ok, s) = set_pos (cached_block s * block_size s) s
         in if \<not> ok then (False, s)
            else
              (let (ok, s) = fwrite_cache (unat (block_size s)) s
               in if \<not> ok then (False, s) else (True, s\<lparr>cache_state := CACHE_CLEAN\<rparr>))))"

definition device_cache_block :: "u64 \<Rightarrow> device_state \<Rightarrow> bool \<times> device_state" where
  "device_cache_block block s =
     (if cached_block s = block then (True, s)
      else
        (let (ok, s) = (if cache_state s = CACHE_DIRTY then device_flush_cache s else (True, s))
         in if \<not> ok then (False, s)
            else
              (let (ok, s) = set_pos (block * block_size s) s
               in if \<not> ok then (False, s)
                  else
                    (let (ok, s) = fread_cache (unat (block_size s)) s
                     in if \<not> ok then (False, s) else (True, s\<lparr>cached_block := block\<rparr>)))))"

section \<open>Reading and writing\<close>

text \<open>
  The number of bytes the next round transfers. A block size of 0 would be a division by zero; the loops then
  stop as on an error, and \<^verbatim>\<open>device_init\<close> never leaves it at 0 on success.
\<close>

definition chunk_size :: "u64 \<Rightarrow> nat \<Rightarrow> nat \<Rightarrow> u64 \<Rightarrow> nat" where
  "chunk_size loc progress count bs =
     (let chunk = count - progress;
          offset = unat ((loc + of_nat progress) mod bs)
      in if chunk > unat bs - offset then unat bs - offset else chunk)"

lemma chunk_size_pos: "bs \<noteq> 0 \<Longrightarrow> progress < count \<Longrightarrow> 0 < chunk_size loc progress count bs"
proof -
  assume "bs \<noteq> 0" "progress < count"
  moreover from this have "unat ((loc + of_nat progress) mod bs) < unat bs"
    by (simp add: unat_mod_distrib unat_gt_0)
  ultimately show ?thesis by (auto simp: chunk_size_def Let_def)
qed

lemma chunk_size_decreases [termination_simp]:
  "bs \<noteq> 0 \<Longrightarrow> progress < count \<Longrightarrow> count - (progress + chunk_size loc progress count bs) < count - progress"
  using chunk_size_pos [of bs progress count loc] by linarith

function read_loop :: "u64 \<Rightarrow> nat \<Rightarrow> nat \<Rightarrow> u8 list \<Rightarrow> device_state \<Rightarrow> u8 list option \<times> device_state" where
  "read_loop loc count progress buf s =
     (if progress < count \<and> block_size s \<noteq> 0 then
        (let block = (loc + of_nat progress) div block_size s;
             (ok, s') = device_cache_block block s
         in if \<not> ok then (None, s')
            else
              (let chunk = chunk_size loc progress count (block_size s);
                   offset = unat ((loc + of_nat progress) mod block_size s)
               in read_loop loc count (progress + chunk) (buf @ take chunk (drop offset (cache s'))) s'))
      else if progress < count then (None, s) else (Some buf, s))"
  by pat_completeness auto
termination
  by (relation "measure (\<lambda>(loc, count, progress, buf, s). count - progress)") (auto simp: chunk_size_decreases)

declare read_loop.simps [simp del]

definition device_read :: "u64 \<Rightarrow> nat \<Rightarrow> device_state \<Rightarrow> u8 list option \<times> device_state" where
  "device_read loc count s = read_loop loc count 0 [] s"

function write_loop :: "u8 list \<Rightarrow> u64 \<Rightarrow> nat \<Rightarrow> nat \<Rightarrow> device_state \<Rightarrow> bool \<times> device_state" where
  "write_loop buffer loc count progress s =
     (if progress < count \<and> block_size s \<noteq> 0 then
        (let block = (loc + of_nat progress) div block_size s;
             (ok, s') = device_cache_block block s
         in if \<not> ok then (False, s')
            else
              (let chunk = chunk_size loc progress count (block_size s);
                   offset = unat ((loc + of_nat progress) mod block_size s)
               in write_loop buffer loc count (progress + chunk)
                    (s'\<lparr>cache := overwrite (cache s') offset (take chunk (drop progress buffer)), cache_state := CACHE_DIRTY\<rparr>)))
      else if progress < count then (False, s) else (True, s))"
  by pat_completeness auto
termination
  by (relation "measure (\<lambda>(buffer, loc, count, progress, s). count - progress)") (auto simp: chunk_size_decreases)

declare write_loop.simps [simp del]

definition device_write :: "u8 list \<Rightarrow> u64 \<Rightarrow> nat \<Rightarrow> device_state \<Rightarrow> bool \<times> device_state" where
  "device_write buffer loc count s = write_loop buffer loc count 0 s"

section \<open>The view of the device\<close>

lemma length_overwrite [simp]: "p + length ys \<le> length xs \<Longrightarrow> length (overwrite xs p ys) = length xs"
  by (simp add: overwrite_def)

lemma overwrite_inside: "p + length ys \<le> length xs \<Longrightarrow> overwrite xs p ys = take p xs @ ys @ drop (p + length ys) xs"
  by (simp add: overwrite_def)

lemma nth_overwrite:
  assumes "p + length ys \<le> length xs" "i < length xs"
  shows "overwrite xs p ys ! i = (if p \<le> i \<and> i < p + length ys then ys ! (i - p) else xs ! i)"
  using assms by (auto simp: overwrite_inside nth_append min_def)

lemma overwrite_overwrite_prefix:
  assumes "p + length ys \<le> length xs" "zs = take k ys"
  shows "overwrite (overwrite xs p zs) p ys = overwrite xs p ys"
  using assms by (auto intro!: nth_equalityI simp: nth_overwrite)

definition block_start :: "device_state \<Rightarrow> nat" where
  "block_start s = unat (cached_block s) * unat (block_size s)"

definition disk_view :: "device_state \<Rightarrow> u8 list" where
  "disk_view s = (if cache_state s = CACHE_DIRTY then overwrite (contents s) (block_start s) (cache s) else contents s)"

text \<open>
  The shape of the state, which every operation keeps even when it fails, and the coherence of a clean cache,
  which an operation keeps when it succeeds.
\<close>

definition dev_wf :: "device_state \<Rightarrow> bool" where
  "dev_wf s \<longleftrightarrow> block_size s \<in> {512, 2048, 4096} \<and> length (cache s) = unat (block_size s) \<and>
     length (contents s) < 2 ^ 63 \<and> block_start s + unat (block_size s) \<le> length (contents s)"

definition dev_inv :: "device_state \<Rightarrow> bool" where
  "dev_inv s \<longleftrightarrow> dev_wf s \<and>
     (cache_state s = CACHE_CLEAN \<longrightarrow> cache s = take (unat (block_size s)) (drop (block_start s) (contents s)))"

definition reliable :: "device_state \<Rightarrow> bool" where
  "reliable s \<longleftrightarrow> (\<forall>n \<ge> calls s. faults s n = None)"

text \<open>The operations below change the position and the count of calls besides what they are for.\<close>

definition moved :: "device_state \<Rightarrow> device_state \<Rightarrow> bool" where
  "moved s s' \<longleftrightarrow> calls s \<le> calls s' \<and> s' = s\<lparr>fpos := fpos s', calls := calls s'\<rparr>"

lemma moved_refl: "moved s s"
  by (simp add: moved_def)

lemma moved_trans: "moved s s' \<Longrightarrow> moved s' s'' \<Longrightarrow> moved s s''"
  unfolding moved_def by (metis (no_types, lifting) device_state.fold_congs(2,5) device_state.surjective device_state.update_convs(2,5) order_trans)

lemma fseek_to_moved: "fseek_to pos s = (ok, s') \<Longrightarrow> moved s s' \<and> (ok \<longrightarrow> 0 \<le> pos \<and> fpos s' = nat pos) \<and> (0 \<le> pos \<longrightarrow> reliable s \<longrightarrow> ok)"
  by (auto simp: fseek_to_def next_fault_def moved_def reliable_def split: if_splits)

lemma reliable_moved: "moved s s' \<Longrightarrow> reliable s \<Longrightarrow> reliable s'"
  unfolding moved_def reliable_def by (metis device_state.ext_inject device_state.surjective device_state.update_convs(2,5) order_trans)

lemma seek_jumps_moved:
  "seek_jumps n j s = (ok, s') \<Longrightarrow> 0 \<le> j \<Longrightarrow>
    moved s s' \<and> (ok \<longrightarrow> int (fpos s') = int (fpos s) + int n * j) \<and> (reliable s \<longrightarrow> ok)"
proof (induction n arbitrary: s)
  case 0
  then show ?case by (simp add: moved_refl)
next
  case (Suc n)
  obtain ok1 s1 where s1: "fseek_to (int (fpos s) + j) s = (ok1, s1)" by fastforce
  note m = fseek_to_moved [OF s1]
  show ?case
  proof (cases ok1)
    case True
    then have "seek_jumps n j s1 = (ok, s')" using Suc.prems s1 by simp
    from Suc.IH [OF this Suc.prems(2)] m True Suc.prems(2) moved_trans [of s s1 s'] reliable_moved [of s s1]
    show ?thesis by (auto simp: algebra_simps)
  next
    case False
    then show ?thesis using Suc.prems s1 m by auto
  qed
qed

lemma sint_u64: "unat (pos :: u64) < 2 ^ 63 \<Longrightarrow> sint pos = int (unat pos)" "\<not> unat (pos :: u64) < 2 ^ 63 \<Longrightarrow> sint pos < 0"
proof -
  have u: "int (unat pos) = uint pos" by simp
  show "sint pos = int (unat pos)" if "unat pos < 2 ^ 63"
  proof -
    have "int (unat pos) < int (2 ^ 63)" using that by (simp only: of_nat_less_iff)
    then have "signed_take_bit 63 (uint pos) = uint pos"
      using uint_ge_0 [of pos] unfolding u of_nat_power of_nat_numeral
      by (intro signed_take_bit_int_eq_self) linarith+
    then show ?thesis by (simp add: sint_uint)
  qed
  show "sint pos < 0" if "\<not> unat pos < 2 ^ 63"
  proof -
    have "\<not> int (unat pos) < int (2 ^ 63)" using that by (simp only: of_nat_less_iff not_False_eq_True)
    then have p: "2 ^ 63 \<le> uint pos" by (simp add: u)
    have "uint pos < 2 ^ 64" using uint_bounded [of pos] by simp
    then have "uint pos div 2 ^ 63 = 1" using p by (intro int_div_pos_eq [where r = "uint pos - 2 ^ 63"]) auto
    then have "bit (uint pos) 63" by (simp add: bit_iff_odd)
    then show ?thesis by (simp add: sint_uint signed_take_bit_negative_iff)
  qed
qed

lemma set_pos_moved:
  assumes "set_pos pos s = (ok, s')"
  shows "moved s s' \<and> (ok \<longrightarrow> fpos s' = unat pos) \<and> (unat pos < 2 ^ 63 \<longrightarrow> reliable s \<longrightarrow> ok)"
proof (cases "sizeof_long s \<ge> 8")
  case True
  then have f: "fseek_to (sint pos) s = (ok, s')" using assms by (simp add: set_pos_def)
  have "0 \<le> sint pos \<longleftrightarrow> unat pos < 2 ^ 63" "0 \<le> sint pos \<Longrightarrow> nat (sint pos) = unat pos"
    using sint_u64 [of pos] by force+
  then show ?thesis using fseek_to_moved [OF f] by simp
next
  case False
  let ?j = "LONG_MAX s div 2 + 1"
  have j: "0 < ?j" by (simp add: LONG_MAX_def pos_imp_zdiv_nonneg_iff add_nonneg_pos)
  obtain ok1 s1 where s1: "seek_jumps (nat (uint pos div ?j)) ?j (rewind s) = (ok1, s1)" by fastforce
  have "moved s (rewind s)" "reliable (rewind s) = reliable s" by (simp_all add: rewind_def moved_def reliable_def)
  with seek_jumps_moved [OF s1] j have m: "moved s s1" "reliable s \<Longrightarrow> ok1"
    "ok1 \<Longrightarrow> int (fpos s1) = uint pos div ?j * ?j"
    using moved_trans [of s "rewind s" s1] by (auto simp: rewind_def pos_imp_zdiv_nonneg_iff)
  show ?thesis
  proof (cases ok1)
    case True
    then have f: "fseek_to (int (fpos s1) + uint pos mod ?j) s1 = (ok, s')"
      using assms \<open>\<not> sizeof_long s \<ge> 8\<close> s1 by (simp add: set_pos_def Let_def)
    have "int (fpos s1) + uint pos mod ?j = int (unat pos)"
      using m(3) True div_mult_mod_eq [of "uint pos" ?j] by (simp only: of_nat_unat)
    then show ?thesis using fseek_to_moved [OF f] moved_trans [OF m(1), of s'] reliable_moved [OF m(1)] by auto
  next
    case False
    then show ?thesis using assms \<open>\<not> sizeof_long s \<ge> 8\<close> s1 m by (auto simp: set_pos_def Let_def)
  qed
qed

section \<open>The cache keeps the view\<close>

text \<open>What no operation of the device layer changes, whether it succeeds or not.\<close>

definition kept :: "device_state \<Rightarrow> device_state \<Rightarrow> bool" where
  "kept s s' \<longleftrightarrow> dev_wf s' \<and> disk_view s' = disk_view s \<and> block_size s' = block_size s \<and>
     length (contents s') = length (contents s) \<and> faults s' = faults s \<and> calls s \<le> calls s'"

lemma kept_refl: "dev_wf s \<Longrightarrow> kept s s"
  by (simp add: kept_def)

lemma kept_trans: "kept s s' \<Longrightarrow> kept s' s'' \<Longrightarrow> kept s s''"
  by (simp add: kept_def)

lemma kept_reliable: "kept s s' \<Longrightarrow> reliable s \<Longrightarrow> reliable s'"
  by (auto simp: kept_def reliable_def)

lemma movedD:
  assumes "moved s s'"
  shows "contents s' = contents s" "cache s' = cache s" "cached_block s' = cached_block s" "block_size s' = block_size s"
    "cache_state s' = cache_state s" "faults s' = faults s" "calls s \<le> calls s'" "block_start s' = block_start s"
    "disk_view s' = disk_view s" "dev_wf s' = dev_wf s" "dev_inv s' = dev_inv s"
proof -
  obtain p c where "s' = s\<lparr>fpos := p, calls := c\<rparr>" "calls s \<le> c" using assms unfolding moved_def by blast
  then show "contents s' = contents s" "cache s' = cache s" "cached_block s' = cached_block s" "block_size s' = block_size s"
    "cache_state s' = cache_state s" "faults s' = faults s" "calls s \<le> calls s'" "block_start s' = block_start s"
    "disk_view s' = disk_view s" "dev_wf s' = dev_wf s" "dev_inv s' = dev_inv s"
    by (simp_all add: block_start_def disk_view_def dev_wf_def dev_inv_def)
qed

lemma moved_kept: "moved s s' \<Longrightarrow> dev_wf s \<Longrightarrow> kept s s'"
  by (simp add: kept_def movedD)

lemma block_start_word:
  assumes "dev_wf s"
  shows "unat (cached_block s * block_size s) = block_start s" "block_start s < 2 ^ 63"
proof -
  show b: "block_start s < 2 ^ 63" using assms by (auto simp: dev_wf_def)
  then have "unat (cached_block s) * unat (block_size s) < 2 ^ 64"
    unfolding block_start_def by (rule less_trans) simp
  then show "unat (cached_block s * block_size s) = block_start s"
    by (simp add: unat_word_ariths block_start_def)
qed

lemma fwrite_cacheD:
  assumes "fwrite_cache n s = (ok, s')" "length (cache s) = n"
  obtains k where "s' = s\<lparr>contents := overwrite (contents s) (fpos s) (take k (cache s)), fpos := fpos s', calls := Suc (calls s)\<rparr>"
    "ok \<Longrightarrow> n \<le> k" "reliable s \<Longrightarrow> ok"
proof -
  from assms show thesis
    by (intro that [of "case faults s (calls s) of None \<Rightarrow> n | Some k \<Rightarrow> k"])
      (auto simp: fwrite_cache_def next_fault_def Let_def reliable_def split: option.splits)
qed

lemma device_flush_cache_kept:
  assumes wf: "dev_wf s" and run: "device_flush_cache s = (ok, s')"
  shows "kept s s' \<and> cache s' = cache s \<and> cached_block s' = cached_block s \<and> (reliable s \<longrightarrow> ok) \<and>
    (ok \<longrightarrow> cache_state s' = CACHE_CLEAN \<and> contents s' = disk_view s) \<and> (ok \<longrightarrow> dev_inv s \<longrightarrow> dev_inv s')"
proof (cases "cache_state s = CACHE_CLEAN")
  case True
  then show ?thesis using run wf by (auto simp: device_flush_cache_def kept_refl disk_view_def)
next
  case False
  then have dirty: "cache_state s = CACHE_DIRTY" by (cases "cache_state s") auto
  obtain ok1 s1 where s1: "set_pos (cached_block s * block_size s) s = (ok1, s1)" by fastforce
  note b = block_start_word [OF wf]
  note m = set_pos_moved [OF s1, unfolded b(1)]
  show ?thesis
  proof (cases ok1)
    case False
    then show ?thesis using run s1 m wf dirty b(2)
      by (auto simp: device_flush_cache_def moved_kept movedD)
  next
    case True
    note w = movedD [OF conjunct1 [OF m]]
    obtain ok2 s2 where s2: "fwrite_cache (unat (block_size s)) s1 = (ok2, s2)" by fastforce
    then have run': "ok = ok2" "s' = (if ok2 then s2\<lparr>cache_state := CACHE_CLEAN\<rparr> else s2)"
      using run s1 True dirty w(4) by (auto simp: device_flush_cache_def split: if_splits)
    obtain k where k: "s2 = s1\<lparr>contents := overwrite (contents s) (block_start s) (take k (cache s)), fpos := fpos s2, calls := Suc (calls s1)\<rparr>"
      "ok2 \<Longrightarrow> unat (block_size s) \<le> k" "reliable s1 \<Longrightarrow> ok2"
      using fwrite_cacheD [OF s2] m True w wf by (metis dev_wf_def)
    have fits: "block_start s + length (cache s) \<le> length (contents s)" using wf by (simp add: dev_wf_def)
    have c2: "contents s2 = overwrite (contents s) (block_start s) (take k (cache s))" "cache s2 = cache s"
      "cached_block s2 = cached_block s" "block_size s2 = block_size s" "cache_state s2 = CACHE_DIRTY"
      "faults s2 = faults s" "calls s \<le> calls s2"
      by (subst k(1), simp add: w dirty le_SucI)+
    have len: "length (contents s2) = length (contents s)" using fits c2(1) by simp
    have view: "disk_view s2 = disk_view s"
      using overwrite_overwrite_prefix [OF fits refl, of k] c2 dirty by (simp add: disk_view_def block_start_def)
    have wf2: "dev_wf s2" using wf c2 len by (simp add: dev_wf_def block_start_def)
    have full: "contents s2 = disk_view s" if ok2
      using k(2) that wf c2(1) dirty by (simp add: dev_wf_def disk_view_def)
    have "reliable s \<longrightarrow> ok2" using k(3) reliable_moved m by blast
    moreover have "disk_view s = overwrite (contents s) (block_start s) (cache s)" by (simp add: disk_view_def dirty)
    then have "take (unat (block_size s)) (drop (block_start s) (disk_view s)) = cache s"
      using fits wf by (simp add: overwrite_inside dev_wf_def)
    ultimately show ?thesis
      unfolding run'(1) run'(2) using c2 len view wf2 full
      by (cases ok2) (simp_all add: kept_def dev_wf_def dev_inv_def disk_view_def block_start_def)
  qed
qed

lemma fread_cacheD:
  assumes "fread_cache n s = (ok, s')" "length (cache s) = n" "0 < n"
  obtains "s' = s\<lparr>cache := cache s', fpos := fpos s', calls := Suc (calls s)\<rparr>" "length (cache s') = n"
    "ok \<Longrightarrow> cache s' = take n (drop (fpos s) (contents s)) \<and> fpos s + n \<le> length (contents s)"
    "reliable s \<Longrightarrow> fpos s + n \<le> length (contents s) \<Longrightarrow> ok"
proof -
  from assms show thesis
    by (intro that)
      (auto simp: fread_cache_def next_fault_def Let_def reliable_def min_def simp flip: length_greater_0_conv
        split: option.splits if_splits)
qed

lemma fread_block_kept:
  assumes wf: "dev_wf s" and clean: "cache_state s = CACHE_CLEAN" and pos: "fpos s = unat block * unat (block_size s)"
    and run: "fread_cache (unat (block_size s)) s = (ok, s1)" and s': "s' = (if ok then s1\<lparr>cached_block := block\<rparr> else s1)"
  shows "kept s s' \<and> (ok \<longrightarrow> dev_inv s' \<and> cached_block s' = block) \<and>
    (reliable s \<longrightarrow> fpos s + unat (block_size s) \<le> length (contents s) \<longrightarrow> ok)"
proof -
  have n: "length (cache s) = unat (block_size s)" "0 < unat (block_size s)" using wf by (auto simp: dev_wf_def)
  from fread_cacheD [OF run n] obtain
    s1: "s1 = s\<lparr>cache := cache s1, fpos := fpos s1, calls := Suc (calls s)\<rparr>" and len: "length (cache s1) = unat (block_size s)"
    and full: "ok \<Longrightarrow> cache s1 = take (unat (block_size s)) (drop (fpos s) (contents s)) \<and> fpos s + unat (block_size s) \<le> length (contents s)"
    and live: "reliable s \<Longrightarrow> fpos s + unat (block_size s) \<le> length (contents s) \<Longrightarrow> ok" by blast
  have c: "contents s1 = contents s" "block_size s1 = block_size s" "cache_state s1 = CACHE_CLEAN" "faults s1 = faults s"
    "calls s1 = Suc (calls s)" "cached_block s1 = cached_block s"
    by (subst s1, simp add: clean)+
  show ?thesis
    unfolding s' using wf len full live c pos clean
    by (cases ok) (auto simp: kept_def dev_wf_def dev_inv_def disk_view_def block_start_def)
qed

lemma device_cache_block_kept:
  assumes wf: "dev_wf s" and nowrap: "unat block * unat (block_size s) < 2 ^ 63"
    and run: "device_cache_block block s = (ok, s')"
  shows "kept s s' \<and>
    (ok \<longrightarrow> dev_inv s \<longrightarrow> dev_inv s' \<and> cached_block s' = block) \<and>
    (reliable s \<longrightarrow> unat block * unat (block_size s) + unat (block_size s) \<le> length (contents s) \<longrightarrow> ok)"
proof (cases "cached_block s = block")
  case True
  then show ?thesis using run wf by (auto simp: device_cache_block_def kept_refl)
next
  case False
  obtain ok1 s1 where s1: "(if cache_state s = CACHE_DIRTY then device_flush_cache s else (True, s)) = (ok1, s1)" by fastforce
  then have 1: "kept s s1 \<and> (reliable s \<longrightarrow> ok1) \<and> (ok1 \<longrightarrow> cache_state s1 = CACHE_CLEAN)"
    using device_flush_cache_kept [OF wf] wf by (cases "cache_state s") (auto simp: kept_refl split: if_splits)
  show ?thesis
  proof (cases ok1)
    case False
    then show ?thesis using run s1 1 \<open>cached_block s \<noteq> block\<close> by (auto simp: device_cache_block_def)
  next
    case True
    have bs: "block_size s1 = block_size s" "dev_wf s1" using 1 by (simp_all add: kept_def)
    obtain ok2 s2 where s2: "set_pos (block * block_size s) s1 = (ok2, s2)" by fastforce
    have u: "unat (block * block_size s) = unat block * unat (block_size s)"
      using nowrap by (simp add: unat_word_ariths)
    note 2 = set_pos_moved [OF s2, unfolded u]
    note w = movedD [OF conjunct1 [OF 2]]
    show ?thesis
    proof (cases ok2)
      case False
      then show ?thesis
        using run s1 s2 True bs 1 2 nowrap \<open>cached_block s \<noteq> block\<close> kept_trans [OF _ moved_kept, of s s1 s2] kept_reliable [of s s1]
        by (auto simp: device_cache_block_def)
    next
      case ok2: True
      obtain ok3 s3 where s3: "fread_cache (unat (block_size s)) s2 = (ok3, s3)" by fastforce
      have run': "ok = ok3" "s' = (if ok3 then s3\<lparr>cached_block := block\<rparr> else s3)"
        using run s1 s2 s3 True ok2 w(4) bs(1) \<open>cached_block s \<noteq> block\<close>
        by (auto simp: device_cache_block_def split: if_splits)
      have "dev_wf s2" "cache_state s2 = CACHE_CLEAN" "fpos s2 = unat block * unat (block_size s2)"
        using 1 2 True ok2 bs w by simp_all
      from fread_block_kept [OF this _ run'(2)] s3
      have 3: "kept s2 s' \<and> (ok3 \<longrightarrow> dev_inv s' \<and> cached_block s' = block) \<and>
        (reliable s2 \<longrightarrow> fpos s2 + unat (block_size s) \<le> length (contents s2) \<longrightarrow> ok3)" using w(4) bs(1) by simp
      have k: "kept s s2" using 1 2 bs by (auto intro: kept_trans moved_kept)
      then have "length (contents s2) = length (contents s)" by (simp add: kept_def)
      then show ?thesis
        using 3 k kept_trans [OF k] kept_reliable [OF k] 2 ok2 unfolding run'(1) by auto
    qed
  qed
qed

section \<open>Reading\<close>

lemma disk_view_length: "dev_wf s \<Longrightarrow> length (disk_view s) = length (contents s)"
  by (auto simp: disk_view_def dev_wf_def)

lemma cache_is_view:
  assumes "dev_inv s"
  shows "cache s = take (unat (block_size s)) (drop (block_start s) (disk_view s))"
  using assms by (cases "cache_state s") (auto simp: dev_inv_def dev_wf_def disk_view_def overwrite_inside)

text \<open>The bytes of whole blocks, which is what the cache can reach.\<close>

definition extent :: "device_state \<Rightarrow> nat" where
  "extent s = length (contents s) div unat (block_size s) * unat (block_size s)"

lemma block_words:
  fixes loc bs :: u64
  assumes "unat loc + progress < 2 ^ 63"
  shows "unat ((loc + of_nat progress) div bs) = (unat loc + progress) div unat bs"
    and "unat ((loc + of_nat progress) mod bs) = (unat loc + progress) mod unat bs"
proof -
  have "unat (loc + of_nat progress) = unat loc + progress"
    using assms by (simp add: unat_word_ariths unat_of_nat)
  then show "unat ((loc + of_nat progress) div bs) = (unat loc + progress) div unat bs"
    "unat ((loc + of_nat progress) mod bs) = (unat loc + progress) mod unat bs"
    by (simp_all add: unat_div_distrib unat_mod_distrib)
qed

lemma block_in_extent:
  assumes "0 < unat (block_size s)" "a < extent s"
  shows "a div unat (block_size s) * unat (block_size s) + unat (block_size s) \<le> length (contents s)"
proof -
  let ?b = "unat (block_size s)"
  have "a div ?b < length (contents s) div ?b"
    using assms by (simp add: extent_def div_less_iff_less_mult)
  then have "Suc (a div ?b) * ?b \<le> length (contents s) div ?b * ?b" by (intro mult_le_mono1) simp
  then show ?thesis using div_times_less_eq_dividend [of "length (contents s)" ?b] unfolding mult_Suc by linarith
qed

text \<open>One round of the two loops: the block with the next byte is in the cache.\<close>

lemma round_cached:
  assumes inv: "dev_inv s" and b: "unat loc + count \<le> 2 ^ 63" "progress < count"
    and run: "device_cache_block ((loc + of_nat progress) div block_size s) s = (ok, s1)"
  defines "a \<equiv> unat loc + progress" and "bs \<equiv> unat (block_size s)"
  shows "kept s s1" and "ok \<Longrightarrow> dev_inv s1 \<and> block_start s1 = a div bs * bs"
    and "reliable s \<Longrightarrow> a < extent s \<Longrightarrow> ok"
    and "chunk_size loc progress count (block_size s) = min (count - progress) (bs - a mod bs)"
    and "0 < bs" "block_size s \<noteq> 0" "unat ((loc + of_nat progress) mod block_size s) = a mod bs"
proof -
  have wf: "dev_wf s" using inv by (simp add: dev_inv_def)
  have a: "a < 2 ^ 63" using b by (simp add: a_def)
  show bs: "0 < bs" "block_size s \<noteq> 0" using wf by (auto simp: dev_wf_def bs_def)
  note w = block_words [OF a [unfolded a_def], of "block_size s", folded a_def bs_def]
  show "unat ((loc + of_nat progress) mod block_size s) = a mod bs" by (rule w(2))
  show "chunk_size loc progress count (block_size s) = min (count - progress) (bs - a mod bs)"
    by (simp add: chunk_size_def Let_def w(2) bs_def [symmetric] min_def)
  have "a div bs * bs < 2 ^ 63" using div_times_less_eq_dividend [of a bs] a by linarith
  then have k: "kept s s1 \<and> (ok \<longrightarrow> dev_inv s \<longrightarrow> dev_inv s1 \<and> cached_block s1 = (loc + of_nat progress) div block_size s) \<and>
    (reliable s \<longrightarrow> a div bs * bs + bs \<le> length (contents s) \<longrightarrow> ok)"
    using device_cache_block_kept [OF wf _ run] unfolding w(1) bs_def by simp
  then show "kept s s1" by simp
  show "dev_inv s1 \<and> block_start s1 = a div bs * bs" if ok
    using k inv that w(1) by (auto simp: block_start_def kept_def bs_def)
  show ok if "reliable s" "a < extent s"
    using k that block_in_extent [of s a] bs(1) by (simp add: bs_def)
qed

lemma take_drop_chunk:
  "c \<le> n \<Longrightarrow> take c (drop a v) @ take (n - c) (drop (a + c) v) = take n (drop a v)"
  using take_add [of c "n - c" "drop a v"] by (simp add: add.commute)

lemma read_loop_done: "\<not> progress < count \<Longrightarrow> read_loop loc count progress buf s = (Some buf, s)"
  by (simp add: read_loop.simps)

lemma read_loop_kept:
  assumes "dev_inv s" "unat loc + count \<le> 2 ^ 63" "progress \<le> count"
    and "read_loop loc count progress buf s = (r, s')"
  shows "kept s s' \<and>
    (\<forall>out. r = Some out \<longrightarrow> dev_inv s' \<and> out = buf @ take (count - progress) (drop (unat loc + progress) (disk_view s))) \<and>
    (reliable s \<longrightarrow> unat loc + count \<le> extent s \<longrightarrow> r \<noteq> None)"
  using assms
proof (induction "count - progress" arbitrary: progress buf s rule: less_induct)
  case less
  show ?case
  proof (cases "progress < count")
    case False
    then show ?thesis using less.prems by (auto simp: read_loop_done kept_refl dev_inv_def)
  next
    case True
    let ?a = "unat loc + progress" and ?bs = "unat (block_size s)"
    obtain ok s1 where s1: "device_cache_block ((loc + of_nat progress) div block_size s) s = (ok, s1)" by fastforce
    note c = round_cached [OF less.prems(1,2) True s1]
    show ?thesis
    proof (cases ok)
      case False
      then show ?thesis using less.prems(4) c(1,3,6) s1 True by (auto simp: read_loop.simps [of loc count progress])
    next
      case ok: True
      let ?c = "min (count - progress) (?bs - ?a mod ?bs)"
      let ?d = "take ?c (drop (?a mod ?bs) (cache s1))"
      have run: "read_loop loc count (progress + ?c) (buf @ ?d) s1 = (r, s')"
        using less.prems(4) ok True c(6) s1 by (simp add: read_loop.simps [of loc count progress] c(4,7) Let_def)
      note inv = c(2) [OF ok] and k = c(1) [unfolded kept_def]
      have pos: "0 < ?c" using True c(5) by simp
      have IH: "kept s1 s' \<and>
        (\<forall>out. r = Some out \<longrightarrow> dev_inv s' \<and> out = (buf @ ?d) @ take (count - (progress + ?c)) (drop (unat loc + (progress + ?c)) (disk_view s1))) \<and>
        (reliable s1 \<longrightarrow> unat loc + count \<le> extent s1 \<longrightarrow> r \<noteq> None)"
        using pos True inv less.prems(2) by (intro less.hyps [OF _ _ _ _ run]) auto
      have d: "?d = take ?c (drop ?a (disk_view s))"
        using cache_is_view [OF conjunct1 [OF inv]] inv k by (simp add: drop_take min_def)
      have v: "?d @ take (count - (progress + ?c)) (drop (unat loc + (progress + ?c)) (disk_view s1)) =
          take (count - progress) (drop ?a (disk_view s))"
        using take_drop_chunk [of ?c "count - progress" ?a "disk_view s"] k unfolding d by (simp add: add.assoc diff_diff_left)
      have "extent s1 = extent s" using k by (simp add: extent_def)
      then show ?thesis using IH v kept_trans [OF c(1)] kept_reliable [OF c(1)] by auto
    qed
  qed
qed

section \<open>Writing\<close>

lemma overwrite_Nil [simp]: "overwrite xs p [] = xs"
  by (simp add: overwrite_def)

lemma overwrite_append:
  assumes "p + length xs + length ys \<le> length v"
  shows "overwrite (overwrite v p xs) (p + length xs) ys = overwrite v p (xs @ ys)"
  using assms by (auto intro!: nth_equalityI simp: nth_overwrite nth_append)

definition shape_kept :: "device_state \<Rightarrow> device_state \<Rightarrow> bool" where
  "shape_kept s s' \<longleftrightarrow> dev_wf s' \<and> block_size s' = block_size s \<and>
     length (contents s') = length (contents s) \<and> faults s' = faults s \<and> calls s \<le> calls s'"

lemma kept_shape: "kept s s' \<Longrightarrow> shape_kept s s'"
  by (simp add: kept_def shape_kept_def)

lemma shape_trans: "shape_kept s s' \<Longrightarrow> shape_kept s' s'' \<Longrightarrow> shape_kept s s''"
  by (simp add: shape_kept_def)

lemma shape_reliable: "shape_kept s s' \<Longrightarrow> reliable s \<Longrightarrow> reliable s'"
  by (auto simp: shape_kept_def reliable_def)

lemma disk_view_nth:
  assumes inv: "dev_inv s" and i: "i < length (contents s)"
  shows "disk_view s ! i =
    (if block_start s \<le> i \<and> i < block_start s + unat (block_size s) then cache s ! (i - block_start s) else contents s ! i)"
proof -
  have len: "length (cache s) = unat (block_size s)" "block_start s + unat (block_size s) \<le> length (contents s)"
    "length (disk_view s) = length (contents s)"
    using inv disk_view_length [of s] by (auto simp: dev_inv_def dev_wf_def)
  have "cache s ! (i - block_start s) = disk_view s ! i" if "block_start s \<le> i" "i < block_start s + unat (block_size s)"
    using arg_cong [OF cache_is_view [OF inv], of "\<lambda>c. c ! (i - block_start s)"] that len by simp
  moreover have "disk_view s ! i = contents s ! i" if "\<not> (block_start s \<le> i \<and> i < block_start s + unat (block_size s))"
    using that i len by (auto simp: disk_view_def nth_overwrite)
  ultimately show ?thesis by auto
qed

text \<open>A write into the cached block.\<close>

lemma cache_write:
  assumes inv: "dev_inv s" and off: "off + length d \<le> unat (block_size s)"
  defines "s' \<equiv> s\<lparr>cache := overwrite (cache s) off d, cache_state := CACHE_DIRTY\<rparr>"
  shows "dev_inv s'" "shape_kept s s'" "disk_view s' = overwrite (disk_view s) (block_start s + off) d"
proof -
  have wf: "dev_wf s" using inv by (simp add: dev_inv_def)
  have len: "length (cache s) = unat (block_size s)" "block_start s + unat (block_size s) \<le> length (contents s)"
    using wf by (auto simp: dev_wf_def)
  show "dev_inv s'" "shape_kept s s'"
    using wf off len by (auto simp: s'_def dev_inv_def dev_wf_def shape_kept_def block_start_def)
  have l: "length (disk_view s) = length (contents s)" by (rule disk_view_length [OF wf])
  have "disk_view s' = overwrite (contents s) (block_start s) (overwrite (cache s) off d)"
    by (simp add: s'_def disk_view_def block_start_def)
  also have "\<dots> = overwrite (disk_view s) (block_start s + off) d"
  proof (rule nth_equalityI)
    fix i assume i: "i < length (overwrite (contents s) (block_start s) (overwrite (cache s) off d))"
    then have i: "i < length (contents s)" using off len by simp
    have "overwrite (contents s) (block_start s) (overwrite (cache s) off d) ! i =
      (if block_start s \<le> i \<and> i < block_start s + unat (block_size s) then overwrite (cache s) off d ! (i - block_start s)
       else contents s ! i)"
      using i off len by (subst nth_overwrite) auto
    also have "\<dots> = (if block_start s + off \<le> i \<and> i < block_start s + off + length d then d ! (i - (block_start s + off))
       else disk_view s ! i)"
    proof (cases "block_start s \<le> i \<and> i < block_start s + unat (block_size s)")
      case True
      then have "overwrite (cache s) off d ! (i - block_start s) =
        (if off \<le> i - block_start s \<and> i - block_start s < off + length d then d ! (i - block_start s - off) else cache s ! (i - block_start s))"
        using off len by (intro nth_overwrite) auto
      then show ?thesis using True disk_view_nth [OF inv i] by auto
    qed (use disk_view_nth [OF inv i] off in auto)
    also have "\<dots> = overwrite (disk_view s) (block_start s + off) d ! i"
      using i off len l by (subst nth_overwrite) auto
    finally show "overwrite (contents s) (block_start s) (overwrite (cache s) off d) ! i =
      overwrite (disk_view s) (block_start s + off) d ! i" .
  qed (use off len l in simp)
  finally show "disk_view s' = overwrite (disk_view s) (block_start s + off) d" .
qed

lemma write_loop_done: "\<not> progress < count \<Longrightarrow> write_loop buffer loc count progress s = (True, s)"
  by (simp add: write_loop.simps)

lemma write_round:
  assumes inv: "dev_inv s" and b: "unat loc + count \<le> 2 ^ 63" "progress < count" "count \<le> length buffer"
    and s1: "device_cache_block ((loc + of_nat progress) div block_size s) s = (True, s1)"
  obtains c s2 where "0 < c" "c \<le> count - progress" "unat loc + progress + c \<le> length (contents s)"
    "write_loop buffer loc count progress s = write_loop buffer loc count (progress + c) s2"
    "dev_inv s2" "shape_kept s s2"
    "disk_view s2 = overwrite (disk_view s) (unat loc + progress) (take c (drop progress buffer))"
proof -
  let ?a = "unat loc + progress" and ?bs = "unat (block_size s)"
  note r = round_cached [OF inv b(1,2) s1]
  note i = r(2) [OF TrueI] and k = r(1) [unfolded kept_def]
  define off where "off = ?a mod ?bs"
  define c where "c = min (count - progress) (?bs - off)"
  define d where "d = take c (drop progress buffer)"
  have m: "off < ?bs" unfolding off_def by (rule mod_less_divisor [OF r(5)])
  have c: "0 < c" "c \<le> count - progress" "off + c \<le> ?bs" using b(2) m unfolding c_def by linarith+
  have ld: "length d = c" using b(2,3) c(2) by (simp add: d_def)
  have bs: "block_size s1 = block_size s" "length (contents s1) = length (contents s)" "disk_view s1 = disk_view s"
    using k by blast+
  have fit: "off + length d \<le> unat (block_size s1)" unfolding bs ld by (rule c(3))
  note w = cache_write [OF conjunct1 [OF i] fit]
  have start: "block_start s1 + off = ?a" unfolding off_def conjunct2 [OF i] by (rule div_mult_mod_eq)
  have "block_start s1 + ?bs \<le> length (contents s)" using i bs by (simp add: dev_inv_def dev_wf_def)
  then have room: "?a + c \<le> length (contents s)" using start c(3) by linarith
  show thesis
  proof (rule that [OF c(1,2) room])
    show "write_loop buffer loc count progress s = write_loop buffer loc count (progress + c)
        (s1\<lparr>cache := overwrite (cache s1) off d, cache_state := CACHE_DIRTY\<rparr>)"
      using b(2) r(6) s1 by (simp add: write_loop.simps [of buffer loc count progress] r(4,7) Let_def off_def c_def d_def)
    show "shape_kept s (s1\<lparr>cache := overwrite (cache s1) off d, cache_state := CACHE_DIRTY\<rparr>)"
      using kept_shape [OF r(1)] w(2) by (rule shape_trans)
    show "disk_view (s1\<lparr>cache := overwrite (cache s1) off d, cache_state := CACHE_DIRTY\<rparr>) =
        overwrite (disk_view s) ?a (take c (drop progress buffer))"
      using w(3) unfolding start bs(3) d_def .
  qed (rule w(1))
qed

lemma write_loop_effect:
  assumes "dev_inv s" "unat loc + count \<le> 2 ^ 63" "progress \<le> count" "count \<le> length buffer"
    and "write_loop buffer loc count progress s = (ok, s')"
  shows "shape_kept s s' \<and> (ok \<longrightarrow> dev_inv s') \<and>
    (\<exists>k \<le> count - progress. disk_view s' = overwrite (disk_view s) (unat loc + progress) (take k (drop progress buffer)) \<and>
      (0 < k \<longrightarrow> unat loc + progress + k \<le> length (contents s)) \<and> (ok \<longrightarrow> k = count - progress)) \<and>
    (reliable s \<longrightarrow> unat loc + count \<le> extent s \<longrightarrow> ok)"
  using assms
proof (induction "count - progress" arbitrary: progress s rule: less_induct)
  case less
  show ?case
  proof (cases "progress < count")
    case False
    then show ?thesis using less.prems kept_shape [OF kept_refl, of s] by (auto simp: write_loop_done dev_inv_def)
  next
    case lt: True
    obtain ok1 s1 where s1: "device_cache_block ((loc + of_nat progress) div block_size s) s = (ok1, s1)" by fastforce
    note c = round_cached [OF less.prems(1,2) lt s1]
    show ?thesis
    proof (cases ok1)
      case False
      then have "ok = False" "s' = s1" using less.prems(5) c(6) s1 lt by (auto simp: write_loop.simps [of buffer loc count progress])
      then show ?thesis using c(1,3) kept_shape [OF c(1)] False less.prems(2) lt
        by (intro conjI exI [of _ 0]) (auto simp: kept_def)
    next
      case True
      then have ok1_eq: "ok1 = True" by simp
      obtain c s2 where r: "0 < c" "c \<le> count - progress" "unat loc + progress + c \<le> length (contents s)"
        "write_loop buffer loc count progress s = write_loop buffer loc count (progress + c) s2" "dev_inv s2" "shape_kept s s2"
        "disk_view s2 = overwrite (disk_view s) (unat loc + progress) (take c (drop progress buffer))"
        by (rule write_round [OF less.prems(1,2) lt less.prems(4) s1 [unfolded ok1_eq]]) (rule that)
      let ?q = "progress + c"
      have IH: "shape_kept s2 s' \<and> (ok \<longrightarrow> dev_inv s') \<and>
        (\<exists>k \<le> count - ?q. disk_view s' = overwrite (disk_view s2) (unat loc + ?q) (take k (drop ?q buffer)) \<and>
          (0 < k \<longrightarrow> unat loc + ?q + k \<le> length (contents s2)) \<and> (ok \<longrightarrow> k = count - ?q)) \<and>
        (reliable s2 \<longrightarrow> unat loc + count \<le> extent s2 \<longrightarrow> ok)"
        using r less.prems by (intro less.hyps) auto
      then obtain k where k: "k \<le> count - ?q" "ok \<longrightarrow> k = count - ?q"
        "disk_view s' = overwrite (disk_view s2) (unat loc + ?q) (take k (drop ?q buffer))"
        "0 < k \<longrightarrow> unat loc + ?q + k \<le> length (contents s2)" by blast
      have sh: "length (contents s2) = length (contents s)" "extent s2 = extent s"
        using r(6) by (simp_all add: extent_def shape_kept_def)
      have l: "length (disk_view s) = length (contents s)"
        using less.prems(1) by (intro disk_view_length) (simp add: dev_inv_def)
      have lc: "length (take c (drop progress buffer)) = c" "length (take k (drop ?q buffer)) = k"
        using r(2) k(1) less.prems(3,4) by auto
      have room: "unat loc + progress + c + k \<le> length (contents s)" using k(4) r(3) sh(1) by (cases "k = 0") auto
      have "disk_view s' = overwrite (disk_view s) (unat loc + progress) (take (c + k) (drop progress buffer))"
        using overwrite_append [of "unat loc + progress" "take c (drop progress buffer)" "take k (drop ?q buffer)" "disk_view s"]
          k(3) r(7) lc l room take_add [of c k "drop progress buffer"] by (simp add: ac_simps)
      then have "\<exists>k \<le> count - progress. disk_view s' = overwrite (disk_view s) (unat loc + progress) (take k (drop progress buffer)) \<and>
          (0 < k \<longrightarrow> unat loc + progress + k \<le> length (contents s)) \<and> (ok \<longrightarrow> k = count - progress)"
        using k(1,2) r(2) room by (intro exI [of _ "c + k"]) auto
      then show ?thesis using IH shape_trans [OF r(6)] shape_reliable [OF r(6)] sh(2) by auto
    qed
  qed
qed

section \<open>The contract of a byte store\<close>

text \<open>Accesses of a client, and what they do to a plain list of bytes.\<close>

datatype store_op = Read_op u64 nat | Write_op u64 "u8 list"

primrec flat_run :: "store_op list \<Rightarrow> u8 list \<Rightarrow> u8 list list \<times> u8 list" where
  "flat_run [] v = ([], v)"
| "flat_run (op # ops) v =
     (case op of
        Read_op loc n \<Rightarrow> (let (outs, v') = flat_run ops v in (take n (drop (unat loc) v) # outs, v'))
      | Write_op loc d \<Rightarrow> flat_run ops (overwrite v (unat loc) d))"

fun op_fits :: "nat \<Rightarrow> store_op \<Rightarrow> bool" where
  "op_fits n (Read_op loc k) \<longleftrightarrow> unat loc + k \<le> n"
| "op_fits n (Write_op loc d) \<longleftrightarrow> unat loc + length d \<le> n"

text \<open>The same accesses on a store with the operations \<open>rd\<close> and \<open>wr\<close>, up to the first that fails.\<close>

primrec store_run ::
  "(u64 \<Rightarrow> nat \<Rightarrow> 's \<Rightarrow> u8 list option \<times> 's) \<Rightarrow> (u8 list \<Rightarrow> u64 \<Rightarrow> nat \<Rightarrow> 's \<Rightarrow> bool \<times> 's) \<Rightarrow>
    store_op list \<Rightarrow> 's \<Rightarrow> u8 list list option \<times> 's" where
  "store_run rd wr [] s = (Some [], s)"
| "store_run rd wr (op # ops) s =
     (case op of
        Read_op loc n \<Rightarrow>
          (case rd loc n s of
             (None, s) \<Rightarrow> (None, s)
           | (Some d, s) \<Rightarrow> (case store_run rd wr ops s of (r, s) \<Rightarrow> (map_option (\<lambda>outs. d # outs) r, s)))
      | Write_op loc d \<Rightarrow>
          (case wr d loc (length d) s of (ok, s) \<Rightarrow> if ok then store_run rd wr ops s else (None, s)))"

locale byte_store =
  fixes inv :: "'s \<Rightarrow> bool"
    and view :: "'s \<Rightarrow> u8 list"
    and size_of :: "'s \<Rightarrow> nat"
    and rd :: "u64 \<Rightarrow> nat \<Rightarrow> 's \<Rightarrow> u8 list option \<times> 's"
    and wr :: "u8 list \<Rightarrow> u64 \<Rightarrow> nat \<Rightarrow> 's \<Rightarrow> bool \<times> 's"
  assumes size_view: "inv s \<Longrightarrow> size_of s \<le> length (view s)"
    and read_ok: "inv s \<Longrightarrow> unat loc + n \<le> size_of s \<Longrightarrow>
      \<exists>s'. rd loc n s = (Some (take n (drop (unat loc) (view s))), s') \<and> inv s' \<and> view s' = view s \<and> size_of s' = size_of s"
    and write_ok: "inv s \<Longrightarrow> unat loc + length d \<le> size_of s \<Longrightarrow>
      \<exists>s'. wr d loc (length d) s = (True, s') \<and> inv s' \<and> view s' = overwrite (view s) (unat loc) d \<and> size_of s' = size_of s"
begin

lemma run_refines:
  "inv s \<Longrightarrow> list_all (op_fits (size_of s)) ops \<Longrightarrow>
    \<exists>outs s'. store_run rd wr ops s = (Some outs, s') \<and> flat_run ops (view s) = (outs, view s') \<and> inv s' \<and> size_of s' = size_of s"
proof (induction ops arbitrary: s)
  case (Cons op ops)
  show ?case
  proof (cases op)
    case (Read_op loc n)
    then obtain s1 where s1: "rd loc n s = (Some (take n (drop (unat loc) (view s))), s1)" "inv s1" "view s1 = view s" "size_of s1 = size_of s"
      using Cons.prems read_ok [of s loc n] by auto
    with Cons.IH [of s1] Cons.prems obtain outs s2 where
      "store_run rd wr ops s1 = (Some outs, s2)" "flat_run ops (view s) = (outs, view s2)" "inv s2" "size_of s2 = size_of s"
      by auto
    then show ?thesis using s1 Read_op by simp
  next
    case (Write_op loc d)
    then obtain s1 where s1: "wr d loc (length d) s = (True, s1)" "inv s1" "view s1 = overwrite (view s) (unat loc) d" "size_of s1 = size_of s"
      using Cons.prems write_ok [of s loc d] by auto
    with Cons.IH [of s1] Cons.prems show ?thesis using Write_op by auto
  qed
qed simp

text \<open>Reading back what was written, and reading elsewhere.\<close>

lemma read_write:
  assumes "inv s" "unat loc + length d \<le> size_of s"
  shows "\<exists>s1 s2. wr d loc (length d) s = (True, s1) \<and> rd loc (length d) s1 = (Some d, s2) \<and> inv s2"
proof -
  obtain s1 where s1: "wr d loc (length d) s = (True, s1)" "inv s1" "view s1 = overwrite (view s) (unat loc) d" "size_of s1 = size_of s"
    using write_ok [OF assms] by blast
  moreover have "take (length d) (drop (unat loc) (view s1)) = d"
    using assms size_view [OF assms(1)] s1(3) by (simp add: overwrite_inside)
  ultimately show ?thesis using read_ok [of s1 loc "length d"] assms(2) by auto
qed

end

definition dev_ready :: "device_state \<Rightarrow> bool" where
  "dev_ready s \<longleftrightarrow> dev_inv s \<and> reliable s"

lemma extent_length: "extent s \<le> length (contents s)"
  by (simp add: extent_def)

interpretation cached: byte_store dev_ready disk_view extent device_read device_write
proof
  fix s :: device_state
  assume s: "dev_ready s"
  then have inv: "dev_inv s" "reliable s" "dev_wf s" by (simp_all add: dev_ready_def dev_inv_def)
  show "extent s \<le> length (disk_view s)" using extent_length [of s] disk_view_length [OF inv(3)] by simp
  have b: "extent s \<le> 2 ^ 63" using extent_length [of s] inv(3) by (simp add: dev_wf_def)
  show "\<exists>s'. device_read loc n s = (Some (take n (drop (unat loc) (disk_view s))), s') \<and>
      dev_ready s' \<and> disk_view s' = disk_view s \<and> extent s' = extent s" if fits: "unat loc + n \<le> extent s" for loc n
  proof -
    obtain r s' where run: "read_loop loc n 0 [] s = (r, s')" by fastforce
    note k = read_loop_kept [OF inv(1) order_trans [OF fits b] _ run]
    then show ?thesis using run fits inv kept_reliable [of s s']
      by (auto simp: device_read_def dev_ready_def kept_def extent_def)
  qed
  show "\<exists>s'. device_write d loc (length d) s = (True, s') \<and>
      dev_ready s' \<and> disk_view s' = overwrite (disk_view s) (unat loc) d \<and> extent s' = extent s"
    if fits: "unat loc + length d \<le> extent s" for loc d
  proof -
    obtain ok s' where run: "write_loop d loc (length d) 0 s = (ok, s')" by fastforce
    note k = write_loop_effect [OF inv(1) order_trans [OF fits b] _ _ run]
    then have ok using fits inv(2) by simp
    then show ?thesis using k run fits inv shape_reliable [of s s']
      by (auto simp: device_write_def dev_ready_def shape_kept_def extent_def)
  qed
qed

section \<open>Opening the device\<close>

lemma device_init_loop_inv:
  assumes "set guesses \<subseteq> {512, 2048, 4096}" "length (contents s) < 2 ^ 63"
    and "device_init_loop guesses s = (ok, s')"
  shows "contents s' = contents s \<and> faults s' = faults s \<and> calls s \<le> calls s' \<and> (ok \<longrightarrow> dev_inv s')"
  using assms
proof (induction guesses arbitrary: s)
  case (Cons g gs)
  obtain ok1 s1 where s1: "realloc_cache (unat g) s = (ok1, s1)" by fastforce
  have 1: "contents s1 = contents s" "faults s1 = faults s" "calls s \<le> calls s1" "ok1 \<Longrightarrow> length (cache s1) = unat g"
    using s1 by (auto simp: realloc_cache_def next_fault_def split: if_splits)
  show ?case
  proof (cases ok1)
    case False
    then show ?thesis using Cons.prems(3) s1 1 by simp
  next
    case True
    obtain ok2 s2 where s2: "fread_cache (unat g) (rewind s1) = (ok2, s2)" by fastforce
    have g: "g \<in> {512, 2048, 4096}" using Cons.prems(1) by simp
    have 2: "length (cache (rewind s1)) = unat g" "0 < unat g" using 1(4) True g by (auto simp: rewind_def)
    from fread_cacheD [OF s2 2] obtain
      e: "s2 = (rewind s1)\<lparr>cache := cache s2, fpos := fpos s2, calls := Suc (calls (rewind s1))\<rparr>"
      and full: "ok2 \<Longrightarrow> cache s2 = take (unat g) (contents s) \<and> unat g \<le> length (contents s)"
      using 1(1) by (auto simp: rewind_def)
    have c: "contents s2 = contents s" "faults s2 = faults s" "calls s \<le> calls s2"
      by (subst e, simp add: rewind_def 1 le_SucI)+
    show ?thesis
    proof (cases ok2)
      case False
      then have "device_init_loop gs s2 = (ok, s')" using Cons.prems(3) s1 s2 True by simp
      from Cons.IH [OF _ _ this] show ?thesis using Cons.prems(1,2) c by auto
    next
      case True
      then show ?thesis using Cons.prems(2,3) s1 s2 \<open>ok1\<close> c full g
        by (auto simp: dev_inv_def dev_wf_def block_start_def)
    qed
  qed
qed auto

lemma device_init_inv:
  assumes "length (contents s) < 2 ^ 63" "device_init s = (ok, s')"
  shows "contents s' = contents s \<and> faults s' = faults s \<and> calls s \<le> calls s' \<and> (ok \<longrightarrow> dev_inv s')"
  using device_init_loop_inv [of "[512, 2048, 4096]" s ok s'] assms by (simp add: device_init_def)

text \<open>On a file of at least one sector, with no fault, the first guess is taken.\<close>

lemma device_init_512:
  assumes "reliable s" "512 \<le> length (contents s)"
  shows "\<exists>s'. device_init s = (True, s') \<and> block_size s' = 512 \<and> cache_state s' = CACHE_CLEAN"
proof -
  have f: "faults s (calls s) = None" "faults s (Suc (calls s)) = None" using assms(1) by (simp_all add: reliable_def)
  have "length (take 512 (contents s)) = 512" using assms(2) by simp
  then show ?thesis
    unfolding device_init_def device_init_loop.simps realloc_cache_def fread_cache_def next_fault_def rewind_def Let_def
    using f by simp
qed

text \<open>A file of two sectors, opened, for the examples.\<close>

definition demo_file :: "device_state" where
  "demo_file = \<lparr>contents = replicate 1024 0, fpos = 0, sizeof_long = 8, faults = (\<lambda>_. None), calls = 0,
     cache_state = CACHE_CLEAN, cached_block = 0, cache = [], block_size = 0\<rparr>"

definition demo_device :: "device_state" where
  "demo_device = demo_file\<lparr>block_size := 512, cache := replicate 512 0\<rparr>"

lemma demo_device_inv: "dev_inv demo_device" "reliable demo_device" "extent demo_device = 1024"
  "disk_view demo_device = replicate 1024 0"
  by (simp_all add: dev_inv_def dev_wf_def block_start_def reliable_def extent_def disk_view_def demo_device_def demo_file_def)

section \<open>Properties\<close>

text \<open>C24. For every sequence of reads and writes inside the whole blocks of a device without faults, the device
  layer with its one-block cache returns what a plain array of bytes returns, and flushing the cache
  then leaves exactly that array on the device.\<close>

theorem device_refines_array:
  assumes "dev_inv s" and "reliable s" and "list_all (op_fits (extent s)) ops"
  shows "\<exists>outs s' s''. store_run device_read device_write ops s = (Some outs, s') \<and>
    flat_run ops (disk_view s) = (outs, disk_view s') \<and>
    device_flush_cache s' = (True, s'') \<and> contents s'' = disk_view s'"
proof -
  obtain outs s' where r: "store_run device_read device_write ops s = (Some outs, s')"
    "flat_run ops (disk_view s) = (outs, disk_view s')" "dev_ready s'"
    using cached.run_refines [of s ops] assms by (auto simp: dev_ready_def)
  obtain ok s'' where f: "device_flush_cache s' = (ok, s'')" by fastforce
  have "dev_wf s'" "reliable s'" using r(3) by (simp_all add: dev_ready_def dev_inv_def)
  then show ?thesis using r device_flush_cache_kept [OF _ f] f by auto
qed

theorem device_refines_array_witness:
  "\<exists>s' s''. store_run device_read device_write [Write_op 510 [1, 2, 3, 4], Read_op 511 2] demo_device = (Some [[2, 3]], s') \<and>
    device_flush_cache s' = (True, s'') \<and> contents s'' = overwrite (replicate 1024 0) 510 [1, 2, 3, 4]"
  using device_refines_array [OF demo_device_inv(1,2), of "[Write_op 510 [1, 2, 3, 4], Read_op 511 2]"]
  by (auto simp: demo_device_inv overwrite_inside)

text \<open>C25. Whatever calls of the C library fail: a read never changes the bytes of the device and, when it reports
  success, returns them; a write changes only a prefix of the range it was asked to write, all of
  it when it reports success.\<close>

theorem device_faults_safe:
  assumes "dev_inv s" and "unat loc + count \<le> 2 ^ 63" and "count \<le> length buffer"
  shows "(case device_read loc count s of (r, s') \<Rightarrow> disk_view s' = disk_view s \<and>
      (r = None \<or> r = Some (take count (drop (unat loc) (disk_view s))))) \<and>
    (case device_write buffer loc count s of (ok, s') \<Rightarrow>
      (\<exists>k \<le> count. disk_view s' = overwrite (disk_view s) (unat loc) (take k buffer) \<and> (ok \<longrightarrow> k = count)))"
proof -
  obtain r s1 where r: "read_loop loc count 0 [] s = (r, s1)" by fastforce
  obtain ok s2 where w: "write_loop buffer loc count 0 s = (ok, s2)" by fastforce
  have "disk_view s1 = disk_view s \<and> (r = None \<or> r = Some (take count (drop (unat loc) (disk_view s))))"
    using read_loop_kept [OF assms(1,2) _ r] by (cases r) (simp_all add: kept_def)
  moreover have "\<exists>k \<le> count. disk_view s2 = overwrite (disk_view s) (unat loc) (take k buffer) \<and> (ok \<longrightarrow> k = count)"
    using write_loop_effect [OF assms(1,2) _ assms(3) w] unfolding add_0_right diff_zero drop_0 by blast
  ultimately show ?thesis unfolding device_read_def device_write_def r w prod.case by blast
qed

theorem device_faults_safe_witness:
  "\<exists>k \<le> 4. disk_view (snd (device_write [1, 2, 3, 4] 510 4 (demo_device\<lparr>faults := \<lambda>_. Some 0\<rparr>))) =
    overwrite (replicate 1024 0) 510 (take k [1, 2, 3, 4])"
proof -
  have "dev_inv (demo_device\<lparr>faults := \<lambda>_. Some 0\<rparr>)" "disk_view (demo_device\<lparr>faults := \<lambda>_. Some 0\<rparr>) = replicate 1024 0"
    by (simp_all add: dev_inv_def dev_wf_def block_start_def disk_view_def demo_device_def demo_file_def)
  then show ?thesis
    using device_faults_safe [of "demo_device\<lparr>faults := \<lambda>_. Some 0\<rparr>" 510 4 "[1, 2, 3, 4]"] by (auto split: prod.splits)
qed



end
