(* ===== verification/Crc32.thy ===== *)
theory Crc32
  imports Prelude
begin

text \<open>
  The checksum of \<^verbatim>\<open>src/limine/limine-install.c\<close>, which the installer of the boot loader writes into the headers of
  a GUID partition table: the table and the loop of the code, and the bit by bit definition of CRC-32
  they compute. The argument is the list of the \<^verbatim>\<open>len\<close> bytes of the C function.
\<close>

unbundle bit_operations_syntax

section \<open>The table\<close>

definition crc32_table :: "u32 list" where
  "crc32_table = [0x00000000, 0x77073096, 0xee0e612c, 0x990951ba, 0x076dc419, 0x706af48f, 0xe963a535, 0x9e6495a3,
    0x0edb8832, 0x79dcb8a4, 0xe0d5e91e, 0x97d2d988, 0x09b64c2b, 0x7eb17cbd, 0xe7b82d07, 0x90bf1d91,
    0x1db71064, 0x6ab020f2, 0xf3b97148, 0x84be41de, 0x1adad47d, 0x6ddde4eb, 0xf4d4b551, 0x83d385c7,
    0x136c9856, 0x646ba8c0, 0xfd62f97a, 0x8a65c9ec, 0x14015c4f, 0x63066cd9, 0xfa0f3d63, 0x8d080df5,
    0x3b6e20c8, 0x4c69105e, 0xd56041e4, 0xa2677172, 0x3c03e4d1, 0x4b04d447, 0xd20d85fd, 0xa50ab56b,
    0x35b5a8fa, 0x42b2986c, 0xdbbbc9d6, 0xacbcf940, 0x32d86ce3, 0x45df5c75, 0xdcd60dcf, 0xabd13d59,
    0x26d930ac, 0x51de003a, 0xc8d75180, 0xbfd06116, 0x21b4f4b5, 0x56b3c423, 0xcfba9599, 0xb8bda50f,
    0x2802b89e, 0x5f058808, 0xc60cd9b2, 0xb10be924, 0x2f6f7c87, 0x58684c11, 0xc1611dab, 0xb6662d3d,
    0x76dc4190, 0x01db7106, 0x98d220bc, 0xefd5102a, 0x71b18589, 0x06b6b51f, 0x9fbfe4a5, 0xe8b8d433,
    0x7807c9a2, 0x0f00f934, 0x9609a88e, 0xe10e9818, 0x7f6a0dbb, 0x086d3d2d, 0x91646c97, 0xe6635c01,
    0x6b6b51f4, 0x1c6c6162, 0x856530d8, 0xf262004e, 0x6c0695ed, 0x1b01a57b, 0x8208f4c1, 0xf50fc457,
    0x65b0d9c6, 0x12b7e950, 0x8bbeb8ea, 0xfcb9887c, 0x62dd1ddf, 0x15da2d49, 0x8cd37cf3, 0xfbd44c65,
    0x4db26158, 0x3ab551ce, 0xa3bc0074, 0xd4bb30e2, 0x4adfa541, 0x3dd895d7, 0xa4d1c46d, 0xd3d6f4fb,
    0x4369e96a, 0x346ed9fc, 0xad678846, 0xda60b8d0, 0x44042d73, 0x33031de5, 0xaa0a4c5f, 0xdd0d7cc9,
    0x5005713c, 0x270241aa, 0xbe0b1010, 0xc90c2086, 0x5768b525, 0x206f85b3, 0xb966d409, 0xce61e49f,
    0x5edef90e, 0x29d9c998, 0xb0d09822, 0xc7d7a8b4, 0x59b33d17, 0x2eb40d81, 0xb7bd5c3b, 0xc0ba6cad,
    0xedb88320, 0x9abfb3b6, 0x03b6e20c, 0x74b1d29a, 0xead54739, 0x9dd277af, 0x04db2615, 0x73dc1683,
    0xe3630b12, 0x94643b84, 0x0d6d6a3e, 0x7a6a5aa8, 0xe40ecf0b, 0x9309ff9d, 0x0a00ae27, 0x7d079eb1,
    0xf00f9344, 0x8708a3d2, 0x1e01f268, 0x6906c2fe, 0xf762575d, 0x806567cb, 0x196c3671, 0x6e6b06e7,
    0xfed41b76, 0x89d32be0, 0x10da7a5a, 0x67dd4acc, 0xf9b9df6f, 0x8ebeeff9, 0x17b7be43, 0x60b08ed5,
    0xd6d6a3e8, 0xa1d1937e, 0x38d8c2c4, 0x4fdff252, 0xd1bb67f1, 0xa6bc5767, 0x3fb506dd, 0x48b2364b,
    0xd80d2bda, 0xaf0a1b4c, 0x36034af6, 0x41047a60, 0xdf60efc3, 0xa867df55, 0x316e8eef, 0x4669be79,
    0xcb61b38c, 0xbc66831a, 0x256fd2a0, 0x5268e236, 0xcc0c7795, 0xbb0b4703, 0x220216b9, 0x5505262f,
    0xc5ba3bbe, 0xb2bd0b28, 0x2bb45a92, 0x5cb36a04, 0xc2d7ffa7, 0xb5d0cf31, 0x2cd99e8b, 0x5bdeae1d,
    0x9b64c2b0, 0xec63f226, 0x756aa39c, 0x026d930a, 0x9c0906a9, 0xeb0e363f, 0x72076785, 0x05005713,
    0x95bf4a82, 0xe2b87a14, 0x7bb12bae, 0x0cb61b38, 0x92d28e9b, 0xe5d5be0d, 0x7cdcefb7, 0x0bdbdf21,
    0x86d3d2d4, 0xf1d4e242, 0x68ddb3f8, 0x1fda836e, 0x81be16cd, 0xf6b9265b, 0x6fb077e1, 0x18b74777,
    0x88085ae6, 0xff0f6a70, 0x66063bca, 0x11010b5c, 0x8f659eff, 0xf862ae69, 0x616bffd3, 0x166ccf45,
    0xa00ae278, 0xd70dd2ee, 0x4e048354, 0x3903b3c2, 0xa7672661, 0xd06016f7, 0x4969474d, 0x3e6e77db,
    0xaed16a4a, 0xd9d65adc, 0x40df0b66, 0x37d83bf0, 0xa9bcae53, 0xdebb9ec5, 0x47b2cf7f, 0x30b5ffe9,
    0xbdbdf21c, 0xcabac28a, 0x53b39330, 0x24b4a3a6, 0xbad03605, 0xcdd70693, 0x54de5729, 0x23d967bf,
    0xb3667a2e, 0xc4614ab8, 0x5d681b02, 0x2a6f2b94, 0xb40bbe37, 0xc30c8ea1, 0x5a05df1b, 0x2d02ef8d]"

section \<open>The checksum\<close>

primrec crc32_loop :: "u8 list \<Rightarrow> u32 \<Rightarrow> u32" where
  "crc32_loop [] ret = ret"
| "crc32_loop (b # stream) ret =
     crc32_loop stream (drop_bit 8 ret XOR crc32_table ! unat ((ret XOR ucast b) AND 0xff))"

definition crc32 :: "u8 list \<Rightarrow> u32" where
  "crc32 stream = crc32_loop stream 0xffffffff XOR 0xffffffff"

section \<open>The reference\<close>

text \<open>One bit of the division by the generator polynomial, least significant bit first.\<close>

definition crc_step :: "u32 \<Rightarrow> u32" where
  "crc_step x = drop_bit 1 x XOR (if bit x 0 then 0xedb88320 else 0)"

primrec crc_bits :: "nat \<Rightarrow> u32 \<Rightarrow> u32" where
  "crc_bits 0 x = x"
| "crc_bits (Suc n) x = crc_bits n (crc_step x)"

definition crc32_spec :: "u8 list \<Rightarrow> u32" where
  "crc32_spec stream = foldl (\<lambda>ret b. crc_bits 8 (ret XOR ucast b)) 0xffffffff stream XOR 0xffffffff"

lemma crc_step_xor: "crc_step (x XOR y) = crc_step x XOR crc_step y"
  by (simp add: crc_step_def bit_xor_iff ac_simps)

lemma crc_bits_xor: "crc_bits n (x XOR y) = crc_bits n x XOR crc_bits n y"
  by (induction n arbitrary: x y) (simp_all add: crc_step_xor)

text \<open>While the low bits are zero, a step only shifts.\<close>

lemma crc_bits_shift: "(\<And>i. i < n \<Longrightarrow> \<not> bit x i) \<Longrightarrow> crc_bits n x = drop_bit n x"
proof (induction n arbitrary: x)
  case (Suc n)
  have "crc_step x = drop_bit 1 x" using Suc.prems [of 0] by (simp add: crc_step_def)
  moreover have "crc_bits n (drop_bit 1 x) = drop_bit n (drop_bit 1 x)"
    using Suc.prems [of "Suc _"] by (intro Suc.IH) (simp add: bit_drop_bit_eq)
  ultimately show ?case by (simp add: drop_bit_drop_bit)
qed simp

lemma crc_byte: "crc_bits 8 x = drop_bit 8 x XOR crc_bits 8 (x AND 0xff)"
proof -
  define m :: u32 where "m = 0xff"
  have ff: "bit m i \<longleftrightarrow> i < 8" for i
    using bit_mask_iff [of 8 i, where 'a = "32 word"] by (auto simp: m_def mask_eq_exp_minus_1)
  have "x = (x AND NOT m) XOR (x AND m)"
    by (rule bit_word_eqI) (auto simp: bit_simps)
  then have "crc_bits 8 x = crc_bits 8 (x AND NOT m) XOR crc_bits 8 (x AND m)"
    by (metis crc_bits_xor)
  also have "crc_bits 8 (x AND NOT m) = drop_bit 8 (x AND NOT m)"
    by (rule crc_bits_shift) (simp add: bit_and_iff bit_not_iff ff)
  also have "drop_bit 8 (x AND NOT m) = drop_bit 8 x"
    by (rule bit_word_eqI) (auto simp: bit_drop_bit_eq bit_and_iff bit_not_iff ff dest: bit_imp_le_length)
  finally show ?thesis unfolding m_def .
qed

lemma crc_bits_8: "crc_bits 8 x = crc_step (crc_step (crc_step (crc_step (crc_step (crc_step (crc_step (crc_step x)))))))"
  by (simp add: eval_nat_numeral)

lemma less_8_cases: "(k :: nat) < 8 \<Longrightarrow> k \<in> {0, 1, 2, 3, 4, 5, 6, 7}"
  by auto

lemma crc32_table_powers: "k < 8 \<Longrightarrow> crc32_table ! (2 ^ k) = crc_bits 8 (2 ^ k)"
proof -
  have "\<forall>k\<in>{0, 1, 2, 3, 4, 5, 6, 7}. crc32_table ! (2 ^ k) = crc_bits 8 (2 ^ k)"
    by (simp add: crc32_table_def crc_bits_8 crc_step_def)
  then show "k < 8 \<Longrightarrow> ?thesis" using less_8_cases by blast
qed

lemma crc32_table_halves:
  "k < 8 \<Longrightarrow> take (2 ^ k) (drop (2 ^ k) crc32_table) = map (\<lambda>x. x XOR crc32_table ! (2 ^ k)) (take (2 ^ k) crc32_table)"
proof -
  have "\<forall>k\<in>{0, 1, 2, 3, 4, 5, 6, 7}.
      take (2 ^ k) (drop (2 ^ k) crc32_table) = map (\<lambda>x. x XOR crc32_table ! (2 ^ k)) (take (2 ^ k) crc32_table)"
    by (simp add: crc32_table_def)
  then show "k < 8 \<Longrightarrow> ?thesis" using less_8_cases by blast
qed

lemma crc32_table_length: "length crc32_table = 256"
  by (simp add: crc32_table_def)

lemma crc32_table_nth: "k \<le> 8 \<Longrightarrow> i < 2 ^ k \<Longrightarrow> crc32_table ! i = crc_bits 8 (of_nat i)"
proof (induction k arbitrary: i)
  case 0
  then show ?case by (simp add: crc32_table_def crc_bits_8 crc_step_def)
next
  case (Suc k)
  show ?case
  proof (cases "i < 2 ^ k")
    case True
    then show ?thesis using Suc by simp
  next
    case False
    then obtain j where j: "i = 2 ^ k + j" "j < 2 ^ k"
      using Suc.prems(2) by (metis le_add_diff_inverse less_diff_conv2 linorder_not_less mult_2 power_Suc)
    have k: "2 ^ k + j < length crc32_table"
      using power_increasing [of "Suc k" 8 "2 :: nat"] Suc.prems(1) j(2) by (simp add: crc32_table_length)
    have "crc32_table ! i = take (2 ^ k) (drop (2 ^ k) crc32_table) ! j" using j k by simp
    also have "\<dots> = crc32_table ! j XOR crc32_table ! (2 ^ k)"
      using j(2) k Suc.prems(1) by (simp add: crc32_table_halves)
    also have "\<dots> = crc_bits 8 (of_nat j XOR 2 ^ k)"
      using Suc.IH [of j] Suc.prems(1) j(2) by (simp add: crc32_table_powers crc_bits_xor)
    also have "of_nat j XOR 2 ^ k = (of_nat i :: u32)"
    proof -
      have "\<not> bit (of_nat j :: u32) k"
        using j(2) bit_iff_odd [of j k] by (simp add: bit_of_nat_iff)
      then have "of_nat j AND 2 ^ k = (0 :: u32)"
        by (intro bit_word_eqI) (auto simp: bit_and_iff bit_exp_iff)
      then show ?thesis using j(1) disjunctive_add_eq_xor [of "of_nat j" "2 ^ k :: u32"] by (simp add: add.commute)
    qed
    finally show ?thesis .
  qed
qed

lemma crc32_byte:
  "drop_bit 8 ret XOR crc32_table ! unat ((ret XOR ucast b) AND 0xff) = crc_bits 8 (ret XOR ucast (b :: u8))"
proof -
  let ?x = "ret XOR ucast b"
  have "unat (?x AND 0xff) \<le> unat (0xff :: u32)" by (metis word_and_le1 word_le_nat_alt)
  then have "crc32_table ! unat (?x AND 0xff) = crc_bits 8 (?x AND 0xff)"
    using crc32_table_nth [of 8 "unat (?x AND 0xff)"] by simp
  moreover have "drop_bit 8 ?x = drop_bit 8 ret"
    by (rule bit_word_eqI) (auto simp: bit_simps dest: bit_imp_le_length)
  ultimately show ?thesis by (simp add: crc_byte [of ?x])
qed

lemma crc32_eq_spec: "crc32 stream = crc32_spec stream"
proof -
  have "crc32_loop stream ret = foldl (\<lambda>ret b. crc_bits 8 (ret XOR ucast b)) ret stream" for ret
    by (induction stream arbitrary: ret) (simp_all add: crc32_byte)
  then show ?thesis by (simp add: crc32_def crc32_spec_def)
qed

text \<open>C27. The table-driven checksum of the partition tables is the CRC-32 of the standard: the bit by bit division by the
  reflected polynomial \<^verbatim>\<open>0xedb88320\<close>, for byte strings of every length.\<close>

theorem crc32_correct: "crc32 stream = crc32_spec stream"
  by (rule crc32_eq_spec)

end
