(* ===== verification/Limine_Install.thy ===== *)
theory Limine_Install
  imports Block_Cache Crc32
begin

text \<open>
  \<^verbatim>\<open>main\<close> of \<^verbatim>\<open>src/limine/limine-install.c\<close>, which writes the first stages of the boot loader to the image of the
  kernel, on top of the device layer \<open>Block_Cache\<close> and the checksum \<open>Crc32\<close>. The boot loader, the array of
  \<^verbatim>\<open>limine-hdd.h\<close>, is the argument \<open>img\<close>. Local buffers are lists of bytes and the structures of the GUID
  partition table are records with their layout in bytes. \<open>locate_partition\<close> and \<open>embed_gpt\<close> are the two
  ways to place the second stage on a device with such a table. A failed \<^verbatim>\<open>malloc\<close> or \<^verbatim>\<open>calloc\<close> is a fault of
  the device state's schedule. Messages to the user are left out.
\<close>

unbundle bit_operations_syntax

section \<open>Bytes of the C objects\<close>

primrec le_bytes :: "nat \<Rightarrow> nat \<Rightarrow> u8 list" where
  "le_bytes 0 v = []"
| "le_bytes (Suc n) v = of_nat v # le_bytes n (v div 256)"

primrec le_value :: "u8 list \<Rightarrow> nat" where
  "le_value [] = 0"
| "le_value (b # bs) = unat b + 256 * le_value bs"

definition field_at :: "u8 list \<Rightarrow> nat \<Rightarrow> nat \<Rightarrow> nat" where
  "field_at bs off n = le_value (take n (drop off bs))"

text \<open>The header is 92 bytes; the structure has four bytes of padding behind them.\<close>

record gpt_table_header =
  gpt_signature :: "u8 list"
  gpt_revision :: u32
  gpt_header_size :: u32
  gpt_crc32 :: u32
  gpt_reserved0 :: u32
  my_lba :: u64
  alternate_lba :: u64
  first_usable_lba :: u64
  last_usable_lba :: u64
  disk_guid :: "u64 \<times> u64"
  partition_entry_lba :: u64
  number_of_partition_entries :: u32
  size_of_partition_entry :: u32
  partition_entry_array_crc32 :: u32
  gpt_padding :: "u8 list"

definition read_gpt_header :: "u8 list \<Rightarrow> gpt_table_header" where
  "read_gpt_header b =
     \<lparr>gpt_signature = take 8 b, gpt_revision = of_nat (field_at b 8 4), gpt_header_size = of_nat (field_at b 12 4),
      gpt_crc32 = of_nat (field_at b 16 4), gpt_reserved0 = of_nat (field_at b 20 4), my_lba = of_nat (field_at b 24 8),
      alternate_lba = of_nat (field_at b 32 8), first_usable_lba = of_nat (field_at b 40 8),
      last_usable_lba = of_nat (field_at b 48 8), disk_guid = (of_nat (field_at b 56 8), of_nat (field_at b 64 8)),
      partition_entry_lba = of_nat (field_at b 72 8), number_of_partition_entries = of_nat (field_at b 80 4),
      size_of_partition_entry = of_nat (field_at b 84 4), partition_entry_array_crc32 = of_nat (field_at b 88 4),
      gpt_padding = drop 92 b\<rparr>"

definition gpt_header_bytes :: "gpt_table_header \<Rightarrow> u8 list" where
  "gpt_header_bytes h =
     gpt_signature h @ le_bytes 4 (unat (gpt_revision h)) @ le_bytes 4 (unat (gpt_header_size h)) @
     le_bytes 4 (unat (gpt_crc32 h)) @ le_bytes 4 (unat (gpt_reserved0 h)) @ le_bytes 8 (unat (my_lba h)) @
     le_bytes 8 (unat (alternate_lba h)) @ le_bytes 8 (unat (first_usable_lba h)) @ le_bytes 8 (unat (last_usable_lba h)) @
     le_bytes 8 (unat (fst (disk_guid h))) @ le_bytes 8 (unat (snd (disk_guid h))) @
     le_bytes 8 (unat (partition_entry_lba h)) @ le_bytes 4 (unat (number_of_partition_entries h)) @
     le_bytes 4 (unat (size_of_partition_entry h)) @ le_bytes 4 (unat (partition_entry_array_crc32 h)) @ gpt_padding h"

record gpt_entry =
  partition_type_guid :: "u64 \<times> u64"
  unique_partition_guid :: "u64 \<times> u64"
  starting_lba :: u64
  ending_lba :: u64
  attributes :: u64
  partition_name :: "u16 list"

definition read_gpt_entry :: "u8 list \<Rightarrow> gpt_entry" where
  "read_gpt_entry b =
     \<lparr>partition_type_guid = (of_nat (field_at b 0 8), of_nat (field_at b 8 8)),
      unique_partition_guid = (of_nat (field_at b 16 8), of_nat (field_at b 24 8)),
      starting_lba = of_nat (field_at b 32 8), ending_lba = of_nat (field_at b 40 8), attributes = of_nat (field_at b 48 8),
      partition_name = map (\<lambda>i. of_nat (field_at b (56 + 2 * i) 2)) [0..<36]\<rparr>"

section \<open>Control flow\<close>

text \<open>
  A step of \<^verbatim>\<open>main\<close> goes on with a value, or leaves through \<^verbatim>\<open>cleanup\<close> with the exit status, or is stopped by the
  host: a division by zero or the use of a null pointer.
\<close>

datatype outcome = Exit int | Crash

datatype 'a flow = Go 'a device_state | Stop outcome device_state

fun and_then :: "'a flow \<Rightarrow> ('a \<Rightarrow> device_state \<Rightarrow> 'b flow) \<Rightarrow> 'b flow" where
  "and_then (Go x s) k = k x s"
| "and_then (Stop r s) k = Stop r s"

definition dev_read :: "u64 \<Rightarrow> nat \<Rightarrow> device_state \<Rightarrow> u8 list flow" where
  "dev_read loc n s = (case device_read loc n s of (None, s) \<Rightarrow> Stop (Exit 1) s | (Some d, s) \<Rightarrow> Go d s)"

definition dev_write :: "u8 list \<Rightarrow> u64 \<Rightarrow> nat \<Rightarrow> device_state \<Rightarrow> unit flow" where
  "dev_write d loc n s = (case device_write d loc n s of (ok, s) \<Rightarrow> if ok then Go () s else Stop (Exit 1) s)"

section \<open>The partition table\<close>

definition EFI_PART :: "u8 list" where
  "EFI_PART = map of_char ''EFI PART''"

text \<open>The result is the table found, the logical block size (0 if there is none) and the header.\<close>

primrec probe_gpt :: "bool \<Rightarrow> u64 list \<Rightarrow> device_state \<Rightarrow> (bool \<times> u64 \<times> gpt_table_header) flow" where
  "probe_gpt force_mbr [] s = Go (False, 0, read_gpt_header []) s"
| "probe_gpt force_mbr (guess # guesses) s =
     and_then (dev_read guess 96 s) (\<lambda>d s.
       let h = read_gpt_header d
       in if gpt_signature h = EFI_PART then
            (if \<not> force_mbr then Go (True, guess, h) s
             else and_then (dev_write (replicate 96 0) guess 96 s) (\<lambda>_ s. Go (False, guess, h) s))
          else probe_gpt force_mbr guesses s)"

definition check_secondary :: "u64 \<Rightarrow> gpt_table_header \<Rightarrow> device_state \<Rightarrow> gpt_table_header flow" where
  "check_secondary lb_size h s =
     and_then (dev_read (lb_size * alternate_lba h) 96 s) (\<lambda>d s.
       let h' = read_gpt_header d
       in if gpt_signature h' = EFI_PART then Go h' s else Stop (Exit 1) s)"

text \<open>
  The sanity checks of a boot record: each reads a few bytes and, if they look wrong, clears \<^verbatim>\<open>mbr\<close> or, when forced,
  repairs them. The byte checks use only the low byte of \<^verbatim>\<open>hint\<close>.
\<close>

definition check_u16 :: "u64 \<Rightarrow> (u16 \<Rightarrow> bool) \<Rightarrow> u16 \<Rightarrow> bool \<Rightarrow> bool \<Rightarrow> device_state \<Rightarrow> bool flow" where
  "check_u16 loc bad fixed force_mbr mbr s =
     and_then (dev_read loc 2 s) (\<lambda>d s.
       if bad (of_nat (le_value d)) then
         (if \<not> force_mbr then Go False s
          else and_then (dev_write (le_bytes 2 (unat fixed)) loc 2 s) (\<lambda>_ s. Go mbr s))
       else Go mbr s)"

definition check_u8 :: "u64 \<Rightarrow> bool \<Rightarrow> bool \<Rightarrow> device_state \<Rightarrow> bool flow" where
  "check_u8 loc force_mbr mbr s =
     and_then (dev_read loc 1 s) (\<lambda>d s.
       let hint = of_nat (le_value d) :: u8
       in if hint \<noteq> 0x00 \<and> hint \<noteq> 0x80 then
            (if \<not> force_mbr then Go False s
             else and_then (dev_write [if hint AND 0x80 \<noteq> 0 then 0x80 else 0x00] loc 1 s) (\<lambda>_ s. Go mbr s))
          else Go mbr s)"

definition check_str :: "u64 \<Rightarrow> u8 list \<Rightarrow> nat \<Rightarrow> bool \<Rightarrow> bool \<Rightarrow> device_state \<Rightarrow> bool flow" where
  "check_str loc pattern n force_mbr mbr s =
     and_then (dev_read loc (length pattern) s) (\<lambda>d s.
       if d = pattern then
         (if \<not> force_mbr then Go False s
          else and_then (dev_write (replicate n 0) loc n s) (\<lambda>_ s. Go mbr s))
       else Go mbr s)"

definition check_mbr :: "bool \<Rightarrow> device_state \<Rightarrow> bool flow" where
  "check_mbr f s =
     and_then (check_u16 218 (\<lambda>hint. hint \<noteq> 0) 0 f True s) (\<lambda>mbr s.
     and_then (check_u16 444 (\<lambda>hint. hint \<noteq> 0 \<and> hint \<noteq> 0x5a5a) 0 f mbr s) (\<lambda>mbr s.
     and_then (check_u16 510 (\<lambda>hint. hint \<noteq> 0xaa55) 0xaa55 f mbr s) (\<lambda>mbr s.
     and_then (check_u8 446 f mbr s) (\<lambda>mbr s.
     and_then (check_u8 462 f mbr s) (\<lambda>mbr s.
     and_then (check_u8 478 f mbr s) (\<lambda>mbr s.
     and_then (check_u8 494 f mbr s) (\<lambda>mbr s.
     and_then (check_str 4 (map of_char ''_ECH_FS_'') 8 f mbr s) (\<lambda>mbr s.
     and_then (check_str 54 (map of_char ''FAT'') 5 f mbr s) (\<lambda>mbr s.
       check_u16 1080 (\<lambda>hint. hint = 0xef53) 0 f mbr s)))))))))"

section \<open>The place of the second stage\<close>

definition DIV_ROUNDUP :: "u64 \<Rightarrow> u64 \<Rightarrow> u64" where
  "DIV_ROUNDUP a b = (a + (b - 1)) div b"

definition stage2_sects :: "u8 list \<Rightarrow> u64" where
  "stage2_sects img = DIV_ROUNDUP (of_nat (length img) - 512) 512"

definition stage2_size_a :: "u8 list \<Rightarrow> u16" where
  "stage2_size_a img = ucast ((stage2_sects img div 2) * 512 + (if stage2_sects img mod 2 \<noteq> 0 then 512 else 0))"

definition stage2_size_b :: "u8 list \<Rightarrow> u16" where
  "stage2_size_b img = ucast ((stage2_sects img div 2) * 512)"

text \<open>In the partition whose number, less one, is \<open>partition_num\<close>.\<close>

definition locate_partition ::
  "u8 list \<Rightarrow> u64 \<Rightarrow> gpt_table_header \<Rightarrow> u32 \<Rightarrow> device_state \<Rightarrow> (u64 \<times> u64) flow" where
  "locate_partition img lb_size h partition_num s =
     (if partition_num > number_of_partition_entries h then Stop (Exit 1) s
      else
        and_then (dev_read (partition_entry_lba h * lb_size + ucast partition_num * 128) 128 s) (\<lambda>d s.
          let e = read_gpt_entry d
          in if unique_partition_guid e = (0, 0) then Stop (Exit 1) s
             else
               (let loc_a = starting_lba e * lb_size;
                    loc_b = loc_a + ucast (stage2_size_a img)
                in Go (loc_a, if loc_b AND (lb_size - 1) \<noteq> 0 then (loc_b + lb_size) AND NOT (lb_size - 1) else loc_b) s)))"

text \<open>The highest entry in use among the \<open>n\<close> entries from \<open>i\<close> on, or \<open>used\<close>.\<close>

primrec max_entry_loop :: "nat \<Rightarrow> nat \<Rightarrow> u64 \<Rightarrow> int \<Rightarrow> device_state \<Rightarrow> int flow" where
  "max_entry_loop 0 i table used s = Go used s"
| "max_entry_loop (Suc n) i table used s =
     and_then (dev_read (table + of_nat i * 128) 128 s) (\<lambda>d s.
       max_entry_loop n (Suc i) table
         (if unique_partition_guid (read_gpt_entry d) \<noteq> (0, 0) \<and> int i > used then int i else used) s)"

primrec zero_entries :: "nat \<Rightarrow> u64 \<Rightarrow> u64 \<Rightarrow> u8 list \<Rightarrow> u32 \<Rightarrow> device_state \<Rightarrow> unit flow" where
  "zero_entries 0 i table zeros entry_size s = Go () s"
| "zero_entries (Suc n) i table zeros entry_size s =
     and_then (dev_write zeros (table + i * ucast entry_size) (unat entry_size) s)
       (\<lambda>_ s. zero_entries n (i + 1) table zeros entry_size s)"

definition update_header :: "u32 \<Rightarrow> u64 \<Rightarrow> gpt_table_header \<Rightarrow> gpt_table_header" where
  "update_header array_crc count h =
     (let h = h\<lparr>partition_entry_array_crc32 := array_crc, number_of_partition_entries := ucast count, gpt_crc32 := 0\<rparr>
      in h\<lparr>gpt_crc32 := crc32 (take 92 (gpt_header_bytes h))\<rparr>)"

text \<open>The second half of the embedding: the unused entries are cleared and both headers written with their checksums.\<close>

definition shrink_tables ::
  "u64 \<Rightarrow> gpt_table_header \<Rightarrow> gpt_table_header \<Rightarrow> int \<Rightarrow> u64 \<Rightarrow> device_state \<Rightarrow> unit flow" where
  "shrink_tables lb_size h h2 used count s =
     (let (f, s) = next_fault s;
          n = unat count - nat (used + 1);
          first = word_of_int (used + 1);
          zeros = replicate (unat (size_of_partition_entry h)) 0;
          array_size = count * ucast (size_of_partition_entry h)
      in if f \<noteq> None \<and> 0 < n then Stop Crash s
         else
           and_then (zero_entries n first (partition_entry_lba h * lb_size) zeros (size_of_partition_entry h) s) (\<lambda>_ s.
           and_then (zero_entries n first (partition_entry_lba h2 * lb_size) zeros (size_of_partition_entry h2) s) (\<lambda>_ s.
           let (f, s) = next_fault s
           in if f \<noteq> None then Stop (Exit 1) s
              else
                and_then (dev_read (partition_entry_lba h * lb_size) (unat array_size) s) (\<lambda>array s.
                let h = update_header (crc32 array) count h;
                    h2 = update_header (crc32 array) count h2
                in and_then (dev_write (gpt_header_bytes h) lb_size 96 s) (\<lambda>_ s.
                   dev_write (gpt_header_bytes h2) (lb_size * alternate_lba h) 96 s)))))"

definition embed_gpt ::
  "u8 list \<Rightarrow> u64 \<Rightarrow> gpt_table_header \<Rightarrow> gpt_table_header \<Rightarrow> device_state \<Rightarrow> (u64 \<times> u64) flow" where
  "embed_gpt img lb_size h h2 s =
     and_then (max_entry_loop (unat (number_of_partition_entries h)) 0 (partition_entry_lba h * lb_size) (- 1) s) (\<lambda>used s.
       let loc_a = ((partition_entry_lba h + 32) * lb_size - ucast (stage2_size_a img)) AND NOT (lb_size - 1);
           loc_b = ((partition_entry_lba h2 + 32) * lb_size - ucast (stage2_size_b img)) AND NOT (lb_size - 1)
       in if size_of_partition_entry h = 0 then Stop Crash s
          else
            (let per_lb = lb_size div ucast (size_of_partition_entry h);
                 array_lbas = loc_a div lb_size - partition_entry_lba h;
                 count = array_lbas * per_lb
             in if sint count \<le> used then Stop (Exit 1) s
                else and_then (shrink_tables lb_size h h2 used count s) (\<lambda>_ s. Go (loc_a, loc_b) s)))"

section \<open>Writing the boot loader\<close>

definition write_bootloader :: "u8 list \<Rightarrow> u64 \<Rightarrow> u64 \<Rightarrow> device_state \<Rightarrow> unit flow" where
  "write_bootloader img loc_a loc_b s =
     (let size_a = unat (stage2_size_a img);
          rest = unat (of_nat (length img) - 512 - ucast (stage2_size_a img) :: u64)
      in and_then (dev_read 218 6 s) (\<lambda>timestamp s.
         and_then (dev_read 440 70 s) (\<lambda>orig_mbr s.
         and_then (dev_write (take 512 img) 0 512 s) (\<lambda>_ s.
         and_then (dev_write (take size_a (drop 512 img)) loc_a size_a s) (\<lambda>_ s.
         and_then (dev_write (take rest (drop (512 + size_a) img)) loc_b rest s) (\<lambda>_ s.
         and_then (dev_write (le_bytes 2 size_a) 0x1a4 2 s) (\<lambda>_ s.
         and_then (dev_write (le_bytes 2 (unat (stage2_size_b img))) (0x1a4 + 2) 2 s) (\<lambda>_ s.
         and_then (dev_write (le_bytes 8 (unat loc_a)) (0x1a4 + 4) 8 s) (\<lambda>_ s.
         and_then (dev_write (le_bytes 8 (unat loc_b)) (0x1a4 + 12) 8 s) (\<lambda>_ s.
         and_then (dev_write timestamp 218 6 s) (\<lambda>_ s.
         and_then (dev_write orig_mbr 440 70 s) (\<lambda>_ s.
           case device_flush_cache s of (ok, s) \<Rightarrow> if ok then Go () s else Stop (Exit 1) s))))))))))))"

section \<open>The program\<close>

text \<open>
  \<^verbatim>\<open>sscanf\<close> with \<^verbatim>\<open>%u\<close>: white space, a sign, digits, converted modulo \<open>2 ^ 32\<close>. Without a digit nothing is
  stored and the variable keeps what it held, \<open>uninit\<close>.
\<close>

definition is_space :: "char \<Rightarrow> bool" where
  "is_space c \<longleftrightarrow> c \<in> {CHR '' '', CHR 0x09, CHR 0x0A, CHR 0x0B, CHR 0x0C, CHR 0x0D}"

definition is_digit :: "char \<Rightarrow> bool" where
  "is_digit c \<longleftrightarrow> (of_char c :: nat) \<in> {48..57}"

definition digits_value :: "string \<Rightarrow> nat" where
  "digits_value ds = foldl (\<lambda>v c. 10 * v + (of_char c - 48)) 0 ds"

definition scan_u32 :: "u32 \<Rightarrow> string \<Rightarrow> u32" where
  "scan_u32 uninit str =
     (let t = dropWhile is_space str;
          neg = (case t of [] \<Rightarrow> False | c # _ \<Rightarrow> c = CHR ''-'');
          t = (case t of [] \<Rightarrow> [] | c # t' \<Rightarrow> if c = CHR ''-'' \<or> c = CHR ''+'' then t' else t);
          ds = takeWhile is_digit t
      in if ds = [] then uninit else if neg then - of_nat (digits_value ds) else of_nat (digits_value ds))"

text \<open>The work on the opened device; \<open>args\<close> are the arguments behind the name of the device.\<close>

definition install :: "u8 list \<Rightarrow> u32 \<Rightarrow> string list \<Rightarrow> device_state \<Rightarrow> unit flow" where
  "install img uninit args s =
     (let force_mbr = (args \<noteq> [] \<and> hd args = ''--force-mbr'')
      in case device_init s of
           (False, s) \<Rightarrow> Stop (Exit 1) s
         | (True, s) \<Rightarrow>
             and_then (probe_gpt force_mbr [512, 4096] s) (\<lambda>(gpt, lb_size, h) s.
             if gpt then
               and_then (check_secondary lb_size h s) (\<lambda>h2 s.
               and_then
                 (if args \<noteq> [] then locate_partition img lb_size h (scan_u32 uninit (hd args) - 1) s
                  else embed_gpt img lb_size h h2 s)
                 (\<lambda>(loc_a, loc_b) s. write_bootloader img loc_a loc_b s))
             else
               and_then (check_mbr force_mbr s) (\<lambda>mbr s.
               if \<not> mbr then Stop (Exit 1) s
               else write_bootloader img 512 (512 + ucast (stage2_size_a img)) s)))"

text \<open>
  \<open>open_dev\<close> is the file system: the opened file of a name, or nothing. The result is the exit status and the
  device as it is closed.
\<close>

definition limine_main ::
  "u8 list \<Rightarrow> u32 \<Rightarrow> (string \<Rightarrow> device_state option) \<Rightarrow> string list \<Rightarrow> outcome \<times> device_state option" where
  "limine_main img uninit open_dev args =
     (case args of
        [] \<Rightarrow> (Exit 1, None)
      | dev # args \<Rightarrow>
          (case open_dev dev of
             None \<Rightarrow> (Exit 1, None)
           | Some s \<Rightarrow>
               (case install img uninit args s of Go _ s \<Rightarrow> (Exit 0, Some s) | Stop r s \<Rightarrow> (r, Some s))))"

section \<open>What a step can end in\<close>

fun flow_post :: "'a flow \<Rightarrow> ('a \<Rightarrow> device_state \<Rightarrow> bool) \<Rightarrow> (outcome \<Rightarrow> device_state \<Rightarrow> bool) \<Rightarrow> bool" where
  "flow_post (Go x s) P Q \<longleftrightarrow> P x s"
| "flow_post (Stop r s) P Q \<longleftrightarrow> Q r s"

lemma flow_post_and_then: "flow_post (and_then f k) P Q \<longleftrightarrow> flow_post f (\<lambda>x s. flow_post (k x s) P Q) Q"
  by (cases f) simp_all

lemma flow_post_mono:
  "flow_post f P Q \<Longrightarrow> (\<And>x s. P x s \<Longrightarrow> P' x s) \<Longrightarrow> (\<And>r s. Q r s \<Longrightarrow> Q' r s) \<Longrightarrow> flow_post f P' Q'"
  by (cases f) simp_all

section \<open>Steps on a device without faults\<close>

text \<open>A device without faults that reads as the bytes \<open>v\<close>, \<open>e\<close> of them in whole blocks.\<close>

definition holds :: "u8 list \<Rightarrow> nat \<Rightarrow> device_state \<Rightarrow> bool" where
  "holds v e s \<longleftrightarrow> dev_ready s \<and> disk_view s = v \<and> extent s = e"

lemma dev_read_holds:
  assumes "holds v e s" "unat loc + n \<le> e" "\<And>s'. holds v e s' \<Longrightarrow> P (take n (drop (unat loc) v)) s'"
  shows "flow_post (dev_read loc n s) P Q"
  using cached.read_ok [of s loc n] assms by (auto simp: holds_def dev_read_def)

lemma dev_write_holds:
  assumes "holds v e s" "unat loc + n \<le> e" "length d = n" "\<And>s'. holds (overwrite v (unat loc) d) e s' \<Longrightarrow> P () s'"
  shows "flow_post (dev_write d loc n s) P Q"
  using cached.write_ok [of s loc d] assms by (auto simp: holds_def dev_write_def)

lemma holds_length: "holds v e s \<Longrightarrow> e \<le> length v"
  using cached.size_view [of s] by (auto simp: holds_def)

lemma flush_holds:
  assumes "holds v e s"
  obtains s' where "device_flush_cache s = (True, s')" "contents s' = v"
proof -
  obtain ok s' where f: "device_flush_cache s = (ok, s')" by fastforce
  have "dev_wf s" "reliable s" "disk_view s = v" using assms by (simp_all add: holds_def dev_ready_def dev_inv_def)
  then show thesis using device_flush_cache_kept [OF _ f] f that by auto
qed

section \<open>Installing to a boot record\<close>

lemma length_le_bytes [simp]: "length (le_bytes n v) = n"
  by (induction n arbitrary: v) simp_all

definition u16_at :: "u8 list \<Rightarrow> nat \<Rightarrow> u16" where
  "u16_at v i = of_nat (le_value (take 2 (drop i v)))"

definition u8_at :: "u8 list \<Rightarrow> nat \<Rightarrow> u8" where
  "u8_at v i = of_nat (le_value (take 1 (drop i v)))"

text \<open>What the installer takes for a boot record.\<close>

definition valid_mbr :: "u8 list \<Rightarrow> bool" where
  "valid_mbr v \<longleftrightarrow> u16_at v 218 = 0 \<and> u16_at v 444 \<in> {0, 0x5a5a} \<and> u16_at v 510 = 0xaa55 \<and>
     (\<forall>i \<in> {446, 462, 478, 494}. u8_at v i \<in> {0, 0x80}) \<and>
     take 8 (drop 4 v) \<noteq> map of_char ''_ECH_FS_'' \<and> take 3 (drop 54 v) \<noteq> map of_char ''FAT'' \<and>
     u16_at v 1080 \<noteq> 0xef53"

definition has_gpt :: "u8 list \<Rightarrow> bool" where
  "has_gpt v \<longleftrightarrow> take 8 (drop 512 v) = EFI_PART \<or> take 8 (drop 4096 v) = EFI_PART"

text \<open>
  Both on a device without faults and on any device, a read that goes on gives the bytes \<open>v\<close> and keeps some
  condition \<open>I\<close>; \<open>Q\<close> is what holds otherwise.
\<close>

locale reading =
  fixes I :: "device_state \<Rightarrow> bool"
    and v :: "u8 list"
    and e :: nat
    and Q :: "outcome \<Rightarrow> device_state \<Rightarrow> bool"
  assumes read: "I s \<Longrightarrow> unat loc + n \<le> e \<Longrightarrow> (\<And>s'. I s' \<Longrightarrow> P (take n (drop (unat loc) v)) s') \<Longrightarrow>
    flow_post (dev_read loc n s) P Q"
begin

lemma check_u16_reads:
  "I s \<Longrightarrow> unat loc + 2 \<le> e \<Longrightarrow> (\<And>s'. I s' \<Longrightarrow> P (m \<and> \<not> bad (u16_at v (unat loc))) s') \<Longrightarrow>
    flow_post (check_u16 loc bad fixed False m s) P Q"
  unfolding check_u16_def flow_post_and_then by (rule read) (auto simp: u16_at_def)

lemma check_u8_reads:
  "I s \<Longrightarrow> unat loc + 1 \<le> e \<Longrightarrow> (\<And>s'. I s' \<Longrightarrow> P (m \<and> u8_at v (unat loc) \<in> {0, 0x80}) s') \<Longrightarrow>
    flow_post (check_u8 loc False m s) P Q"
  unfolding check_u8_def flow_post_and_then by (rule read) (auto simp: u8_at_def Let_def)

lemma check_str_reads:
  "I s \<Longrightarrow> unat loc + k \<le> e \<Longrightarrow> length p = k \<Longrightarrow> (\<And>s'. I s' \<Longrightarrow> P (m \<and> take k (drop (unat loc) v) \<noteq> p) s') \<Longrightarrow>
    flow_post (check_str loc p n False m s) P Q"
  unfolding check_str_def flow_post_and_then by (rule read) auto

lemma check_mbr_reads:
  assumes "I s" "1082 \<le> e" "\<And>s'. I s' \<Longrightarrow> P (valid_mbr v) s'"
  shows "flow_post (check_mbr False s) P Q"
proof -
  have fit: "unat (218 :: u64) + 2 \<le> e" "unat (444 :: u64) + 2 \<le> e" "unat (510 :: u64) + 2 \<le> e"
    "unat (446 :: u64) + 1 \<le> e" "unat (462 :: u64) + 1 \<le> e" "unat (478 :: u64) + 1 \<le> e" "unat (494 :: u64) + 1 \<le> e"
    "unat (4 :: u64) + 8 \<le> e" "unat (54 :: u64) + 3 \<le> e" "unat (1080 :: u64) + 2 \<le> e"
    using assms(2) by simp_all
  have len: "length (map of_char ''_ECH_FS_'' :: u8 list) = 8" "length (map of_char ''FAT'' :: u8 list) = 3" by simp_all
  show ?thesis
    unfolding check_mbr_def flow_post_and_then
    by (rule check_u16_reads [OF assms(1) fit(1)], rule check_u16_reads [OF _ fit(2)], assumption,
        rule check_u16_reads [OF _ fit(3)], assumption, rule check_u8_reads [OF _ fit(4)], assumption,
        rule check_u8_reads [OF _ fit(5)], assumption, rule check_u8_reads [OF _ fit(6)], assumption,
        rule check_u8_reads [OF _ fit(7)], assumption, rule check_str_reads [OF _ fit(8) len(1)], assumption,
        rule check_str_reads [OF _ fit(9) len(2)], assumption, rule check_u16_reads [OF _ fit(10)], assumption)
      (use assms(3) in \<open>auto simp: valid_mbr_def conj_ac\<close>)
qed

lemma probe_gpt_reads:
  assumes "I s" "4192 \<le> e" "\<not> has_gpt v" "\<And>h s'. I s' \<Longrightarrow> P (False, 0, h) s'"
  shows "flow_post (probe_gpt False [512, 4096] s) P Q"
proof -
  have fit: "unat (512 :: u64) + 96 \<le> e" "unat (4096 :: u64) + 96 \<le> e" using assms(2) by simp_all
  have sig: "gpt_signature (read_gpt_header (take 96 b)) = take 8 b" for b by (simp add: read_gpt_header_def)
  show ?thesis
    unfolding probe_gpt.simps flow_post_and_then Let_def sig
    using assms(3,4) by (intro read [OF assms(1) fit(1)]) (auto simp: has_gpt_def Let_def sig flow_post_and_then intro!: read fit)
qed

end

interpretation quiet: reading "holds v e" v e "\<lambda>_ _. False" for v e
  by unfold_locales (rule dev_read_holds)

text \<open>A device with a clean cache stays clean and untouched under reads, with any faults.\<close>

definition untouched :: "u8 list \<Rightarrow> device_state \<Rightarrow> bool" where
  "untouched v s \<longleftrightarrow> dev_inv s \<and> cache_state s = CACHE_CLEAN \<and> contents s = v"

lemma fread_cache_state: "fread_cache n s = (ok, s') \<Longrightarrow> cache_state s' = cache_state s"
  by (auto simp: fread_cache_def next_fault_def Let_def)

lemma device_cache_block_clean:
  assumes "cache_state s = CACHE_CLEAN" "device_cache_block block s = (ok, s')"
  shows "cache_state s' = CACHE_CLEAN"
proof (cases "cached_block s = block")
  case False
  obtain ok1 s1 where s1: "set_pos (block * block_size s) s = (ok1, s1)" by fastforce
  obtain ok2 s2 where s2: "fread_cache (unat (block_size s1)) s1 = (ok2, s2)" by fastforce
  have "cache_state s1 = CACHE_CLEAN" using set_pos_moved [OF s1] movedD(5) assms(1) by metis
  then show ?thesis using assms False s1 s2 fread_cache_state [OF s2]
    by (auto simp: device_cache_block_def split: if_splits)
qed (use assms in \<open>simp add: device_cache_block_def\<close>)

lemma read_loop_clean:
  "cache_state s = CACHE_CLEAN \<Longrightarrow> read_loop loc count progress buf s = (r, s') \<Longrightarrow> cache_state s' = CACHE_CLEAN"
proof (induction "count - progress" arbitrary: progress buf s rule: less_induct)
  case less
  obtain ok s1 where s1: "device_cache_block ((loc + of_nat progress) div block_size s) s = (ok, s1)" by fastforce
  note c = device_cache_block_clean [OF less.prems(1) s1]
  show ?case
  proof (cases "progress < count \<and> block_size s \<noteq> 0 \<and> ok")
    case True
    then have "count - (progress + chunk_size loc progress count (block_size s)) < count - progress"
      by (intro chunk_size_decreases) auto
    from less.hyps [OF this c] True s1 less.prems(2) show ?thesis
      by (auto simp: read_loop.simps [of loc count progress] Let_def)
  qed (use less.prems s1 c in \<open>auto simp: read_loop.simps [of loc count progress] split: if_splits\<close>)
qed

interpretation faulty: reading "untouched v" v "2 ^ 63" "\<lambda>r s. r = Exit 1 \<and> contents s = v" for v
proof
  fix s loc n P
  assume u: "untouched v s" and fits: "unat (loc :: u64) + n \<le> 2 ^ 63"
    and P: "\<And>s'. untouched v s' \<Longrightarrow> P (take n (drop (unat loc) v)) s'"
  have inv: "dev_inv s" "cache_state s = CACHE_CLEAN" "contents s = v" using u by (simp_all add: untouched_def)
  obtain r s' where run: "read_loop loc n 0 [] s = (r, s')" by fastforce
  note k = read_loop_kept [OF inv(1) fits _ run] and cl = read_loop_clean [OF inv(2) run]
  have "contents s' = v" "disk_view s = v" using k cl inv by (auto simp: kept_def disk_view_def)
  then show "flow_post (dev_read loc n s) P (\<lambda>r s. r = Exit 1 \<and> contents s = v)"
    using k cl P run by (cases r) (auto simp: dev_read_def device_read_def untouched_def)
qed

lemma install_unfold_mbr:
  assumes "args = [] \<or> hd args \<noteq> ''--force-mbr''" "device_init s = (True, s1)"
    and "flow_post (probe_gpt False [512, 4096] s1) (\<lambda>x s. \<exists>h. x = (False, 0, h) \<and>
      flow_post (check_mbr False s) (\<lambda>mbr s. flow_post
        (if \<not> mbr then Stop (Exit 1) s else write_bootloader img 512 (512 + ucast (stage2_size_a img)) s) P Q) Q) Q"
  shows "flow_post (install img uninit args s) P Q"
proof -
  have f: "(args \<noteq> [] \<and> hd args = ''--force-mbr'') = False" using assms(1) by auto
  show ?thesis
    unfolding install_def Let_def f assms(2) prod.case bool.case flow_post_and_then
    by (rule flow_post_mono [OF assms(3)]) (auto simp: flow_post_and_then)
qed

lemma device_init_clean: "device_init s = (True, s') \<Longrightarrow> cache_state s' = CACHE_CLEAN"
proof -
  have "device_init_loop gs s = (True, s') \<Longrightarrow> cache_state s' = CACHE_CLEAN" for gs s
    by (induction gs arbitrary: s) (auto simp: Let_def split: prod.splits if_splits)
  then show "device_init s = (True, s') \<Longrightarrow> ?thesis" unfolding device_init_def .
qed

text \<open>C23. Without \<^verbatim>\<open>--force-mbr\<close>, a device that holds neither a GUID partition table nor a valid boot record is refused
  with exit status 1 and left exactly as it was, whatever calls of the C library fail.\<close>

theorem install_refuses_untouched:
  assumes "length (contents s) < 2 ^ 63" and "\<not> has_gpt (contents s)" and "\<not> valid_mbr (contents s)"
    and "args = [] \<or> hd args \<noteq> ''--force-mbr''"
  shows "\<exists>s'. install img uninit args s = Stop (Exit 1) s' \<and> contents s' = contents s"
proof -
  let ?v = "contents s" and ?Q = "\<lambda>r s'. r = Exit 1 \<and> contents s' = contents s"
  obtain ok s1 where s1: "device_init s = (ok, s1)" by fastforce
  note i = device_init_inv [OF assms(1) s1]
  have "flow_post (install img uninit args s) (\<lambda>_ _. False) ?Q"
  proof (cases ok)
    case False
    then show ?thesis using s1 i by (simp add: install_def Let_def)
  next
    case True
    then have u: "untouched ?v s1" using s1 i device_init_clean by (auto simp: untouched_def)
    have "flow_post (check_mbr False s2) (\<lambda>mbr s. flow_post (if \<not> mbr then Stop (Exit 1) s
        else write_bootloader img 512 (512 + ucast (stage2_size_a img)) s) (\<lambda>_ _. False) ?Q) ?Q" if "untouched ?v s2" for s2
      by (rule faulty.check_mbr_reads [OF that]) (use assms(3) in \<open>auto simp: untouched_def\<close>)
    then have "flow_post (probe_gpt False [512, 4096] s1) (\<lambda>x s. \<exists>h. x = (False, 0, h) \<and>
      flow_post (check_mbr False s) (\<lambda>mbr s. flow_post (if \<not> mbr then Stop (Exit 1) s
        else write_bootloader img 512 (512 + ucast (stage2_size_a img)) s) (\<lambda>_ _. False) ?Q) ?Q) ?Q"
      by (intro faulty.probe_gpt_reads [OF u _ assms(2)]) (simp, blast)
    moreover have "device_init s = (True, s1)" using s1 True by simp
    ultimately show ?thesis by (intro install_unfold_mbr [OF assms(4)])
  qed
  then show ?thesis by (cases "install img uninit args s") auto
qed

section \<open>The bytes an installation leaves\<close>

text \<open>The sizes of the two halves of the second stage, for a boot loader of at least two sectors and at most 64 KiB.\<close>

definition half_a :: "u8 list \<Rightarrow> nat" where
  "half_a img = (let n = (length img - 512 + 511) div 512 in n div 2 * 512 + n mod 2 * 512)"

lemma stage2_sects_eq:
  assumes "1024 \<le> length img" "length img \<le> 2 ^ 16"
  shows "stage2_sects img = of_nat ((length img - 512 + 511) div 512)"
proof -
  define S where "S = length img - 512"
  define n where "n = (S + 511) div 512"
  have S: "512 \<le> S" "S \<le> 65024" "length img = S + 512" using assms by (auto simp: S_def)
  have n: "n < 2 ^ 64" using S(2) by (simp add: n_def)
  have "of_nat (length img) - 512 = (of_nat S :: u64)" using S(3) by simp
  then have "stage2_sects img = of_nat (S + 511) div of_nat 512" by (simp add: stage2_sects_def DIV_ROUNDUP_def)
  also have "\<dots> = of_nat n"
  proof (rule word_unat_eq_iff [THEN iffD2])
    have u: "unat (of_nat (S + 511) :: u64) = S + 511" "unat (of_nat 512 :: u64) = 512" "unat (of_nat n :: u64) = n"
      using S(2) n by (simp_all only: unat_of_nat) simp_all
    show "unat (of_nat (S + 511) div of_nat 512 :: u64) = unat (of_nat n :: u64)"
      unfolding unat_div_distrib u by (simp only: n_def)
  qed
  finally show ?thesis by (simp only: n_def S_def)
qed

lemma stage2_sizes:
  assumes "1024 \<le> length img" "length img \<le> 2 ^ 16"
  shows "unat (stage2_size_a img) = half_a img" "unat (of_nat (length img) - 512 - ucast (stage2_size_a img) :: u64) = length img - 512 - half_a img"
    "512 + half_a img \<le> length img"
proof -
  define S where "S = length img - 512"
  define n where "n = (S + 511) div 512"
  obtain r where n: "S + 511 = n * 512 + r" "r < 512"
    using div_mult_mod_eq [of "S + 511" 512] unfolding n_def by (metis mod_less_divisor zero_less_numeral)
  obtain k j where k: "n = 2 * k + j" "j < 2" "n div 2 = k" "n mod 2 = j"
    using div_mult_mod_eq [of n 2] by (metis mod_less_divisor mult.commute zero_less_numeral)
  have S: "512 \<le> S" "S \<le> 65024" "length img = S + 512" using assms by (auto simp: S_def)
  have h: "half_a img = k * 512 + j * 512" unfolding half_a_def Let_def S_def [symmetric] n_def [symmetric] k(3,4) ..
  have "j = 0 \<or> j = 1" "k = 0 \<or> 1 \<le> k" using k(2) by auto
  then have le: "half_a img \<le> S" using n k(1) S h by auto
  then have "half_a img \<le> 65024" using S(2) by linarith
  note le = le this
  then show "512 + half_a img \<le> length img" using S(3) by linarith
  have sects: "stage2_sects img = of_nat n" using stage2_sects_eq [OF assms] by (simp only: n_def S_def)
  have n64: "n < 2 ^ 64" using n(1) S(2) by simp
  have "stage2_sects img div 2 = of_nat k" "stage2_sects img mod 2 = of_nat j"
    unfolding sects k(3,4) [symmetric]
    by (rule word_unat_eq_iff [THEN iffD2], use n64 in \<open>simp add: unat_div_distrib unat_mod_distrib unat_of_nat\<close>)+
  moreover have "(if (of_nat j :: u64) \<noteq> 0 then 512 else 0) = (of_nat (j * 512) :: u64)" using k(2) by (cases j) auto
  ultimately have "stage2_size_a img = ucast (of_nat (half_a img) :: u64)" by (simp add: stage2_size_a_def h)
  moreover have "of_nat (unat (of_nat (half_a img) :: u64)) = (of_nat (half_a img) :: u16)"
    using le(2) by (simp only: unat_of_nat) simp
  ultimately have "stage2_size_a img = of_nat (half_a img)" by simp
  then show a: "unat (stage2_size_a img) = half_a img" using le(2) by (simp add: unat_of_nat)
  have "ucast (stage2_size_a img) = (of_nat (half_a img) :: u64)" using arg_cong [OF a, of "of_nat :: nat \<Rightarrow> u64"] by simp
  then have "of_nat (length img) - 512 - ucast (stage2_size_a img) = (of_nat (S - half_a img) :: u64)"
    using S(3) le(1) by (simp add: of_nat_diff)
  then show "unat (of_nat (length img) - 512 - ucast (stage2_size_a img) :: u64) = length img - 512 - half_a img"
    using S by (simp add: unat_of_nat)
qed

text \<open>What the boot sector is told about the second stage, and the bytes of the device after an installation.\<close>

definition stage2_params :: "u8 list \<Rightarrow> nat \<Rightarrow> nat \<Rightarrow> u8 list" where
  "stage2_params img a b = le_bytes 2 (half_a img) @ le_bytes 2 (unat (stage2_size_b img)) @ le_bytes 8 a @ le_bytes 8 b"

definition boot_result :: "u8 list \<Rightarrow> u8 list \<Rightarrow> nat \<Rightarrow> nat \<Rightarrow> u8 list" where
  "boot_result v img a b =
     overwrite (overwrite (overwrite
       (overwrite (overwrite (overwrite v 0 (take 512 img)) a (take (half_a img) (drop 512 img))) b (drop (512 + half_a img) img))
       420 (stage2_params img a b)) 218 (take 6 (drop 218 v))) 440 (take 70 (drop 440 v))"

lemma length_stage2_params [simp]: "length (stage2_params img a b) = 20"
  by (simp add: stage2_params_def)

lemma stage2_place:
  assumes "1024 \<le> length img" "length img \<le> 2 ^ 16" "unat a + half_a img < 2 ^ 64"
  shows "unat (a + ucast (stage2_size_a img) :: u64) = unat a + half_a img"
proof -
  have "ucast (stage2_size_a img) = (of_nat (half_a img) :: u64)"
    using arg_cong [OF stage2_sizes(1) [OF assms(1,2)], of "of_nat :: nat \<Rightarrow> u64"] by simp
  then show ?thesis using assms(3) by (simp add: unat_add_of_nat)
qed

text \<open>The halves have their place behind the boot sector, on the device.\<close>

definition places_ok :: "u8 list \<Rightarrow> nat \<Rightarrow> nat \<Rightarrow> nat \<Rightarrow> bool" where
  "places_ok img a b e \<longleftrightarrow> 1024 \<le> length img \<and> 512 + half_a img \<le> length img \<and> 512 \<le> a \<and> 512 \<le> b
     \<and> a + half_a img \<le> e \<and> b + length img \<le> e + (512 + half_a img)"

lemma half_a_pos:
  assumes "1024 \<le> length img"
  shows "512 \<le> half_a img"
proof -
  define n where "n = (length img - 512 + 511) div 512"
  have "1 \<le> n" using assms by (simp add: n_def)
  then have "1 \<le> n div 2 + n mod 2" by presburger
  then show ?thesis unfolding half_a_def Let_def n_def [symmetric] by simp
qed

lemma boot_layers:
  assumes "places_ok img a b (length v)"
  defines "v1 \<equiv> overwrite v 0 (take 512 img)"
  defines "v2 \<equiv> overwrite v1 a (take (half_a img) (drop 512 img))"
  defines "v3 \<equiv> overwrite v2 b (drop (512 + half_a img) img)"
  defines "v4 \<equiv> overwrite v3 420 (stage2_params img a b)"
  defines "v5 \<equiv> overwrite v4 218 (take 6 (drop 218 v))"
  shows "boot_result v img a b = overwrite v5 440 (take 70 (drop 440 v))"
    and "length v1 = length v" "length v2 = length v" "length v3 = length v" "length v4 = length v" "length v5 = length v"
proof -
  have f: "1024 \<le> length img" "512 + half_a img \<le> length img" "512 \<le> a" "a + half_a img \<le> length v"
    "b + length img \<le> length v + (512 + half_a img)"
    using assms(1) by (simp_all add: places_ok_def)
  note h = half_a_pos [OF f(1)]
  show "boot_result v img a b = overwrite v5 440 (take 70 (drop 440 v))"
    by (simp only: boot_result_def v1_def v2_def v3_def v4_def v5_def)
  show 1: "length v1 = length v" unfolding v1_def using f h by (intro length_overwrite) simp
  show 2: "length v2 = length v" unfolding v2_def using f 1 by (subst length_overwrite) auto
  show 3: "length v3 = length v" unfolding v3_def using f 2 by (subst length_overwrite) auto
  show 4: "length v4 = length v" unfolding v4_def using f h 3 by (subst length_overwrite) auto
  show "length v5 = length v" unfolding v5_def using f h 4 by (subst length_overwrite) auto
qed

lemma length_boot_result:
  assumes "places_ok img a b (length v)"
  shows "length (boot_result v img a b) = length v"
proof -
  have "1024 \<le> length v" using assms half_a_pos [of img] by (simp add: places_ok_def)
  then show ?thesis using boot_layers(1,6) [OF assms] by simp
qed

lemma boot_result_nth:
  assumes ok: "places_ok img a b (length v)" and i: "i < length v"
  shows "boot_result v img a b ! i =
    (if 218 \<le> i \<and> i < 224 \<or> 440 \<le> i \<and> i < 510 then v ! i
     else if 420 \<le> i \<and> i < 440 then stage2_params img a b ! (i - 420)
     else if i < 512 then img ! i
     else if b \<le> i \<and> i + (512 + half_a img) < b + length img then img ! (512 + half_a img + (i - b))
     else if a \<le> i \<and> i < a + half_a img then img ! (512 + (i - a)) else v ! i)"
proof -
  have f: "1024 \<le> length img" "512 + half_a img \<le> length img" "512 \<le> a" "512 \<le> b" "a + half_a img \<le> length v"
    "b + length img \<le> length v + (512 + half_a img)" "1024 \<le> length v"
    using ok half_a_pos [of img] by (simp_all add: places_ok_def)
  note l = boot_layers(2-6) [OF ok]
  have "boot_result v img a b ! i = (if 440 \<le> i \<and> i < 510 then v ! i else if 218 \<le> i \<and> i < 224 then v ! i
      else if 420 \<le> i \<and> i < 440 then stage2_params img a b ! (i - 420)
      else if b \<le> i \<and> i < b + (length img - (512 + half_a img)) then img ! (512 + half_a img + (i - b))
      else if a \<le> i \<and> i < a + half_a img then img ! (512 + (i - a)) else if i < 512 then img ! i else v ! i)"
    unfolding boot_layers(1) [OF ok] using f l i
    by (subst nth_overwrite, simp, simp, subst nth_overwrite, simp, simp, subst nth_overwrite, simp, simp,
        subst nth_overwrite, simp, simp, subst nth_overwrite, simp, simp, subst nth_overwrite, simp, simp) auto
  then show ?thesis using f by auto
qed

lemma overwrite_params:
  assumes "440 \<le> length v"
  shows "overwrite (overwrite (overwrite (overwrite v 420 (le_bytes 2 (half_a img))) 422 (le_bytes 2 (unat (stage2_size_b img))))
      424 (le_bytes 8 a)) 432 (le_bytes 8 b) = overwrite v 420 (stage2_params img a b)"
  using overwrite_append [of 420 "le_bytes 2 (half_a img)" "le_bytes 2 (unat (stage2_size_b img))" v]
    overwrite_append [of 420 "le_bytes 2 (half_a img) @ le_bytes 2 (unat (stage2_size_b img))" "le_bytes 8 a" v]
    overwrite_append [of 420 "le_bytes 2 (half_a img) @ le_bytes 2 (unat (stage2_size_b img)) @ le_bytes 8 a" "le_bytes 8 b" v]
    assms
  by (simp add: stage2_params_def)

lemma write_bootloader_holds:
  assumes s: "holds v e s" and img: "length img \<le> 2 ^ 16" and ok: "places_ok img (unat loc_a) (unat loc_b) e"
  shows "flow_post (write_bootloader img loc_a loc_b s) (\<lambda>_ s'. contents s' = boot_result v img (unat loc_a) (unat loc_b)) (\<lambda>_ _. False)"
proof -
  let ?r = "boot_result v img (unat loc_a) (unat loc_b)" and ?b = "take (length img - 512 - half_a img) (drop (512 + half_a img) img)"
  have e: "e \<le> length v" by (rule holds_length [OF s])
  have fits: "1024 \<le> length img" "512 + half_a img \<le> length img" "512 \<le> unat loc_a" "512 \<le> unat loc_b" "unat loc_a + half_a img \<le> e"
    "unat loc_b + (length img - 512 - half_a img) \<le> e" using ok by (auto simp: places_ok_def)
  note sz = stage2_sizes [OF fits(1) img]
  have e1: "1024 \<le> e" using fits half_a_pos [OF fits(1)] by linarith
  have len: "length (take 6 (drop 218 v)) = 6" "length (take 70 (drop 440 v)) = 70" "length (take 512 img) = 512"
    "length (take (half_a img) (drop 512 img)) = half_a img" "length ?b = length img - 512 - half_a img"
    using fits e e1 by auto
  have last: "flow_post (case device_flush_cache s of (ok, s) \<Rightarrow> if ok then Go () s else Stop (Exit 1) s)
      (\<lambda>_ s'. contents s' = ?r) (\<lambda>_ _. False)" if "holds ?r e s" for s
    by (rule flush_holds [OF that]) simp
  have view: "?r = overwrite (overwrite (overwrite (overwrite (overwrite (overwrite (overwrite (overwrite (overwrite v 0 (take 512 img))
      (unat loc_a) (take (half_a img) (drop 512 img))) (unat loc_b) ?b) 420 (le_bytes 2 (half_a img))) 422 (le_bytes 2 (unat (stage2_size_b img))))
      424 (le_bytes 8 (unat loc_a))) 432 (le_bytes 8 (unat loc_b))) 218 (take 6 (drop 218 v))) 440 (take 70 (drop 440 v))"
    using e e1 fits len by (subst overwrite_params) (simp_all add: boot_result_def)
  show ?thesis
    unfolding write_bootloader_def Let_def flow_post_and_then sz(1,2)
    by (rule dev_read_holds [OF s], use e1 in simp, rule dev_read_holds, assumption, use e1 in simp,
        (rule dev_write_holds, assumption, use fits e1 in simp, use len in simp)+, rule last, simp add: view)
qed

lemma install_opens:
  assumes "reliable s" "length (contents s) < 2 ^ 63" "1024 \<le> length (contents s)"
  obtains s1 where "device_init s = (True, s1)" "holds (contents s) (length (contents s) div 512 * 512) s1"
proof -
  obtain s1 where s1: "device_init s = (True, s1)" "block_size s1 = 512" "cache_state s1 = CACHE_CLEAN"
    using device_init_512 [OF assms(1)] assms(3) by auto
  have "holds (contents s) (length (contents s) div 512 * 512) s1"
    using device_init_inv [OF assms(2) s1(1)] s1 assms(1)
    by (auto simp: holds_def dev_ready_def reliable_def disk_view_def extent_def)
  with s1(1) show thesis by (rule that)
qed

text \<open>C21. On a device without faults that has a valid boot record and no GUID partition table, the installer exits with
  success and the device then holds the boot loader from its first byte on, except for what it must
  keep and fill in: the partition table and disk signature (bytes 440 to 509) and the time stamp (218
  to 223) are the old ones, and bytes 420 to 439 give the sizes and places of the second stage. Every
  byte behind the boot loader is unchanged.\<close>

theorem install_mbr_correct:
  assumes "reliable s" and "length (contents s) < 2 ^ 63" and "4192 \<le> length (contents s) div 512 * 512"
    and "\<not> has_gpt (contents s)" and "valid_mbr (contents s)"
    and "1024 \<le> length img" and "length img \<le> 2 ^ 16" and "length img \<le> length (contents s) div 512 * 512"
    and "args = [] \<or> hd args \<noteq> ''--force-mbr''"
  shows "\<exists>s'. install img uninit args s = Go () s' \<and> length (contents s') = length (contents s) \<and>
    (\<forall>i < length (contents s). contents s' ! i =
      (if 218 \<le> i \<and> i < 224 \<or> 440 \<le> i \<and> i < 510 \<or> length img \<le> i then contents s ! i
       else if 420 \<le> i \<and> i < 440 then stage2_params img 512 (512 + half_a img) ! (i - 420) else img ! i))"
proof -
  let ?v = "contents s" and ?e = "length (contents s) div 512 * 512" and ?F = "\<lambda>_ _. False"
  let ?r = "boot_result ?v img 512 (512 + half_a img)"
  let ?P = "\<lambda>_ s'. contents s' = ?r"
  have l: "length img \<le> length ?v" using assms(8) div_times_less_eq_dividend order_trans by blast
  have "1024 \<le> length ?v" using assms(6) l by linarith
  then obtain s1 where s1: "device_init s = (True, s1)" and h: "holds ?v ?e s1" by (rule install_opens [OF assms(1,2)])
  have b: "unat (512 + ucast (stage2_size_a img) :: u64) = 512 + half_a img"
    using stage2_place [OF assms(6,7), of 512] stage2_sizes(3) [OF assms(6,7)] assms(7) by simp
  have p: "places_ok img 512 (512 + half_a img) ?e" "places_ok img 512 (512 + half_a img) (length ?v)"
    using assms(6,8) l stage2_sizes(3) [OF assms(6,7)] by (simp_all add: places_ok_def)
  have "flow_post (write_bootloader img 512 (512 + ucast (stage2_size_a img)) s2) ?P ?F" if "holds ?v ?e s2" for s2
    using write_bootloader_holds [OF that assms(7), of 512 "512 + ucast (stage2_size_a img)"] p(1) by (simp add: b)
  then have "flow_post (check_mbr False s2) (\<lambda>mbr s. flow_post (if \<not> mbr then Stop (Exit 1) s
      else write_bootloader img 512 (512 + ucast (stage2_size_a img)) s) ?P ?F) ?F" if "holds ?v ?e s2" for s2
    by (intro quiet.check_mbr_reads [OF that]) (use assms(3,5) in auto)
  then have "flow_post (probe_gpt False [512, 4096] s1) (\<lambda>x s. \<exists>h. x = (False, 0, h) \<and>
    flow_post (check_mbr False s) (\<lambda>mbr s. flow_post (if \<not> mbr then Stop (Exit 1) s
      else write_bootloader img 512 (512 + ucast (stage2_size_a img)) s) ?P ?F) ?F) ?F"
    by (intro quiet.probe_gpt_reads [OF h assms(3,4)]) blast
  then have "flow_post (install img uninit args s) ?P ?F" by (rule install_unfold_mbr [OF assms(9) s1])
  then obtain s' where "install img uninit args s = Go () s'" "contents s' = ?r"
    by (cases "install img uninit args s") auto
  then show ?thesis
    using boot_result_nth [OF p(2)] length_boot_result [OF p(2)] assms(6) stage2_sizes(3) [OF assms(6,7)]
    by (intro exI [of _ s'] conjI allI impI) auto
qed

text \<open>A disk of 8 KiB with a boot record and no partitions, and one without.\<close>

definition demo_disk :: "u8 list" where
  "demo_disk = replicate 510 0 @ [0x55, 0xaa] @ replicate 7680 0"

lemma demo_disk_take: "i + n \<le> 510 \<or> 512 \<le> i \<and> i + n \<le> 8192 \<Longrightarrow> take n (drop i demo_disk) = replicate n 0"
proof -
  have e: "demo_disk = (replicate 510 0 @ [0x55, 0xaa]) @ replicate 7680 0" by (simp add: demo_disk_def)
  have d: "drop i (xs @ replicate 7680 0) = replicate (8192 - i) 0" if "length xs = 512" "512 \<le> i" for xs :: "u8 list"
    using that by simp
  have "512 \<le> i \<Longrightarrow> drop i demo_disk = replicate (8192 - i) 0" unfolding e by (rule d) simp_all
  moreover have "i + n \<le> 510 \<Longrightarrow> take n (drop i demo_disk) = replicate n 0" by (simp add: demo_disk_def)
  ultimately show "i + n \<le> 510 \<or> 512 \<le> i \<and> i + n \<le> 8192 \<Longrightarrow> ?thesis" by auto
qed

lemma le_value_zeros [simp]: "le_value (replicate n 0) = 0"
  by (induction n) simp_all

lemma zeros_neq: "xs \<noteq> [] \<Longrightarrow> hd xs \<noteq> 0 \<Longrightarrow> replicate n (0 :: u8) \<noteq> xs"
  by (cases n) auto

lemma demo_disk_valid: "valid_mbr demo_disk" "\<not> has_gpt demo_disk"
proof -
  have sig: "take 2 (drop 510 demo_disk) = [0x55, 0xaa]" by (simp add: demo_disk_def)
  have z: "u16_at demo_disk 218 = 0" "u16_at demo_disk 444 = 0" "u16_at demo_disk 1080 = 0" "u8_at demo_disk 446 = 0"
    "u8_at demo_disk 462 = 0" "u8_at demo_disk 478 = 0" "u8_at demo_disk 494 = 0"
    unfolding u16_at_def u8_at_def by (subst demo_disk_take, simp, simp)+
  have "take 8 (drop 4 demo_disk) \<noteq> map of_char ''_ECH_FS_''" "take 3 (drop 54 demo_disk) \<noteq> map of_char ''FAT''"
    by (subst demo_disk_take, simp, rule zeros_neq, simp, simp)+
  then show "valid_mbr demo_disk" using z by (simp add: valid_mbr_def u16_at_def [of _ 510] sig)
  have "take 8 (drop 512 demo_disk) \<noteq> EFI_PART" "take 8 (drop 4096 demo_disk) \<noteq> EFI_PART"
    unfolding EFI_PART_def by (subst demo_disk_take, simp, rule zeros_neq, simp, simp)+
  then show "\<not> has_gpt demo_disk" by (simp add: has_gpt_def)
qed

theorem install_mbr_correct_witness:
  "\<exists>s'. install (replicate 1024 7) 0 [] (demo_file\<lparr>contents := demo_disk\<rparr>) = Go () s' \<and>
    contents s' ! 3 = 7 \<and> contents s' ! 446 = 0 \<and> contents s' ! 2000 = 0"
proof -
  have l: "length demo_disk = 8192" by (simp add: demo_disk_def)
  let ?s = "demo_file\<lparr>contents := demo_disk\<rparr>"
  have "reliable ?s" by (simp add: reliable_def demo_file_def)
  moreover have "demo_disk ! 446 = 0" "demo_disk ! 2000 = 0"
    using arg_cong [OF demo_disk_take [of 446 1], of hd] arg_cong [OF demo_disk_take [of 2000 1], of hd] l by (simp_all add: hd_drop_conv_nth)
  ultimately show ?thesis
    using install_mbr_correct [of ?s "replicate 1024 7" "[]" 0] demo_disk_valid by (auto simp: l)
qed

theorem install_refuses_untouched_witness:
  "\<exists>s'. install (replicate 1024 7) 0 [] demo_file = Stop (Exit 1) s' \<and> contents s' = replicate 1024 0"
proof -
  have "u16_at (contents demo_file) 510 = 0" unfolding u16_at_def demo_file_def by simp
  then have "\<not> valid_mbr (contents demo_file)" by (simp add: valid_mbr_def)
  moreover have "\<not> has_gpt (contents demo_file)"
    using zeros_neq [of EFI_PART 8] by (simp add: has_gpt_def demo_file_def EFI_PART_def)
  ultimately have "\<not> valid_mbr (contents demo_file)" "\<not> has_gpt (contents demo_file)" by blast+
  then show ?thesis using install_refuses_untouched [of demo_file "[]" "replicate 1024 7" 0] by (simp add: demo_file_def)
qed

section \<open>The headers of a GUID partition table\<close>

lemma le_value_le_bytes: "le_value (le_bytes n v) = v mod 256 ^ n"
proof (induction n arbitrary: v)
  case (Suc n)
  have "unat (of_nat v :: u8) = v mod 256" by (simp add: unat_of_nat)
  then show ?case using Suc [of "v div 256"] by (simp add: mod_mult2_eq)
qed simp

lemma le_bytes_le_value: "length b = n \<Longrightarrow> le_bytes n (le_value b) = b"
proof (induction b arbitrary: n)
  case (Cons x b)
  have "unat x < 256" by (rule unat_less8)
  moreover have "(256 :: u8) = 0" by simp
  then have "of_nat (unat x + 256 * le_value b) = x" by (simp only: of_nat_add of_nat_mult of_nat_numeral) simp
  ultimately show ?case using Cons by (cases n) auto
qed simp

lemma field_word:
  "of_nat (le_value (le_bytes 4 (unat (w :: u32)))) = w" "of_nat (le_value (le_bytes 8 (unat (x :: u64)))) = x"
  "of_nat (le_value (le_bytes 2 (unat (y :: u16)))) = y"
proof -
  have "unat w < 256 ^ 4" "unat x < 256 ^ 8" "unat y < 256 ^ 2"
    using unsigned_less [of w] unsigned_less [of x] unsigned_less [of y] by simp_all
  then show "of_nat (le_value (le_bytes 4 (unat w))) = w" "of_nat (le_value (le_bytes 8 (unat x))) = x"
    "of_nat (le_value (le_bytes 2 (unat y))) = y" unfolding le_value_le_bytes by simp_all
qed

lemma gpt_header_roundtrip:
  assumes "length (gpt_signature h) = 8"
  shows "read_gpt_header (gpt_header_bytes h) = h"
  using assms by (simp add: read_gpt_header_def gpt_header_bytes_def field_at_def field_word)

lemma overwrite_middle: "length a = p \<Longrightarrow> length c = length z \<Longrightarrow> overwrite (a @ c @ b) p z = a @ z @ b"
  by (simp add: overwrite_inside)

text \<open>Clearing the checksum in the bytes is clearing it in the header.\<close>

lemma gpt_crc_cleared:
  assumes "length (gpt_signature h) = 8"
  shows "overwrite (gpt_header_bytes h) 16 (le_bytes 4 0) = gpt_header_bytes (h\<lparr>gpt_crc32 := 0\<rparr>)"
proof -
  let ?a = "gpt_signature h @ le_bytes 4 (unat (gpt_revision h)) @ le_bytes 4 (unat (gpt_header_size h))"
  obtain b where b: "gpt_header_bytes (h\<lparr>gpt_crc32 := c\<rparr>) = ?a @ le_bytes 4 (unat c) @ b" for c
    by (simp add: gpt_header_bytes_def)
  show ?thesis
    using overwrite_middle [of ?a 16 "le_bytes 4 (unat (gpt_crc32 h))" "le_bytes 4 0" b] assms b [of "gpt_crc32 h"] b [of 0] by simp
qed

text \<open>The header that the installer writes after shrinking the partition array is well formed: its bytes read back as the
  header, it carries the new number of entries and the checksum of the entries, and its own checksum
  is the CRC-32 of its 92 bytes with the checksum field cleared.\<close>

lemma update_header_valid:
  assumes "length (gpt_signature h) = 8"
  shows "(let h' = update_header array_crc count h; b = gpt_header_bytes h'
    in read_gpt_header b = h' \<and> gpt_signature h' = gpt_signature h \<and> partition_entry_lba h' = partition_entry_lba h \<and>
      number_of_partition_entries h' = ucast count \<and> partition_entry_array_crc32 h' = array_crc \<and>
      gpt_crc32 h' = crc32_spec (take 92 (overwrite b 16 [0, 0, 0, 0])))"
proof -
  let ?h = "h\<lparr>partition_entry_array_crc32 := array_crc, number_of_partition_entries := ucast count, gpt_crc32 := 0\<rparr>"
  let ?h' = "update_header array_crc count h"
  have h': "?h' = ?h\<lparr>gpt_crc32 := crc32 (take 92 (gpt_header_bytes ?h))\<rparr>" by (simp add: update_header_def Let_def)
  have sig: "length (gpt_signature ?h') = 8" using assms by (simp add: h')
  have "(4 :: nat) = Suc (Suc (Suc (Suc 0)))" by simp
  then have z: "le_bytes 4 0 = [0, 0, 0, 0]" by (simp only: le_bytes.simps) simp
  have "overwrite (gpt_header_bytes ?h') 16 [0, 0, 0, 0] = gpt_header_bytes (?h'\<lparr>gpt_crc32 := 0\<rparr>)"
    using gpt_crc_cleared [OF sig] by (simp only: z)
  also have "?h'\<lparr>gpt_crc32 := 0\<rparr> = ?h" by (simp add: h')
  finally have "crc32 (take 92 (gpt_header_bytes ?h)) = crc32_spec (take 92 (overwrite (gpt_header_bytes ?h') 16 [0, 0, 0, 0]))"
    by (simp only: crc32_eq_spec)
  moreover have "gpt_signature ?h' = gpt_signature h" "partition_entry_lba ?h' = partition_entry_lba h"
    "number_of_partition_entries ?h' = ucast count" "partition_entry_array_crc32 ?h' = array_crc"
    "gpt_crc32 ?h' = crc32 (take 92 (gpt_header_bytes ?h))" by (subst h', simp)+
  ultimately show ?thesis using gpt_header_roundtrip [OF sig] unfolding Let_def by metis
qed

section \<open>Installing to a partition\<close>

lemma unat_lba:
  assumes "512 * unat (x :: u64) < 2 ^ 64"
  shows "unat (512 * x) = 512 * unat x" "unat (x * 512) = 512 * unat x"
  using assms by (simp_all add: unat_mult_lem [THEN iffD1] mult.commute)

lemma and_511:
  assumes "unat (w :: u64) mod 512 = 0"
  shows "w AND 511 = 0"
proof -
  have "(511 :: u64) = mask 9" by (simp add: mask_eq_exp_minus_1)
  then have "w AND 511 = take_bit 9 w" by (simp only: take_bit_eq_mask)
  moreover have "unat (take_bit 9 w) = 0" using assms by (simp add: take_bit_eq_mod unat_mod)
  ultimately show ?thesis by (simp add: unat_eq_zero)
qed

lemma half_a_mod: "half_a img mod 512 = 0"
  by (simp add: half_a_def Let_def)

text \<open>A disk of sectors of 512 bytes with both headers of a GUID partition table, \<open>e\<close> bytes of it in whole sectors.\<close>

definition gpt_header :: "u8 list \<Rightarrow> gpt_table_header" where
  "gpt_header v = read_gpt_header (take 96 (drop 512 v))"

definition gpt_disk :: "u8 list \<Rightarrow> nat \<Rightarrow> bool" where
  "gpt_disk v e \<longleftrightarrow> 608 \<le> e \<and> e < 2 ^ 63 \<and> take 8 (drop 512 v) = EFI_PART
     \<and> 512 * unat (alternate_lba (gpt_header v)) + 96 \<le> e \<and> take 8 (drop (512 * unat (alternate_lba (gpt_header v))) v) = EFI_PART"

definition second_place :: "u8 list \<Rightarrow> nat" where
  "second_place v = 512 * unat (alternate_lba (gpt_header v))"

definition second_header :: "u8 list \<Rightarrow> gpt_table_header" where
  "second_header v = read_gpt_header (take 96 (drop (second_place v) v))"

text \<open>Where the entry of a partition is, and the entry.\<close>

definition entry_place :: "u8 list \<Rightarrow> u32 \<Rightarrow> nat" where
  "entry_place v p = 512 * unat (partition_entry_lba (gpt_header v)) + 128 * unat p"

definition gpt_entry_at :: "u8 list \<Rightarrow> u32 \<Rightarrow> gpt_entry" where
  "gpt_entry_at v p = read_gpt_entry (take 128 (drop (entry_place v p) v))"

lemma gpt_signature_take: "gpt_signature (read_gpt_header (take 96 b)) = take 8 b"
  by (simp add: read_gpt_header_def)

lemma probe_gpt_found:
  assumes "holds v e s" "gpt_disk v e" "\<And>s'. holds v e s' \<Longrightarrow> P (True, 512, gpt_header v) s'"
  shows "flow_post (probe_gpt False [512, 4096] s) P Q"
proof -
  have "unat (512 :: u64) + 96 \<le> e" using assms(2) by (simp add: gpt_disk_def)
  then show ?thesis
    unfolding probe_gpt.simps flow_post_and_then Let_def
    using assms(2,3) by (intro dev_read_holds [OF assms(1)]) (auto simp: gpt_signature_take gpt_disk_def gpt_header_def)
qed

lemma check_secondary_found:
  assumes "holds v e s" "gpt_disk v e"
    "\<And>s'. holds v e s' \<Longrightarrow> P (second_header v) s'"
  shows "flow_post (check_secondary 512 (gpt_header v) s) P Q"
proof -
  let ?a = "alternate_lba (gpt_header v)"
  have e: "512 * unat ?a + 96 \<le> e" "e < 2 ^ 63" using assms(2) by (simp_all add: gpt_disk_def)
  then have a: "unat (512 * ?a) = 512 * unat ?a" by (intro unat_lba) simp
  then have "unat (512 * ?a) + 96 \<le> e" using e by simp
  then show ?thesis
    unfolding check_secondary_def flow_post_and_then Let_def
    using assms(2,3) by (intro dev_read_holds [OF assms(1)]) (auto simp: gpt_signature_take gpt_disk_def a second_header_def second_place_def)
qed

lemma locate_partition_found:
  assumes s: "holds v e s" and g: "gpt_disk v e" and img: "1024 \<le> length img" "length img \<le> 2 ^ 16"
    and p: "p \<le> number_of_partition_entries (gpt_header v)" "entry_place v p + 128 \<le> e"
    and used: "unique_partition_guid (gpt_entry_at v p) \<noteq> (0, 0)"
    and fits: "512 * unat (starting_lba (gpt_entry_at v p)) + half_a img < 2 ^ 64"
    and P: "\<And>s'. holds v e s' \<Longrightarrow> P (starting_lba (gpt_entry_at v p) * 512, starting_lba (gpt_entry_at v p) * 512 + ucast (stage2_size_a img)) s'"
  shows "flow_post (locate_partition img 512 (gpt_header v) p s) P Q"
proof -
  let ?l = "partition_entry_lba (gpt_header v)" and ?x = "starting_lba (gpt_entry_at v p)"
  have e: "e < 2 ^ 63" using g by (simp add: gpt_disk_def)
  have l: "unat (?l * 512) = 512 * unat ?l" using p(2) e by (intro unat_lba) (simp add: entry_place_def)
  have "unat p < 2 ^ 32" by (rule unat_less32)
  then have q: "unat (ucast p * 128 :: u64) = 128 * unat p"
    by (subst unat_mult_lem [THEN iffD1]) (simp_all add: unsigned_ucast_eq take_bit_nat_eq_self)
  have "512 * unat ?l + 128 * unat p < 2 ^ 64" using p(2) e by (simp add: entry_place_def)
  then have at: "unat (?l * 512 + ucast p * 128) = entry_place v p"
    using l q by (subst unat_add_no_wrap) (simp_all add: entry_place_def)
  have x: "unat (?x * 512) = 512 * unat ?x" using fits by (intro unat_lba) simp
  then have "unat (?x * 512 + ucast (stage2_size_a img)) = 512 * unat ?x + half_a img"
    using stage2_place [OF img, of "?x * 512"] fits by simp
  then have "unat (?x * 512 + ucast (stage2_size_a img)) mod 512 = 0" using half_a_mod [of img] by (simp add: mod_add_eq)
  note aligned = and_511 [OF this]
  have "\<not> p > number_of_partition_entries (gpt_header v)" using p(1) by simp
  then show ?thesis
    unfolding locate_partition_def using p(2) used P at
    by (auto simp: flow_post_and_then Let_def aligned gpt_entry_at_def [symmetric] intro!: dev_read_holds [OF s])
qed

lemma install_gpt_flow:
  assumes "args = [] \<or> hd args \<noteq> ''--force-mbr''" "device_init s = (True, s1)" "holds v e s1" "gpt_disk v e"
    and "\<And>s'. holds v e s' \<Longrightarrow>
      flow_post (if args \<noteq> [] then locate_partition img 512 (gpt_header v) (scan_u32 uninit (hd args) - 1) s'
          else embed_gpt img 512 (gpt_header v) (second_header v) s')
        (\<lambda>(a, b) s. flow_post (write_bootloader img a b s) P Q) Q"
  shows "flow_post (install img uninit args s) P Q"
proof -
  let ?k = "\<lambda>(a, b) s. flow_post (write_bootloader img a b s) P Q"
  let ?f = "\<lambda>h2 s. if args \<noteq> [] then locate_partition img 512 (gpt_header v) (scan_u32 uninit (hd args) - 1) s else embed_gpt img 512 (gpt_header v) h2 s"
  have "flow_post (check_secondary 512 (gpt_header v) s2) (\<lambda>h2 s. flow_post (?f h2 s) ?k Q) Q" if "holds v e s2" for s2
    by (rule check_secondary_found [OF that assms(4)]) (rule assms(5))
  then have "flow_post (probe_gpt False [512, 4096] s1) (\<lambda>x s. x = (True, 512, gpt_header v) \<and>
      flow_post (check_secondary 512 (gpt_header v) s) (\<lambda>h2 s. flow_post (?f h2 s) ?k Q) Q) Q"
    by (intro probe_gpt_found [OF assms(3,4)]) simp
  moreover have "(args \<noteq> [] \<and> hd args = ''--force-mbr'') = False" using assms(1) by auto
  ultimately show ?thesis
    unfolding install_def Let_def assms(2) prod.case bool.case flow_post_and_then
    by (simp only:, elim flow_post_mono) (cases "args = []"; auto simp: flow_post_and_then case_prod_unfold)
qed

text \<open>C22. On a device without faults that has a GUID partition table, the installer given the number of a partition in use exits
  with success. The second stage of the boot loader then lies at the start of the partition, the boot sector in front of the table
  is the boot loader's with the old partition table, time stamp and the place of the second stage in it, and every other byte, the
  partition table among them when the partition does not cover it, is unchanged.\<close>

theorem install_partition_correct:
  fixes s :: device_state and img :: "u8 list" and uninit :: u32 and arg :: string
  defines "v \<equiv> contents s" and "e \<equiv> length (contents s) div 512 * 512" and "p \<equiv> scan_u32 uninit arg - 1"
  defines "a \<equiv> 512 * unat (starting_lba (gpt_entry_at (contents s) p))"
  assumes "reliable s" and "length (contents s) < 2 ^ 63" and "gpt_disk v e" and "arg \<noteq> ''--force-mbr''"
    and "p \<le> number_of_partition_entries (gpt_header v)" and "entry_place v p + 128 \<le> e"
    and "unique_partition_guid (gpt_entry_at v p) \<noteq> (0, 0)"
    and "1024 \<le> length img" and "length img \<le> 2 ^ 16" and "512 \<le> a" and "a + length img \<le> e + 512"
  shows "\<exists>s'. install img uninit [arg] s = Go () s' \<and> length (contents s') = length v \<and>
    (\<forall>i < length v. contents s' ! i =
      (if 218 \<le> i \<and> i < 224 \<or> 440 \<le> i \<and> i < 510 then v ! i
       else if 420 \<le> i \<and> i < 440 then stage2_params img a (a + half_a img) ! (i - 420)
       else if i < 512 then img ! i
       else if a \<le> i \<and> i + 512 < a + length img then img ! (512 + (i - a)) else v ! i))"
proof -
  let ?x = "starting_lba (gpt_entry_at v p)" and ?r = "boot_result v img a (a + half_a img)"
  let ?b = "?x * 512 + ucast (stage2_size_a img)"
  have e: "e \<le> length v" "e < 2 ^ 63" using assms(6) by (auto simp: e_def v_def intro: order_le_less_trans)
  note sz = stage2_sizes(3) [OF assms(12,13)]
  have "1024 \<le> length v" using assms(12,14,15) e(1) by linarith
  then obtain s1 where s1: "device_init s = (True, s1)" and h: "holds v e s1"
    using install_opens [OF assms(5,6)] unfolding v_def e_def by blast
  have "a + half_a img \<le> e" using assms(15) sz by linarith
  then have fits: "a + half_a img < 2 ^ 64" using e(2) by simp
  then have ua: "unat (?x * 512) = a" by (simp only: a_def v_def) (intro unat_lba, simp)
  then have ub: "unat ?b = a + half_a img" using stage2_place [OF assms(12,13), of "?x * 512"] fits by simp
  have ok: "places_ok img a (a + half_a img) e" "places_ok img a (a + half_a img) (length v)"
    using assms(12,14,15) sz e(1) by (auto simp: places_ok_def)
  have w: "flow_post (write_bootloader img (?x * 512) ?b s2) (\<lambda>_ s'. contents s' = ?r) (\<lambda>_ _. False)" if "holds v e s2" for s2
    using write_bootloader_holds [OF that assms(13), of "?x * 512" ?b] ok(1) by (simp only: ua ub)
  have "flow_post (locate_partition img 512 (gpt_header v) p s2)
      (\<lambda>(a, b) s. flow_post (write_bootloader img a b s) (\<lambda>_ s'. contents s' = ?r) (\<lambda>_ _. False)) (\<lambda>_ _. False)" if "holds v e s2" for s2
    using fits w by (intro locate_partition_found [OF that assms(7,12,13,9-11)]) (simp_all add: a_def v_def)
  then have "flow_post (install img uninit [arg] s) (\<lambda>_ s'. contents s' = ?r) (\<lambda>_ _. False)"
    using assms(8) by (intro install_gpt_flow [OF _ s1 h assms(7)]) (simp_all add: p_def)
  then obtain s' where "install img uninit [arg] s = Go () s'" "contents s' = ?r"
    by (cases "install img uninit [arg] s") auto
  then show ?thesis
    using boot_result_nth [OF ok(2)] length_boot_result [OF ok(2)] assms(14) sz
    by (intro exI [of _ s'] conjI allI impI) auto
qed

text \<open>A disk of 8 KiB with a partition that starts at sector 8.\<close>

definition demo_gpt :: "u8 list" where
  "demo_gpt = replicate 512 0
     @ (EFI_PART @ replicate 24 0 @ [2] @ replicate 39 0 @ [3] @ replicate 7 0 @ [4] @ replicate 15 0) @ replicate 416 0
     @ EFI_PART @ replicate 504 0
     @ (replicate 16 0 @ [7] @ replicate 15 0 @ [8] @ replicate 95 0) @ replicate 6528 0"

lemma length_EFI_PART [simp]: "length EFI_PART = 8"
  by (simp add: EFI_PART_def)

lemma demo_gpt_header:
  "length demo_gpt = 8192" "take 8 (drop 512 demo_gpt) = EFI_PART" "take 8 (drop 1024 demo_gpt) = EFI_PART"
  "alternate_lba (gpt_header demo_gpt) = 2" "partition_entry_lba (gpt_header demo_gpt) = 3"
  "number_of_partition_entries (gpt_header demo_gpt) = 4"
  by (simp_all add: gpt_header_def demo_gpt_def read_gpt_header_def field_at_def drop_Cons' take_Cons')

lemma demo_gpt_entry:
  "entry_place demo_gpt 0 = 1536" "starting_lba (gpt_entry_at demo_gpt 0) = 8"
  "unique_partition_guid (gpt_entry_at demo_gpt 0) = (7, 0)"
  by (simp_all add: entry_place_def demo_gpt_header gpt_entry_at_def)
   (simp_all add: demo_gpt_def read_gpt_entry_def field_at_def drop_Cons' take_Cons')

theorem install_partition_correct_witness:
  "\<exists>s'. install (replicate 1024 7) 0 [''1''] (demo_file\<lparr>contents := demo_gpt\<rparr>) = Go () s'
     \<and> contents s' ! 4096 = 7 \<and> contents s' ! 512 = demo_gpt ! 512 \<and> contents s' ! 4608 = demo_gpt ! 4608"
proof -
  let ?s = "demo_file\<lparr>contents := demo_gpt\<rparr>"
  have "reliable ?s" by (simp add: reliable_def demo_file_def)
  moreover have "scan_u32 0 ''1'' - 1 = 0" by code_simp
  moreover have "gpt_disk demo_gpt 8192" by (simp add: gpt_disk_def demo_gpt_header)
  ultimately obtain s' where s': "install (replicate 1024 7) 0 [''1''] ?s = Go () s'"
    and c: "\<forall>i < 8192. contents s' ! i =
      (if 218 \<le> i \<and> i < 224 \<or> 440 \<le> i \<and> i < 510 then demo_gpt ! i
       else if 420 \<le> i \<and> i < 440 then stage2_params (replicate 1024 7) 4096 (4096 + half_a (replicate 1024 7)) ! (i - 420)
       else if i < 512 then replicate 1024 7 ! i
       else if 4096 \<le> i \<and> i + 512 < 4096 + 1024 then replicate 1024 7 ! (512 + (i - 4096)) else demo_gpt ! i)"
    using install_partition_correct [where s = ?s and img = "replicate 1024 7" and arg = "''1''" and uninit = 0]
    by (auto simp: demo_gpt_header demo_gpt_entry)
  show ?thesis
    using s' c [rule_format, of 4096] c [rule_format, of 512] c [rule_format, of 4608] by (intro exI [of _ s']) simp
qed

end
