(* ===== verification/Gpt_Embed.thy ===== *)
theory Gpt_Embed
  imports Limine_Install
begin

text \<open>
  The installer on a disk with a GUID partition table and no partition named: \<^verbatim>\<open>main\<close> of
  \<^verbatim>\<open>src/limine/limine-install.c\<close> puts the two halves of the second stage behind the two arrays of entries, at the end of
  their 32 sectors, and shrinks the tables. The lemmas follow \<open>embed_gpt\<close> on a device without faults; the theorem is on the bytes
  of the disk and on the checks that a firmware makes of both tables.
\<close>

unbundle bit_operations_syntax

section \<open>The second half of the second stage\<close>

definition half_b :: "u8 list \<Rightarrow> nat" where
  "half_b img = (length img - 512 + 511) div 512 div 2 * 512"

lemma stage2_size_b_eq:
  assumes "1024 \<le> length img" "length img \<le> 2 ^ 16"
  shows "unat (stage2_size_b img) = half_b img" "length img \<le> 512 + half_a img + half_b img" "half_b img \<le> half_a img"
proof -
  define n where "n = (length img - 512 + 511) div 512"
  have n: "n \<le> 127" "length img \<le> 512 + n * 512" using assms by (auto simp: n_def)
  have "unat ((of_nat n :: u64) div 2) = n div 2" using n(1) by (simp add: unat_div_distrib unat_of_nat)
  then have "(of_nat n :: u64) div 2 = of_nat (n div 2)" using n(1) by (simp add: word_unat_eq_iff unat_of_nat)
  moreover define m where "m = n div 2 * 512"
  ultimately have "stage2_size_b img = ucast (of_nat m :: u64)"
    unfolding stage2_size_b_def stage2_sects_eq [OF assms] n_def [symmetric] by simp
  moreover have "m < 2 ^ 16" using n(1) by (simp add: m_def)
  ultimately have "unat (stage2_size_b img) = m"
    by (simp add: unat_of_nat unsigned_ucast_eq take_bit_nat_eq_self)
  then show "unat (stage2_size_b img) = half_b img" by (simp only: half_b_def n_def m_def)
  have "n = 2 * (n div 2) + n mod 2" by simp
  then show "length img \<le> 512 + half_a img + half_b img" "half_b img \<le> half_a img"
    using n(2) unfolding half_a_def half_b_def Let_def n_def [symmetric] by linarith+
qed

lemma half_b_mod: "half_b img mod 512 = 0"
  by (simp add: half_b_def)

lemma next_fault_holds:
  assumes "holds v e s"
  obtains s' where "next_fault s = (None, s')" "holds v e s'"
proof
  let ?s = "s\<lparr>calls := Suc (calls s)\<rparr>"
  have "reliable s" using assms by (simp add: holds_def dev_ready_def)
  then show "next_fault s = (None, ?s)" by (simp add: next_fault_def reliable_def)
  show "holds v e ?s"
    using assms by (auto simp: holds_def dev_ready_def dev_inv_def dev_wf_def reliable_def disk_view_def extent_def block_start_def)
qed

section \<open>The entries\<close>

definition entry_used :: "u8 list \<Rightarrow> nat \<Rightarrow> nat \<Rightarrow> bool" where
  "entry_used v A i \<longleftrightarrow> unique_partition_guid (read_gpt_entry (take 128 (drop (A + 128 * i) v))) \<noteq> (0, 0)"

text \<open>The number of entries up to the last one in use.\<close>

primrec entries_kept :: "u8 list \<Rightarrow> nat \<Rightarrow> nat \<Rightarrow> nat" where
  "entries_kept v A 0 = 0"
| "entries_kept v A (Suc n) = (if entry_used v A n then Suc n else entries_kept v A n)"

lemma entries_kept_le: "entries_kept v A n \<le> n"
  by (induction n) auto

lemma entry_word:
  assumes "unat (table :: u64) + 128 * i < 2 ^ 64"
  shows "unat (table + of_nat i * 128) = unat table + 128 * i"
proof -
  have "(of_nat i * 128 :: u64) = of_nat (128 * i)" by simp
  then show ?thesis using assms by (simp only: unat_add_of_nat)
qed

lemma max_entry_loop_holds:
  assumes "holds v e s" "unat table + 128 * (i + n) \<le> e" "e < 2 ^ 63"
    and "\<And>s'. holds v e s' \<Longrightarrow> P (int (entries_kept v (unat table) (i + n)) - 1) s'"
  shows "flow_post (max_entry_loop n i table (int (entries_kept v (unat table) i) - 1) s) P Q"
  using assms
proof (induction n arbitrary: i s)
  case (Suc n)
  let ?k = "\<lambda>i. int (entries_kept v (unat table) i) - 1"
  have at: "unat (table + of_nat i * 128) = unat table + 128 * i" using Suc.prems(2,3) by (intro entry_word) simp
  have "entries_kept v (unat table) i \<le> i" by (rule entries_kept_le)
  then have step: "(if unique_partition_guid (read_gpt_entry (take 128 (drop (unat table + 128 * i) v))) \<noteq> (0, 0) \<and> ?k i < int i
      then int i else ?k i) = ?k (Suc i)"
    by (simp add: entry_used_def)
  have "flow_post (max_entry_loop n (Suc i) table (?k (Suc i)) s') P Q" if "holds v e s'" for s'
    using Suc.prems by (intro Suc.IH [OF that]) simp_all
  then show ?case
    unfolding max_entry_loop.simps flow_post_and_then
    using Suc.prems(2) by (intro dev_read_holds [OF Suc.prems(1)]) (simp_all only: at step, simp)
qed simp

lemma zero_entries_holds:
  assumes "holds v e s" "unat table + 128 * (i + n) \<le> e" "e < 2 ^ 63"
    and "\<And>s'. holds (overwrite v (unat table + 128 * i) (replicate (128 * n) 0)) e s' \<Longrightarrow> P () s'"
  shows "flow_post (zero_entries n (of_nat i) table (replicate 128 0) 128 s) P Q"
  using assms
proof (induction n arbitrary: i v s)
  case (Suc n)
  let ?v = "overwrite v (unat table + 128 * i) (replicate 128 0)"
  have at: "unat (table + of_nat i * ucast (128 :: u32)) = unat table + 128 * i"
    using entry_word [of table i] Suc.prems(2,3) by simp
  have size: "unat (128 :: u32) = 128" by simp
  have "unat table + 128 * i + 128 + 128 * n \<le> length v" using holds_length [OF Suc.prems(1)] Suc.prems(2) by simp
  then have "overwrite ?v (unat table + 128 * i + 128) (replicate (128 * n) 0) = overwrite v (unat table + 128 * i) (replicate (128 * Suc n) 0)"
    using overwrite_append [of "unat table + 128 * i" "replicate 128 0" "replicate (128 * n) 0" v] by (simp add: replicate_add [symmetric])
  then have "flow_post (zero_entries n (of_nat (Suc i)) table (replicate 128 0) 128 s') P Q" if "holds ?v e s'" for s'
    using Suc.prems by (intro Suc.IH [OF that]) (simp_all add: algebra_simps)
  then show ?case
    unfolding zero_entries.simps flow_post_and_then
    using Suc.prems(2) by (intro dev_write_holds [OF Suc.prems(1)]) (simp_all only: at size, simp_all add: add.commute)
qed simp

section \<open>Shrinking the tables\<close>

text \<open>A header as it is read from a sector.\<close>

definition header_shape :: "gpt_table_header \<Rightarrow> bool" where
  "header_shape h \<longleftrightarrow> gpt_signature h = EFI_PART \<and> length (gpt_padding h) = 4"

lemma update_header_shape:
  assumes "header_shape h"
  shows "header_shape (update_header x c h)" "length (gpt_header_bytes (update_header x c h)) = 96"
    "alternate_lba (update_header x c h) = alternate_lba h"
  using assms by (simp_all add: header_shape_def update_header_def Let_def gpt_header_bytes_def EFI_PART_def)

text \<open>The disk after the entries from the \<open>k\<close>th to the \<open>c\<close>th are cleared in the array at \<open>A\<close>, and after the embedding.\<close>

definition cleared :: "u8 list \<Rightarrow> nat \<Rightarrow> nat \<Rightarrow> nat \<Rightarrow> u8 list" where
  "cleared v A k c = overwrite v (A + 128 * k) (replicate (128 * (c - k)) 0)"

definition shrunk :: "u8 list \<Rightarrow> gpt_table_header \<Rightarrow> gpt_table_header \<Rightarrow> nat \<Rightarrow> nat \<Rightarrow> nat \<Rightarrow> nat \<Rightarrow> nat \<Rightarrow> u8 list" where
  "shrunk v h h2 A B G k c =
     (let w = cleared (cleared v A k c) B k c; x = crc32 (take (128 * c) (drop A w))
      in overwrite (overwrite w 512 (gpt_header_bytes (update_header x (of_nat c) h)))
           G (gpt_header_bytes (update_header x (of_nat c) h2)))"

lemma shrink_tables_holds:
  assumes s: "holds v e s" and e: "e < 2 ^ 63" "608 \<le> e"
    and h: "header_shape h" "header_shape h2" "size_of_partition_entry h = 128" "size_of_partition_entry h2 = 128"
    and A: "unat (partition_entry_lba h * 512) = A" "A + 128 * c \<le> e"
    and B: "unat (partition_entry_lba h2 * 512) = B" "B + 128 * c \<le> e"
    and G: "unat (512 * alternate_lba h) = G" "G + 96 \<le> e"
    and k: "k \<le> c" and P: "\<And>s'. holds (shrunk v h h2 A B G k c) e s' \<Longrightarrow> P () s'"
  shows "flow_post (shrink_tables 512 h h2 (int k - 1) (of_nat c) s) P Q"
proof -
  let ?w1 = "cleared v A k c" and ?w = "cleared (cleared v A k c) B k c"
  let ?x = "crc32 (take (128 * c) (drop A ?w))"
  let ?h = "update_header ?x (of_nat c) h" and ?h2 = "update_header ?x (of_nat c) h2"
  have c: "128 * c < 2 ^ 64" using A(2) e(1) by simp
  moreover have "of_nat c * ucast (128 :: u32) = (of_nat (128 * c) :: u64)" by simp
  ultimately have size: "unat (of_nat c * ucast (128 :: u32) :: u64) = 128 * c" by (simp only: unat_of_nat64)
  have n: "unat (of_nat c :: u64) - nat (int k - 1 + 1) = c - k" using c by (simp add: unat_of_nat)
  have first: "word_of_int (int k - 1 + 1) = (of_nat k :: u64)" by simp
  have entry: "unat (128 :: u32) = 128" by simp
  obtain s1 where s1: "next_fault s = (None, s1)" "holds v e s1" by (rule next_fault_holds [OF s])
  have headers: "flow_post (and_then (dev_write (gpt_header_bytes ?h) 512 96 s2)
      (\<lambda>_. dev_write (gpt_header_bytes ?h2) (512 * alternate_lba ?h) 96)) P Q" if "holds ?w e s2" for s2
    unfolding flow_post_and_then update_header_shape(3) [OF h(1)]
    by (rule dev_write_holds [OF that]; (rule dev_write_holds)?)
      (use e G P update_header_shape [OF h(1)] update_header_shape [OF h(2)] in \<open>simp_all add: shrunk_def Let_def\<close>)
  have array: "flow_post (dev_read (partition_entry_lba h * 512) (128 * c) s2) (\<lambda>array s.
      flow_post (let h = update_header (crc32 array) (of_nat c) h; h2 = update_header (crc32 array) (of_nat c) h2
        in and_then (dev_write (gpt_header_bytes h) 512 96 s) (\<lambda>_. dev_write (gpt_header_bytes h2) (512 * alternate_lba h) 96)) P Q) Q"
    if "holds ?w e s2" for s2
    by (rule dev_read_holds [OF that]) (use A headers in \<open>simp_all add: Let_def\<close>)
  have zero: "flow_post (zero_entries (c - k) (of_nat k) (partition_entry_lba h * 512) (replicate 128 0) 128 s1) (\<lambda>_ s.
      flow_post (zero_entries (c - k) (of_nat k) (partition_entry_lba h2 * 512) (replicate 128 0) 128 s) (\<lambda>_. holds ?w e) Q) Q"
    by (rule zero_entries_holds [OF s1(2)]; (rule zero_entries_holds)?) (use A B k e in \<open>simp_all add: cleared_def\<close>)
  show ?thesis
    unfolding shrink_tables_def s1(1) Let_def prod.case n first size h(3,4) entry
    by (simp add: flow_post_and_then, rule flow_post_mono [OF zero], elim flow_post_mono, erule next_fault_holds)
      (use array in \<open>simp_all add: flow_post_and_then Let_def\<close>)
qed

section \<open>The place in front of the end of the array\<close>

lemma and_not_511:
  assumes "unat (w :: u64) mod 512 = 0"
  shows "w AND NOT (512 - 1) = w"
proof (rule bit_eqI)
  fix n
  have "w AND (512 - 1) = 0" using and_511 [OF assms] by simp
  then have "\<not> bit (w AND (512 - 1)) n" by (simp only: bit_0_eq) simp
  then show "bit (w AND NOT (512 - 1)) n = bit w n" if "possible_bit TYPE(u64) n" using that by (auto simp only: bit_and_iff bit_not_iff possible_bit_word)
qed

lemma embed_place:
  fixes l :: u64 and z :: u16
  assumes "unat z = 512 * q" "q \<le> 32" "512 * unat l + 16384 < 2 ^ 64"
  defines "w \<equiv> ((l + 32) * 512 - ucast z) AND NOT (512 - 1)"
  shows "unat w = 512 * unat l + 16384 - 512 * q" "w div 512 - l = of_nat (32 - q)"
proof -
  define m where "m = unat l"
  have l: "l = of_nat m" by (simp add: m_def)
  have "ucast z = (of_nat (512 * q) :: u64)" using arg_cong [OF assms(1), of "of_nat :: nat \<Rightarrow> u64"] by simp
  then have "(l + 32) * 512 - ucast z = of_nat (512 * m + 16384 - 512 * q)"
    using assms(2) unfolding l by (simp add: of_nat_diff algebra_simps)
  moreover have "512 * m + 16384 - 512 * q = 512 * (m + 32 - q)" using assms(2) by simp
  ultimately have d: "(l + 32) * 512 - ucast z = of_nat (512 * (m + 32 - q))" by simp
  have fit: "512 * (m + 32 - q) < 2 ^ 64" using assms(2,3) by (simp add: m_def)
  then have u: "unat (of_nat (512 * (m + 32 - q)) :: u64) = 512 * (m + 32 - q)" by (rule unat_of_nat64)
  then have w: "w = of_nat (512 * (m + 32 - q))" unfolding w_def d by (intro and_not_511) simp
  show "unat w = 512 * unat l + 16384 - 512 * q" unfolding w u using assms(2) by (simp add: m_def)
  have "unat (w div 512) = m + 32 - q" unfolding unat_div_distrib w u by simp
  moreover have "of_nat (unat x) = x" for x :: u64 by simp
  ultimately have "w div 512 = of_nat (m + 32 - q)" by metis
  then show "w div 512 - l = of_nat (32 - q)" using assms(2) by (simp add: l of_nat_diff)
qed

text \<open>The entries left in front of the first half.\<close>

definition entries_left :: "u8 list \<Rightarrow> nat" where
  "entries_left img = 4 * (32 - half_a img div 512)"

lemma embed_gpt_holds:
  assumes s: "holds v e s" and e: "e < 2 ^ 63" "608 \<le> e"
    and img: "1024 \<le> length img" "length img \<le> 2 ^ 16" "half_a img \<le> 16384"
    and h: "header_shape h" "header_shape h2" "size_of_partition_entry h = 128" "size_of_partition_entry h2 = 128"
    and A: "A = 512 * unat (partition_entry_lba h)" "A + 16384 \<le> e" "A + 128 * unat (number_of_partition_entries h) \<le> e"
    and B: "B = 512 * unat (partition_entry_lba h2)" "B + 16384 \<le> e"
    and G: "G = 512 * unat (alternate_lba h)" "G + 96 \<le> e"
    and k: "k = entries_kept v A (unat (number_of_partition_entries h))" "k \<le> entries_left img"
    and P: "\<And>a b s'. unat a = A + 16384 - half_a img \<Longrightarrow> unat b = B + 16384 - half_b img \<Longrightarrow>
      holds (shrunk v h h2 A B G k (entries_left img)) e s' \<Longrightarrow> P (a, b) s'"
  shows "flow_post (embed_gpt img 512 h h2 s) P Q"
proof -
  let ?c = "entries_left img"
  define q where "q = half_a img div 512"
  define p where "p = half_b img div 512"
  note sa = stage2_sizes(1) [OF img(1,2)] and sb = stage2_size_b_eq [OF img(1,2)]
  have q: "half_a img = 512 * q" "q \<le> 32" using half_a_mod [of img] img(3) by (auto simp: q_def)
  have p: "half_b img = 512 * p" "p \<le> 32" using half_b_mod [of img] img(3) sb(3) by (auto simp: p_def)
  have l: "512 * unat (partition_entry_lba h) + 16384 < 2 ^ 64" "512 * unat (partition_entry_lba h2) + 16384 < 2 ^ 64"
    "512 * unat (alternate_lba h) < 2 ^ 64" using A B G e(1) by simp_all
  then have u: "unat (partition_entry_lba h * 512) = A" "unat (partition_entry_lba h2 * 512) = B" "unat (512 * alternate_lba h) = G"
    using A(1) B(1) G(1) by (simp_all add: unat_lba)
  note a = embed_place [OF sa [unfolded q(1)] q(2) l(1)] and b = embed_place [OF sb(1) [unfolded p(1)] p(2) l(2)]
  have c: "?c = 4 * (32 - q)" "?c \<le> 128" by (simp_all add: entries_left_def q_def)
  have per: "(512 div ucast (128 :: u32) :: u64) = 4" by simp
  have count: "of_nat (32 - q) * 4 = (of_nat ?c :: u64)" unfolding c(1) by simp
  have "sint (of_nat ?c :: u64) = int ?c" using c(2) by (simp add: signed_of_nat signed_take_bit_int_eq_self)
  then have enough: "\<not> sint (of_nat ?c :: u64) \<le> int k - 1" using k(2) by simp
  have "128 * ?c \<le> 16384" using c(2) by simp
  then have fit: "A + 128 * ?c \<le> e" "B + 128 * ?c \<le> e" using A(2) B(2) by linarith+
  let ?loc = "\<lambda>l z. ((l + 32) * 512 - ucast z) AND NOT (512 - 1) :: u64"
  have P': "P (?loc (partition_entry_lba h) (stage2_size_a img), ?loc (partition_entry_lba h2) (stage2_size_b img)) s'"
    if "holds (shrunk v h h2 A B G k ?c) e s'" for s'
    using a(1) b(1) q(1) p(1) A(1) B(1) by (intro P that) simp_all
  have shrink: "flow_post (shrink_tables 512 h h2 (int k - 1) (of_nat ?c) s1)
      (\<lambda>_. P (?loc (partition_entry_lba h) (stage2_size_a img), ?loc (partition_entry_lba h2) (stage2_size_b img))) Q" if "holds v e s1" for s1
    by (rule shrink_tables_holds [OF that e h u(1) fit(1) u(2) fit(2) u(3) G(2) k(2)]) (rule P')
  have "flow_post (max_entry_loop (unat (number_of_partition_entries h)) 0 (partition_entry_lba h * 512) (- 1) s)
      (\<lambda>used s. used = int k - 1 \<and> holds v e s) Q"
    using max_entry_loop_holds [OF s, of "partition_entry_lba h * 512" 0 "unat (number_of_partition_entries h)"] A(3) e(1)
    by (simp add: u k(1))
  then show ?thesis
    unfolding embed_gpt_def flow_post_and_then Let_def h(3) per a(2) count
    by (elim flow_post_mono) (use enough shrink in \<open>auto simp: flow_post_and_then\<close>)
qed

section \<open>The layout of the disk\<close>

text \<open>The arrays of entries and the places of the two halves.\<close>

definition first_array :: "u8 list \<Rightarrow> nat" where
  "first_array v = 512 * unat (partition_entry_lba (gpt_header v))"

definition second_array :: "u8 list \<Rightarrow> nat" where
  "second_array v = 512 * unat (partition_entry_lba (second_header v))"

definition place_a :: "u8 list \<Rightarrow> u8 list \<Rightarrow> nat" where
  "place_a v img = first_array v + 16384 - half_a img"

definition place_b :: "u8 list \<Rightarrow> u8 list \<Rightarrow> nat" where
  "place_b v img = second_array v + 16384 - half_b img"

definition apart :: "nat \<Rightarrow> nat \<Rightarrow> nat \<Rightarrow> nat \<Rightarrow> bool" where
  "apart x m y n \<longleftrightarrow> x + m \<le> y \<or> y + n \<le> x"

text \<open>Two headers and two arrays of 32 sectors with entries of 128 bytes, apart from each other and behind the boot sector.\<close>

definition gpt_layout :: "u8 list \<Rightarrow> nat \<Rightarrow> bool" where
  "gpt_layout v e \<longleftrightarrow> gpt_disk v e \<and>
     size_of_partition_entry (gpt_header v) = 128 \<and> size_of_partition_entry (second_header v) = 128 \<and>
     first_array v + 128 * unat (number_of_partition_entries (gpt_header v)) \<le> e \<and>
     first_array v + 16384 \<le> e \<and> second_array v + 16384 \<le> e \<and>
     608 \<le> first_array v \<and> 608 \<le> second_array v \<and> 608 \<le> second_place v \<and>
     apart (first_array v) 16384 (second_array v) 16384 \<and>
     apart (first_array v) 16384 (second_place v) 96 \<and> apart (second_array v) 16384 (second_place v) 96"

text \<open>What a firmware checks of the table whose header is at \<open>p\<close>.\<close>

definition valid_table :: "u8 list \<Rightarrow> nat \<Rightarrow> bool" where
  "valid_table r p \<longleftrightarrow>
     (let b = take 96 (drop p r); h = read_gpt_header b
      in gpt_signature h = EFI_PART \<and> gpt_crc32 h = crc32_spec (take 92 (overwrite b 16 [0, 0, 0, 0])) \<and>
         partition_entry_array_crc32 h = crc32_spec
           (take (unat (number_of_partition_entries h) * unat (size_of_partition_entry h)) (drop (512 * unat (partition_entry_lba h)) r)))"

lemma valid_tableI:
  assumes b: "take 96 (drop p r) = gpt_header_bytes (update_header x (of_nat c) h)" and h: "header_shape h"
    and c: "c \<le> 128" and size: "size_of_partition_entry h = 128"
    and x: "x = crc32 (take (128 * c) (drop (512 * unat (partition_entry_lba h)) r))"
  shows "valid_table r p"
proof -
  have sig: "length (gpt_signature h) = 8" using h by (simp add: header_shape_def EFI_PART_def)
  have "size_of_partition_entry (update_header x (of_nat c) h) = 128" by (simp add: update_header_def Let_def size)
  moreover have "ucast (of_nat c :: u64) = (of_nat c :: u32)" using c by (simp add: word_unat_eq_iff unsigned_ucast_eq unat_of_nat take_bit_nat_eq_self)
  ultimately show ?thesis
    using update_header_valid [OF sig, of x "of_nat c"] c h x
    unfolding valid_table_def b Let_def by (simp add: header_shape_def crc32_eq_spec unat_of_nat mult.commute)
qed

lemma shrunk_nth:
  assumes "header_shape h" "header_shape h2" "e \<le> length v"
    and "A + 128 * c \<le> e" "B + 128 * c \<le> e" "G + 96 \<le> e" "k \<le> c" "608 \<le> e"
  defines "x \<equiv> crc32 (take (128 * c) (drop A (cleared (cleared v A k c) B k c)))"
  shows "length (shrunk v h h2 A B G k c) = length v"
    and "i < length v \<Longrightarrow> shrunk v h h2 A B G k c ! i =
      (if G \<le> i \<and> i < G + 96 then gpt_header_bytes (update_header x (of_nat c) h2) ! (i - G)
       else if 512 \<le> i \<and> i < 608 then gpt_header_bytes (update_header x (of_nat c) h) ! (i - 512)
       else cleared (cleared v A k c) B k c ! i)"
proof -
  have len: "length (cleared (cleared v A k c) B k c) = length v" using assms by (simp add: cleared_def)
  show "length (shrunk v h h2 A B G k c) = length v"
    using assms(3-8) len update_header_shape(2) [OF assms(1)] update_header_shape(2) [OF assms(2)] by (simp add: shrunk_def Let_def)
  show "shrunk v h h2 A B G k c ! i = (if G \<le> i \<and> i < G + 96 then gpt_header_bytes (update_header x (of_nat c) h2) ! (i - G)
       else if 512 \<le> i \<and> i < 608 then gpt_header_bytes (update_header x (of_nat c) h) ! (i - 512)
       else cleared (cleared v A k c) B k c ! i)" if "i < length v"
    using that assms(3-8) len update_header_shape(2) [OF assms(1)] update_header_shape(2) [OF assms(2)]
    unfolding shrunk_def Let_def x_def [symmetric] by (subst nth_overwrite, simp, simp, subst nth_overwrite) auto
qed

lemma cleared_nth:
  assumes "A + 128 * c \<le> length v" "B + 128 * c \<le> length v" "k \<le> c" "i < length v"
  shows "cleared (cleared v A k c) B k c ! i =
    (if A + 128 * k \<le> i \<and> i < A + 128 * c \<or> B + 128 * k \<le> i \<and> i < B + 128 * c then 0 else v ! i)"
  using assms unfolding cleared_def by (subst nth_overwrite, simp, simp, subst nth_overwrite) auto

lemma read_header_shape:
  assumes "take 8 (drop p v) = EFI_PART" "p + 96 \<le> length v"
  shows "header_shape (read_gpt_header (take 96 (drop p v)))"
  using assms by (simp add: header_shape_def read_gpt_header_def)

lemma gpt_layout_headers:
  assumes "gpt_layout v e" "e \<le> length v"
  shows "header_shape (gpt_header v)" "header_shape (second_header v)"
proof -
  have g: "gpt_disk v e" using assms(1) by (simp add: gpt_layout_def)
  then show "header_shape (gpt_header v)"
    unfolding gpt_header_def using assms(2) by (intro read_header_shape) (simp_all add: gpt_disk_def)
  show "header_shape (second_header v)"
    unfolding second_header_def using g assms(2) by (intro read_header_shape) (simp_all add: gpt_disk_def second_place_def)
qed

text \<open>The disk after an embedding that keeps \<open>k\<close> entries, and the checksum of the entries.\<close>

definition embedded :: "u8 list \<Rightarrow> u8 list \<Rightarrow> nat \<Rightarrow> u8 list" where
  "embedded v img k =
     boot_result (shrunk v (gpt_header v) (second_header v) (first_array v) (second_array v) (second_place v) k (entries_left img)) img
       (place_a v img) (place_b v img)"

definition array_crc :: "u8 list \<Rightarrow> u8 list \<Rightarrow> nat \<Rightarrow> u32" where
  "array_crc v img k = crc32 (take (128 * entries_left img) (drop (first_array v)
     (cleared (cleared v (first_array v) k (entries_left img)) (second_array v) k (entries_left img))))"

lemma entries_left_place:
  assumes "half_a img \<le> 16384"
  shows "128 * entries_left img = 16384 - half_a img" "entries_left img \<le> 128"
proof -
  obtain q where "half_a img = 512 * q" using half_a_mod [of img] by auto
  then show "128 * entries_left img = 16384 - half_a img" "entries_left img \<le> 128"
    using assms by (simp_all add: entries_left_def)
qed

lemma half_a_small:
  assumes "1024 \<le> length img" "length img \<le> 33280"
  shows "half_a img \<le> 16384" "length img \<le> 2 ^ 16"
proof -
  define n where "n = (length img - 512 + 511) div 512"
  have "n \<le> 64" using assms by (simp add: n_def)
  then have "n div 2 + n mod 2 \<le> 32" by presburger
  then show "half_a img \<le> 16384" unfolding half_a_def Let_def n_def [symmetric] by linarith
qed (use assms in simp)

definition embed_ok :: "u8 list \<Rightarrow> nat \<Rightarrow> u8 list \<Rightarrow> nat \<Rightarrow> bool" where
  "embed_ok v e img k \<longleftrightarrow>
     gpt_layout v e \<and> e \<le> length v \<and> 1024 \<le> length img \<and> length img \<le> 33280 \<and> k \<le> entries_left img"

lemma embed_okD:
  assumes "embed_ok v e img k"
  shows "gpt_layout v e" "e \<le> length v" "1024 \<le> length img" "length img \<le> 2 ^ 16" "half_a img \<le> 16384" "k \<le> entries_left img"
    "half_b img \<le> half_a img" "length img \<le> 512 + half_a img + half_b img" "512 + half_a img \<le> length img"
    "128 * entries_left img + half_a img = 16384" "entries_left img \<le> 128"
    "place_a v img = first_array v + 128 * entries_left img" "place_b v img + half_b img = second_array v + 16384"
    "first_array v + 128 * entries_left img \<le> e" "second_array v + 128 * entries_left img \<le> e"
proof -
  show f: "gpt_layout v e" "e \<le> length v" "1024 \<le> length img" "k \<le> entries_left img" using assms by (simp_all add: embed_ok_def)
  show s: "length img \<le> 2 ^ 16" "half_a img \<le> 16384" using assms by (simp_all add: embed_ok_def half_a_small)
  show b: "half_b img \<le> half_a img" "length img \<le> 512 + half_a img + half_b img" "512 + half_a img \<le> length img"
    using stage2_size_b_eq [OF f(3) s(1)] stage2_sizes(3) [OF f(3) s(1)] by blast+
  show c: "128 * entries_left img + half_a img = 16384" "entries_left img \<le> 128" using entries_left_place [OF s(2)] s(2) by simp_all
  show "place_a v img = first_array v + 128 * entries_left img" "place_b v img + half_b img = second_array v + 16384"
    using c s(2) b(1) by (simp_all add: place_a_def place_b_def)
  have "first_array v + 16384 \<le> e" "second_array v + 16384 \<le> e" using f(1) by (simp_all add: gpt_layout_def)
  then show "first_array v + 128 * entries_left img \<le> e" "second_array v + 128 * entries_left img \<le> e" using c(1) by linarith+
qed

lemma gpt_layoutD:
  assumes "gpt_layout v e"
  shows "gpt_disk v e" "608 \<le> e" "608 \<le> first_array v" "608 \<le> second_array v" "608 \<le> second_place v"
    "first_array v + 16384 \<le> e" "second_array v + 16384 \<le> e" "second_place v + 96 \<le> e"
    "apart (first_array v) 16384 (second_array v) 16384" "apart (first_array v) 16384 (second_place v) 96"
    "apart (second_array v) 16384 (second_place v) 96"
  using assms by (simp_all add: gpt_layout_def gpt_disk_def second_place_def)

lemma embed_places_ok:
  assumes "embed_ok v e img k"
  shows "places_ok img (place_a v img) (place_b v img) e"
  using embed_okD [OF assms] gpt_layoutD [OF embed_okD(1) [OF assms]] by (simp add: places_ok_def)

text \<open>The areas that the embedding writes do not overlap.\<close>

lemma embed_apart:
  assumes ok: "embed_ok v e img k"
  defines "A \<equiv> first_array v" and "B \<equiv> second_array v" and "G \<equiv> second_place v" and "c \<equiv> entries_left img"
  defines "in_a i \<equiv> A + 128 * c \<le> i \<and> i < A + 16384"
    and "in_b i \<equiv> place_b v img \<le> i \<and> i + (512 + half_a img) < place_b v img + length img"
    and "zero i \<equiv> A + 128 * k \<le> i \<and> i < A + 128 * c \<or> B + 128 * k \<le> i \<and> i < B + 128 * c"
  shows "i < 608 \<Longrightarrow> \<not> (G \<le> i \<and> i < G + 96) \<and> \<not> in_a i \<and> \<not> in_b i \<and> \<not> zero i"
    and "in_a i \<Longrightarrow> \<not> in_b i" and "G \<le> i \<and> i < G + 96 \<Longrightarrow> \<not> in_a i \<and> \<not> in_b i"
    and "j < 128 * c \<Longrightarrow> \<not> (G \<le> A + j \<and> A + j < G + 96) \<and> \<not> in_a (A + j) \<and> \<not> in_b (A + j) \<and> zero (A + j) = (128 * k \<le> j)"
    and "j < 128 * c \<Longrightarrow> \<not> (G \<le> B + j \<and> B + j < G + 96) \<and> \<not> in_a (B + j) \<and> \<not> in_b (B + j) \<and> zero (B + j) = (128 * k \<le> j)"
  using embed_okD [OF ok] gpt_layoutD [OF embed_okD(1) [OF ok]]
  unfolding A_def [symmetric] B_def [symmetric] G_def [symmetric] c_def [symmetric] in_a_def in_b_def zero_def apart_def by linarith+

lemma embedded_nth:
  assumes ok: "embed_ok v e img k"
  defines "A \<equiv> first_array v" and "B \<equiv> second_array v" and "G \<equiv> second_place v" and "c \<equiv> entries_left img"
    and "a \<equiv> place_a v img" and "b \<equiv> place_b v img"
  shows "length (embedded v img k) = length v"
    and "i < length v \<Longrightarrow> embedded v img k ! i =
      (if 218 \<le> i \<and> i < 224 \<or> 440 \<le> i \<and> i < 510 then v ! i
       else if 420 \<le> i \<and> i < 440 then stage2_params img a b ! (i - 420)
       else if i < 512 then img ! i
       else if i < 608 then gpt_header_bytes (update_header (array_crc v img k) (of_nat c) (gpt_header v)) ! (i - 512)
       else if G \<le> i \<and> i < G + 96 then gpt_header_bytes (update_header (array_crc v img k) (of_nat c) (second_header v)) ! (i - G)
       else if a \<le> i \<and> i < A + 16384 then img ! (512 + (i - a))
       else if b \<le> i \<and> i + (512 + half_a img) < b + length img then img ! (512 + half_a img + (i - b))
       else if A + 128 * k \<le> i \<and> i < A + 128 * c \<or> B + 128 * k \<le> i \<and> i < B + 128 * c then 0 else v ! i)"
    (is "_ \<Longrightarrow> _ = ?r")
proof -
  let ?w = "shrunk v (gpt_header v) (second_header v) A B G k c"
  note f = embed_okD [OF ok] and g = gpt_layoutD [OF embed_okD(1) [OF ok]]
  note w = shrunk_nth [OF gpt_layout_headers [OF f(1,2)] f(2) f(14,15) g(8) f(6) g(2), folded A_def B_def G_def c_def]
  have p: "places_ok img a b (length ?w)" using embed_places_ok [OF ok] f(2) unfolding w(1) by (auto simp: places_ok_def a_def b_def)
  have r: "embedded v img k = boot_result ?w img a b" by (simp only: embedded_def A_def B_def G_def a_def b_def c_def)
  show "length (embedded v img k) = length v" unfolding r length_boot_result [OF p] w(1) ..
  assume i: "i < length v"
  have x: "array_crc v img k = crc32 (take (128 * c) (drop A (cleared (cleared v A k c) B k c)))"
    by (simp only: array_crc_def A_def B_def c_def)
  have cl: "cleared (cleared v A k c) B k c ! i = (if A + 128 * k \<le> i \<and> i < A + 128 * c \<or> B + 128 * k \<le> i \<and> i < B + 128 * c then 0 else v ! i)"
    using f(2,6,14,15) i by (intro cleared_nth) (auto simp: A_def B_def c_def)
  have a: "a = A + 128 * c" "a + half_a img = A + 16384" using f(10,12) by (simp_all add: a_def A_def c_def)
  note n = boot_result_nth [OF p i [folded w(1)], folded r, unfolded a(2) w(2) [OF i] x [symmetric] cl]
  note d = embed_apart [OF ok, of i, folded A_def B_def G_def c_def b_def]
  show "embedded v img k ! i = ?r"
  proof (cases "i < 608")
    case True
    show ?thesis unfolding n a(1) by (simp only: d(1) [OF True] if_False) (use True in auto)
  next
    case False
    then have "\<not> (218 \<le> i \<and> i < 224 \<or> 440 \<le> i \<and> i < 510)" "\<not> (420 \<le> i \<and> i < 440)" "\<not> i < 512" "\<not> (512 \<le> i \<and> i < 608)" by auto
    then show ?thesis
      unfolding n a(1)
      by (simp only: if_False False) (cases "G \<le> i \<and> i < G + 96"; simp only: if_True if_False d(3);
        cases "A + 128 * c \<le> i \<and> i < A + 16384"; simp only: if_True if_False d(2))
  qed
qed

lemma embedded_headers:
  assumes ok: "embed_ok v e img k"
  defines "c \<equiv> entries_left img" and "x \<equiv> array_crc v img k" and "r \<equiv> embedded v img k"
  shows "take 96 (drop 512 r) = gpt_header_bytes (update_header x (of_nat c) (gpt_header v))"
    and "take 96 (drop (second_place v) r) = gpt_header_bytes (update_header x (of_nat c) (second_header v))"
proof -
  note n = embedded_nth(2) [OF ok] and len = embedded_nth(1) [OF ok] and f = embed_okD(2) [OF ok]
  note g = gpt_layoutD [OF embed_okD(1) [OF ok]]
  note h = gpt_layout_headers [OF embed_okD(1,2) [OF ok]]
  note hb = update_header_shape(2) [OF h(1), of x "of_nat c"] update_header_shape(2) [OF h(2), of x "of_nat c"]
  show "take 96 (drop 512 r) = gpt_header_bytes (update_header x (of_nat c) (gpt_header v))"
    using g(2) f len hb n by (intro nth_equalityI) (simp_all add: r_def x_def c_def)
  show "take 96 (drop (second_place v) r) = gpt_header_bytes (update_header x (of_nat c) (second_header v))"
    using g(5,8) f len hb n by (intro nth_equalityI) (simp_all add: r_def x_def c_def)
qed

lemma embedded_arrays:
  assumes ok: "embed_ok v e img k"
  defines "A \<equiv> first_array v" and "B \<equiv> second_array v" and "c \<equiv> entries_left img" and "r \<equiv> embedded v img k"
  shows "array_crc v img k = crc32 (take (128 * c) (drop A r))"
    and "take (128 * k) (drop A v) = take (128 * k) (drop B v) \<Longrightarrow> take (128 * c) (drop B r) = take (128 * c) (drop A r)"
proof -
  let ?w = "cleared (cleared v A k c) B k c"
  note n = embedded_nth(2) [OF ok, folded A_def B_def c_def r_def] and len = embedded_nth(1) [OF ok, folded r_def]
  note f = embed_okD [OF ok, folded A_def B_def c_def] and g = gpt_layoutD [OF f(1), folded A_def B_def]
  note d = embed_apart [OF ok, folded A_def B_def c_def]
  have A: "r ! (A + j) = (if 128 * k \<le> j then 0 else v ! (A + j))" if j: "j < 128 * c" for j
  proof -
    have i: "\<not> A + j < 512" "\<not> A + j < 608" "A + j < length v"
      "\<not> (218 \<le> A + j \<and> A + j < 224 \<or> 440 \<le> A + j \<and> A + j < 510)" "\<not> (420 \<le> A + j \<and> A + j < 440)"
      using g(3) f(2,14) j by linarith+
    show ?thesis using n [OF i(3)] unfolding f(12) by (simp only: i d(4) [OF j] if_False)
  qed
  have B: "r ! (B + j) = (if 128 * k \<le> j then 0 else v ! (B + j))" if j: "j < 128 * c" for j
  proof -
    have i: "\<not> B + j < 512" "\<not> B + j < 608" "B + j < length v"
      "\<not> (218 \<le> B + j \<and> B + j < 224 \<or> 440 \<le> B + j \<and> B + j < 510)" "\<not> (420 \<le> B + j \<and> B + j < 440)"
      using g(4) f(2,15) j by linarith+
    show ?thesis using n [OF i(3)] unfolding f(12) by (simp only: i d(5) [OF j] if_False)
  qed
  have w: "?w ! (A + j) = (if 128 * k \<le> j then 0 else v ! (A + j))" if j: "j < 128 * c" for j
    using f(2,6,14,15) j d(4) [OF j] by (subst cleared_nth) auto
  have "length ?w = length v" using f(2,6,14,15) by (simp add: cleared_def)
  then have "take (128 * c) (drop A ?w) = take (128 * c) (drop A r)"
    using f(2,14) len A w by (intro nth_equalityI) simp_all
  then show "array_crc v img k = crc32 (take (128 * c) (drop A r))" by (simp add: array_crc_def A_def B_def c_def)
  assume eq: "take (128 * k) (drop A v) = take (128 * k) (drop B v)"
  have "v ! (B + j) = v ! (A + j)" if "j < 128 * k" for j
    using arg_cong [OF eq, of "\<lambda>xs. xs ! j"] that f(2,6,14,15) by simp
  then show "take (128 * c) (drop B r) = take (128 * c) (drop A r)"
    using A B f(2,14,15) len by (intro nth_equalityI) simp_all
qed

lemma update_header_read:
  assumes "take 96 (drop p r) = gpt_header_bytes (update_header x c h)" "header_shape h"
  shows "read_gpt_header (take 96 (drop p r)) = h\<lparr>partition_entry_array_crc32 := x, number_of_partition_entries := ucast c,
    gpt_crc32 := gpt_crc32 (read_gpt_header (take 96 (drop p r)))\<rparr>"
proof -
  have "length (gpt_signature (update_header x c h)) = 8" using update_header_shape(1) [OF assms(2)] by (simp add: header_shape_def)
  then show ?thesis unfolding assms(1) by (simp add: gpt_header_roundtrip update_header_def Let_def)
qed

text \<open>Both tables of the new disk pass the checks, and their headers differ from the old ones in the number of entries and the checksums.\<close>

lemma embedded_valid:
  assumes ok: "embed_ok v e img k"
    and eq: "take (128 * k) (drop (first_array v) v) = take (128 * k) (drop (second_array v) v)"
  defines "r \<equiv> embedded v img k" and "c \<equiv> entries_left img"
  shows "valid_table r 512" "valid_table r (second_place v)"
    and "gpt_header r = (gpt_header v)\<lparr>partition_entry_array_crc32 := array_crc v img k, number_of_partition_entries := of_nat c,
      gpt_crc32 := gpt_crc32 (gpt_header r)\<rparr>"
    and "second_header r = (second_header v)\<lparr>partition_entry_array_crc32 := array_crc v img k, number_of_partition_entries := of_nat c,
      gpt_crc32 := gpt_crc32 (second_header r)\<rparr>"
proof -
  note f = embed_okD [OF ok, folded c_def]
  note h = gpt_layout_headers [OF f(1,2)] and t = embedded_headers [OF ok, folded r_def c_def] and a = embedded_arrays [OF ok, folded r_def c_def]
  have size: "size_of_partition_entry (gpt_header v) = 128" "size_of_partition_entry (second_header v) = 128"
    using f(1) by (simp_all add: gpt_layout_def)
  have c: "ucast (of_nat c :: u64) = (of_nat c :: u32)"
    using f(11) by (simp add: word_unat_eq_iff unsigned_ucast_eq unat_of_nat take_bit_nat_eq_self)
  show "valid_table r 512" using valid_tableI [OF t(1) h(1) f(11) size(1)] a(1) by (simp add: first_array_def)
  show "valid_table r (second_place v)"
    using valid_tableI [OF t(2) h(2) f(11) size(2)] a(1) a(2) [OF eq] by (simp add: second_array_def)
  show H: "gpt_header r = (gpt_header v)\<lparr>partition_entry_array_crc32 := array_crc v img k, number_of_partition_entries := of_nat c,
      gpt_crc32 := gpt_crc32 (gpt_header r)\<rparr>"
    using update_header_read [OF t(1) h(1)] by (simp only: c gpt_header_def [of r])
  have "second_place r = second_place v" by (subst (1 2) second_place_def, subst H) simp
  then show "second_header r = (second_header v)\<lparr>partition_entry_array_crc32 := array_crc v img k, number_of_partition_entries := of_nat c,
      gpt_crc32 := gpt_crc32 (second_header r)\<rparr>"
    using update_header_read [OF t(2) h(2)] by (simp only: c second_header_def [of r])
qed

lemma install_embedded:
  assumes "reliable s" "length (contents s) < 2 ^ 63"
  defines "v \<equiv> contents s" and "e \<equiv> length (contents s) div 512 * 512"
  defines "k \<equiv> entries_kept v (first_array v) (unat (number_of_partition_entries (gpt_header v)))"
  assumes ok: "embed_ok v e img k"
  shows "\<exists>s'. install img uninit [] s = Go () s' \<and> contents s' = embedded v img k"
proof -
  let ?h = "gpt_header v" and ?h2 = "second_header v" and ?A = "first_array v" and ?B = "second_array v" and ?G = "second_place v"
  let ?P = "\<lambda>_ s'. contents s' = embedded v img k" and ?F = "\<lambda>_ _. False"
  note f = embed_okD [OF ok] and g = gpt_layoutD [OF embed_okD(1) [OF ok]]
  have e: "e < 2 ^ 63" using assms(2) f(2) by (simp add: v_def)
  have size: "size_of_partition_entry ?h = 128" "size_of_partition_entry ?h2 = 128"
    "?A + 128 * unat (number_of_partition_entries ?h) \<le> e" using f(1) by (simp_all add: gpt_layout_def)
  have "1024 \<le> length v" using g(6) f(2) by linarith
  then obtain s1 where s1: "device_init s = (True, s1)" "holds v e s1"
    using install_opens [OF assms(1,2)] unfolding v_def e_def by blast
  have w: "flow_post (write_bootloader img p q s2) ?P ?F"
    if "unat p = ?A + 16384 - half_a img" "unat q = ?B + 16384 - half_b img"
      "holds (shrunk v ?h ?h2 ?A ?B ?G k (entries_left img)) e s2" for p q s2
    using write_bootloader_holds [OF that(3) f(4), of p q] embed_places_ok [OF ok] that(1,2)
    by (simp only: embedded_def place_a_def place_b_def)
  have "flow_post (embed_gpt img 512 ?h ?h2 s2) (\<lambda>(p, q) s. flow_post (write_bootloader img p q s) ?P ?F) ?F" if "holds v e s2" for s2
    by (rule embed_gpt_holds [OF that e g(2) f(3-5) gpt_layout_headers [OF f(1,2)] size(1,2) first_array_def g(6) size(3)
          second_array_def g(7) second_place_def g(8) k_def [THEN meta_eq_to_obj_eq] f(6)]) (simp add: w)
  then have "flow_post (install img uninit [] s) ?P ?F"
    by (intro install_gpt_flow [OF _ s1 g(1)]) simp_all
  then show ?thesis by (cases "install img uninit [] s") auto
qed

text \<open>C20. On a device without faults that has a GUID partition table with entries of 128 bytes and two arrays of 32 sectors with the
  same used entries, the installer without a partition number exits with success when the entries in use fit into what is left
  of the first array. The two halves of the second stage then lie at the ends of the two arrays, the boot sector is the boot
  loader's with the old partition table and time stamp and with the places of the halves, the entries up to the last one in use are
  kept and the ones behind it cleared in both arrays, and no other byte outside the two headers has changed. Both headers differ
  from the old ones only in the number of entries and the checksums, and both tables have valid checksums.\<close>

theorem install_embed_correct:
  fixes s :: device_state and img :: "u8 list" and uninit :: u32
  defines "v \<equiv> contents s" and "A \<equiv> first_array (contents s)" and "B \<equiv> second_array (contents s)" and "G \<equiv> second_place (contents s)"
  defines "k \<equiv> entries_kept v A (unat (number_of_partition_entries (gpt_header v)))" and "c \<equiv> entries_left img"
  defines "a \<equiv> A + 16384 - half_a img" and "b \<equiv> B + 16384 - half_b img"
  assumes "reliable s" and "length v < 2 ^ 63" and "gpt_layout v (length v div 512 * 512)"
    and "1024 \<le> length img" and "length img \<le> 33280"
    and "k \<le> c" and "take (128 * k) (drop A v) = take (128 * k) (drop B v)"
  shows "\<exists>s'. install img uninit [] s = Go () s' \<and> length (contents s') = length v \<and>
    valid_table (contents s') 512 \<and> valid_table (contents s') G \<and>
    (\<exists>x y z. gpt_header (contents s') =
        (gpt_header v)\<lparr>partition_entry_array_crc32 := x, number_of_partition_entries := of_nat c, gpt_crc32 := y\<rparr> \<and>
      second_header (contents s') =
        (second_header v)\<lparr>partition_entry_array_crc32 := x, number_of_partition_entries := of_nat c, gpt_crc32 := z\<rparr>) \<and>
    (\<forall>i < length v. (512 \<le> i \<and> i < 608) \<or> (G \<le> i \<and> i < G + 96) \<or> contents s' ! i =
      (if 218 \<le> i \<and> i < 224 \<or> 440 \<le> i \<and> i < 510 then v ! i
       else if 420 \<le> i \<and> i < 440 then stage2_params img a b ! (i - 420)
       else if i < 512 then img ! i
       else if a \<le> i \<and> i < A + 16384 then img ! (512 + (i - a))
       else if b \<le> i \<and> i + (512 + half_a img) < b + length img then img ! (512 + half_a img + (i - b))
       else if A + 128 * k \<le> i \<and> i < A + 128 * c \<or> B + 128 * k \<le> i \<and> i < B + 128 * c then 0 else v ! i))"
proof -
  have A: "A = first_array v" "B = second_array v" "G = second_place v" "a = place_a v img" "b = place_b v img"
    by (simp_all add: A_def B_def G_def v_def a_def b_def place_a_def place_b_def)
  have "embed_ok v (length v div 512 * 512) img k" using assms(11-14) by (simp add: embed_ok_def c_def)
  note ok = this [unfolded k_def A]
  obtain s' where s': "install img uninit [] s = Go () s'" "contents s' = embedded v img k"
    using install_embedded [OF assms(9,10) [unfolded v_def], folded v_def, OF ok] unfolding k_def A by blast
  note n = embedded_nth [OF ok, folded A c_def, folded k_def] and t = embedded_valid [OF ok, folded A, folded k_def c_def, OF assms(15)]
  show ?thesis
  proof (intro exI [of _ s'] conjI allI impI)
    fix i assume "i < length v"
    note n(2) [OF this]
    then show "(512 \<le> i \<and> i < 608) \<or> (G \<le> i \<and> i < G + 96) \<or> contents s' ! i =
      (if 218 \<le> i \<and> i < 224 \<or> 440 \<le> i \<and> i < 510 then v ! i
       else if 420 \<le> i \<and> i < 440 then stage2_params img a b ! (i - 420)
       else if i < 512 then img ! i
       else if a \<le> i \<and> i < A + 16384 then img ! (512 + (i - a))
       else if b \<le> i \<and> i + (512 + half_a img) < b + length img then img ! (512 + half_a img + (i - b))
       else if A + 128 * k \<le> i \<and> i < A + 128 * c \<or> B + 128 * k \<le> i \<and> i < B + 128 * c then 0 else v ! i)"
      unfolding s'(2) by (cases "i < 512"; cases "i < 608"; cases "G \<le> i \<and> i < G + 96") simp_all
  qed (simp_all only: s' n(1) t(1,2), use t(3,4) in blast)
qed

text \<open>A disk of 67 sectors with one partition.\<close>

definition demo_table_header :: "u8 \<Rightarrow> u8 \<Rightarrow> u8 list" where
  "demo_table_header alternate lba =
     EFI_PART @ replicate 24 0 @ [alternate] @ replicate 39 0 @ [lba] @ replicate 7 0 @ [4, 0, 0, 0, 128] @ replicate 11 0"

definition demo_array :: "u8 list" where
  "demo_array = replicate 16 0 @ [7] @ replicate 16367 0"

definition demo_table :: "u8 list" where
  "demo_table = replicate 512 0 @ demo_table_header 66 2 @ replicate 416 0 @ demo_array @ demo_array @ demo_table_header 1 34 @ replicate 416 0"

lemma demo_lengths [simp]: "length (demo_table_header x y) = 96" "length demo_array = 16384" "length demo_table = 34304"
  by (simp_all add: demo_table_header_def demo_array_def demo_table_def)

lemma demo_table_parts:
  "take 96 (drop 512 demo_table) = demo_table_header 66 2" "take 96 (drop 33792 demo_table) = demo_table_header 1 34"
  "n \<le> 16384 \<Longrightarrow> take n (drop 1024 demo_table) = take n demo_array" "n \<le> 16384 \<Longrightarrow> take n (drop 17408 demo_table) = take n demo_array"
  by (simp_all add: demo_table_def)

lemma demo_header_fields:
  "gpt_signature (read_gpt_header (demo_table_header x y)) = EFI_PART"
  "alternate_lba (read_gpt_header (demo_table_header x y)) = ucast x" "partition_entry_lba (read_gpt_header (demo_table_header x y)) = ucast y"
  "number_of_partition_entries (read_gpt_header (demo_table_header x y)) = 4" "size_of_partition_entry (read_gpt_header (demo_table_header x y)) = 128"
  by (simp_all add: read_gpt_header_def demo_table_header_def field_at_def drop_Cons' take_Cons')

lemma demo_table_places:
  "gpt_header demo_table = read_gpt_header (demo_table_header 66 2)" "second_place demo_table = 33792"
  "second_header demo_table = read_gpt_header (demo_table_header 1 34)" "first_array demo_table = 1024" "second_array demo_table = 17408"
proof -
  show h: "gpt_header demo_table = read_gpt_header (demo_table_header 66 2)" by (simp add: gpt_header_def demo_table_parts)
  then show g: "second_place demo_table = 33792" by (simp add: second_place_def demo_header_fields)
  then show h2: "second_header demo_table = read_gpt_header (demo_table_header 1 34)" by (simp add: second_header_def demo_table_parts)
  show "first_array demo_table = 1024" "second_array demo_table = 17408"
    using h h2 by (simp_all add: first_array_def second_array_def demo_header_fields)
qed

lemma demo_table_layout: "gpt_layout demo_table 34304"
proof -
  have "take 8 (take 96 (drop 512 demo_table)) = EFI_PART" "take 8 (take 96 (drop 33792 demo_table)) = EFI_PART"
    unfolding demo_table_parts(1,2) by (simp_all add: demo_table_header_def)
  then show ?thesis
    unfolding gpt_layout_def gpt_disk_def second_place_def [symmetric] demo_table_places demo_header_fields
    by (simp add: apart_def)
qed

lemma demo_table_kept: "entries_kept demo_table 1024 4 = 1"
proof -
  have e: "take 128 (drop (1024 + 128 * i) demo_table) = take 128 (drop (128 * i) demo_array)" if "i < 4" for i
    using that arg_cong [OF demo_table_parts(3) [of "128 + 128 * i"], of "drop (128 * i)"] by (simp add: drop_take add.commute)
  have "entry_used demo_table 1024 0" "\<not> entry_used demo_table 1024 1" "\<not> entry_used demo_table 1024 2" "\<not> entry_used demo_table 1024 3"
    unfolding entry_used_def by (subst e, simp, simp add: demo_array_def read_gpt_entry_def field_at_def drop_Cons' take_Cons')+
  then show ?thesis by (simp add: eval_nat_numeral)
qed

theorem install_embed_correct_witness:
  "\<exists>s'. install (replicate 1024 7) 0 [] (demo_file\<lparr>contents := demo_table\<rparr>) = Go () s'
     \<and> valid_table (contents s') 512 \<and> valid_table (contents s') 33792 \<and> contents s' ! 16896 = 7"
proof -
  let ?s = "demo_file\<lparr>contents := demo_table\<rparr>" and ?i = "replicate 1024 7 :: u8 list"
  have "reliable ?s" by (simp add: reliable_def demo_file_def)
  moreover have h: "half_a ?i = 512" "half_b ?i = 0" "entries_left ?i = 124" by (simp_all add: half_a_def half_b_def entries_left_def)
  moreover have "take 128 (drop 1024 demo_table) = take 128 (drop 17408 demo_table)" by (simp add: demo_table_parts)
  ultimately show ?thesis
    using install_embed_correct [where s = ?s and img = ?i and uninit = 0] demo_table_layout
    by (auto simp: demo_table_places demo_header_fields demo_table_kept dest!: spec [of _ 16896])
qed

end
