(* ===== verification/Spec2Isabelle.thy ===== *)
theory Spec2Isabelle
  imports Boot Elf_Load Glyph Spin_Lock Vfs Gpt_Embed
begin

text \<open>
  A verification development for the Vardar kernel (\<^verbatim>\<open>src/src/kernel/\<close>), a 64-bit kernel in C
  that the limine boot loader starts with the stivale2 protocol, and for the installer of that boot loader
  (\<^verbatim>\<open>src/limine/limine-install.c\<close>), which the build runs on the disk image of the kernel.

  \<^bold>\<open>The program and the theories.\<close> One theory per component, in the order in which they call each other:

  \<^item> \<open>Prelude\<close>, \<open>Memory\<close>, \<open>Packed\<close>: machine integers at their width, the byte memory \<open>mem\<close>
    with little-endian access, and packed structures. The locales \<open>cell\<close> (a scalar in memory) and
    \<open>packed_struct\<close> (a structure in memory) are the contracts the components rely on; they are
    interpreted on the 16, 32 and 64 bit accesses and on the descriptors and gates of the processor.
  \<^item> \<open>CString\<close>, \<open>Utils\<close>: \<^verbatim>\<open>utils/string.c\<close>, \<^verbatim>\<open>utils/misc.c\<close>.
  \<^item> \<open>Pmm\<close>: \<^verbatim>\<open>memory_management/physical_memory_manager.c\<close>, the bitmap of page frames.
    The invariant is \<open>pmm_inv\<close>; \<open>frame_used\<close> is the abstraction to a set of frames.
  \<^item> \<open>Vmm\<close>: \<^verbatim>\<open>memory_management/virtual_memory_manager.c\<close>, the four levels of page tables in
    memory, against the abstract function \<open>mapping\<close> from pages to addresses. \<open>Page_Map\<close> describes
    a page map as a whole: what it occupies (\<open>managed\<close>), and the ranges laid over each other that
    \<^verbatim>\<open>InitPageTable\<close> maps.
  \<^item> \<open>Kheap\<close>: \<^verbatim>\<open>memory_management/kheap.c\<close>, boundary tags in memory, against the list of blocks
    that \<open>heap_inv\<close> relates to them.
  \<^item> \<open>Printf\<close>: \<^verbatim>\<open>utils/printf.c\<close>. \<open>Spin_Lock\<close>: \<^verbatim>\<open>utils/spin_lock.c\<close> as a step relation
    over any number of processors.
  \<^item> \<open>Acpi\<close>, \<open>Madt\<close>: \<^verbatim>\<open>acpi/acpi.c\<close>, \<^verbatim>\<open>acpi/madt.c\<close>, the tables of the firmware.
  \<^item> \<open>Bitfield\<close>, \<open>Io_Apic\<close>: \<^verbatim>\<open>hal/io_apic.c\<close> and the parser \<^verbatim>\<open>ParseMadt\<close> that registers
    the controllers it finds.
  \<^item> \<open>Pit\<close>, \<open>Lapic\<close>: \<^verbatim>\<open>interrupts/io.c\<close>, \<^verbatim>\<open>hal/pit.c\<close>, \<^verbatim>\<open>hal/lapic.c\<close> and
    \<^verbatim>\<open>hal/cpu_init.c\<close>.
  \<^item> \<open>Font\<close>, \<open>Graphics\<close>, \<open>Keycodes\<close>, \<open>Terminal\<close>: \<^verbatim>\<open>graphics/*.c\<close> and
    \<^verbatim>\<open>interrupts/keycodes.c\<close>. \<open>Screen\<close> and \<open>Glyph\<close> hold the theorems on the pixels that the
    drawing functions of \<open>Graphics\<close> write and show.
  \<^item> \<open>Gdt\<close>, \<open>Interrupts\<close>: \<^verbatim>\<open>gdt/gdt.c\<close>, \<^verbatim>\<open>interrupts/idt.c\<close>,
    \<^verbatim>\<open>interrupts/syscall.c\<close> and the entry stubs in assembly that they rely on.
  \<^item> \<open>Ustar\<close>, \<open>Vfs\<close>: \<^verbatim>\<open>vfs/ustar.c\<close>, \<^verbatim>\<open>vfs/vfs.c\<close>. \<open>Proc\<close>: \<^verbatim>\<open>proc/elf.c\<close>,
    \<^verbatim>\<open>proc/proc.c\<close>. \<open>Elf_Load\<close> relates the loader to the pages of the file that an address space shows.
  \<^item> \<open>Boot\<close>: \<^verbatim>\<open>kernel.c\<close> and \<^verbatim>\<open>stivale2.h\<close>; \<open>start_kernel\<close> composes the components as
    \<^verbatim>\<open>_start\<close> does.
  \<^item> \<open>Block_Cache\<close>, \<open>Crc32\<close>, \<open>Limine_Install\<close>: the three parts of
    \<^verbatim>\<open>limine-install.c\<close>, the cached access to the device, the checksum, and \<^verbatim>\<open>main\<close>. The locale
    \<open>byte_store\<close> is the contract of an array of bytes on a device, interpreted on the cached device;
    \<open>reading\<close> is what \<^verbatim>\<open>main\<close> relies on while it only reads, interpreted on a device without
    and on one with transfer errors. \<open>Gpt_Embed\<close> follows the embedding into a GUID partition table.

  \<^bold>\<open>State.\<close> The static variables of the files are records that extend each other along the calls:
  \<open>machine\<close> (the memory), \<open>pmm_state\<close>, \<open>vmm_state\<close>, \<open>heap_state\<close>, \<open>acpi_state\<close>,
  \<open>madt_state\<close>, \<open>ioapic_state\<close>, \<open>pit_state\<close>, \<open>lapic_state\<close>, \<open>graphics_state\<close>,
  \<open>term_state\<close>, \<open>gdt_state\<close>, \<open>int_state\<close>. An operation is defined on the smallest record
  it needs and on every extension of it, so the components compose without lifting. Data that the C
  code reaches through pointers (bitmap, page tables, heap, firmware tables, back buffer, descriptors,
  archive, stack) is in the byte memory.

  \<^bold>\<open>Conventions.\<close> A C function is a HOL function on a state. \<open>None\<close> is a run that does not return
  (a loop without end, a wait for a lock that no one releases) or that faults where the text of the
  definition says so; loops that may not end are partial functions, so no fuel is used. Handlers
  return a sum with the \<open>fault\<close>. Theorems that an operation returns are stated as such. Arguments
  stand for what the code does not determine: the addresses of static objects and literals, values
  read from devices, the contents of uninitialised variables, the bits of a device register that
  software cannot write, and the functions behind the pointers of a file system node. Integers have
  the width and signedness of the C code; calls of \<^verbatim>\<open>PrintK\<close> for diagnostics are recorded with their
  arguments in the field \<open>klog\<close>.

  \<^bold>\<open>What is shown.\<close> Frames: the allocator returns free frames, finds one when there is one, and never hands
  one out twice; initialisation frees the usable frames. Pages: mapping refines the update of one
  entry of a function, also in sequences, and succeeds with four free frames; the start of the page tables
  maps the list of ranges it means, with three frames for each block of 2 MiB. Heap: allocation is first
  fit, freeing coalesces, the two are inverse. Processor tables: the descriptors and gates found through
  the loaded registers are the ones meant. Executables: \<^verbatim>\<open>parse_elf\<close> builds the address
  space that the program headers and the kernel's ranges describe. Firmware tables: search and parser are correct on well-formed
  tables. Devices: routing an interrupt changes one entry as asked, the timer gets the reload value.
  Screen: a rectangle changes its pixels and no others, the dirty bands reach the frame buffer, and after
  both the screen shows the rectangle, on the upper half; the lower half is missed. A character paints the set
  bits of its bitmap. Terminal: the cursor
  stays in its window for every sequence of key strokes. Strings, formatted output, archive and boot tags:
  functional correctness with termination. Installer: reads and writes through the cache are those of an
  array of bytes, errors of the device leave a well-formed cache, installation on an MBR disk or into a
  partition of a GPT disk keeps the partition table and writes the image and its location, the embedding
  into the tables of a GPT disk leaves two valid tables with the partitions in use, a refused installation
  leaves the device as it was, and the checksum by table is the division by the polynomial. Several theorems and lemmas
  state how the code departs from its comments: unbounded searches, a lock that is not mutually exclusive,
  registers in the wrong order, masks that lose the destination, bits of the last frame and of the
  lower screen that are missed.

  \<^bold>\<open>Not modelled.\<close> The translation of addresses by the page tables while the kernel runs (the memory is
  addressed as the code does), caches and the TLB beyond the recorded \<^verbatim>\<open>invlpg\<close>; interleaving of
  processors outside the spin lock; the restoring half of the assembly stubs; \<^verbatim>\<open>hal/apic.h\<close>, which no file
  includes and which names functions and types that no file declares; \<^verbatim>\<open>proc/sched.*\<close>, \<^verbatim>\<open>vfs/initrd.*\<close> and \<^verbatim>\<open>interrupts/key_input.*\<close>, which hold no code;
  the enumerations of \<^verbatim>\<open>elf.h\<close> and the tags of \<^verbatim>\<open>stivale2.h\<close> that no code uses; the boot
  loader itself, of which \<^verbatim>\<open>src/limine/\<close> has only binaries: the array of \<^verbatim>\<open>limine-hdd.h\<close> is an
  argument of the installer.

  \<^bold>\<open>Plan.\<close> Next are the memory that the start of the kernel leaves and the text a terminal shows.
\<close>

end
